(* ===== verification/Prelude.thy ===== *)
theory Prelude
  imports "HOL-Library.Word"
begin

text \<open>
  Shared vocabulary of the development.  It names the C integer types as machine words, opens the
  bitwise syntax, declares the two fact collections used by the component theories (\<open>val_simps\<close>,
  the values of word operations as integers, and \<open>cfg_defs\<close>, the compile-time configuration
  constants), and proves the generic facts about words and lists that more than one component
  uses: double-word values, schoolbook multiplication, and disjoint disjunction.
\<close>

unbundle bit_operations_syntax

type_synonym u8 = "8 word"
type_synonym u16 = "16 word"
type_synonym u32 = "32 word"
type_synonym u64 = "64 word"
type_synonym addr = nat

named_theorems val_simps
named_theorems cfg_defs

section \<open>Double words\<close>

text \<open>The value of a number kept in two words of the same width, high word first.\<close>

definition wval :: "'a::len word \<Rightarrow> 'a word \<Rightarrow> int" where
  "wval h l = uint h * 2 ^ LENGTH('a) + uint l"

text \<open>The same two words read as a two's complement number.\<close>

definition swval :: "'a::len word \<Rightarrow> 'a word \<Rightarrow> int" where
  "swval h l = sint h * 2 ^ LENGTH('a) + uint l"

text \<open>The value of a \<open>W\<close>-bit number read as two's complement.\<close>

definition twos :: "nat \<Rightarrow> int \<Rightarrow> int" where
  "twos W v = (if 2 ^ (W - 1) \<le> v then v - 2 ^ W else v)"

text \<open>The same facts about plain integers, in positional notation to base \<open>N\<close>.\<close>

lemma pos_less:
  fixes N :: int
  assumes "h < M" and "l < N" and "0 \<le> N"
  shows "h * N + l < M * N"
proof -
  have "(h + 1) * N \<le> M * N" using assms by (intro mult_right_mono) auto
  then show ?thesis using assms by (simp add: algebra_simps)
qed

lemma pos_less_lex:
  fixes N :: int
  assumes "h < h'" and "l < N" and "0 \<le> l'" and "0 \<le> N"
  shows "h * N + l < h' * N + l'"
  using pos_less [OF assms(1,2,4)] assms(3) by linarith

lemma mod_square:
  fixes N :: int
  assumes "0 < N"
  shows "v mod (N * N) = (v div N mod N) * N + v mod N"
  using assms zmod_zmult2_eq [of N v N] by simp

lemma wval_nonneg [simp]: "0 \<le> wval h l"
  by (simp add: wval_def)

lemma wval_less: "wval (h :: 'a::len word) l < 2 ^ (2 * LENGTH('a))"
  using pos_less [of "uint h" "2 ^ LENGTH('a)" "uint l" "2 ^ LENGTH('a)"]
  by (simp add: wval_def mult_2 power_add)

lemma wval_div [simp]: "wval (h :: 'a::len word) l div 2 ^ LENGTH('a) = uint h"
  by (simp add: wval_def)

lemma wval_mod [simp]: "wval (h :: 'a::len word) l mod 2 ^ LENGTH('a) = uint l"
  by (simp add: wval_def mod_pos_pos_trivial del: mod_exp_eq)

lemma wval_inj: "wval h l = wval h' l' \<longleftrightarrow> h = h' \<and> l = l'"
  by (metis wval_div wval_mod word_uint_eq_iff)

lemma wval_eqI:
  assumes "v div 2 ^ LENGTH('a) mod 2 ^ LENGTH('a) = uint h" and "v mod 2 ^ LENGTH('a) = uint l"
  shows "wval (h :: 'a::len word) l = v mod 2 ^ (2 * LENGTH('a))"
  unfolding wval_def mult_2 power_add
  by (subst mod_square) (simp_all only: assms, simp)

lemma wval_less_iff:
  "wval (h :: 'a::len word) l < wval h' l' \<longleftrightarrow> h < h' \<or> (h = h' \<and> l < l')"
proof (cases "h = h'")
  case True
  then show ?thesis by (simp add: wval_def word_less_def)
next
  case False
  have "wval h l < wval h' l'" if "h < h'" for h h' l l' :: "'a word"
    using pos_less_lex [of "uint h" "uint h'" "uint l" "2 ^ LENGTH('a)" "uint l'"] that
    by (simp add: wval_def word_less_def)
  from this [of h h' l l'] this [of h' h l' l] False show ?thesis
    by (metis linorder_less_linear order_less_asym)
qed

section \<open>Carry, borrow and shifts across two words\<close>

lemma uint_add_mod: "uint (a + b :: 'a::len word) = (uint a + uint b) mod 2 ^ LENGTH('a)"
  by (simp add: uint_word_ariths)

lemma uint_sub_mod: "uint (a - b :: 'a::len word) = (uint a - uint b) mod 2 ^ LENGTH('a)"
  by (simp add: uint_word_ariths)

lemma uint_mul_mod: "uint (a * b :: 'a::len word) = (uint a * uint b) mod 2 ^ LENGTH('a)"
  by (simp add: uint_word_ariths)

lemma uint_push_bit: "uint (push_bit s w :: 'a::len word) = (uint w * 2 ^ s) mod 2 ^ LENGTH('a)"
  by (simp only: unsigned_push_bit_eq, simp add: push_bit_eq_mult take_bit_eq_mod)

lemma uint_drop_bit: "uint (drop_bit s w :: 'a::len word) = uint w div 2 ^ s"
  by (simp only: unsigned_drop_bit_eq, simp add: drop_bit_eq_div take_bit_int_eq_self)

lemma uint_or_disjoint:
  assumes "\<And>k. \<not> bit a k \<or> \<not> bit b k"
  shows "uint (a OR b :: 'a::len word) = uint a + uint b"
  using assms by (subst disjunctive_add) (auto simp: unsigned_or_eq bit_uint_iff)

lemma carry_div:
  fixes a b N :: int
  assumes "0 \<le> a" "a < N" "0 \<le> b" "b < N"
  shows "(if (a + b) mod N < a then 1 else 0) = (a + b) div N"
proof (cases "a + b < N")
  case True
  then show ?thesis using assms by (simp add: mod_pos_pos_trivial div_pos_pos_trivial)
next
  case False
  then have "(a + b) mod N = a + b - N" "(a + b) div N = 1"
    using assms by (auto intro: int_mod_pos_eq [where q = 1] int_div_pos_eq [where r = "a + b - N"])
  then show ?thesis using assms False by simp
qed

lemma borrow_div:
  fixes a b N :: int
  assumes "0 \<le> a" "a < N" "0 \<le> b" "b < N"
  shows "(if a < (a - b) mod N then - 1 else 0) = (a - b) div N"
proof (cases "b \<le> a")
  case True
  then show ?thesis using assms by (simp add: mod_pos_pos_trivial div_pos_pos_trivial)
next
  case False
  then have "(a - b) mod N = a - b + N" "(a - b) div N = - 1"
    using assms
    by (auto intro: int_mod_pos_eq [where q = "- 1"] int_div_pos_eq [where r = "a - b + N"])
  then show ?thesis using assms False by simp
qed

lemma pos_div: "0 < N \<Longrightarrow> (x * N + y) div N = x + y div (N :: int)"
  by simp

lemma wval_add [val_simps]:
  fixes ha la hb lb :: "'a::len word"
  shows "wval (if la + lb < la then ha + hb + 1 else ha + hb) (la + lb) =
    (wval ha la + wval hb lb) mod 2 ^ (2 * LENGTH('a))"
proof (rule wval_eqI)
  let ?N = "2 ^ LENGTH('a) :: int"
  have c: "(if la + lb < la then 1 else 0) = (uint la + uint lb) div ?N"
    using carry_div [of "uint la" ?N "uint lb"] by (simp add: word_less_def uint_add_mod)
  have v: "wval ha la + wval hb lb = (uint ha + uint hb) * ?N + (uint la + uint lb)"
    by (simp add: wval_def algebra_simps)
  have "(if la + lb < la then ha + hb + 1 else ha + hb) =
      ha + hb + word_of_int (if la + lb < la then 1 else 0)" by simp
  then show "(wval ha la + wval hb lb) div ?N mod ?N =
      uint (if la + lb < la then ha + hb + 1 else ha + hb)"
    unfolding v c
    by (subst pos_div) (simp_all only: uint_add_mod uint_word_of_int mod_simps ac_simps, simp)
  show "(wval ha la + wval hb lb) mod ?N = uint (la + lb)"
    by (simp add: v uint_add_mod del: mod_exp_eq)
qed

lemma wval_sub [val_simps]:
  fixes ha la hb lb :: "'a::len word"
  shows "wval (if la < la - lb then ha - hb - 1 else ha - hb) (la - lb) =
    (wval ha la - wval hb lb) mod 2 ^ (2 * LENGTH('a))"
proof (rule wval_eqI)
  let ?N = "2 ^ LENGTH('a) :: int"
  have c: "(if la < la - lb then - 1 else 0) = (uint la - uint lb) div ?N"
    using borrow_div [of "uint la" ?N "uint lb"] by (simp add: word_less_def uint_sub_mod)
  have v: "wval ha la - wval hb lb = (uint ha - uint hb) * ?N + (uint la - uint lb)"
    by (simp add: wval_def algebra_simps)
  have "(if la < la - lb then ha - hb - 1 else ha - hb) =
      ha - hb + word_of_int (if la < la - lb then - 1 else 0)" by simp
  then show "(wval ha la - wval hb lb) div ?N mod ?N =
      uint (if la < la - lb then ha - hb - 1 else ha - hb)"
    unfolding v c
    by (subst pos_div) (simp_all only: uint_add_mod uint_sub_mod uint_word_of_int mod_simps ac_simps, simp)
  show "(wval ha la - wval hb lb) mod ?N = uint (la - lb)"
    by (simp add: v uint_sub_mod del: mod_exp_eq)
qed

lemma low_shift_div:
  assumes "s \<le> n"
  shows "(l :: int) * 2 ^ s div 2 ^ n = l div 2 ^ (n - s)"
proof -
  have "(2::int) ^ n = 2 ^ (n - s) * 2 ^ s"
    using assms by (simp add: power_add [symmetric])
  then show ?thesis by simp
qed

lemma high_shift_div:
  assumes "s \<le> n"
  shows "(h * 2 ^ n + l) div 2 ^ s = h * 2 ^ (n - s) + (l :: int) div 2 ^ s"
proof -
  have "(2::int) ^ n = 2 ^ (n - s) * 2 ^ s"
    using assms by (simp add: power_add [symmetric])
  then have "h * 2 ^ n + l = (h * 2 ^ (n - s)) * 2 ^ s + l" by simp
  then show ?thesis by (simp only: pos_div zero_less_power zero_less_numeral)
qed

lemma shl_or_disjoint:
  assumes "s \<le> LENGTH('a)"
  shows "\<not> bit (push_bit s (h :: 'a::len word)) k \<or>
    \<not> bit (drop_bit (LENGTH('a) - s) (l :: 'a word)) k"
  using assms by (auto simp: bit_push_bit_iff bit_drop_bit_eq dest: bit_imp_le_length)

lemma shl_or_add:
  assumes "s \<le> LENGTH('a)"
  shows "push_bit s (h :: 'a::len word) OR drop_bit (LENGTH('a) - s) l =
    push_bit s h + drop_bit (LENGTH('a) - s) l"
  using shl_or_disjoint [OF assms] by (simp add: disjunctive_add)

lemma uint_shl_or:
  assumes "s \<le> LENGTH('a)"
  shows "uint (push_bit s (h :: 'a::len word) OR drop_bit (LENGTH('a) - s) l) =
    (uint h * 2 ^ s) mod 2 ^ LENGTH('a) + uint l div 2 ^ (LENGTH('a) - s)"
  using uint_or_disjoint [OF shl_or_disjoint [OF assms]]
  by (simp only: uint_push_bit uint_drop_bit)

lemma pos_div_less:
  fixes x a b :: int
  assumes "0 < b" and "x < a * b"
  shows "x div b < a"
proof (rule ccontr)
  assume "\<not> x div b < a"
  then have "a * b \<le> x div b * b" using assms by (intro mult_right_mono) auto
  moreover have "x div b * b + x mod b = x" "0 \<le> x mod b" using assms by auto
  ultimately show False using assms by linarith
qed

lemma mod_bound_swap:
  fixes x y c N :: int
  assumes "0 \<le> y" "y < c" "N = c * m" "0 < m"
  shows "(x * c + y) mod N = (x * c) mod N + y"
proof -
  have "x * c = (x div m * m + x mod m) * c" by simp
  then have "x * c + y = N * (x div m) + (x mod m * c + y)"
    unfolding assms(3) by (simp only: distrib_right distrib_left ac_simps)
  moreover have "0 \<le> x mod m * c + y" using assms by simp
  moreover have "x mod m * c + y < N"
    using pos_less [of "x mod m" m y c] assms by (simp add: mult.commute)
  ultimately have "(x * c + y) mod N = x mod m * c + y" by (rule int_mod_pos_eq)
  moreover have "(x * c) mod N = x mod m * c"
    unfolding assms(3) mult.commute [of c m] by (rule mult_mod_left [symmetric])
  ultimately show ?thesis by simp
qed

lemma wval_lsl:
  fixes h l :: "'a::len word"
  assumes "s \<le> LENGTH('a)"
  shows "wval (push_bit s h OR drop_bit (LENGTH('a) - s) l) (push_bit s l) =
    (wval h l * 2 ^ s) mod 2 ^ (2 * LENGTH('a))"
proof (rule wval_eqI)
  let ?N = "2 ^ LENGTH('a) :: int"
  have v: "wval h l * 2 ^ s = (uint h * 2 ^ s) * ?N + uint l * 2 ^ s"
    by (simp add: wval_def algebra_simps)
  have N: "?N = 2 ^ s * 2 ^ (LENGTH('a) - s)"
    using assms by (simp add: power_add [symmetric])
  have "uint l < ?N" by simp
  then have "uint l div 2 ^ (LENGTH('a) - s) < 2 ^ s"
    unfolding N by (intro pos_div_less) simp_all
  then have "(uint h * 2 ^ s + uint l div 2 ^ (LENGTH('a) - s)) mod ?N =
      (uint h * 2 ^ s) mod ?N + uint l div 2 ^ (LENGTH('a) - s)"
    using N by (intro mod_bound_swap) (auto simp: pos_imp_zdiv_nonneg_iff)
  then show "wval h l * 2 ^ s div ?N mod ?N =
      uint (push_bit s h OR drop_bit (LENGTH('a) - s) l)"
    unfolding v uint_shl_or [OF assms]
    by (subst pos_div) (simp_all only: low_shift_div [OF assms], simp)
  show "wval h l * 2 ^ s mod ?N = uint (push_bit s l)"
    unfolding v uint_push_bit by (simp only: mod_mult_self3)
qed

lemma div_fits: "(x :: int) < 2 ^ n \<Longrightarrow> 0 \<le> x \<Longrightarrow> x div 2 ^ s mod 2 ^ n = x div 2 ^ s"
  by (rule mod_pos_pos_trivial)
    (auto simp: pos_imp_zdiv_nonneg_iff intro: le_less_trans [OF zdiv_mono2 [of x 1 "2 ^ s"]])

text \<open>The shape shared by the logical and the arithmetic right shift: the low word receives the
  bits pushed out of the high word, whatever value \<open>H\<close> the high word stands for.\<close>

lemma shr_low_word:
  fixes h l :: "'a::len word"
  assumes "s \<le> LENGTH('a)" and "H mod 2 ^ LENGTH('a) = uint h"
  shows "uint (drop_bit s l OR push_bit (LENGTH('a) - s) h) =
    (H * 2 ^ LENGTH('a) + uint l) div 2 ^ s mod 2 ^ LENGTH('a)"
proof -
  let ?n = "LENGTH('a)"
  have "uint l < 2 ^ ?n" by simp
  moreover have N: "(2::int) ^ ?n = 2 ^ (?n - s) * 2 ^ s"
    using assms(1) by (simp add: power_add [symmetric])
  ultimately have "uint l div 2 ^ s < 2 ^ (?n - s)"
    by (intro pos_div_less) simp_all
  then have "(H * 2 ^ (?n - s) + uint l div 2 ^ s) mod 2 ^ ?n =
      (H * 2 ^ (?n - s)) mod 2 ^ ?n + uint l div 2 ^ s"
    using N by (intro mod_bound_swap) (auto simp: pos_imp_zdiv_nonneg_iff)
  moreover have "(H * 2 ^ (?n - s)) mod 2 ^ ?n = (uint h * 2 ^ (?n - s)) mod 2 ^ ?n"
    by (simp only: assms(2) [symmetric] mod_simps)
  moreover have "uint (drop_bit s l OR push_bit (?n - s) h) =
      (uint h * 2 ^ (?n - s)) mod 2 ^ ?n + uint l div 2 ^ s"
    using uint_shl_or [of "?n - s" h l] assms(1) by (simp add: or.commute)
  ultimately show ?thesis by (simp only: high_shift_div [OF assms(1)])
qed

lemma wval_rsl:
  fixes h l :: "'a::len word"
  assumes "s \<le> LENGTH('a)"
  shows "wval (drop_bit s h) (drop_bit s l OR push_bit (LENGTH('a) - s) h) = wval h l div 2 ^ s"
proof -
  have "wval (drop_bit s h) (drop_bit s l OR push_bit (LENGTH('a) - s) h) =
      wval h l div 2 ^ s mod 2 ^ (2 * LENGTH('a))"
  proof (rule wval_eqI)
    show "wval h l div 2 ^ s mod 2 ^ LENGTH('a) =
        uint (drop_bit s l OR push_bit (LENGTH('a) - s) h)"
      using shr_low_word [OF assms, of "uint h" h l] by (simp only: wval_def, simp)
    have "wval h l div 2 ^ s div 2 ^ LENGTH('a) = uint h div 2 ^ s"
      by (metis wval_div div_mult2_eq' mult.commute zdiv_zmult2_eq zero_le_numeral zero_le_power)
    then show "wval h l div 2 ^ s div 2 ^ LENGTH('a) mod 2 ^ LENGTH('a) = uint (drop_bit s h)"
      by (simp only: uint_drop_bit div_fits uint_bounded wval_nonneg uint_nonnegative)
  qed
  then show ?thesis by (simp only: div_fits wval_less wval_nonneg)
qed

lemma swval_rsa:
  fixes h l :: "'a::len word"
  assumes "s \<le> LENGTH('a)"
  shows "swval (signed_drop_bit s h) (drop_bit s l OR push_bit (LENGTH('a) - s) h) =
    swval h l div 2 ^ s"
proof -
  let ?N = "2 ^ LENGTH('a) :: int"
  have "sint h mod ?N = uint h"
    by (metis take_bit_eq_mod uint_sint)
  then have lo: "uint (drop_bit s l OR push_bit (LENGTH('a) - s) h) = swval h l div 2 ^ s mod ?N"
    using shr_low_word [OF assms] by (simp only: swval_def)
  have "swval h l div 2 ^ s div ?N = sint h div 2 ^ s"
  proof -
    have "swval h l div ?N = sint h" by (simp add: swval_def)
    then show ?thesis by (metis mult.commute zdiv_zmult2_eq zero_le_numeral zero_le_power)
  qed
  then have "sint (signed_drop_bit s h) = swval h l div 2 ^ s div ?N"
    by (simp add: sint_signed_drop_bit_eq drop_bit_eq_div)
  then show ?thesis
    unfolding swval_def [of "signed_drop_bit s h"] lo by (simp only: div_mult_mod_eq)
qed

lemma uint_of_sint: "uint (w :: 'a::len word) = (if sint w < 0 then sint w + 2 ^ LENGTH('a) else sint w)"
proof -
  have m: "uint w = sint w mod 2 ^ LENGTH('a)" by (metis take_bit_eq_mod uint_sint)
  have p: "(2::int) ^ LENGTH('a) = 2 * 2 ^ (LENGTH('a) - 1)" by (simp flip: power_Suc)
  have b: "- (2 ^ (LENGTH('a) - 1)) \<le> sint w" "sint w < 2 ^ (LENGTH('a) - 1)"
    by (rule sint_ge, rule sint_lt)
  show ?thesis
  proof (cases "sint w < 0")
    case True
    have "sint w mod 2 ^ LENGTH('a) = sint w + 2 ^ LENGTH('a)"
      using True b p by (intro int_mod_pos_eq [where q = "- 1"]) linarith+
    then show ?thesis using True m by simp
  next
    case False
    have "sint w mod 2 ^ LENGTH('a) = sint w"
      using False b p by (intro mod_pos_pos_trivial) linarith+
    then show ?thesis using False m by simp
  qed
qed

lemma sint_neg_iff: "sint (w :: 'a::len word) < 0 \<longleftrightarrow> 2 ^ (LENGTH('a) - 1) \<le> uint w"
proof -
  have p: "(2::int) ^ LENGTH('a) = 2 * 2 ^ (LENGTH('a) - 1)" by (simp flip: power_Suc)
  have b: "- (2 ^ (LENGTH('a) - 1)) \<le> sint w" "sint w < 2 ^ (LENGTH('a) - 1)"
    by (rule sint_ge, rule sint_lt)
  show ?thesis using uint_of_sint [of w] b p by (simp split: if_splits)
qed

lemma sint_twos: "sint (w :: 'a::len word) = twos LENGTH('a) (uint w)"
  unfolding twos_def sint_neg_iff [symmetric] by (simp add: uint_of_sint)

lemma wval_msb_iff: "2 ^ (2 * LENGTH('a) - 1) \<le> wval (h :: 'a::len word) l \<longleftrightarrow> sint h < 0"
proof -
  let ?N = "2 ^ LENGTH('a) :: int" and ?M = "2 ^ (LENGTH('a) - 1) :: int"
  have "(2 * LENGTH('a) - 1) = (LENGTH('a) - 1) + LENGTH('a)" by (simp add: mult_2)
  then have p: "(2::int) ^ (2 * LENGTH('a) - 1) = ?M * ?N" by (simp only: power_add)
  have "uint h * ?N + uint l < ?M * ?N" if "uint h < ?M"
    using pos_less [OF that, of "uint l" ?N] by simp
  moreover have "?M * ?N \<le> uint h * ?N + uint l" if "?M \<le> uint h"
    using mult_right_mono [OF that, of ?N] by (intro add_increasing2) simp_all
  ultimately have "?M * ?N \<le> uint h * ?N + uint l \<longleftrightarrow> ?M \<le> uint h" by force
  then show ?thesis by (simp only: p wval_def sint_neg_iff)
qed

lemma swval_wval:
  "swval (h :: 'a::len word) l =
    (if sint h < 0 then wval h l - 2 ^ (2 * LENGTH('a)) else wval h l)"
  unfolding swval_def wval_def uint_of_sint [of h] mult_2 power_add by (simp add: algebra_simps)

text \<open>Shifts by a whole word and more.\<close>

lemma wval_lsl_hi:
  fixes h l :: "'a::len word"
  assumes "LENGTH('a) \<le> s"
  shows "wval (push_bit (s - LENGTH('a)) l) 0 = (wval h l * 2 ^ s) mod 2 ^ (2 * LENGTH('a))"
proof (rule wval_eqI)
  let ?N = "2 ^ LENGTH('a) :: int"
  have s: "(2::int) ^ s = 2 ^ (s - LENGTH('a)) * ?N"
    using assms by (simp flip: power_add)
  have "wval h l * 2 ^ s = (wval h l * 2 ^ (s - LENGTH('a))) * ?N" by (simp only: s mult.assoc)
  then show "wval h l * 2 ^ s mod ?N = uint (0 :: 'a word)"
    and "wval h l * 2 ^ s div ?N mod ?N = uint (push_bit (s - LENGTH('a)) l)"
    by (simp_all only: uint_push_bit wval_mod [of h l, symmetric] mod_mult_left_eq, simp_all)
qed

lemma wval_rsl_hi:
  fixes h l :: "'a::len word"
  assumes "LENGTH('a) \<le> s"
  shows "wval 0 (drop_bit (s - LENGTH('a)) h) = wval h l div 2 ^ s"
proof -
  have s: "(2::int) ^ s = 2 ^ LENGTH('a) * 2 ^ (s - LENGTH('a))"
    using assms by (simp flip: power_add)
  have "wval h l div 2 ^ s = uint h div 2 ^ (s - LENGTH('a))"
    unfolding s by (subst zdiv_zmult2_eq) simp_all
  then show ?thesis by (simp add: wval_def uint_drop_bit)
qed

lemma sint_sign_word:
  "sint (signed_drop_bit (LENGTH('a) - 1) (h :: 'a::len word)) = (if sint h < 0 then - 1 else 0)"
proof -
  have b: "- (2 ^ (LENGTH('a) - 1)) \<le> sint h" "sint h < 2 ^ (LENGTH('a) - 1)"
    by (rule sint_ge, rule sint_lt)
  then show ?thesis
    by (auto simp: sint_signed_drop_bit_eq drop_bit_eq_div div_pos_pos_trivial
        intro!: int_div_pos_eq [where r = "sint h + 2 ^ (LENGTH('a) - 1)"])
qed

lemma swval_rsa_hi:
  fixes h l :: "'a::len word"
  defines "g \<equiv> signed_drop_bit (LENGTH('a) - 1) h"
  assumes "LENGTH('a) \<le> s"
  shows "swval g h div 2 ^ (s - LENGTH('a)) = swval h l div 2 ^ s"
proof -
  have s: "(2::int) ^ s = 2 ^ LENGTH('a) * 2 ^ (s - LENGTH('a))"
    using assms by (simp flip: power_add)
  have "swval g h = sint h"
    unfolding swval_def g_def sint_sign_word by (simp add: uint_of_sint)
  moreover have "swval h l div 2 ^ LENGTH('a) = sint h" by (simp add: swval_def)
  ultimately show ?thesis unfolding s by (subst zdiv_zmult2_eq) simp_all
qed

lemma swval_twos: "swval (h :: 'a::len word) l = twos (2 * LENGTH('a)) (wval h l)"
  unfolding twos_def wval_msb_iff by (rule swval_wval)

lemma uint_not: "uint (NOT w :: 'a::len word) = 2 ^ LENGTH('a) - 1 - uint w"
proof -
  have "uint (NOT w) = (- uint w - 1) mod 2 ^ LENGTH('a)"
    by (simp add: not_eq_complement uint_word_ariths mod_simps del: mod_exp_eq)
  also have "\<dots> = 2 ^ LENGTH('a) - 1 - uint w"
    using uint_nonnegative [of w] uint_bounded [of w]
    by (intro int_mod_pos_eq [where q = "- 1"]) linarith+
  finally show ?thesis .
qed

lemma wval_not: "wval (NOT h) (NOT l :: 'a::len word) = 2 ^ (2 * LENGTH('a)) - 1 - wval h l"
  unfolding wval_def uint_not mult_2 power_add by (simp add: algebra_simps)

lemma carry_one: "x + 1 < x \<longleftrightarrow> x + 1 = (0 :: 'a::len word)"
  by (metis add_cancel_right_right eq_neg_iff_add_eq_0 inc_less_eq_self_iff_eq nless_le zero_neq_one)

section \<open>Schoolbook multiplication\<close>

text \<open>Multiplication of two numbers in base \<open>B\<close> out of four partial products, with one carry
  out of the sum of the two middle products.\<close>

lemma schoolbook:
  fixes al ah bl bh B :: int
  assumes "0 \<le> al" "al < B" "0 \<le> ah" "ah < B" "0 \<le> bl" "bl < B" "0 \<le> bh" "bh < B"
  defines "m \<equiv> al * bh + (al * bl) div B"
  shows "(ah * bh + (if m + ah * bl < B * B then 0 else B) + ((m + ah * bl) mod (B * B)) div B) * (B * B)
      + (((m + ah * bl) mod (B * B)) mod B * B + (al * bl) mod B) = (ah * B + al) * (bh * B + bl)"
    and "m < B * B"
proof -
  let ?t = "m + ah * bl"
  have le: "x * y \<le> (B - 1) * (B - 1)" if "0 \<le> x" "x < B" "0 \<le> y" "y < B" for x y
    using that by (intro mult_mono) auto
  have "al * bl div B < B"
    using le [of al bl] assms by (intro pos_div_less) (auto simp: algebra_simps)
  then show m: "m < B * B"
    using le [of al bh] assms by (simp add: m_def algebra_simps)
  have m0: "0 \<le> m" using assms by (simp add: m_def pos_imp_zdiv_nonneg_iff)
  have t: "?t mod (B * B) = ?t - (if ?t < B * B then 0 else B * B)"
  proof (cases "?t < B * B")
    case True
    then show ?thesis using m0 assms by (simp add: mod_pos_pos_trivial)
  next
    case False
    have "?t - B * B < B * B" using m le [of ah bl] assms by (simp add: algebra_simps)
    then have "?t mod (B * B) = ?t - B * B"
      using False by (intro int_mod_pos_eq [where q = 1]) auto
    then show ?thesis using False by simp
  qed
  have "(?t mod (B * B)) div B * B + (?t mod (B * B)) mod B = ?t mod (B * B)"
    and "al * bl div B * B + (al * bl) mod B = al * bl" by simp_all
  then have r: "(?t mod (B * B)) mod B = ?t mod (B * B) - (?t mod (B * B)) div B * B"
    and z: "(al * bl) mod B = al * bl - al * bl div B * B" by linarith+
  show "(ah * bh + (if ?t < B * B then 0 else B) + (?t mod (B * B)) div B) * (B * B)
      + ((?t mod (B * B)) mod B * B + (al * bl) mod B) = (ah * B + al) * (bh * B + bl)"
    unfolding r z unfolding t by (simp add: m_def algebra_simps)
qed

lemma uint_take_bit: "uint (take_bit k w :: 'a::len word) = uint w mod 2 ^ k"
  by (simp only: unsigned_take_bit_eq, simp add: take_bit_eq_mod)

lemma uint_carry:
  "(if a + b < b then 1 else 0) = (uint a + uint (b :: 'a::len word)) div 2 ^ LENGTH('a)"
  using carry_div [of "uint b" "2 ^ LENGTH('a)" "uint a"]
  by (simp add: word_less_def uint_add_mod add.commute)

lemma wval_schoolbook:
  fixes al ah bl bh :: "'a::len word"
  assumes k: "LENGTH('a) = 2 * k"
    and b: "uint al < 2 ^ k" "uint ah < 2 ^ k" "uint bl < 2 ^ k" "uint bh < 2 ^ k"
  defines "r0 \<equiv> al * bl" and "r1 \<equiv> al * bh + drop_bit k (al * bl) + ah * bl"
  defines "r3 \<equiv> (if r1 < ah * bl then ah * bh + push_bit k 1 else ah * bh)"
  shows "wval (r3 + drop_bit k r1) (push_bit k (take_bit k r1) + take_bit k r0) =
    (uint ah * 2 ^ k + uint al) * (uint bh * 2 ^ k + uint bl)"
proof -
  let ?B = "2 ^ k :: int" and ?N = "2 ^ LENGTH('a) :: int"
  have N: "?N = ?B * ?B" by (simp add: k mult_2 power_add)
  have mulb: "uint (x * y) = uint x * uint y" if "uint x < ?B" "uint y < ?B" for x y :: "'a word"
    using that mult_strict_mono [of "uint x" ?B "uint y" ?B]
    by (simp add: uint_mul_mod N mod_pos_pos_trivial del: mod_exp_eq)
  define m where "m = uint al * uint bh + (uint al * uint bl) div ?B"
  define t where "t = m + uint ah * uint bl"
  note sb = schoolbook [of "uint al" ?B "uint ah" "uint bl" "uint bh", folded m_def, folded t_def]
  have m: "m < ?B * ?B" "0 \<le> m" using sb(2) b by (simp_all add: m_def pos_imp_zdiv_nonneg_iff)
  have ub: "uint (al * bh + drop_bit k (al * bl)) = m"
    using m by (simp only: uint_add_mod uint_drop_bit mulb b N m_def [symmetric] mod_pos_pos_trivial)
  have r1: "uint r1 = t mod (?B * ?B)"
    unfolding r1_def by (simp only: uint_add_mod [of _ "ah * bl"] ub mulb b N t_def)
  have c: "(if r1 < ah * bl then 1 else 0) = t div (?B * ?B)"
    unfolding r1_def uint_carry ub by (simp only: mulb b N t_def)
  have "t < 2 * (?B * ?B)" "0 \<le> t" 
    using m mult_strict_mono [of "uint ah" ?B "uint bl" ?B] b by (simp_all add: t_def)
  then have lt: "r1 < ah * bl \<longleftrightarrow> \<not> t < ?B * ?B"
    using c by (auto split: if_splits simp: div_pos_pos_trivial zdiv_eq_0_iff)
  have p: "uint (push_bit k (1 :: 'a word)) = ?B"
    using k len_gt_0 [where 'a = 'a]
    by (simp only: uint_push_bit uint_1, simp only: mult_1 mod_pos_pos_trivial zero_le_power
        zero_le_numeral power_strict_increasing_iff)
  let ?hi = "uint ah * uint bh + (if t < ?B * ?B then 0 else ?B) + t mod (?B * ?B) div ?B"
  let ?lo = "t mod (?B * ?B) mod ?B * ?B + uint al * uint bl mod ?B"
  have hi: "uint (r3 + drop_bit k r1) = ?hi mod ?N"
    unfolding r3_def lt by (simp add: uint_add_mod uint_drop_bit r1 p [simplified] mulb b mod_simps del: mod_exp_eq)
  have lor: "0 \<le> ?lo" "?lo < ?N"
    unfolding N by (simp, intro pos_less) simp_all
  have lo: "uint (push_bit k (take_bit k r1) + take_bit k r0) = ?lo mod ?N"
    unfolding r0_def
    by (simp only: uint_add_mod uint_push_bit uint_take_bit r1 mulb b mod_simps)
  have v: "?hi * ?N + ?lo = (uint ah * ?B + uint al) * (uint bh * ?B + uint bl)"
    unfolding N using sb(1) b by simp
  have "wval (r3 + drop_bit k r1) (push_bit k (take_bit k r1) + take_bit k r0) =
      (?hi * ?N + ?lo) mod 2 ^ (2 * LENGTH('a))"
  proof (rule wval_eqI)
    show "(?hi * ?N + ?lo) div ?N mod ?N = uint (r3 + drop_bit k r1)"
      unfolding hi pos_div [OF zero_less_power [OF zero_less_numeral]] div_pos_pos_trivial [OF lor]
      by (simp only: add_0_right)
    show "(?hi * ?N + ?lo) mod ?N = uint (push_bit k (take_bit k r1) + take_bit k r0)"
      by (simp only: lo mod_mult_self3)
  qed
  moreover have "uint x * ?B + uint y < ?N" "0 \<le> uint x * ?B + uint y"
    if "uint x < ?B" "uint y < ?B" for x y :: "'a word"
    using pos_less [of "uint x" ?B "uint y" ?B] that by (simp_all add: N)
  then have "(uint ah * ?B + uint al) * (uint bh * ?B + uint bl) < ?N * ?N"
    using b by (intro mult_strict_mono') auto
  ultimately show ?thesis
    unfolding v by (simp add: mult_2 power_add mod_pos_pos_trivial del: mod_exp_eq)
qed

section \<open>Words as natural numbers\<close>

lemma unat_take_bit [val_simps]: "unat (take_bit k w :: 'a::len word) = unat w mod 2 ^ k"
  by (simp only: unsigned_take_bit_eq, simp add: take_bit_eq_mod)

lemma unat_drop_bit [val_simps]: "unat (drop_bit k w :: 'a::len word) = unat w div 2 ^ k"
  by (simp only: unat_drop_bit_eq, simp add: drop_bit_eq_div)

lemma unat_add_exact:
  "unat a + unat (b :: 'a::len word) < 2 ^ LENGTH('a) \<Longrightarrow> unat (a + b) = unat a + unat b"
  by (rule unat_add_lem [THEN iffD1])

lemma unat_push_bit: "unat (push_bit s w :: 'a::len word) = (unat w * 2 ^ s) mod 2 ^ LENGTH('a)"
  by (simp only: unsigned_push_bit_eq, simp add: push_bit_eq_mult take_bit_eq_mod)

lemma unat_or_disjoint:
  assumes "\<And>k. \<not> bit a k \<or> \<not> bit b k"
  shows "unat (a OR b :: 'a::len word) = unat a + unat b"
  using assms by (subst disjunctive_add) (auto simp: unsigned_or_eq bit_unsigned_iff)

lemma unat_less_pow: "unat (w :: 'a::len word) < 2 ^ LENGTH('a)"
  by (rule unsigned_less)

lemma mask_take:
  "(w :: 'a::len word) AND 0xff = take_bit 8 w" "w AND 0xffff = take_bit 16 w"
  by (simp_all add: take_bit_eq_mask mask_eq_exp_minus_1)

lemma unat_ucast_up:
  "LENGTH('a) \<le> LENGTH('b) \<Longrightarrow> unat (ucast (w :: 'a::len word) :: 'b::len word) = unat w"
  by (simp add: unsigned_ucast_eq take_bit_nat_eq_self order_less_le_trans [OF unat_less_pow])

lemma unat_ucast_mod: "unat (ucast (w :: 'a::len word) :: 'b::len word) = unat w mod 2 ^ LENGTH('b)"
  by (simp add: unsigned_ucast_eq take_bit_eq_mod)

lemma mod_nonzero_inj:
  fixes x y N :: nat
  assumes "x mod N = y mod N" "x \<le> N" "y \<le> N" "x \<noteq> 0" "y \<noteq> 0"
  shows "x = y"
  using assms by (cases "x = N"; cases "y = N") auto

lemma unat_not: "unat (NOT w :: 'a::len word) = 2 ^ LENGTH('a) - 1 - unat w"
proof -
  have "int (unat (NOT w)) + int (unat w) + 1 = 2 ^ LENGTH('a)"
    using uint_not [of w] by simp
  then have "int (unat (NOT w) + unat w + 1) = int (2 ^ LENGTH('a))" by simp
  then have "unat (NOT w) + unat w + 1 = 2 ^ LENGTH('a)" by (simp only: of_nat_eq_iff)
  then show ?thesis by linarith
qed

lemma u32_top [simp]:
  "unat (w :: u32) div 65536 mod 65536 = unat w div 65536"
  "unat (w :: u32) div 16777216 mod 256 = unat w div 16777216"
  using unat_less_pow [of w] by (simp_all add: less_mult_imp_div_less)

lemma sint_uminus: "0 < sint (w :: 'a::len word) \<Longrightarrow> sint (- w) = - sint w"
  using sint_lt [of w]
  by (simp add: sint_word_ariths(4) signed_take_bit_int_eq_self)

section \<open>Invariants of step relations\<close>

locale step_invariant =
  fixes step :: "'s \<Rightarrow> 's \<Rightarrow> bool"
    and inv :: "'s \<Rightarrow> bool"
  assumes step_keeps: "step s s' \<Longrightarrow> inv s \<Longrightarrow> inv s'"
begin

lemma runs_keep: "step\<^sup>*\<^sup>* s s' \<Longrightarrow> inv s \<Longrightarrow> inv s'"
  by (induction rule: rtranclp_induct) (auto intro: step_keeps)

end

end
