(* ===== verification/Wide_Divide.thy ===== *)
theory Wide_Divide
  imports Prelude "HOL-Library.Signed_Division"
begin

text \<open>
  The interfaces behind the division routines of the wide-integer component
  (\<open>src/ns-3.16/src/core/model/cairo-wideint.c\<close>).  The file divides three times with the same
  algorithms over different representations: a bit-at-a-time unsigned division for the two-word
  64-bit and for the two-word 128-bit integers, and a signed division reduced to the unsigned one
  for the native 64-bit, the two-word 64-bit and the 128-bit integers.  The locales state what the
  algorithms need of the representation; the theories of the representations interpret them.
\<close>

record 'a quorem =
  quo :: 'a
  rem :: 'a

section \<open>Truncating division\<close>

lemma sdiv_abs:
  assumes "d \<noteq> 0"
  shows "(n :: int) sdiv d = (if (n < 0) \<noteq> (d < 0) then - (\<bar>n\<bar> div \<bar>d\<bar>) else \<bar>n\<bar> div \<bar>d\<bar>)"
  using assms by (auto simp: signed_divide_int_def sgn_if)

lemma smod_abs:
  assumes "d \<noteq> 0"
  shows "(n :: int) smod d = (if n < 0 then - (\<bar>n\<bar> mod \<bar>d\<bar>) else \<bar>n\<bar> mod \<bar>d\<bar>)"
proof -
  have "n sdiv d * d = (if n < 0 then - (\<bar>n\<bar> div \<bar>d\<bar> * \<bar>d\<bar>) else \<bar>n\<bar> div \<bar>d\<bar> * \<bar>d\<bar>)"
    using assms by (auto simp: sdiv_abs abs_if)
  moreover have "n smod d = n - n sdiv d * d"
    by (metis add_diff_cancel_left' sdiv_mult_smod_eq)
  ultimately show ?thesis
    using minus_div_mult_eq_mod [of "\<bar>n\<bar>" "\<bar>d\<bar>"] by (auto simp: abs_if split: if_splits)
qed

lemma smod_range:
  assumes "d \<noteq> 0" "\<bar>d\<bar> \<le> P"
  shows "- P \<le> (n :: int) smod d" "n smod d < P"
proof -
  have "\<bar>n\<bar> mod \<bar>d\<bar> < \<bar>d\<bar>" "0 \<le> \<bar>n\<bar> mod \<bar>d\<bar>" using assms by simp_all
  then show "- P \<le> n smod d" "n smod d < P"
    unfolding smod_abs [OF assms(1)] using assms(2) by auto
qed

lemma sdiv_range:
  assumes "d \<noteq> 0" "- P \<le> n" "n < P" and "\<not> (n = - P \<and> d = - 1)"
  shows "- P \<le> (n :: int) sdiv d" "n sdiv d < P"
proof -
  let ?q = "\<bar>n\<bar> div \<bar>d\<bar>"
  have d1: "1 \<le> \<bar>d\<bar>" using assms(1) by linarith
  have q: "?q \<le> \<bar>n\<bar>" "0 \<le> ?q"
    using d1 zdiv_mono2 [of "\<bar>n\<bar>" 1 "\<bar>d\<bar>"] by (simp_all add: pos_imp_zdiv_nonneg_iff)
  have "?q < P" if "(n < 0) = (d < 0)"
  proof (cases "\<bar>n\<bar> < P")
    case True
    then show ?thesis using q by linarith
  next
    case False
    then have n: "n = - P" "n < 0" using assms by linarith+
    then have "2 \<le> \<bar>d\<bar>" "0 < P" using assms(4) that by auto
    then have "P * 2 \<le> P * \<bar>d\<bar>" by (intro mult_left_mono) auto
    then show ?thesis using n d1 \<open>0 < P\<close> by (intro pos_div_less) auto
  qed
  moreover have "\<bar>n\<bar> \<le> P" using assms by linarith
  ultimately show "- P \<le> n sdiv d" "n sdiv d < P"
    unfolding sdiv_abs [OF assms(1)] using q assms(3) by (auto split: if_splits)
qed

section \<open>Fixed-width numbers\<close>

locale wide_word =
  fixes val :: "'a \<Rightarrow> int" and W :: nat
  assumes W_pos: "0 < W"
    and val_nonneg: "0 \<le> val a"
    and val_less: "val a < 2 ^ W"
    and val_inj: "val a = val b \<Longrightarrow> a = b"
begin

abbreviation sval :: "'a \<Rightarrow> int" where
  "sval a \<equiv> twos W (val a)"

lemma pow_W: "(2::int) ^ W = 2 * 2 ^ (W - 1)"
  using W_pos by (simp flip: power_Suc)

lemma val_mod: "val a mod 2 ^ W = val a"
  using val_nonneg val_less by (simp add: mod_pos_pos_trivial del: mod_exp_eq)

lemma sval_range: "- (2 ^ (W - 1)) \<le> sval a" "sval a < 2 ^ (W - 1)"
  using val_nonneg [of a] val_less [of a] pow_W by (auto simp: twos_def)

lemma sval_mod: "sval a mod 2 ^ W = val a"
  using val_mod [of a] by (simp add: twos_def del: mod_exp_eq)

lemma sval_unique:
  assumes "val a = v mod 2 ^ W" and "- (2 ^ (W - 1)) \<le> v" and "v < 2 ^ (W - 1)"
  shows "sval a = v"
proof (cases "v < 0")
  case True
  have "v mod 2 ^ W = v + 2 ^ W"
    using True assms pow_W by (intro int_mod_pos_eq [where q = "- 1"]) linarith+
  then show ?thesis using assms pow_W True by (simp add: twos_def)
next
  case False
  have "v mod 2 ^ W = v"
    using False assms pow_W by (intro mod_pos_pos_trivial) linarith+
  then show ?thesis using assms False by (simp add: twos_def)
qed

end

section \<open>Signed division by way of unsigned division\<close>

locale signed_divide = wide_word val W
  for val :: "'a \<Rightarrow> int" and W :: nat +
  fixes neg :: "'a \<Rightarrow> bool"
    and negate :: "'a \<Rightarrow> 'a"
    and udivrem :: "'a \<Rightarrow> 'a \<Rightarrow> 'a quorem option"
    and divrem :: "'a \<Rightarrow> 'a \<Rightarrow> 'a quorem option"
  assumes neg_iff: "neg a \<longleftrightarrow> 2 ^ (W - 1) \<le> val a"
    and val_negate: "val (negate a) = (- val a) mod 2 ^ W"
    and udivrem_ok: "val d \<noteq> 0 \<Longrightarrow> \<exists>qr. udivrem n d = Some qr \<and>
      val (quo qr) = val n div val d \<and> val (rem qr) = val n mod val d"
    and divrem_eq: "divrem n d =
      (case udivrem (if neg n then negate n else n) (if neg d then negate d else d) of
         None \<Rightarrow> None
       | Some qr \<Rightarrow> Some \<lparr> quo = (if neg n \<noteq> neg d then negate (quo qr) else quo qr),
                          rem = (if neg n then negate (rem qr) else rem qr) \<rparr>)"
begin

lemma neg_sval: "neg a \<longleftrightarrow> sval a < 0"
  using val_nonneg [of a] val_less [of a] by (auto simp: neg_iff twos_def)

lemma val_abs: "val (if neg a then negate a else a) = \<bar>sval a\<bar>"
proof (cases "neg a")
  case True
  then have "(- val a) mod 2 ^ W = 2 ^ W - val a"
    using val_less [of a] less_le_trans [OF zero_less_power [of "2::int" "W - 1"], of "val a"]
    by (intro int_mod_pos_eq [where q = "- 1"]) (auto simp: neg_iff)
  then show ?thesis using True val_less [of a] by (simp add: val_negate neg_iff twos_def)
next
  case False
  then show ?thesis using val_nonneg [of a] by (simp add: neg_iff twos_def)
qed

lemma val_sign: "val (if b then negate a else a) = (if b then - val a else val a) mod 2 ^ W"
  by (simp add: val_negate val_mod del: mod_exp_eq)

text \<open>The quotient truncates toward zero and the remainder has the sign of the dividend, except
  for the one quotient that does not fit.\<close>

lemma divrem_correct:
  assumes "sval d \<noteq> 0" and "\<not> (sval n = - (2 ^ (W - 1)) \<and> sval d = - 1)"
  shows "\<exists>qr. divrem n d = Some qr \<and> sval (quo qr) = sval n sdiv sval d \<and>
    sval (rem qr) = sval n smod sval d"
proof -
  let ?n = "if neg n then negate n else n" and ?d = "if neg d then negate d else d"
  let ?P = "2 ^ (W - 1) :: int"
  obtain qr where qr: "udivrem ?n ?d = Some qr" "val (quo qr) = \<bar>sval n\<bar> div \<bar>sval d\<bar>"
      "val (rem qr) = \<bar>sval n\<bar> mod \<bar>sval d\<bar>"
    using udivrem_ok [of ?d ?n] assms(1) by (auto simp only: val_abs abs_eq_0)
  have q: "sval n sdiv sval d = (if neg n \<noteq> neg d then - val (quo qr) else val (quo qr))"
    and r: "sval n smod sval d = (if neg n then - val (rem qr) else val (rem qr))"
    by (simp_all only: qr neg_sval sdiv_abs [OF assms(1)] smod_abs [OF assms(1)])
  have dP: "\<bar>sval d\<bar> \<le> ?P" using sval_range [of d] by auto
  have "sval (if neg n \<noteq> neg d then negate (quo qr) else quo qr) = sval n sdiv sval d"
    using sdiv_range [OF assms(1) sval_range assms(2)]
    by (intro sval_unique) (simp_all only: val_sign q)
  moreover have "sval (if neg n then negate (rem qr) else rem qr) = sval n smod sval d"
    using smod_range [OF assms(1) dP, of "sval n"] by (intro sval_unique) (simp_all only: val_sign r)
  ultimately show ?thesis by (simp add: divrem_eq qr)
qed

end

section \<open>Unsigned division, one bit at a time\<close>

text \<open>The arithmetic a representation of \<open>W\<close>-bit numbers offers: sums and differences
  modulo \<open>2 ^ W\<close>, shifts by one place, and comparison.\<close>

locale wide_arith = wide_word val W
  for val :: "'a \<Rightarrow> int" and W :: nat +
  fixes add sub :: "'a \<Rightarrow> 'a \<Rightarrow> 'a"
    and lsl1 rsl1 :: "'a \<Rightarrow> 'a"
    and lt :: "'a \<Rightarrow> 'a \<Rightarrow> bool"
  assumes val_add: "val (add a b) = (val a + val b) mod 2 ^ W"
    and val_sub: "val (sub a b) = (val a - val b) mod 2 ^ W"
    and val_lsl1: "val (lsl1 a) = (val a * 2) mod 2 ^ W"
    and val_rsl1: "val (rsl1 a) = val a div 2"
    and lt_iff: "lt a b \<longleftrightarrow> val a < val b"

text \<open>The two loops of the bit-at-a-time division: \<open>norm\<close> shifts the divisor up to the
  dividend, \<open>gen\<close> brings it down again and collects the quotient.\<close>

locale bit_divide = wide_arith val W add sub lsl1 rsl1 lt
  for val :: "'a \<Rightarrow> int" and W :: nat and add sub lsl1 rsl1 lt +
  fixes one zero :: 'a
    and norm :: "'a \<Rightarrow> 'a \<Rightarrow> 'a \<Rightarrow> ('a \<times> 'a) option"
    and gen :: "'a \<Rightarrow> 'a \<Rightarrow> 'a \<Rightarrow> 'a \<Rightarrow> 'a quorem option"
  assumes val_one: "val one = 1" and val_zero: "val zero = 0"
    and norm_eq: "norm n d b =
      (if lt d n \<and> \<not> 2 ^ (W - 1) \<le> val d then norm n (lsl1 d) (lsl1 b) else Some (d, b))"
    and gen_eq: "gen n d b q =
      (if val b \<noteq> 0
       then (if \<not> lt n d then gen (sub n d) (rsl1 d) (rsl1 b) (add q b)
             else gen n (rsl1 d) (rsl1 b) q)
       else Some \<lparr> quo = q, rem = n \<rparr>)"
begin

lemma lsl1_exact: "val a < 2 ^ (W - 1) \<Longrightarrow> val (lsl1 a) = val a * 2"
  using val_nonneg [of a] pow_W by (simp add: val_lsl1 mod_pos_pos_trivial del: mod_exp_eq)

text \<open>Normalisation ends when the divisor is not zero, with the same power of two in the
  multiplied divisor and in the quotient bit, and a dividend below twice the divisor.\<close>

lemma norm_ok:
  assumes "0 < val d" and "val b \<le> val d" and "val b * D = val d" and "val b = 2 ^ k"
  shows "\<exists>d' b' k'. norm n d b = Some (d', b') \<and> val b' = 2 ^ k' \<and> val b' * D = val d' \<and>
    val n < 2 * val d'"
  using assms
proof (induction "nat (2 ^ W - val d)" arbitrary: d b k rule: less_induct)
  case less
  show ?case
  proof (cases "lt d n \<and> \<not> 2 ^ (W - 1) \<le> val d")
    case True
    then have "val d < 2 ^ (W - 1)" "val b < 2 ^ (W - 1)" using less.prems(2) by linarith+
    then have d: "val (lsl1 d) = val d * 2" and b: "val (lsl1 b) = val b * 2"
      by (simp_all add: lsl1_exact)
    have "nat (2 ^ W - val (lsl1 d)) < nat (2 ^ W - val d)"
      using less.prems val_less [of "lsl1 d"] by (simp add: d)
    from less.hyps [OF this, of "lsl1 b" "Suc k"] less.prems True show ?thesis
      by (subst norm_eq) (simp add: d b)
  next
    case False
    then have "val n \<le> val d \<or> 2 ^ (W - 1) \<le> val d" by (auto simp: lt_iff)
    then have "val n < 2 * val d"
      using less.prems(1) val_less [of n] pow_W by linarith
    then show ?thesis using less.prems False by (subst norm_eq) auto
  qed
qed

text \<open>Generation ends after as many rounds as the quotient bit has places, and adds the exact
  quotient to what has been collected.\<close>

lemma gen_ok:
  assumes "val b = 2 ^ k" and "val d = 2 ^ k * D" and "0 < D" and "val n < 2 ^ Suc k * D"
    and "val q + val n div D < 2 ^ W"
  shows "\<exists>qr. gen n d b q = Some qr \<and> val (quo qr) = val q + val n div D \<and>
    val (rem qr) = val n mod D"
  using assms
proof (induction k arbitrary: n d b q)
  case 0
  show ?case
  proof (cases "lt n d")
    case True
    then have "val n div D = 0" "val n mod D = val n"
      using 0 val_nonneg [of n] by (auto simp: lt_iff div_pos_pos_trivial mod_pos_pos_trivial)
    then show ?thesis using True 0 by (simp add: gen_eq [of n d b] gen_eq [of n "rsl1 d"] val_rsl1)
  next
    case False
    then have n: "D \<le> val n" "val n < 2 * D" using 0 by (auto simp: lt_iff)
    then have "val n div D = 1" "val n mod D = val n - D"
      by (auto intro: int_mod_pos_eq [where q = 1] int_div_pos_eq [where r = "val n - D"])
    moreover have "val (sub n d) = val n - D"
      using 0 n val_less [of n] by (simp add: val_sub mod_pos_pos_trivial del: mod_exp_eq)
    ultimately show ?thesis using False 0 val_nonneg [of q]
      by (simp add: gen_eq [of n d b] gen_eq [of _ "rsl1 d"] val_rsl1 val_add
          mod_pos_pos_trivial del: mod_exp_eq)
  qed
next
  case (Suc k)
  have half: "val (rsl1 b) = 2 ^ k" "val (rsl1 d) = 2 ^ k * D"
    using Suc.prems by (simp_all add: val_rsl1)
  show ?case
  proof (cases "lt n d")
    case True
    then have "val n < 2 ^ Suc k * D" using Suc.prems by (simp add: lt_iff)
    from Suc.IH [OF half Suc.prems(3) this Suc.prems(5)] True Suc.prems(1) show ?thesis
      by (simp add: gen_eq [of n d b])
  next
    case False
    let ?n = "sub n d" and ?q = "add q b"
    have n: "val n = val n - val d + 2 ^ Suc k * D" "val d \<le> val n"
      using False Suc.prems(2) by (simp_all add: lt_iff)
    have vn: "val ?n = val n - val d"
      using n val_less [of n] val_nonneg [of d]
      by (simp add: val_sub mod_pos_pos_trivial del: mod_exp_eq)
    have dv: "val n div D = 2 ^ Suc k + val ?n div D" "val n mod D = val ?n mod D"
      unfolding vn by (subst n(1); use Suc.prems(3) in simp)+
    have "0 \<le> val ?n div D" using Suc.prems(3) val_nonneg [of ?n] by (simp add: pos_imp_zdiv_nonneg_iff)
    then have vq: "val ?q = val q + 2 ^ Suc k"
      using Suc.prems(1,5) dv val_nonneg [of q]
      by (simp add: val_add mod_pos_pos_trivial del: mod_exp_eq)
    have "val ?n < 2 ^ Suc k * D" using Suc.prems(2,4) by (simp add: vn mult.commute)
    moreover have "val ?q + val ?n div D < 2 ^ W" using Suc.prems(5) by (simp add: vq dv)
    ultimately have "\<exists>qr. gen ?n (rsl1 d) (rsl1 b) ?q = Some qr \<and>
        val (quo qr) = val ?q + val ?n div D \<and> val (rem qr) = val ?n mod D"
      using Suc.IH [OF half Suc.prems(3)] by blast
    then show ?thesis using False Suc.prems(1) by (simp add: gen_eq [of n d b] vq dv add.assoc)
  qed
qed

lemma divide_ok:
  assumes "val d \<noteq> 0"
  shows "\<exists>d' b' qr. norm n d one = Some (d', b') \<and> gen n d' b' zero = Some qr \<and>
    val (quo qr) = val n div val d \<and> val (rem qr) = val n mod val d"
proof -
  have d: "0 < val d" using assms val_nonneg [of d] by linarith
  obtain d' b' k where n: "norm n d one = Some (d', b')" "val b' = 2 ^ k"
      "val b' * val d = val d'" "val n < 2 * val d'"
    using norm_ok [of d one "val d" 0 n] d val_one by auto
  have "val n div val d \<le> val n div 1"
    using d val_nonneg [of n] by (intro zdiv_mono2) auto
  then have "val zero + val n div val d < 2 ^ W"
    using val_less [of n] by (simp add: val_zero)
  moreover have "val d' = 2 ^ k * val d" "val n < 2 ^ Suc k * val d" using n by simp_all
  ultimately obtain qr where "gen n d' b' zero = Some qr"
      "val (quo qr) = val n div val d" "val (rem qr) = val n mod val d"
    using gen_ok [OF n(2), of d' "val d" n zero] d by (auto simp: val_zero)
  then show ?thesis using n by blast
qed

end

end
