(* ===== verification/Wide64.thy ===== *)
theory Wide64
  imports Wide_Divide
begin

text \<open>
  The 64-bit layer of the wide integers (\<open>cairo-wideint.c\<close> lines 33--311 and the macros of
  \<open>cairo-wideint-private.h\<close>).  The source has two implementations, chosen by
  \<open>HAVE_UINT64_T\<close>: native 64-bit arithmetic (\<open>cairo_*\<close> below, the one this tree
  compiles) and a structure of two 32-bit words (\<open>pair_*\<close> below).  A signed number is the
  word with its two's complement reading.  Every two-word operation is shown to implement the
  native one under \<open>pair_abs\<close>, and both divisions are shown correct.
\<close>

section \<open>Native 64-bit integers\<close>

definition cairo_uint32_to_uint64 :: "u32 \<Rightarrow> u64" where
  "cairo_uint32_to_uint64 i = ucast i"

definition cairo_int32_to_int64 :: "u32 \<Rightarrow> u64" where
  "cairo_int32_to_int64 i = scast i"

definition cairo_uint64_to_uint32 :: "u64 \<Rightarrow> u32" where
  "cairo_uint64_to_uint32 i = ucast i"

definition cairo_uint32s_to_uint64 :: "u32 \<Rightarrow> u32 \<Rightarrow> u64" where
  "cairo_uint32s_to_uint64 h l = push_bit 32 (ucast h) OR ucast l"

definition cairo_uint64_add :: "u64 \<Rightarrow> u64 \<Rightarrow> u64" where
  "cairo_uint64_add a b = a + b"

definition cairo_uint64_sub :: "u64 \<Rightarrow> u64 \<Rightarrow> u64" where
  "cairo_uint64_sub a b = a - b"

definition cairo_uint64_mul :: "u64 \<Rightarrow> u64 \<Rightarrow> u64" where
  "cairo_uint64_mul a b = a * b"

definition cairo_uint32x32_64_mul :: "u32 \<Rightarrow> u32 \<Rightarrow> u64" where
  "cairo_uint32x32_64_mul a b = ucast a * ucast b"

definition cairo_int32x32_64_mul :: "u32 \<Rightarrow> u32 \<Rightarrow> u64" where
  "cairo_int32x32_64_mul a b = scast a * scast b"

definition cairo_uint64_lsl :: "u64 \<Rightarrow> nat \<Rightarrow> u64" where
  "cairo_uint64_lsl a shift = push_bit shift a"

definition cairo_uint64_rsl :: "u64 \<Rightarrow> nat \<Rightarrow> u64" where
  "cairo_uint64_rsl a shift = drop_bit shift a"

definition cairo_uint64_rsa :: "u64 \<Rightarrow> nat \<Rightarrow> u64" where
  "cairo_uint64_rsa a shift = signed_drop_bit shift a"

definition cairo_uint64_lt :: "u64 \<Rightarrow> u64 \<Rightarrow> bool" where
  "cairo_uint64_lt a b = (a < b)"

definition cairo_uint64_eq :: "u64 \<Rightarrow> u64 \<Rightarrow> bool" where
  "cairo_uint64_eq a b = (a = b)"

definition cairo_int64_lt :: "u64 \<Rightarrow> u64 \<Rightarrow> bool" where
  "cairo_int64_lt a b = (sint a < sint b)"

definition cairo_uint64_negate :: "u64 \<Rightarrow> u64" where
  "cairo_uint64_negate a = - a"

definition cairo_int64_negative :: "u64 \<Rightarrow> bool" where
  "cairo_int64_negative a = (sint a < 0)"

definition cairo_uint64_not :: "u64 \<Rightarrow> u64" where
  "cairo_uint64_not a = NOT a"

definition cairo_uint64_gt :: "u64 \<Rightarrow> u64 \<Rightarrow> bool" where
  "cairo_uint64_gt a b = cairo_uint64_lt b a"

definition cairo_uint64_le :: "u64 \<Rightarrow> u64 \<Rightarrow> bool" where
  "cairo_uint64_le a b = (\<not> cairo_uint64_gt a b)"

definition cairo_uint64_ge :: "u64 \<Rightarrow> u64 \<Rightarrow> bool" where
  "cairo_uint64_ge a b = (\<not> cairo_uint64_lt a b)"

text \<open>Division by zero traps, which is the value \<open>None\<close>.\<close>

definition cairo_uint64_divrem :: "u64 \<Rightarrow> u64 \<Rightarrow> u64 quorem option" where
  "cairo_uint64_divrem num den =
    (if den = 0 then None else Some \<lparr> quo = num div den, rem = num mod den \<rparr>)"

definition cairo_int64_divrem :: "u64 \<Rightarrow> u64 \<Rightarrow> u64 quorem option" where
  "cairo_int64_divrem num den =
    (let num_neg = cairo_int64_negative num;
         den_neg = cairo_int64_negative den;
         num = (if num_neg then cairo_uint64_negate num else num);
         den = (if den_neg then cairo_uint64_negate den else den)
     in case cairo_uint64_divrem num den of
          None \<Rightarrow> None
        | Some uqr \<Rightarrow> Some
            \<lparr> quo = (if num_neg \<noteq> den_neg then cairo_uint64_negate (quo uqr) else quo uqr),
              rem = (if num_neg then cairo_uint64_negate (rem uqr) else rem uqr) \<rparr>)"

lemmas native64_defs =
  cairo_uint32_to_uint64_def cairo_int32_to_int64_def cairo_uint64_to_uint32_def
  cairo_uint32s_to_uint64_def cairo_uint64_add_def cairo_uint64_sub_def cairo_uint64_mul_def
  cairo_uint32x32_64_mul_def cairo_int32x32_64_mul_def cairo_uint64_lsl_def cairo_uint64_rsl_def
  cairo_uint64_rsa_def cairo_uint64_lt_def cairo_uint64_eq_def cairo_int64_lt_def
  cairo_uint64_negate_def cairo_int64_negative_def cairo_uint64_not_def
  cairo_uint64_gt_def cairo_uint64_le_def cairo_uint64_ge_def

section \<open>64-bit integers as two 32-bit words\<close>

record uint64_pair =
  plo :: u32
  phi :: u32

definition pair_uint32_to_uint64 :: "u32 \<Rightarrow> uint64_pair" where
  "pair_uint32_to_uint64 i = \<lparr> plo = i, phi = 0 \<rparr>"

definition pair_int32_to_int64 :: "u32 \<Rightarrow> uint64_pair" where
  "pair_int32_to_int64 i = \<lparr> plo = i, phi = (if sint i < 0 then - 1 else 0) \<rparr>"

definition pair_uint32s_to_uint64 :: "u32 \<Rightarrow> u32 \<Rightarrow> uint64_pair" where
  "pair_uint32s_to_uint64 h l = \<lparr> plo = l, phi = h \<rparr>"

definition pair_uint64_add :: "uint64_pair \<Rightarrow> uint64_pair \<Rightarrow> uint64_pair" where
  "pair_uint64_add a b =
    (let hi = phi a + phi b;
         lo = plo a + plo b;
         hi = (if lo < plo a then hi + 1 else hi)
     in \<lparr> plo = lo, phi = hi \<rparr>)"

definition pair_uint64_sub :: "uint64_pair \<Rightarrow> uint64_pair \<Rightarrow> uint64_pair" where
  "pair_uint64_sub a b =
    (let hi = phi a - phi b;
         lo = plo a - plo b;
         hi = (if lo > plo a then hi - 1 else hi)
     in \<lparr> plo = lo, phi = hi \<rparr>)"

definition uint32_lo :: "u32 \<Rightarrow> u32" where
  "uint32_lo i = i AND 0xffff"

definition uint32_hi :: "u32 \<Rightarrow> u32" where
  "uint32_hi i = drop_bit 16 i"

definition uint32_carry16 :: u32 where
  "uint32_carry16 = push_bit 16 1"

definition pair_uint32x32_64_mul :: "u32 \<Rightarrow> u32 \<Rightarrow> uint64_pair" where
  "pair_uint32x32_64_mul a b =
    (let al = (ucast (uint32_lo a) :: u16);
         ah = (ucast (uint32_hi a) :: u16);
         bl = (ucast (uint32_lo b) :: u16);
         bh = (ucast (uint32_hi b) :: u16);
         r0 = (ucast al :: u32) * ucast bl;
         r1 = (ucast al :: u32) * ucast bh;
         r2 = (ucast ah :: u32) * ucast bl;
         r3 = (ucast ah :: u32) * ucast bh;
         r1 = r1 + uint32_hi r0;
         r1 = r1 + r2;
         r3 = (if r1 < r2 then r3 + uint32_carry16 else r3)
     in \<lparr> plo = push_bit 16 (uint32_lo r1) + uint32_lo r0, phi = r3 + uint32_hi r1 \<rparr>)"

definition pair_int32x32_64_mul :: "u32 \<Rightarrow> u32 \<Rightarrow> uint64_pair" where
  "pair_int32x32_64_mul a b =
    (let s = pair_uint32x32_64_mul a b;
         s = (if sint a < 0 then s \<lparr> phi := phi s - b \<rparr> else s);
         s = (if sint b < 0 then s \<lparr> phi := phi s - a \<rparr> else s)
     in s)"

definition pair_uint64_mul :: "uint64_pair \<Rightarrow> uint64_pair \<Rightarrow> uint64_pair" where
  "pair_uint64_mul a b =
    (let s = pair_uint32x32_64_mul (plo a) (plo b)
     in s \<lparr> phi := phi s + (plo a * phi b + phi a * plo b) \<rparr>)"

definition pair_uint64_lsl :: "uint64_pair \<Rightarrow> nat \<Rightarrow> uint64_pair" where
  "pair_uint64_lsl a shift =
    (let (a, shift) = (if shift \<ge> 32 then (\<lparr> plo = 0, phi = plo a \<rparr>, shift - 32) else (a, shift))
     in if shift \<noteq> 0
        then \<lparr> plo = push_bit shift (plo a),
               phi = push_bit shift (phi a) OR drop_bit (32 - shift) (plo a) \<rparr>
        else a)"

definition pair_uint64_rsl :: "uint64_pair \<Rightarrow> nat \<Rightarrow> uint64_pair" where
  "pair_uint64_rsl a shift =
    (let (a, shift) = (if shift \<ge> 32 then (\<lparr> plo = phi a, phi = 0 \<rparr>, shift - 32) else (a, shift))
     in if shift \<noteq> 0
        then \<lparr> plo = drop_bit shift (plo a) OR push_bit (32 - shift) (phi a),
               phi = drop_bit shift (phi a) \<rparr>
        else a)"

definition cairo_uint32_rsa :: "u32 \<Rightarrow> nat \<Rightarrow> u32" where
  "cairo_uint32_rsa a n = signed_drop_bit n a"

definition pair_uint64_rsa :: "uint64_pair \<Rightarrow> nat \<Rightarrow> uint64_pair" where
  "pair_uint64_rsa a shift =
    (let (a, shift) = (if shift \<ge> 32
                       then (\<lparr> plo = phi a, phi = cairo_uint32_rsa (phi a) 31 \<rparr>, shift - 32)
                       else (a, shift))
     in if shift \<noteq> 0
        then \<lparr> plo = drop_bit shift (plo a) OR push_bit (32 - shift) (phi a),
               phi = cairo_uint32_rsa (phi a) shift \<rparr>
        else a)"

definition pair_uint64_lt :: "uint64_pair \<Rightarrow> uint64_pair \<Rightarrow> bool" where
  "pair_uint64_lt a b = (phi a < phi b \<or> (phi a = phi b \<and> plo a < plo b))"

definition pair_uint64_eq :: "uint64_pair \<Rightarrow> uint64_pair \<Rightarrow> bool" where
  "pair_uint64_eq a b = (phi a = phi b \<and> plo a = plo b)"

definition pair_int64_negative :: "uint64_pair \<Rightarrow> bool" where
  "pair_int64_negative a = (sint (phi a) < 0)"

definition pair_int64_lt :: "uint64_pair \<Rightarrow> uint64_pair \<Rightarrow> bool" where
  "pair_int64_lt a b =
    (if pair_int64_negative a \<and> \<not> pair_int64_negative b then True
     else if \<not> pair_int64_negative a \<and> pair_int64_negative b then False
     else pair_uint64_lt a b)"

definition pair_uint64_not :: "uint64_pair \<Rightarrow> uint64_pair" where
  "pair_uint64_not a = \<lparr> plo = NOT (plo a), phi = NOT (phi a) \<rparr>"

definition pair_uint64_negate :: "uint64_pair \<Rightarrow> uint64_pair" where
  "pair_uint64_negate a =
    (let lo = NOT (plo a);
         hi = NOT (phi a);
         lo = lo + 1
     in \<lparr> plo = lo, phi = (if lo = 0 then hi + 1 else hi) \<rparr>)"

definition pair_uint64_le :: "uint64_pair \<Rightarrow> uint64_pair \<Rightarrow> bool" where
  "pair_uint64_le a b = (\<not> pair_uint64_lt b a)"

text \<open>The two loops of \<open>_cairo_uint64_divrem\<close>; a loop that never ends has the value
  \<open>None\<close>.\<close>

partial_function (option) pair_divrem_norm ::
    "uint64_pair \<Rightarrow> uint64_pair \<Rightarrow> uint64_pair \<Rightarrow> (uint64_pair \<times> uint64_pair) option" where
  "pair_divrem_norm num den bitv =
    (if pair_uint64_lt den num \<and> phi den AND 0x80000000 = 0
     then pair_divrem_norm num (pair_uint64_lsl den 1) (pair_uint64_lsl bitv 1)
     else Some (den, bitv))"

partial_function (option) pair_divrem_gen ::
    "uint64_pair \<Rightarrow> uint64_pair \<Rightarrow> uint64_pair \<Rightarrow> uint64_pair \<Rightarrow> uint64_pair quorem option" where
  "pair_divrem_gen num den bitv quot =
    (if phi bitv OR plo bitv \<noteq> 0
     then (if pair_uint64_le den num
           then pair_divrem_gen (pair_uint64_sub num den) (pair_uint64_rsl den 1)
                  (pair_uint64_rsl bitv 1) (pair_uint64_add quot bitv)
           else pair_divrem_gen num (pair_uint64_rsl den 1) (pair_uint64_rsl bitv 1) quot)
     else Some \<lparr> quo = quot, rem = num \<rparr>)"

definition pair_uint64_divrem :: "uint64_pair \<Rightarrow> uint64_pair \<Rightarrow> uint64_pair quorem option" where
  "pair_uint64_divrem num den =
    (case pair_divrem_norm num den (pair_uint32_to_uint64 1) of
       None \<Rightarrow> None
     | Some (den, bitv) \<Rightarrow> pair_divrem_gen num den bitv (pair_uint32_to_uint64 0))"

definition pair_int64_divrem :: "uint64_pair \<Rightarrow> uint64_pair \<Rightarrow> uint64_pair quorem option" where
  "pair_int64_divrem num den =
    (let num_neg = pair_int64_negative num;
         den_neg = pair_int64_negative den;
         num = (if num_neg then pair_uint64_negate num else num);
         den = (if den_neg then pair_uint64_negate den else den)
     in case pair_uint64_divrem num den of
          None \<Rightarrow> None
        | Some uqr \<Rightarrow> Some
            \<lparr> quo = (if num_neg \<noteq> den_neg then pair_uint64_negate (quo uqr) else quo uqr),
              rem = (if num_neg then pair_uint64_negate (rem uqr) else rem uqr) \<rparr>)"

section \<open>The two-word representation implements the native one\<close>

definition pair_val :: "uint64_pair \<Rightarrow> int" where
  "pair_val a = wval (phi a) (plo a)"

definition pair_abs :: "uint64_pair \<Rightarrow> u64" where
  "pair_abs a = word_of_int (pair_val a)"

lemma pair_val_range [simp]: "0 \<le> pair_val a" "pair_val a < 2 ^ 64"
  using wval_less [of "phi a" "plo a"] by (simp_all add: pair_val_def)

lemmas pair_val_less [simp] = pair_val_range(2) [simplified]

lemma uint_pair_abs [val_simps]: "uint (pair_abs a) = pair_val a"
  using pair_val_range [of a] by (simp add: pair_abs_def uint_word_of_int mod_pos_pos_trivial del: mod_exp_eq pair_val_range)

lemma pair_abs_eqI: "pair_val a = uint b \<Longrightarrow> pair_abs a = b"
  by (simp add: word_uint_eq_iff uint_pair_abs)

lemma pair_val_inj: "pair_val a = pair_val b \<longleftrightarrow> a = b"
  by (cases a, cases b) (auto simp: pair_val_def wval_inj)

lemma pair_val_const:
  "pair_val (pair_uint32_to_uint64 i) = uint i"
  "pair_val (pair_uint32s_to_uint64 h l) = uint h * 2 ^ 32 + uint l"
  by (simp_all add: pair_val_def wval_def pair_uint32_to_uint64_def pair_uint32s_to_uint64_def)

lemma pair_val_add: "pair_val (pair_uint64_add a b) = (pair_val a + pair_val b) mod 2 ^ 64"
  using wval_add [of "plo a" "plo b" "phi a" "phi b"]
  by (simp add: pair_uint64_add_def pair_val_def Let_def)

lemma pair_val_sub: "pair_val (pair_uint64_sub a b) = (pair_val a - pair_val b) mod 2 ^ 64"
  using wval_sub [of "plo a" "plo b" "phi a" "phi b"]
  by (simp add: pair_uint64_sub_def pair_val_def Let_def)

lemma pair_lt_iff: "pair_uint64_lt a b \<longleftrightarrow> pair_val a < pair_val b"
  by (simp add: pair_uint64_lt_def pair_val_def wval_less_iff)

lemma pair_val_lsl:
  assumes "shift < 64"
  shows "pair_val (pair_uint64_lsl a shift) = (pair_val a * 2 ^ shift) mod 2 ^ 64"
  using wval_lsl_hi [of shift "plo a" "phi a"] wval_lsl [of shift "phi a" "plo a"]
    wval_lsl [of 0 "phi a" "plo a"]
  by (auto simp: pair_val_def pair_uint64_lsl_def)

lemma pair_val_rsl:
  assumes "shift < 64"
  shows "pair_val (pair_uint64_rsl a shift) = pair_val a div 2 ^ shift"
  using wval_rsl_hi [of shift "phi a" "plo a"] wval_rsl [of shift "phi a" "plo a"] assms
  by (auto simp: pair_val_def pair_uint64_rsl_def)

definition pair_sval :: "uint64_pair \<Rightarrow> int" where
  "pair_sval a = swval (phi a) (plo a)"

lemma pair_sval_rsa:
  assumes "shift < 64"
  shows "pair_sval (pair_uint64_rsa a shift) = pair_sval a div 2 ^ shift"
  using swval_rsa_hi [of shift "phi a" "plo a"] swval_rsa [of shift "phi a" "plo a"] assms
    swval_rsa [of "shift - 32" "signed_drop_bit 31 (phi a)" "phi a"]
  by (auto simp: pair_sval_def pair_uint64_rsa_def cairo_uint32_rsa_def)

lemma pair_val_not: "pair_val (pair_uint64_not a) = 2 ^ 64 - 1 - pair_val a"
  using wval_not [of "phi a" "plo a"] by (simp add: pair_val_def pair_uint64_not_def)

lemma pair_negate_add:
  "pair_uint64_negate a = pair_uint64_add (pair_uint64_not a) (pair_uint32_to_uint64 1)"
  by (simp add: pair_uint64_negate_def pair_uint64_add_def pair_uint64_not_def
      pair_uint32_to_uint64_def Let_def carry_one)

lemma pair_val_negate: "pair_val (pair_uint64_negate a) = (- pair_val a) mod 2 ^ 64"
proof -
  have "pair_val (pair_uint64_negate a) = (2 ^ 64 + (- pair_val a)) mod 2 ^ 64"
    by (simp add: pair_negate_add pair_val_add pair_val_not pair_val_const)
  then show ?thesis by (simp only: mod_add_self1)
qed

lemma pair_sval_twos: "pair_sval a = twos 64 (pair_val a)"
  using swval_twos [of "phi a" "plo a"] by (simp add: pair_sval_def pair_val_def)

lemma sint_pair_abs: "sint (pair_abs a) = pair_sval a"
  using sint_twos [of "pair_abs a"] by (simp add: pair_sval_twos uint_pair_abs)

lemma pair_negative_iff: "pair_int64_negative a \<longleftrightarrow> 2 ^ (64 - 1) \<le> pair_val a"
  using wval_msb_iff [of "phi a" "plo a"] by (simp add: pair_int64_negative_def pair_val_def)

lemma uint32_lo_take: "uint32_lo i = take_bit 16 i"
  by (simp add: uint32_lo_def take_bit_eq_mask mask_eq_exp_minus_1)

lemma uint32_halves:
  "uint (ucast (ucast (uint32_lo a) :: u16) :: u32) = uint a mod 2 ^ 16"
  "uint (ucast (ucast (uint32_hi a) :: u16) :: u32) = uint a div 2 ^ 16"
proof -
  have "uint a div 2 ^ 16 < 2 ^ 16" using uint_bounded [of a] by (intro pos_div_less) simp_all
  then show "uint (ucast (ucast (uint32_hi a) :: u16) :: u32) = uint a div 2 ^ 16"
    by (simp only: uint32_hi_def unsigned_ucast_eq uint_take_bit uint_drop_bit)
      (simp add: take_bit_eq_mod mod_pos_pos_trivial pos_imp_zdiv_nonneg_iff)
  show "uint (ucast (ucast (uint32_lo a) :: u16) :: u32) = uint a mod 2 ^ 16"
    by (simp only: uint32_lo_take unsigned_ucast_eq uint_take_bit)
      (simp add: take_bit_eq_mod)
qed

lemma pair_val_mul32: "pair_val (pair_uint32x32_64_mul a b) = uint a * uint b"
proof -
  let ?l = "\<lambda>x. ucast (ucast (uint32_lo x) :: u16) :: u32"
  let ?h = "\<lambda>x. ucast (ucast (uint32_hi x) :: u16) :: u32"
  have b: "uint (?l x) < 2 ^ 16" "uint (?h x) < 2 ^ 16" for x
    using uint_bounded [of x] unfolding uint32_halves by (simp, intro pos_div_less) simp_all
  have "pair_val (pair_uint32x32_64_mul a b) =
      (uint (?h a) * 2 ^ 16 + uint (?l a)) * (uint (?h b) * 2 ^ 16 + uint (?l b))"
    using wval_schoolbook [of 16 "?l a" "?h a" "?l b" "?h b", OF _ b b]
    by (simp only: pair_val_def pair_uint32x32_64_mul_def Let_def uint32_lo_take uint32_hi_def
        uint32_carry16_def uint64_pair.simps) simp
  also have "\<dots> = uint a * uint b" unfolding uint32_halves by (simp only: div_mult_mod_eq)
  finally show ?thesis .
qed

lemma pair_val_mul: "pair_val (pair_uint64_mul a b) = (pair_val a * pair_val b) mod 2 ^ 64"
proof -
  let ?s = "pair_uint32x32_64_mul (plo a) (plo b)" and ?c = "plo a * phi b + phi a * plo b"
  have "pair_val a * pair_val b =
      pair_val ?s + (uint (plo a) * uint (phi b) + uint (phi a) * uint (plo b)) * 2 ^ 32
        + (uint (phi a) * uint (phi b)) * 2 ^ 64"
    unfolding pair_val_mul32 by (simp add: pair_val_def wval_def algebra_simps)
  also have "\<dots> mod 2 ^ 64 =
      (pair_val ?s + (uint (plo a) * uint (phi b) + uint (phi a) * uint (plo b)) * 2 ^ 32) mod 2 ^ 64"
    by (rule mod_mult_self1)
  also have "\<dots> = (pair_val ?s + uint ?c * 2 ^ 32) mod 2 ^ 64"
  proof -
    have "uint ?c = (uint (plo a) * uint (phi b) + uint (phi a) * uint (plo b)) mod 2 ^ 32"
      by (simp add: uint_add_mod uint_mul_mod mod_simps)
    then have "uint ?c * 2 ^ 32 =
        ((uint (plo a) * uint (phi b) + uint (phi a) * uint (plo b)) * 2 ^ 32) mod (2 ^ 32 * 2 ^ 32)"
      by (simp only: mult_mod_left)
    then show ?thesis by (simp add: mod_simps)
  qed
  also have "\<dots> = pair_val (pair_uint64_add ?s \<lparr> plo = 0, phi = ?c \<rparr>)"
    by (simp add: pair_val_add) (simp add: pair_val_def wval_def)
  also have "pair_uint64_add ?s \<lparr> plo = 0, phi = ?c \<rparr> = pair_uint64_mul a b"
    by (simp add: pair_uint64_add_def pair_uint64_mul_def Let_def)
  finally show ?thesis by simp
qed

section \<open>The interfaces of division, discharged\<close>

lemma msb_mask32: "(w :: u32) AND 0x80000000 = 0 \<longleftrightarrow> \<not> sint w < 0"
proof -
  have "w AND 0x80000000 = w AND 2 ^ 31" by simp
  also have "\<dots> = 0 \<longleftrightarrow> \<not> bit w 31" by (rule and_exp_eq_0_iff_not_bit)
  also have "\<dots> \<longleftrightarrow> \<not> sint w < 0"
    using bit_last_iff [of w] by simp
  finally show ?thesis .
qed

interpretation pair_wide: wide_arith pair_val 64 pair_uint64_add pair_uint64_sub
    "\<lambda>a. pair_uint64_lsl a 1" "\<lambda>a. pair_uint64_rsl a 1" pair_uint64_lt
  by unfold_locales
    (simp_all add: pair_val_inj pair_val_add pair_val_sub pair_val_lsl pair_val_rsl pair_lt_iff)

interpretation pair_div: bit_divide pair_val 64 pair_uint64_add pair_uint64_sub
    "\<lambda>a. pair_uint64_lsl a 1" "\<lambda>a. pair_uint64_rsl a 1" pair_uint64_lt
    "pair_uint32_to_uint64 1" "pair_uint32_to_uint64 0" pair_divrem_norm pair_divrem_gen
proof unfold_locales
  show "pair_val (pair_uint32_to_uint64 1) = 1" "pair_val (pair_uint32_to_uint64 0) = 0"
    by (simp_all add: pair_val_const)
  have msb: "phi d AND 0x80000000 = 0 \<longleftrightarrow> \<not> 2 ^ (64 - 1) \<le> pair_val d" for d
    by (simp only: msb_mask32 pair_negative_iff [symmetric] pair_int64_negative_def)
  show "pair_divrem_norm n d b = (if pair_uint64_lt d n \<and> \<not> 2 ^ (64 - 1) \<le> pair_val d
      then pair_divrem_norm n (pair_uint64_lsl d 1) (pair_uint64_lsl b 1) else Some (d, b))" for n d b
    by (subst pair_divrem_norm.simps) (simp only: msb)
  have nz: "phi b OR plo b \<noteq> 0 \<longleftrightarrow> pair_val b \<noteq> 0" for b
    using pair_val_inj [of b "\<lparr> plo = 0, phi = 0 \<rparr>"]
    by (cases b) (auto simp: pair_val_def wval_def or_eq_0_iff)
  show "pair_divrem_gen n d b q = (if pair_val b \<noteq> 0
      then if \<not> pair_uint64_lt n d
           then pair_divrem_gen (pair_uint64_sub n d) (pair_uint64_rsl d 1) (pair_uint64_rsl b 1)
                  (pair_uint64_add q b)
           else pair_divrem_gen n (pair_uint64_rsl d 1) (pair_uint64_rsl b 1) q
      else Some \<lparr>quo = q, rem = n\<rparr>)" for n d b q
    by (subst pair_divrem_gen.simps) (simp only: nz pair_uint64_le_def)
qed

lemma pair_udivrem_ok:
  assumes "pair_val den \<noteq> 0"
  shows "\<exists>qr. pair_uint64_divrem num den = Some qr \<and>
    pair_val (quo qr) = pair_val num div pair_val den \<and>
    pair_val (rem qr) = pair_val num mod pair_val den"
  using pair_div.divide_ok [OF assms, of num] by (auto simp: pair_uint64_divrem_def)

interpretation pair_sdiv: signed_divide pair_val 64 pair_int64_negative pair_uint64_negate
    pair_uint64_divrem pair_int64_divrem
proof unfold_locales
  show "pair_int64_divrem n d =
      (case pair_uint64_divrem (if pair_int64_negative n then pair_uint64_negate n else n)
              (if pair_int64_negative d then pair_uint64_negate d else d) of
         None \<Rightarrow> None
       | Some qr \<Rightarrow> Some \<lparr>quo = if pair_int64_negative n \<noteq> pair_int64_negative d
            then pair_uint64_negate (quo qr) else quo qr,
          rem = if pair_int64_negative n then pair_uint64_negate (rem qr) else rem qr\<rparr>)" for n d
    by (simp only: pair_int64_divrem_def Let_def)
qed (simp_all add: pair_negative_iff pair_val_negate pair_udivrem_ok)

interpretation native_sdiv: signed_divide "uint :: u64 \<Rightarrow> int" 64 cairo_int64_negative
    cairo_uint64_negate cairo_uint64_divrem cairo_int64_divrem
proof unfold_locales
  show "cairo_int64_negative a \<longleftrightarrow> 2 ^ (64 - 1) \<le> uint a" for a
    using sint_neg_iff [of a] by (simp add: cairo_int64_negative_def)
  show "uint a < 2 ^ 64" for a :: u64 using uint_bounded [of a] by simp
  show "uint a = uint b \<Longrightarrow> a = b" for a b :: u64 by (simp add: word_uint_eq_iff)
  show "uint (cairo_uint64_negate a) = (- uint a) mod 2 ^ 64" for a
    by (simp add: cairo_uint64_negate_def uint_word_ariths)
  show "\<exists>qr. cairo_uint64_divrem n d = Some qr \<and> uint (quo qr) = uint n div uint d \<and>
      uint (rem qr) = uint n mod uint d" if "uint d \<noteq> 0" for n d
    using that by (auto simp: cairo_uint64_divrem_def uint_div uint_mod)
  show "cairo_int64_divrem n d =
      (case cairo_uint64_divrem (if cairo_int64_negative n then cairo_uint64_negate n else n)
              (if cairo_int64_negative d then cairo_uint64_negate d else d) of
         None \<Rightarrow> None
       | Some qr \<Rightarrow> Some \<lparr>quo = if cairo_int64_negative n \<noteq> cairo_int64_negative d
            then cairo_uint64_negate (quo qr) else quo qr,
          rem = if cairo_int64_negative n then cairo_uint64_negate (rem qr) else rem qr\<rparr>)" for n d
    by (simp only: cairo_int64_divrem_def Let_def)
qed simp_all

section \<open>Properties of the 64-bit layer\<close>

lemma pair_val_sub_hi:
  "pair_val (if c then s \<lparr> phi := phi s - b \<rparr> else s) =
    (pair_val s - (if c then uint b * 2 ^ 32 else 0)) mod 2 ^ 64"
proof -
  have "s \<lparr> phi := phi s - b \<rparr> = pair_uint64_sub s \<lparr> plo = 0, phi = b \<rparr>"
    by (simp add: pair_uint64_sub_def)
  moreover have "pair_val \<lparr> plo = 0, phi = b \<rparr> = uint b * 2 ^ 32"
    by (simp add: pair_val_def wval_def)
  ultimately show ?thesis by (simp add: pair_val_sub mod_pos_pos_trivial)
qed

lemma pair_val_int_mul32: "pair_val (pair_int32x32_64_mul a b) = (sint a * sint b) mod 2 ^ 64"
proof -
  let ?c = "\<lambda>x y. if sint x < 0 then uint y * 2 ^ 32 else (0 :: int)"
  have "pair_val (pair_int32x32_64_mul a b) = (uint a * uint b - ?c a b - ?c b a) mod 2 ^ 64"
    by (simp only: pair_int32x32_64_mul_def Let_def pair_val_sub_hi pair_val_mul32 mod_diff_left_eq)
  also have "uint a * uint b - ?c a b - ?c b a =
      sint a * sint b - (if sint a < 0 \<and> sint b < 0 then 2 ^ 64 else 0)"
    unfolding uint_of_sint [of a] uint_of_sint [of b]
    by (cases "sint a < 0"; cases "sint b < 0") (simp_all add: algebra_simps)
  also have "\<dots> mod 2 ^ 64 = (sint a * sint b) mod 2 ^ 64"
    by (cases "sint a < 0 \<and> sint b < 0") (simp_all only: if_True if_False minus_mod_self2 diff_zero simp_thms)
  finally show ?thesis .
qed

lemma uint_scast: "uint (scast (a :: u32) :: u64) = sint a mod 2 ^ 64"
  by (simp only: scast_eq uint_word_of_int, simp)

lemma uint_ucast: "uint (ucast (a :: u32) :: u64) = uint a"
  using uint_bounded [of a] by (simp add: unsigned_ucast_eq take_bit_int_eq_self)

lemma pair_int_mul_native: "pair_abs (pair_int32x32_64_mul a b) = cairo_int32x32_64_mul a b"
  by (rule pair_abs_eqI)
    (simp add: pair_val_int_mul32 cairo_int32x32_64_mul_def uint_mul_mod uint_scast mod_simps)

lemma pair_conv_native:
  "pair_abs (pair_uint32_to_uint64 i) = cairo_uint32_to_uint64 i"
  "pair_abs (pair_int32_to_int64 i) = cairo_int32_to_int64 i"
  "pair_abs (pair_uint32s_to_uint64 h l) = cairo_uint32s_to_uint64 h l"
proof -
  show "pair_abs (pair_uint32_to_uint64 i) = cairo_uint32_to_uint64 i"
    by (rule pair_abs_eqI) (simp add: pair_val_const cairo_uint32_to_uint64_def uint_ucast)
  show "pair_abs (pair_int32_to_int64 i) = cairo_int32_to_int64 i"
    by (rule pair_abs_eqI)
      (use sint_ge [of i] sint_lt [of i] in \<open>auto simp: pair_val_def wval_def pair_int32_to_int64_def
        cairo_int32_to_int64_def uint_scast uint_of_sint [of i] uint_word_ariths
        intro!: int_mod_pos_eq [symmetric, where q = "- 1"]\<close>)
  show "pair_abs (pair_uint32s_to_uint64 h l) = cairo_uint32s_to_uint64 h l"
  proof (rule pair_abs_eqI)
    have "uint (push_bit 32 (ucast h) OR ucast l :: u64) =
        uint (push_bit 32 (ucast h :: u64)) + uint (ucast l :: u64)"
      by (rule uint_or_disjoint) (auto simp: bit_simps dest: bit_imp_le_length)
    also have "\<dots> = uint h * 2 ^ 32 + uint l"
      using uint_bounded [of h] uint_bounded [of l]
      by (simp add: uint_push_bit uint_ucast mod_pos_pos_trivial)
    finally show "pair_val (pair_uint32s_to_uint64 h l) = uint (cairo_uint32s_to_uint64 h l)"
      by (simp add: pair_val_const cairo_uint32s_to_uint64_def)
  qed
qed

text \<open>The two compile-time implementations of the 64-bit integers agree: read through the
  abstraction, every arithmetic, comparison and conversion operation of the two-word structure
  (carry and borrow between the words, the four-product multiplication and its signed correction
  included) is the native operation, wrap-around included.\<close>

theorem pair_arith_refines:
  "pair_abs (pair_uint64_add a b) = cairo_uint64_add (pair_abs a) (pair_abs b) \<and>
   pair_abs (pair_uint64_sub a b) = cairo_uint64_sub (pair_abs a) (pair_abs b) \<and>
   pair_abs (pair_uint64_mul a b) = cairo_uint64_mul (pair_abs a) (pair_abs b) \<and>
   pair_abs (pair_uint32x32_64_mul i j) = cairo_uint32x32_64_mul i j \<and>
   pair_abs (pair_int32x32_64_mul i j) = cairo_int32x32_64_mul i j \<and>
   pair_abs (pair_uint64_negate a) = cairo_uint64_negate (pair_abs a) \<and>
   pair_abs (pair_uint64_not a) = cairo_uint64_not (pair_abs a) \<and>
   pair_uint64_lt a b = cairo_uint64_lt (pair_abs a) (pair_abs b) \<and>
   pair_uint64_eq a b = cairo_uint64_eq (pair_abs a) (pair_abs b) \<and>
   pair_int64_lt a b = cairo_int64_lt (pair_abs a) (pair_abs b) \<and>
   pair_int64_negative a = cairo_int64_negative (pair_abs a) \<and>
   pair_abs (pair_uint32_to_uint64 i) = cairo_uint32_to_uint64 i \<and>
   pair_abs (pair_int32_to_int64 i) = cairo_int32_to_int64 i \<and>
   pair_abs (pair_uint32s_to_uint64 i j) = cairo_uint32s_to_uint64 i j"
proof (intro conjI)
  show "pair_abs (pair_uint64_add a b) = cairo_uint64_add (pair_abs a) (pair_abs b)"
    by (rule pair_abs_eqI) (simp add: pair_val_add cairo_uint64_add_def uint_add_mod uint_pair_abs)
  show "pair_abs (pair_uint64_sub a b) = cairo_uint64_sub (pair_abs a) (pair_abs b)"
    by (rule pair_abs_eqI) (simp add: pair_val_sub cairo_uint64_sub_def uint_sub_mod uint_pair_abs)
  show "pair_abs (pair_uint64_mul a b) = cairo_uint64_mul (pair_abs a) (pair_abs b)"
    by (rule pair_abs_eqI) (simp add: pair_val_mul cairo_uint64_mul_def uint_mul_mod uint_pair_abs)
  show "pair_abs (pair_uint32x32_64_mul i j) = cairo_uint32x32_64_mul i j"
    using pair_val_range [of "pair_uint32x32_64_mul i j"]
    by (intro pair_abs_eqI)
      (simp add: pair_val_mul32 cairo_uint32x32_64_mul_def uint_mul_mod uint_ucast mod_pos_pos_trivial)
  show "pair_abs (pair_uint64_negate a) = cairo_uint64_negate (pair_abs a)"
    by (rule pair_abs_eqI)
      (simp add: pair_val_negate cairo_uint64_negate_def uint_word_ariths uint_pair_abs)
  show "pair_abs (pair_uint64_not a) = cairo_uint64_not (pair_abs a)"
    by (rule pair_abs_eqI) (simp add: pair_val_not cairo_uint64_not_def uint_not uint_pair_abs)
  show "pair_uint64_lt a b = cairo_uint64_lt (pair_abs a) (pair_abs b)"
    by (simp add: pair_lt_iff cairo_uint64_lt_def word_less_def uint_pair_abs)
  show "pair_uint64_eq a b = cairo_uint64_eq (pair_abs a) (pair_abs b)"
    by (auto simp: pair_uint64_eq_def cairo_uint64_eq_def word_uint_eq_iff uint_pair_abs
        pair_val_def wval_inj)
  show "pair_int64_lt a b = cairo_int64_lt (pair_abs a) (pair_abs b)"
    using pair_val_range [of a] pair_val_range [of b]
    by (simp add: pair_int64_lt_def cairo_int64_lt_def sint_pair_abs pair_sval_twos twos_def
        pair_negative_iff pair_lt_iff del: pair_val_range pair_val_less)
  show "pair_int64_negative a = cairo_int64_negative (pair_abs a)"
    using pair_val_range [of a]
    by (simp add: cairo_int64_negative_def sint_pair_abs pair_sval_twos twos_def pair_negative_iff
        del: pair_val_range pair_val_less)
qed (rule pair_int_mul_native pair_conv_native)+

text \<open>For every shift count below the width, the left shift, the logical right shift and the
  arithmetic right shift of the two-word structure, which split at 32 and move bits between the
  words, are the native shifts.\<close>

theorem pair_shift_refines:
  assumes "shift < 64"
  shows "pair_abs (pair_uint64_lsl a shift) = cairo_uint64_lsl (pair_abs a) shift \<and>
    pair_abs (pair_uint64_rsl a shift) = cairo_uint64_rsl (pair_abs a) shift \<and>
    pair_abs (pair_uint64_rsa a shift) = cairo_uint64_rsa (pair_abs a) shift"
proof (intro conjI)
  show "pair_abs (pair_uint64_lsl a shift) = cairo_uint64_lsl (pair_abs a) shift"
    by (rule pair_abs_eqI)
      (simp add: pair_val_lsl [OF assms] cairo_uint64_lsl_def uint_push_bit uint_pair_abs)
  show "pair_abs (pair_uint64_rsl a shift) = cairo_uint64_rsl (pair_abs a) shift"
    by (rule pair_abs_eqI)
      (simp add: pair_val_rsl [OF assms] cairo_uint64_rsl_def uint_drop_bit uint_pair_abs)
  have "sint (pair_abs (pair_uint64_rsa a shift)) = sint (cairo_uint64_rsa (pair_abs a) shift)"
    by (simp add: cairo_uint64_rsa_def sint_signed_drop_bit_eq sint_pair_abs
        pair_sval_rsa [OF assms] drop_bit_eq_div)
  then show "pair_abs (pair_uint64_rsa a shift) = cairo_uint64_rsa (pair_abs a) shift"
    by (rule signed_word_eqI)
qed

theorem pair_shift_refines_witness:
  "pair_abs (pair_uint64_rsa \<lparr> plo = 0, phi = 0x80000000 \<rparr> 40) =
    cairo_uint64_rsa (pair_abs \<lparr> plo = 0, phi = 0x80000000 \<rparr>) 40"
  using pair_shift_refines [of 40] by simp

lemma pair_norm_zero: "pair_divrem_norm num den bitv = Some r \<Longrightarrow> pair_val den = 0 \<Longrightarrow> pair_val num = 0"
proof (induction rule: pair_divrem_norm.raw_induct [rotated, consumes 1])
  case (1 norm num den bitv r)
  show ?case
  proof (cases "pair_uint64_lt den num \<and> phi den AND 0x80000000 = 0")
    case True
    then have "norm num (pair_uint64_lsl den 1) (pair_uint64_lsl bitv 1) = Some r" using 1 by simp
    moreover have "pair_val (pair_uint64_lsl den 1) = 0"
      using \<open>pair_val den = 0\<close> by (simp add: pair_val_lsl)
    ultimately show ?thesis using 1 by blast
  next
    case False
    then show ?thesis using \<open>pair_val den = 0\<close> pair_val_range(1) [of num]
      by (auto simp: msb_mask32 pair_lt_iff pair_negative_iff [unfolded pair_int64_negative_def])
  qed
qed

definition map_quorem :: "('a \<Rightarrow> 'b) \<Rightarrow> 'a quorem \<Rightarrow> 'b quorem" where
  "map_quorem f qr = \<lparr> quo = f (quo qr), rem = f (rem qr) \<rparr>"

lemma pair_abs_0: "pair_abs x = 0 \<longleftrightarrow> pair_val x = 0"
  by (simp add: word_uint_eq_iff uint_pair_abs)

lemma pair_udivrem_native:
  assumes "pair_abs den \<noteq> 0"
  shows "map_option (map_quorem pair_abs) (pair_uint64_divrem num den) =
    cairo_uint64_divrem (pair_abs num) (pair_abs den)"
proof -
  have "pair_val den \<noteq> 0" using assms by (simp add: pair_abs_0)
  from pair_udivrem_ok [OF this, of num] obtain qr where
    "pair_uint64_divrem num den = Some qr"
    "pair_val (quo qr) = pair_val num div pair_val den"
    "pair_val (rem qr) = pair_val num mod pair_val den" by blast
  then show ?thesis using assms
    by (auto simp: cairo_uint64_divrem_def map_quorem_def uint_div uint_mod uint_pair_abs
        intro!: pair_abs_eqI)
qed

text \<open>The bit-at-a-time division of the two-word integers returns the quotient and the
  remainder of the native division for every divisor other than zero; for the divisor zero the
  native division traps, while the bit-at-a-time one does not return, unless the dividend is zero
  too, when it returns quotient one.\<close>

theorem pair_divrem_refines:
  "(if pair_abs den = 0 \<and> pair_abs num = 0
    then map_option (map_quorem pair_abs) (pair_uint64_divrem num den) = Some \<lparr> quo = 1, rem = 0 \<rparr>
    else map_option (map_quorem pair_abs) (pair_uint64_divrem num den) =
      cairo_uint64_divrem (pair_abs num) (pair_abs den))"
proof -
  have z: "pair_abs x = 0 \<longleftrightarrow> x = pair_uint32_to_uint64 0" for x
    using pair_val_inj [of x "pair_uint32_to_uint64 0"]
    by (simp add: pair_abs_0 pair_val_const)
  consider "pair_abs den \<noteq> 0" | "pair_abs den = 0" "pair_abs num \<noteq> 0" | "pair_abs den = 0" "pair_abs num = 0"
    by blast
  then show ?thesis
  proof cases
    case 1
    then show ?thesis using pair_udivrem_native by auto
  next
    case 2
    then have "pair_val den = 0" "pair_val num \<noteq> 0"
      by (simp_all add: pair_abs_0)
    then have "pair_divrem_norm num den (pair_uint32_to_uint64 1) = None"
      using pair_norm_zero by (cases "pair_divrem_norm num den (pair_uint32_to_uint64 1)") blast+
    then show ?thesis using 2 by (simp add: pair_uint64_divrem_def cairo_uint64_divrem_def)
  next
    case 3
    then have "num = pair_uint32_to_uint64 0" "den = pair_uint32_to_uint64 0" by (simp_all add: z)
    then show ?thesis using 3
      by (simp add: pair_uint64_divrem_def pair_divrem_norm.simps pair_divrem_gen.simps
          pair_uint32_to_uint64_def pair_uint64_lt_def pair_uint64_le_def pair_uint64_sub_def
          pair_uint64_add_def pair_uint64_rsl_def map_quorem_def pair_abs_def pair_val_def wval_def)
  qed
qed

text \<open>Signed 64-bit division truncates toward zero and gives the remainder the sign of the
  dividend, for every divisor other than zero and every dividend, except the one quotient
  (the least number divided by minus one) that has no 64-bit representation.\<close>

theorem cairo_int64_divrem_truncates:
  assumes "den \<noteq> 0" and "\<not> (sint num = - (2 ^ 63) \<and> sint den = - 1)"
  shows "\<exists>qr. cairo_int64_divrem num den = Some qr \<and>
    sint (quo qr) = sint num sdiv sint den \<and> sint (rem qr) = sint num smod sint den"
  using native_sdiv.divrem_correct [of den num] assms
  by (simp add: signed_eq_0_iff flip: sint_twos [where 'a = 64, simplified])

theorem cairo_int64_divrem_truncates_witness:
  "\<exists>qr. cairo_int64_divrem (- 7) 2 = Some qr \<and> sint (quo qr) = - 7 sdiv 2 \<and> sint (rem qr) = - 7 smod 2"
  using cairo_int64_divrem_truncates [of 2 "- 7"] by simp

end
