(* ===== verification/Wide128.thy ===== *)
theory Wide128
  imports Wide64
begin

text \<open>
  The 128-bit layer of the wide integers (\<open>cairo-wideint.c\<close> lines 313--804) as a structure
  of two 64-bit words over the native 64-bit operations, which is the configuration this tree
  compiles (\<open>HAVE_UINT64_T\<close> set, \<open>HAVE_UINT128_T\<close> not).  This is the arithmetic behind
  the simulator's \<open>int64x64_t\<close> time values.  Signed numbers are the same structure with its
  two's complement reading.
\<close>

section \<open>The structure and its operations\<close>

record cairo_uint128 =
  lo :: u64
  hi :: u64

definition cairo_uint32_to_uint128 :: "u32 \<Rightarrow> cairo_uint128" where
  "cairo_uint32_to_uint128 i =
    \<lparr> lo = cairo_uint32_to_uint64 i, hi = cairo_uint32_to_uint64 0 \<rparr>"

definition cairo_int32_to_int128 :: "u32 \<Rightarrow> cairo_uint128" where
  "cairo_int32_to_int128 i =
    \<lparr> lo = cairo_int32_to_int64 i, hi = cairo_int32_to_int64 (if sint i < 0 then - 1 else 0) \<rparr>"

definition cairo_uint64_to_uint128 :: "u64 \<Rightarrow> cairo_uint128" where
  "cairo_uint64_to_uint128 i = \<lparr> lo = i, hi = cairo_uint32_to_uint64 0 \<rparr>"

definition cairo_int64_to_int128 :: "u64 \<Rightarrow> cairo_uint128" where
  "cairo_int64_to_int128 i =
    \<lparr> lo = i, hi = cairo_int32_to_int64 (if cairo_int64_negative i then - 1 else 0) \<rparr>"

definition cairo_uint128_to_uint64 :: "cairo_uint128 \<Rightarrow> u64" where
  "cairo_uint128_to_uint64 a = lo a"

definition cairo_uint128_to_uint32 :: "cairo_uint128 \<Rightarrow> u32" where
  "cairo_uint128_to_uint32 a = cairo_uint64_to_uint32 (cairo_uint128_to_uint64 a)"

definition cairo_uint128_add :: "cairo_uint128 \<Rightarrow> cairo_uint128 \<Rightarrow> cairo_uint128" where
  "cairo_uint128_add a b =
    (let h = cairo_uint64_add (hi a) (hi b);
         l = cairo_uint64_add (lo a) (lo b);
         h = (if cairo_uint64_lt l (lo a) then cairo_uint64_add h (cairo_uint32_to_uint64 1) else h)
     in \<lparr> lo = l, hi = h \<rparr>)"

definition cairo_uint128_sub :: "cairo_uint128 \<Rightarrow> cairo_uint128 \<Rightarrow> cairo_uint128" where
  "cairo_uint128_sub a b =
    (let h = cairo_uint64_sub (hi a) (hi b);
         l = cairo_uint64_sub (lo a) (lo b);
         h = (if cairo_uint64_gt l (lo a) then cairo_uint64_sub h (cairo_uint32_to_uint64 1) else h)
     in \<lparr> lo = l, hi = h \<rparr>)"

definition uint64_lo32 :: "u64 \<Rightarrow> u32" where
  "uint64_lo32 i = ucast (i AND 0xffffffff)"

definition uint64_hi32 :: "u64 \<Rightarrow> u32" where
  "uint64_hi32 i = ucast (drop_bit 32 i)"

definition uint64_lo :: "u64 \<Rightarrow> u64" where
  "uint64_lo i = i AND 0xffffffff"

definition uint64_hi :: "u64 \<Rightarrow> u64" where
  "uint64_hi i = drop_bit 32 i"

definition uint64_shift32 :: "u64 \<Rightarrow> u64" where
  "uint64_shift32 i = push_bit 32 i"

definition uint64_carry32 :: u64 where
  "uint64_carry32 = push_bit 32 1"

definition cairo_uint64x64_128_mul :: "u64 \<Rightarrow> u64 \<Rightarrow> cairo_uint128" where
  "cairo_uint64x64_128_mul a b =
    (let al = uint64_lo32 a;
         ah = uint64_hi32 a;
         bl = uint64_lo32 b;
         bh = uint64_hi32 b;
         r0 = cairo_uint32x32_64_mul al bl;
         r1 = cairo_uint32x32_64_mul al bh;
         r2 = cairo_uint32x32_64_mul ah bl;
         r3 = cairo_uint32x32_64_mul ah bh;
         r1 = cairo_uint64_add r1 (uint64_hi r0);
         r1 = cairo_uint64_add r1 r2;
         r3 = (if cairo_uint64_lt r1 r2 then cairo_uint64_add r3 uint64_carry32 else r3)
     in \<lparr> lo = cairo_uint64_add (uint64_shift32 r1) (uint64_lo r0),
          hi = cairo_uint64_add r3 (uint64_hi r1) \<rparr>)"

definition cairo_int64x64_128_mul :: "u64 \<Rightarrow> u64 \<Rightarrow> cairo_uint128" where
  "cairo_int64x64_128_mul a b =
    (let s = cairo_uint64x64_128_mul a b;
         s = (if cairo_int64_negative a then s \<lparr> hi := cairo_uint64_sub (hi s) b \<rparr> else s);
         s = (if cairo_int64_negative b then s \<lparr> hi := cairo_uint64_sub (hi s) a \<rparr> else s)
     in s)"

definition cairo_uint128_mul :: "cairo_uint128 \<Rightarrow> cairo_uint128 \<Rightarrow> cairo_uint128" where
  "cairo_uint128_mul a b =
    (let s = cairo_uint64x64_128_mul (lo a) (lo b);
         s = s \<lparr> hi := cairo_uint64_add (hi s) (cairo_uint64_mul (lo a) (hi b)) \<rparr>;
         s = s \<lparr> hi := cairo_uint64_add (hi s) (cairo_uint64_mul (hi a) (lo b)) \<rparr>
     in s)"

definition cairo_uint128_lsl :: "cairo_uint128 \<Rightarrow> nat \<Rightarrow> cairo_uint128" where
  "cairo_uint128_lsl a shift =
    (let (a, shift) = (if shift \<ge> 64
                       then (\<lparr> lo = cairo_uint32_to_uint64 0, hi = lo a \<rparr>, shift - 64)
                       else (a, shift))
     in if shift \<noteq> 0
        then \<lparr> lo = cairo_uint64_lsl (lo a) shift,
               hi = cairo_uint64_add (cairo_uint64_lsl (hi a) shift)
                                     (cairo_uint64_rsl (lo a) (64 - shift)) \<rparr>
        else a)"

definition cairo_uint128_rsl :: "cairo_uint128 \<Rightarrow> nat \<Rightarrow> cairo_uint128" where
  "cairo_uint128_rsl a shift =
    (let (a, shift) = (if shift \<ge> 64
                       then (\<lparr> lo = hi a, hi = cairo_uint32_to_uint64 0 \<rparr>, shift - 64)
                       else (a, shift))
     in if shift \<noteq> 0
        then \<lparr> lo = cairo_uint64_add (cairo_uint64_rsl (lo a) shift)
                                     (cairo_uint64_lsl (hi a) (64 - shift)),
               hi = cairo_uint64_rsl (hi a) shift \<rparr>
        else a)"

definition cairo_uint128_rsa :: "cairo_uint128 \<Rightarrow> nat \<Rightarrow> cairo_uint128" where
  "cairo_uint128_rsa a shift =
    (let (a, shift) = (if shift \<ge> 64
                       then (\<lparr> lo = hi a, hi = cairo_uint64_rsa (hi a) (64 - 1) \<rparr>, shift - 64)
                       else (a, shift))
     in if shift \<noteq> 0
        then \<lparr> lo = cairo_uint64_add (cairo_uint64_rsl (lo a) shift)
                                     (cairo_uint64_lsl (hi a) (64 - shift)),
               hi = cairo_uint64_rsa (hi a) shift \<rparr>
        else a)"

definition cairo_uint128_lt :: "cairo_uint128 \<Rightarrow> cairo_uint128 \<Rightarrow> bool" where
  "cairo_uint128_lt a b =
    (cairo_uint64_lt (hi a) (hi b) \<or>
     (cairo_uint64_eq (hi a) (hi b) \<and> cairo_uint64_lt (lo a) (lo b)))"

definition cairo_int128_negative :: "cairo_uint128 \<Rightarrow> bool" where
  "cairo_int128_negative a = cairo_int64_negative (hi a)"

definition cairo_int128_lt :: "cairo_uint128 \<Rightarrow> cairo_uint128 \<Rightarrow> bool" where
  "cairo_int128_lt a b =
    (if cairo_int128_negative a \<and> \<not> cairo_int128_negative b then True
     else if \<not> cairo_int128_negative a \<and> cairo_int128_negative b then False
     else cairo_uint128_lt a b)"

definition cairo_uint128_eq :: "cairo_uint128 \<Rightarrow> cairo_uint128 \<Rightarrow> bool" where
  "cairo_uint128_eq a b = (cairo_uint64_eq (hi a) (hi b) \<and> cairo_uint64_eq (lo a) (lo b))"

definition cairo_uint128_le :: "cairo_uint128 \<Rightarrow> cairo_uint128 \<Rightarrow> bool" where
  "cairo_uint128_le a b = (\<not> cairo_uint128_lt b a)"

definition cairo_uint128_ne :: "cairo_uint128 \<Rightarrow> cairo_uint128 \<Rightarrow> bool" where
  "cairo_uint128_ne a b = (\<not> cairo_uint128_eq a b)"

definition cairo_msbset64 :: "u64 \<Rightarrow> bool" where
  "cairo_msbset64 q = (q AND push_bit 63 1 \<noteq> 0)"

partial_function (option) divrem128_norm ::
    "cairo_uint128 \<Rightarrow> cairo_uint128 \<Rightarrow> cairo_uint128 \<Rightarrow> (cairo_uint128 \<times> cairo_uint128) option" where
  "divrem128_norm num den bitv =
    (if cairo_uint128_lt den num \<and> \<not> cairo_msbset64 (hi den)
     then divrem128_norm num (cairo_uint128_lsl den 1) (cairo_uint128_lsl bitv 1)
     else Some (den, bitv))"

partial_function (option) divrem128_gen ::
    "cairo_uint128 \<Rightarrow> cairo_uint128 \<Rightarrow> cairo_uint128 \<Rightarrow> cairo_uint128 \<Rightarrow>
     cairo_uint128 quorem option" where
  "divrem128_gen num den bitv quot =
    (if cairo_uint128_ne bitv (cairo_uint32_to_uint128 0)
     then (if cairo_uint128_le den num
           then divrem128_gen (cairo_uint128_sub num den) (cairo_uint128_rsl den 1)
                  (cairo_uint128_rsl bitv 1) (cairo_uint128_add quot bitv)
           else divrem128_gen num (cairo_uint128_rsl den 1) (cairo_uint128_rsl bitv 1) quot)
     else Some \<lparr> quo = quot, rem = num \<rparr>)"

definition cairo_uint128_divrem ::
    "cairo_uint128 \<Rightarrow> cairo_uint128 \<Rightarrow> cairo_uint128 quorem option" where
  "cairo_uint128_divrem num den =
    (case divrem128_norm num den (cairo_uint32_to_uint128 1) of
       None \<Rightarrow> None
     | Some (den, bitv) \<Rightarrow> divrem128_gen num den bitv (cairo_uint32_to_uint128 0))"

definition cairo_int128_negate :: "cairo_uint128 \<Rightarrow> cairo_uint128" where
  "cairo_int128_negate a =
    cairo_uint128_add \<lparr> lo = cairo_uint64_not (lo a), hi = cairo_uint64_not (hi a) \<rparr>
      (cairo_uint32_to_uint128 1)"

definition cairo_int128_not :: "cairo_uint128 \<Rightarrow> cairo_uint128" where
  "cairo_int128_not a = \<lparr> lo = cairo_uint64_not (lo a), hi = cairo_uint64_not (hi a) \<rparr>"

definition cairo_int128_divrem ::
    "cairo_uint128 \<Rightarrow> cairo_uint128 \<Rightarrow> cairo_uint128 quorem option" where
  "cairo_int128_divrem num den =
    (let num_neg = cairo_int128_negative num;
         den_neg = cairo_int128_negative den;
         num = (if num_neg then cairo_int128_negate num else num);
         den = (if den_neg then cairo_int128_negate den else den)
     in case cairo_uint128_divrem num den of
          None \<Rightarrow> None
        | Some uqr \<Rightarrow> Some
            \<lparr> quo = (if num_neg \<noteq> den_neg then cairo_int128_negate (quo uqr) else quo uqr),
              rem = (if num_neg then cairo_int128_negate (rem uqr) else rem uqr) \<rparr>)"

section \<open>The 96 by 64 division\<close>

definition cairo_uint_96by64_32x64_divrem :: "cairo_uint128 \<Rightarrow> u64 \<Rightarrow> u64 quorem option" where
  "cairo_uint_96by64_32x64_divrem num den =
    (let B = cairo_uint32s_to_uint64 1 0;
         x = cairo_uint128_to_uint64 (cairo_uint128_rsl num 32);
         overflow = \<lparr> quo = cairo_uint32s_to_uint64 (- 1) (- 1), rem = den \<rparr>
     in if cairo_uint64_ge x den then Some overflow
        else if cairo_uint64_lt x B
        then cairo_uint64_divrem (cairo_uint128_to_uint64 num) den
        else
          (let y = cairo_uint128_to_uint32 num;
               u = uint64_hi32 den;
               v = cairo_uint64_to_uint32 den
           in case (if u + 1 \<noteq> 0
                    then map_option (\<lambda>quorem. (cairo_uint64_to_uint32 (quo quorem),
                                               cairo_uint64_to_uint32 (rem quorem)))
                           (cairo_uint64_divrem x (cairo_uint32_to_uint64 (u + 1)))
                    else Some (uint64_hi32 x, cairo_uint64_to_uint32 x)) of
                None \<Rightarrow> None
              | Some (q, r) \<Rightarrow>
                  (case (if v \<noteq> 0
                         then cairo_uint64_divrem (cairo_uint32x32_64_mul q (- v)) den
                         else cairo_uint64_divrem (cairo_uint32s_to_uint64 q 0) den) of
                     None \<Rightarrow> None
                   | Some quorem \<Rightarrow>
                       (let quotient = q + cairo_uint64_to_uint32 (quo quorem);
                            remainder = cairo_uint32s_to_uint64 r y;
                            (remainder, quotient) =
                              (if cairo_uint64_ge remainder den
                               then (cairo_uint64_sub remainder den, quotient + 1)
                               else (remainder, quotient));
                            remainder = cairo_uint64_add remainder (rem quorem);
                            (remainder, quotient) =
                              (if cairo_uint64_ge remainder den \<or>
                                  cairo_uint64_lt remainder (rem quorem)
                               then (cairo_uint64_sub remainder den, quotient + 1)
                               else (remainder, quotient))
                        in Some \<lparr> quo = cairo_uint32_to_uint64 quotient, rem = remainder \<rparr>))))"

definition cairo_int_96by64_32x64_divrem :: "cairo_uint128 \<Rightarrow> u64 \<Rightarrow> u64 quorem option" where
  "cairo_int_96by64_32x64_divrem num den =
    (let num_neg = cairo_int128_negative num;
         den_neg = cairo_int64_negative den;
         num = (if num_neg then cairo_int128_negate num else num);
         nonneg_den = (if den_neg then cairo_uint64_negate den else den)
     in case cairo_uint_96by64_32x64_divrem num nonneg_den of
          None \<Rightarrow> None
        | Some uqr \<Rightarrow>
            if cairo_uint64_eq (rem uqr) nonneg_den
            then Some \<lparr> quo = cairo_uint32s_to_uint64 0x7FFFFFFF (- 1), rem = den \<rparr>
            else Some
              \<lparr> quo = (if num_neg \<noteq> den_neg then cairo_uint64_negate (quo uqr) else quo uqr),
                rem = (if num_neg then cairo_uint64_negate (rem uqr) else rem uqr) \<rparr>)"

section \<open>Values\<close>

definition val128 :: "cairo_uint128 \<Rightarrow> int" where
  "val128 a = wval (hi a) (lo a)"

definition sval128 :: "cairo_uint128 \<Rightarrow> int" where
  "sval128 a = swval (hi a) (lo a)"

lemma val128_range [simp]: "0 \<le> val128 a" "val128 a < 2 ^ 128"
  using wval_less [of "hi a" "lo a"] by (simp_all add: val128_def)

lemmas val128_less [simp] = val128_range(2) [simplified]

lemma val128_inj: "val128 a = val128 b \<longleftrightarrow> a = b"
  by (cases a, cases b) (auto simp: val128_def wval_inj)

lemma sval128_twos: "sval128 a = twos 128 (val128 a)"
  using swval_twos [of "hi a" "lo a"] by (simp add: sval128_def val128_def)

lemma conv32_64 [simp]:
  "cairo_uint32_to_uint64 0 = 0" "cairo_uint32_to_uint64 1 = 1"
  "cairo_int32_to_int64 0 = 0" "cairo_int32_to_int64 (- 1) = - 1"
  by (simp_all add: cairo_uint32_to_uint64_def cairo_int32_to_int64_def scast_eq)

lemma val128_const:
  "val128 (cairo_uint32_to_uint128 i) = uint i"
  "val128 (cairo_uint64_to_uint128 j) = uint j"
  "sval128 (cairo_int64_to_int128 j) = sint j"
  by (simp_all add: val128_def wval_def sval128_def swval_def cairo_uint32_to_uint128_def uint_ucast
      cairo_uint32_to_uint64_def [of i] cairo_uint64_to_uint128_def cairo_int64_to_int128_def
      cairo_int64_negative_def uint_of_sint [of j])

lemma val128_add: "val128 (cairo_uint128_add a b) = (val128 a + val128 b) mod 2 ^ 128"
  using wval_add [of "lo a" "lo b" "hi a" "hi b"]
  by (simp add: cairo_uint128_add_def val128_def cairo_uint64_add_def cairo_uint64_lt_def Let_def
      split: if_splits)

lemma val128_sub: "val128 (cairo_uint128_sub a b) = (val128 a - val128 b) mod 2 ^ 128"
  using wval_sub [of "lo a" "lo b" "hi a" "hi b"]
  by (simp add: cairo_uint128_sub_def val128_def cairo_uint64_sub_def cairo_uint64_gt_def
      cairo_uint64_lt_def Let_def split: if_splits)

lemma lt128_iff: "cairo_uint128_lt a b \<longleftrightarrow> val128 a < val128 b"
  by (simp add: cairo_uint128_lt_def val128_def cairo_uint64_lt_def cairo_uint64_eq_def wval_less_iff)

lemma eq128_iff: "cairo_uint128_eq a b \<longleftrightarrow> a = b"
  by (cases a, cases b) (auto simp: cairo_uint128_eq_def cairo_uint64_eq_def)

text \<open>The shifts of this layer join the two parts with a sum instead of a disjunction, which is
  the same for disjoint bits.\<close>

lemma shift128_join:
  fixes h l :: u64
  assumes "s \<le> 64"
  shows "push_bit s h + drop_bit (64 - s) l = push_bit s h OR drop_bit (64 - s) l"
    and "drop_bit s l + push_bit (64 - s) h = drop_bit s l OR push_bit (64 - s) h"
proof -
  show "push_bit s h + drop_bit (64 - s) l = push_bit s h OR drop_bit (64 - s) l"
    using shl_or_add [of s h l] assms by simp
  have "64 - (64 - s) = s" using assms by (rule diff_diff_cancel)
  then show "drop_bit s l + push_bit (64 - s) h = drop_bit s l OR push_bit (64 - s) h"
    using shl_or_add [of "64 - s" h l] by (simp add: add.commute or.commute)
qed

lemmas shift128_defs = shift128_join cairo_uint64_add_def cairo_uint64_lsl_def cairo_uint64_rsl_def
  cairo_uint64_rsa_def

lemma val128_lsl:
  assumes "shift < 128"
  shows "val128 (cairo_uint128_lsl a shift) = (val128 a * 2 ^ shift) mod 2 ^ 128"
proof (cases "64 \<le> shift")
  case True
  then obtain s where s: "shift = 64 + s" using le_Suc_ex by blast
  then show ?thesis using wval_lsl_hi [of shift "lo a" "hi a"] assms
    by (auto simp: val128_def cairo_uint128_lsl_def shift128_defs)
next
  case False
  then show ?thesis using wval_lsl [of shift "hi a" "lo a"] wval_lsl [of 0 "hi a" "lo a"]
    by (auto simp: val128_def cairo_uint128_lsl_def shift128_defs)
qed

lemma val128_rsl:
  assumes "shift < 128"
  shows "val128 (cairo_uint128_rsl a shift) = val128 a div 2 ^ shift"
proof (cases "64 \<le> shift")
  case True
  then obtain s where s: "shift = 64 + s" using le_Suc_ex by blast
  then show ?thesis using wval_rsl_hi [of shift "hi a" "lo a"] assms
    by (auto simp: val128_def cairo_uint128_rsl_def shift128_defs)
next
  case False
  then show ?thesis using wval_rsl [of shift "hi a" "lo a"]
    by (auto simp: val128_def cairo_uint128_rsl_def shift128_defs)
qed

lemma sval128_rsa:
  assumes "shift < 128"
  shows "sval128 (cairo_uint128_rsa a shift) = sval128 a div 2 ^ shift"
proof (cases "64 \<le> shift")
  case True
  then obtain s where s: "shift = 64 + s" using le_Suc_ex by blast
  then show ?thesis using swval_rsa_hi [of shift "hi a" "lo a"] assms
      swval_rsa [of s "signed_drop_bit 63 (hi a)" "hi a"]
    by (auto simp: sval128_def cairo_uint128_rsa_def shift128_defs)
next
  case False
  then show ?thesis using swval_rsa [of shift "hi a" "lo a"]
    by (auto simp: sval128_def cairo_uint128_rsa_def shift128_defs)
qed

lemma val128_not: "val128 (cairo_int128_not a) = 2 ^ 128 - 1 - val128 a"
  using wval_not [of "hi a" "lo a"]
  by (simp add: val128_def cairo_int128_not_def cairo_uint64_not_def)

lemma val128_negate: "val128 (cairo_int128_negate a) = (- val128 a) mod 2 ^ 128"
proof -
  have "val128 (cairo_int128_negate a) = (2 ^ 128 + (- val128 a)) mod 2 ^ 128"
    by (simp add: cairo_int128_negate_def val128_add val128_const
        val128_not [unfolded cairo_int128_not_def])
  then show ?thesis by (simp only: mod_add_self1)
qed

lemma negative128_iff: "cairo_int128_negative a \<longleftrightarrow> 2 ^ (128 - 1) \<le> val128 a"
  using wval_msb_iff [of "hi a" "lo a"]
  by (simp add: cairo_int128_negative_def cairo_int64_negative_def val128_def)

lemma uint64_lo_take: "uint64_lo i = take_bit 32 i"
  by (simp add: uint64_lo_def take_bit_eq_mask mask_eq_exp_minus_1)

lemma uint64_halves:
  "uint (ucast (uint64_lo32 a) :: u64) = uint a mod 2 ^ 32"
  "uint (ucast (uint64_hi32 a) :: u64) = uint a div 2 ^ 32"
proof -
  have "uint a div 2 ^ 32 < 2 ^ 32" using uint_bounded [of a] by (intro pos_div_less) simp_all
  then show "uint (ucast (uint64_hi32 a) :: u64) = uint a div 2 ^ 32"
    by (simp only: uint64_hi32_def unsigned_ucast_eq uint_take_bit uint_drop_bit)
      (simp add: take_bit_eq_mod mod_pos_pos_trivial pos_imp_zdiv_nonneg_iff)
  show "uint (ucast (uint64_lo32 a) :: u64) = uint a mod 2 ^ 32"
    unfolding uint64_lo32_def uint64_lo_def [symmetric] uint64_lo_take
    by (simp only: unsigned_ucast_eq uint_take_bit) (simp add: take_bit_eq_mod)
qed

lemma shift32_take: "uint64_shift32 r = push_bit 32 (take_bit 32 r)"
  by (rule bit_word_eqI) (auto simp: uint64_shift32_def bit_simps)

lemma val128_mul64: "val128 (cairo_uint64x64_128_mul a b) = uint a * uint b"
proof -
  let ?l = "\<lambda>x. ucast (uint64_lo32 x) :: u64" and ?h = "\<lambda>x. ucast (uint64_hi32 x) :: u64"
  have b: "uint (?l x) < 2 ^ 32" "uint (?h x) < 2 ^ 32" for x
    using uint_bounded [of x] unfolding uint64_halves by (simp, intro pos_div_less) simp_all
  have "val128 (cairo_uint64x64_128_mul a b) =
      (uint (?h a) * 2 ^ 32 + uint (?l a)) * (uint (?h b) * 2 ^ 32 + uint (?l b))"
    using wval_schoolbook [of 32 "?l a" "?h a" "?l b" "?h b", OF _ b b]
    by (simp only: val128_def cairo_uint64x64_128_mul_def Let_def uint64_lo_take uint64_hi_def
        uint64_carry32_def cairo_uint128.simps cairo_uint32x32_64_mul_def cairo_uint64_add_def
        cairo_uint64_lt_def shift32_take) simp
  also have "\<dots> = uint a * uint b" unfolding uint64_halves by (simp only: div_mult_mod_eq)
  finally show ?thesis .
qed

lemma val128_upd_hi:
  "val128 (s \<lparr> hi := cairo_uint64_add (hi s) c \<rparr>) = (val128 s + uint c * 2 ^ 64) mod 2 ^ 128"
  "val128 (s \<lparr> hi := cairo_uint64_sub (hi s) c \<rparr>) = (val128 s - uint c * 2 ^ 64) mod 2 ^ 128"
proof -
  have v: "val128 \<lparr> lo = 0, hi = c \<rparr> = uint c * 2 ^ 64" by (simp add: val128_def wval_def)
  have "s \<lparr> hi := cairo_uint64_add (hi s) c \<rparr> = cairo_uint128_add s \<lparr> lo = 0, hi = c \<rparr>"
    "s \<lparr> hi := cairo_uint64_sub (hi s) c \<rparr> = cairo_uint128_sub s \<lparr> lo = 0, hi = c \<rparr>"
    by (simp_all add: cairo_uint128_add_def cairo_uint128_sub_def native64_defs)
  then show "val128 (s \<lparr> hi := cairo_uint64_add (hi s) c \<rparr>) = (val128 s + uint c * 2 ^ 64) mod 2 ^ 128"
    "val128 (s \<lparr> hi := cairo_uint64_sub (hi s) c \<rparr>) = (val128 s - uint c * 2 ^ 64) mod 2 ^ 128"
    by (simp_all only: val128_add val128_sub v)
qed

lemma val128_mul: "val128 (cairo_uint128_mul a b) = (val128 a * val128 b) mod 2 ^ 128"
proof -
  have h: "(x + uint (cairo_uint64_mul p q) * 2 ^ 64) mod 2 ^ 128 =
      (x + uint p * uint q * 2 ^ 64) mod 2 ^ 128" for x p q
  proof -
    have "uint (cairo_uint64_mul p q) * 2 ^ 64 = (uint p * uint q * 2 ^ 64) mod (2 ^ 64 * 2 ^ 64)"
      by (simp only: cairo_uint64_mul_def uint_mul_mod mult_mod_left, simp)
    then show ?thesis by (simp add: mod_simps)
  qed
  have "val128 (cairo_uint128_mul a b) =
      (uint (lo a) * uint (lo b) + uint (lo a) * uint (hi b) * 2 ^ 64
        + uint (hi a) * uint (lo b) * 2 ^ 64) mod 2 ^ 128"
    by (simp only: cairo_uint128_mul_def Let_def val128_upd_hi h val128_mul64 mod_add_left_eq)
  also have "\<dots> = (uint (lo a) * uint (lo b) + uint (lo a) * uint (hi b) * 2 ^ 64
        + uint (hi a) * uint (lo b) * 2 ^ 64 + uint (hi a) * uint (hi b) * 2 ^ 128) mod 2 ^ 128"
    by (rule mod_mult_self1 [symmetric])
  also have "uint (lo a) * uint (lo b) + uint (lo a) * uint (hi b) * 2 ^ 64
        + uint (hi a) * uint (lo b) * 2 ^ 64 + uint (hi a) * uint (hi b) * 2 ^ 128 =
      val128 a * val128 b"
    by (simp add: val128_def wval_def algebra_simps)
  finally show ?thesis .
qed

lemma sval128_unique:
  "val128 a = v mod 2 ^ 128 \<Longrightarrow> - (2 ^ 127) \<le> v \<Longrightarrow> v < 2 ^ 127 \<Longrightarrow> sval128 a = v"
proof -
  assume a: "val128 a = v mod 2 ^ 128" "- (2 ^ 127) \<le> v" "v < 2 ^ 127"
  have "v mod 2 ^ 128 = (if v < 0 then v + 2 ^ 128 else v)"
    using a by (auto intro: int_mod_pos_eq [where q = "- 1"] mod_pos_pos_trivial)
  then show "sval128 a = v" using a by (auto simp: sval128_twos twos_def)
qed

lemma sint64_bounds: "- (2 ^ 63) \<le> sint (w :: u64)" "sint (w :: u64) < 2 ^ 63"
  using sint_ge [of w] sint_lt [of w] by simp_all

lemma sval128_int_mul: "sval128 (cairo_int64x64_128_mul a b) = sint a * sint b"
proof (rule sval128_unique)
  let ?c = "\<lambda>x y. if sint x < 0 then uint y * 2 ^ 64 else (0 :: int)"
  have sub: "val128 (if c then s \<lparr> hi := cairo_uint64_sub (hi s) y \<rparr> else s) =
      (val128 s - (if c then uint y * 2 ^ 64 else 0)) mod 2 ^ 128" for c s y
    by (simp add: val128_upd_hi mod_pos_pos_trivial)
  have "val128 (cairo_int64x64_128_mul a b) = (uint a * uint b - ?c a b - ?c b a) mod 2 ^ 128"
    by (simp only: cairo_int64x64_128_mul_def Let_def sub val128_mul64 mod_diff_left_eq
        cairo_int64_negative_def)
  also have "uint a * uint b - ?c a b - ?c b a =
      sint a * sint b - (if sint a < 0 \<and> sint b < 0 then 2 ^ 128 else 0)"
    unfolding uint_of_sint [of a] uint_of_sint [of b]
    by (cases "sint a < 0"; cases "sint b < 0") (simp_all add: algebra_simps)
  also have "\<dots> mod 2 ^ 128 = (sint a * sint b) mod 2 ^ 128"
    by (cases "sint a < 0 \<and> sint b < 0")
      (simp_all only: if_True if_False minus_mod_self2 diff_zero simp_thms)
  finally show "val128 (cairo_int64x64_128_mul a b) = (sint a * sint b) mod 2 ^ 128" .
  have "\<bar>sint a * sint b\<bar> \<le> 2 ^ 63 * 2 ^ 63"
    unfolding abs_mult using sint64_bounds [of a] sint64_bounds [of b] by (intro mult_mono) auto
  then show "- (2 ^ 127) \<le> sint a * sint b" "sint a * sint b < 2 ^ 127" by auto
qed

section \<open>Division of 128-bit numbers\<close>

lemma msbset64_iff: "cairo_msbset64 q \<longleftrightarrow> sint q < 0"
proof -
  have "q AND push_bit 63 1 = 0 \<longleftrightarrow> \<not> bit q 63"
    using and_exp_eq_0_iff_not_bit [of q 63] by simp
  then show ?thesis using bit_last_iff [of q] by (simp add: cairo_msbset64_def)
qed

interpretation wide128: wide_arith val128 128 cairo_uint128_add cairo_uint128_sub
    "\<lambda>a. cairo_uint128_lsl a 1" "\<lambda>a. cairo_uint128_rsl a 1" cairo_uint128_lt
  by unfold_locales
    (simp_all add: val128_inj val128_add val128_sub val128_lsl val128_rsl lt128_iff)

interpretation div128: bit_divide val128 128 cairo_uint128_add cairo_uint128_sub
    "\<lambda>a. cairo_uint128_lsl a 1" "\<lambda>a. cairo_uint128_rsl a 1" cairo_uint128_lt
    "cairo_uint32_to_uint128 1" "cairo_uint32_to_uint128 0" divrem128_norm divrem128_gen
proof unfold_locales
  show "val128 (cairo_uint32_to_uint128 1) = 1" "val128 (cairo_uint32_to_uint128 0) = 0"
    by (simp_all add: val128_const)
  have msb: "cairo_msbset64 (hi d) \<longleftrightarrow> 2 ^ (128 - 1) \<le> val128 d" for d
    by (simp only: msbset64_iff negative128_iff [symmetric] cairo_int128_negative_def
        cairo_int64_negative_def)
  show "divrem128_norm n d b = (if cairo_uint128_lt d n \<and> \<not> 2 ^ (128 - 1) \<le> val128 d
      then divrem128_norm n (cairo_uint128_lsl d 1) (cairo_uint128_lsl b 1) else Some (d, b))" for n d b
    by (subst divrem128_norm.simps) (simp only: msb)
  have nz: "cairo_uint128_ne b (cairo_uint32_to_uint128 0) \<longleftrightarrow> val128 b \<noteq> 0" for b
    using val128_inj [of b "cairo_uint32_to_uint128 0"]
    by (simp add: cairo_uint128_ne_def eq128_iff val128_const)
  show "divrem128_gen n d b q = (if val128 b \<noteq> 0
      then if \<not> cairo_uint128_lt n d
           then divrem128_gen (cairo_uint128_sub n d) (cairo_uint128_rsl d 1) (cairo_uint128_rsl b 1)
                  (cairo_uint128_add q b)
           else divrem128_gen n (cairo_uint128_rsl d 1) (cairo_uint128_rsl b 1) q
      else Some \<lparr>quo = q, rem = n\<rparr>)" for n d b q
    by (subst divrem128_gen.simps) (simp only: nz cairo_uint128_le_def)
qed

lemma udivrem128_ok:
  assumes "val128 den \<noteq> 0"
  shows "\<exists>qr. cairo_uint128_divrem num den = Some qr \<and>
    val128 (quo qr) = val128 num div val128 den \<and> val128 (rem qr) = val128 num mod val128 den"
  using div128.divide_ok [OF assms, of num] by (auto simp: cairo_uint128_divrem_def)

interpretation sdiv128: signed_divide val128 128 cairo_int128_negative cairo_int128_negate
    cairo_uint128_divrem cairo_int128_divrem
proof unfold_locales
  show "cairo_int128_divrem n d =
      (case cairo_uint128_divrem (if cairo_int128_negative n then cairo_int128_negate n else n)
              (if cairo_int128_negative d then cairo_int128_negate d else d) of
         None \<Rightarrow> None
       | Some qr \<Rightarrow> Some \<lparr>quo = if cairo_int128_negative n \<noteq> cairo_int128_negative d
            then cairo_int128_negate (quo qr) else quo qr,
          rem = if cairo_int128_negative n then cairo_int128_negate (rem qr) else rem qr\<rparr>)" for n d
    by (simp only: cairo_int128_divrem_def Let_def)
qed (simp_all add: negative128_iff val128_negate udivrem128_ok)

lemma norm128_zero:
  "divrem128_norm num den bitv = Some r \<Longrightarrow> val128 den = 0 \<Longrightarrow> val128 num = 0"
proof (induction rule: divrem128_norm.raw_induct [rotated, consumes 1])
  case (1 norm num den bitv r)
  show ?case
  proof (cases "cairo_uint128_lt den num \<and> \<not> cairo_msbset64 (hi den)")
    case True
    then have "norm num (cairo_uint128_lsl den 1) (cairo_uint128_lsl bitv 1) = Some r"
      using 1 by simp
    moreover have "val128 (cairo_uint128_lsl den 1) = 0"
      using \<open>val128 den = 0\<close> by (simp add: val128_lsl)
    ultimately show ?thesis using 1 by blast
  next
    case False
    moreover have "\<not> cairo_msbset64 (hi den)"
      using negative128_iff [of den] \<open>val128 den = 0\<close>
      by (simp add: msbset64_iff cairo_int128_negative_def cairo_int64_negative_def)
    ultimately show ?thesis using \<open>val128 den = 0\<close> val128_range(1) [of num]
      by (simp add: lt128_iff del: val128_range)
  qed
qed

section \<open>Properties of the 128-bit layer\<close>

text \<open>The 128-bit operations compute the mathematical result modulo \<open>2 ^ 128\<close>: sum and
  difference with carry and borrow between the words, the full product of two 64-bit numbers
  (exact, signed and unsigned), the truncated 128-bit product, complement and negation; the
  comparisons are the order of the values, unsigned and signed.\<close>

theorem cairo_uint128_arith:
  "val128 (cairo_uint128_add a b) = (val128 a + val128 b) mod 2 ^ 128 \<and>
   val128 (cairo_uint128_sub a b) = (val128 a - val128 b) mod 2 ^ 128 \<and>
   val128 (cairo_uint128_mul a b) = (val128 a * val128 b) mod 2 ^ 128 \<and>
   val128 (cairo_uint64x64_128_mul i j) = uint i * uint j \<and>
   sval128 (cairo_int64x64_128_mul i j) = sint i * sint j \<and>
   val128 (cairo_int128_negate a) = (- val128 a) mod 2 ^ 128 \<and>
   val128 (cairo_int128_not a) = 2 ^ 128 - 1 - val128 a \<and>
   cairo_uint128_lt a b = (val128 a < val128 b) \<and>
   cairo_int128_lt a b = (sval128 a < sval128 b) \<and>
   cairo_uint128_eq a b = (val128 a = val128 b)"
proof (intro conjI)
  show "cairo_int128_lt a b = (sval128 a < sval128 b)"
    using val128_range [of a] val128_range [of b]
    by (simp add: cairo_int128_lt_def sval128_twos twos_def negative128_iff lt128_iff
        del: val128_range val128_less)
qed (simp_all only: val128_add val128_sub val128_mul val128_mul64 sval128_int_mul val128_negate
    val128_not lt128_iff eq128_iff val128_inj)

text \<open>For every shift count below 128 the left shift multiplies by a power of two modulo
  \<open>2 ^ 128\<close>, the logical right shift divides the value and the arithmetic right shift divides
  the signed value, rounding toward minus infinity.\<close>

theorem cairo_uint128_shifts:
  assumes "shift < 128"
  shows "val128 (cairo_uint128_lsl a shift) = (val128 a * 2 ^ shift) mod 2 ^ 128 \<and>
    val128 (cairo_uint128_rsl a shift) = val128 a div 2 ^ shift \<and>
    sval128 (cairo_uint128_rsa a shift) = sval128 a div 2 ^ shift"
  using assms by (simp only: val128_lsl val128_rsl sval128_rsa simp_thms)

theorem cairo_uint128_shifts_witness:
  "sval128 (cairo_uint128_rsa \<lparr> lo = 5, hi = - 1 \<rparr> 100) = sval128 \<lparr> lo = 5, hi = - 1 \<rparr> div 2 ^ 100"
  using cairo_uint128_shifts [of 100] by simp

text \<open>C39: The bit-at-a-time 128-bit division returns for every divisor other than zero, with the
  exact quotient and remainder; with divisor zero and a dividend other than zero its
  normalisation loop never ends.\<close>

theorem cairo_uint128_divrem_correct:
  "(if val128 den = 0
    then cairo_uint128_divrem num den = None \<or> val128 num = 0
    else (\<exists>qr. cairo_uint128_divrem num den = Some qr \<and>
      val128 (quo qr) = val128 num div val128 den \<and> val128 (rem qr) = val128 num mod val128 den))"
proof (cases "val128 den = 0")
  case True
  then show ?thesis using norm128_zero [of num den]
    by (cases "divrem128_norm num den (cairo_uint32_to_uint128 1)")
      (auto simp: cairo_uint128_divrem_def)
next
  case False
  then show ?thesis using udivrem128_ok by simp
qed

text \<open>Signed 128-bit division truncates toward zero and gives the remainder the sign of the
  dividend, for every divisor other than zero, except the one quotient that does not fit.\<close>

theorem cairo_int128_divrem_truncates:
  assumes "sval128 den \<noteq> 0" and "\<not> (sval128 num = - (2 ^ 127) \<and> sval128 den = - 1)"
  shows "\<exists>qr. cairo_int128_divrem num den = Some qr \<and>
    sval128 (quo qr) = sval128 num sdiv sval128 den \<and>
    sval128 (rem qr) = sval128 num smod sval128 den"
  using sdiv128.divrem_correct [of den num] assms by (simp add: sval128_twos)

theorem cairo_int128_divrem_truncates_witness:
  "\<exists>qr. cairo_int128_divrem \<lparr> lo = - 7, hi = - 1 \<rparr> \<lparr> lo = 2, hi = 0 \<rparr> = Some qr \<and>
    sval128 (quo qr) = - 7 sdiv 2 \<and> sval128 (rem qr) = - 7 smod 2"
  using cairo_int128_divrem_truncates [of "\<lparr> lo = 2, hi = 0 \<rparr>" "\<lparr> lo = - 7, hi = - 1 \<rparr>"]
  by (simp add: sval128_def swval_def)

end
