(* ===== verification/Wide96.thy ===== *)
theory Wide96
  imports Wide128
begin

text \<open>
  Correctness of the 96 by 64 bit division (\<open>_cairo_uint_96by64_32x64_divrem\<close> and its signed
  front end), which estimates the quotient from the high half of the divisor and corrects the
  estimate twice.
\<close>

section \<open>The estimate over the integers\<close>

lemma estimate_core:
  fixes x y u v B den q r m s t :: int
  assumes "0 < B" "0 \<le> x" "0 \<le> y" "y < B" "0 \<le> u" "0 \<le> v" "v < B"
    and den: "den = u * B + v" and x: "x < den" and B: "B \<le> den"
  defines "q \<equiv> x div (u + 1)" and "r \<equiv> x mod (u + 1)"
  defines "m \<equiv> q * (B - v)"
  defines "s \<equiv> r * B + y - (if den \<le> r * B + y then den else 0)"
  defines "t \<equiv> s + m mod den"
  shows "0 \<le> q" "q < B" "0 \<le> r" "r \<le> u" "0 \<le> m" "m < B * B" "0 \<le> s" "s < den"
    and "(x * B + y) div den =
      q + m div den + (if den \<le> r * B + y then 1 else 0) + (if den \<le> t then 1 else 0)"
    and "(x * B + y) mod den = t - (if den \<le> t then den else 0)"
proof -
  have xq: "x = q * (u + 1) + r" unfolding q_def r_def by (simp only: div_mult_mod_eq)
  show q0: "0 \<le> q" using assms(2,5) by (simp add: q_def pos_imp_zdiv_nonneg_iff)
  have "x < B * (u + 1)" using x den assms(7) by (simp add: algebra_simps)
  then show qB: "q < B" using assms(5) by (auto simp: q_def intro!: pos_div_less)
  have "0 \<le> r" "r < u + 1"
    unfolding r_def using assms(5) by (intro pos_mod_sign pos_mod_bound; simp)+
  then show r0: "0 \<le> r" and ru: "r \<le> u" by linarith+
  show m0: "0 \<le> m" using q0 assms(7) by (simp add: m_def)
  have "m \<le> q * B" using q0 assms(6) by (simp add: m_def algebra_simps)
  also have "q * B < B * B" using qB assms(1) by simp
  finally show "m < B * B" .
  show s0: "0 \<le> s" using r0 assms(1,3) by (simp add: s_def)
  have "r * B \<le> u * B" using ru assms(1) by (intro mult_right_mono) auto
  then have "r * B + y - den < B - v" using assms(4) by (simp add: den)
  then show sd: "s < den" using B assms(6) by (simp add: s_def)
  have d: "0 < den" using B assms(1) by linarith
  have mr: "0 \<le> m mod den" "m mod den < den" using d by simp_all
  then have t2: "0 \<le> t" "t < 2 * den" using s0 sd unfolding t_def by linarith+
  have "x * B + y = q * den + m + (r * B + y)"
    by (simp add: xq den m_def algebra_simps)
  also have "\<dots> = den * (q + m div den + (if den \<le> r * B + y then 1 else 0)) + t"
    using div_mult_mod_eq [of m den] by (simp add: t_def s_def algebra_simps)
  also have "\<dots> = den * (q + m div den + (if den \<le> r * B + y then 1 else 0) + (if den \<le> t then 1 else 0))
      + (t - (if den \<le> t then den else 0))"
    by (simp add: algebra_simps)
  finally have e: "x * B + y = \<dots>" .
  have b: "0 \<le> t - (if den \<le> t then den else 0)" "t - (if den \<le> t then den else 0) < den"
    using t2 by auto
  show "(x * B + y) div den =
      q + m div den + (if den \<le> r * B + y then 1 else 0) + (if den \<le> t then 1 else 0)"
    using e b by (rule int_div_pos_eq)
  show "(x * B + y) mod den = t - (if den \<le> t then den else 0)"
    using e b by (rule int_mod_pos_eq)
qed

section \<open>The machine computation\<close>

lemma uint_conv:
  "uint (cairo_uint64_to_uint32 w) = uint w mod 2 ^ 32"
  "uint (cairo_uint32_to_uint64 i) = uint i"
  "uint (cairo_uint32s_to_uint64 i j) = uint i * 2 ^ 32 + uint j"
  "uint (uint64_hi32 w) = uint w div 2 ^ 32"
proof -
  show "uint (cairo_uint64_to_uint32 w) = uint w mod 2 ^ 32"
    by (simp add: cairo_uint64_to_uint32_def unsigned_ucast_eq take_bit_eq_mod)
  show "uint (cairo_uint32_to_uint64 i) = uint i"
    by (simp add: cairo_uint32_to_uint64_def uint_ucast)
  show "uint (cairo_uint32s_to_uint64 i j) = uint i * 2 ^ 32 + uint j"
    by (simp flip: pair_conv_native add: uint_pair_abs pair_val_const)
  show "uint (uint64_hi32 w) = uint w div 2 ^ 32"
    using uint64_halves(2) [of w] by (simp add: uint_ucast)
qed

lemma native_divrem:
  "den \<noteq> 0 \<Longrightarrow> cairo_uint64_divrem num den = Some \<lparr> quo = num div den, rem = num mod den \<rparr>"
  by (simp add: cairo_uint64_divrem_def)

text \<open>The funky test of the source: the sum of two numbers below \<open>den\<close> reaches
  \<open>den\<close> exactly when the wrapped sum does or is less than one of them.\<close>

lemma wrapped_sum:
  fixes a b den :: u64
  assumes "uint a < uint den" "uint b < uint den"
  shows "(\<not> a + b < den \<or> a + b < b) \<longleftrightarrow> uint den \<le> uint a + uint b"
    and "uint (if uint den \<le> uint a + uint b then a + b - den else a + b) =
      uint a + uint b - (if uint den \<le> uint a + uint b then uint den else 0)"
proof -
  have n: "0 \<le> uint a" "0 \<le> uint b" "uint den < 2 ^ 64" using uint_bounded [of den] by simp_all
  then show "(\<not> a + b < den \<or> a + b < b) \<longleftrightarrow> uint den \<le> uint a + uint b"
    using assms by (auto simp: word_less_def uint_plus_if')
  have "uint (a + b - den) = (uint a + uint b - uint den) mod 2 ^ 64"
    by (simp add: uint_sub_mod uint_add_mod mod_simps)
  then show "uint (if uint den \<le> uint a + uint b then a + b - den else a + b) =
      uint a + uint b - (if uint den \<le> uint a + uint b then uint den else 0)"
    using n assms by (auto simp: uint_plus_if' mod_pos_pos_trivial)
qed

text \<open>The high 64 of the 96 bits, and the low 32.\<close>

lemma num_split:
  assumes "val128 num < 2 ^ 96"
  shows "uint (cairo_uint128_to_uint64 (cairo_uint128_rsl num 32)) = val128 num div 2 ^ 32"
    and "uint (cairo_uint128_to_uint32 num) = val128 num mod 2 ^ 32"
proof -
  have "val128 (cairo_uint128_rsl num 32) < 2 ^ 64"
    unfolding val128_rsl [of 32, simplified numeral_less_iff Num.less_num_simps, OF TrueI]
    using assms by (intro pos_div_less) simp_all
  then have "uint (lo (cairo_uint128_rsl num 32)) = val128 (cairo_uint128_rsl num 32)"
    using wval_mod [of "hi (cairo_uint128_rsl num 32)" "lo (cairo_uint128_rsl num 32)"]
    by (simp add: val128_def [symmetric] mod_pos_pos_trivial)
  then show "uint (cairo_uint128_to_uint64 (cairo_uint128_rsl num 32)) = val128 num div 2 ^ 32"
    by (simp add: cairo_uint128_to_uint64_def val128_rsl)
  have "uint (lo num) = val128 num mod 2 ^ 64"
    using wval_mod [of "hi num" "lo num"] by (simp add: val128_def)
  then show "uint (cairo_uint128_to_uint32 num) = val128 num mod 2 ^ 32"
    by (simp add: cairo_uint128_to_uint32_def cairo_uint128_to_uint64_def uint_conv mod_mod_cancel)
qed

text \<open>The quotient and remainder of the first estimate, the two branches on \<open>u + 1\<close>
  together.\<close>

lemma estimate_qr:
  fixes x :: u64 and u :: u32
  assumes "uint x div (uint u + 1) < 2 ^ 32"
  shows "\<exists>q r. (if u + 1 \<noteq> 0
      then map_option (\<lambda>qr. (cairo_uint64_to_uint32 (quo qr), cairo_uint64_to_uint32 (rem qr)))
             (cairo_uint64_divrem x (cairo_uint32_to_uint64 (u + 1)))
      else Some (uint64_hi32 x, cairo_uint64_to_uint32 x)) = Some (q, r) \<and>
    uint q = uint x div (uint u + 1) \<and> uint r = uint x mod (uint u + 1)"
proof (cases "u + 1 = 0")
  case True
  then have "uint (u + 1) = 0" by simp
  then have "uint u + 1 = 2 ^ 32"
    using uint_bounded [of u] uint_nonnegative [of u] unfolding uint_plus_if' uint_1
    by (simp only: len_num1 len_bit0 split: if_splits; simp)
  then show ?thesis using True by (simp add: uint_conv)
next
  case False
  then have u: "uint (u + 1) = uint u + 1"
    using uint_bounded [of u] by (auto simp: uint_plus_if' word_uint_eq_iff split: if_splits)
  have "uint (cairo_uint32_to_uint64 (u + 1)) \<noteq> 0"
    unfolding uint_conv u using uint_nonnegative [of u] by linarith
  then have "cairo_uint32_to_uint64 (u + 1) \<noteq> 0" by (metis unsigned_0)
  moreover have "uint x mod (uint u + 1) < uint u + 1"
    by (rule pos_mod_bound) (simp add: add_nonneg_pos)
  then have "uint x mod (uint u + 1) < 2 ^ 32" using uint_bounded [of u] by simp
  moreover have "0 \<le> uint x div (uint u + 1)" by (simp add: pos_imp_zdiv_nonneg_iff add_nonneg_pos)
  ultimately show ?thesis using False assms
    by (simp add: native_divrem uint_conv uint_div uint_mod u mod_pos_pos_trivial add_nonneg_pos)
qed

text \<open>The main term \<open>q (B - v)\<close>, the two branches on \<open>v\<close> together.\<close>

lemma main_term:
  assumes "den \<noteq> 0" and "uint q * (2 ^ 32 - uint v) < 2 ^ 64"
  shows "\<exists>qr. (if v \<noteq> 0 then cairo_uint64_divrem (cairo_uint32x32_64_mul q (- v)) den
      else cairo_uint64_divrem (cairo_uint32s_to_uint64 q 0) den) = Some qr \<and>
    uint (quo qr) = (uint q * (2 ^ 32 - uint v)) div uint den \<and>
    uint (rem qr) = (uint q * (2 ^ 32 - uint v)) mod uint den"
proof -
  have "uint (- v) = 2 ^ 32 - uint v" if "v \<noteq> 0"
  proof -
    have "0 < uint v" using that by (simp add: unsigned_eq_0_iff order_less_le)
    then have "(- uint v) mod 2 ^ 32 = 2 ^ 32 - uint v"
      using uint_bounded [of v] by (intro int_mod_pos_eq [where q = "- 1"]) simp_all
    then show ?thesis by (simp add: uint_word_ariths)
  qed
  then have "uint (if v \<noteq> 0 then cairo_uint32x32_64_mul q (- v) else cairo_uint32s_to_uint64 q 0) =
      uint q * (2 ^ 32 - uint v)"
    using assms(2) uint_bounded [of v]
    by (simp add: cairo_uint32x32_64_mul_def uint_mul_mod uint_ucast mod_pos_pos_trivial uint_conv)
  then show ?thesis using assms(1)
    by (cases "v = 0") (simp_all add: native_divrem uint_div uint_mod)
qed

lemma divrem96_ok:
  assumes "val128 num < 2 ^ 96" and x: "val128 num div 2 ^ 32 < uint den"
  shows "\<exists>qr. cairo_uint_96by64_32x64_divrem num den = Some qr \<and>
    uint (quo qr) = val128 num div uint den \<and> uint (rem qr) = val128 num mod uint den"
proof -
  let ?V = "val128 num" and ?B = "2 ^ 32 :: int"
  define x where "x = cairo_uint128_to_uint64 (cairo_uint128_rsl num 32)"
  have ux: "uint x = ?V div ?B" unfolding x_def using num_split(1) [OF assms(1)] .
  have ge: "\<not> cairo_uint64_ge x den" using x ux
    by (simp add: cairo_uint64_ge_def cairo_uint64_lt_def word_less_def)
  have "0 < uint den" using x uint_nonnegative [of x] unfolding ux by linarith
  then have d0: "den \<noteq> 0" by auto
  have lt: "cairo_uint64_lt x (cairo_uint32s_to_uint64 1 0) \<longleftrightarrow> uint x < ?B"
    by (simp add: cairo_uint64_lt_def word_less_def uint_conv)
  show ?thesis
  proof (cases "uint x < ?B")
    case True
    have "?V < ?B * ?B"
      using True pos_less [of "?V div ?B" ?B "?V mod ?B" ?B] by (simp add: ux)
    then have "uint (cairo_uint128_to_uint64 num) = ?V"
      using wval_mod [of "hi num" "lo num"]
      by (simp add: val128_def [symmetric] cairo_uint128_to_uint64_def mod_pos_pos_trivial)
    then show ?thesis using ge True d0
      by (simp add: cairo_uint_96by64_32x64_divrem_def Let_def x_def [symmetric] lt native_divrem
          uint_div uint_mod)
  next
    case False
    define y u v where "y = cairo_uint128_to_uint32 num" and "u = uint64_hi32 den"
      and "v = cairo_uint64_to_uint32 den"
    have uy: "uint y = ?V mod ?B" unfolding y_def using num_split(2) [OF assms(1)] .
    have den: "uint den = uint u * ?B + uint v" by (simp only: u_def v_def uint_conv div_mult_mod_eq)
    have V: "?V = uint x * ?B + uint y" by (simp only: ux uy div_mult_mod_eq)
    have b: "uint y < ?B" "uint v < ?B" using uint_bounded [of y] uint_bounded [of v] by simp_all
    have xd: "uint x < uint den" "?B \<le> uint den" using x False by (simp_all add: ux)
    have B0: "0 < ?B" by simp
    note E = estimate_core [of ?B "uint x" "uint y" "uint u" "uint v" "uint den",
        OF B0 uint_nonnegative uint_nonnegative b(1) uint_nonnegative uint_nonnegative b(2) den xd]
    obtain q r where qr: "(if u + 1 \<noteq> 0
        then map_option (\<lambda>qr. (cairo_uint64_to_uint32 (quo qr), cairo_uint64_to_uint32 (rem qr)))
               (cairo_uint64_divrem x (cairo_uint32_to_uint64 (u + 1)))
        else Some (uint64_hi32 x, cairo_uint64_to_uint32 x)) = Some (q, r)"
      "uint q = uint x div (uint u + 1)" "uint r = uint x mod (uint u + 1)"
      using estimate_qr [of x u] E(2) by auto
    note E = E [folded qr(2,3)]
    obtain m where m: "(if v \<noteq> 0 then cairo_uint64_divrem (cairo_uint32x32_64_mul q (- v)) den
        else cairo_uint64_divrem (cairo_uint32s_to_uint64 q 0) den) = Some m"
      "uint (quo m) = (uint q * (?B - uint v)) div uint den"
      "uint (rem m) = (uint q * (?B - uint v)) mod uint den"
      using main_term [OF d0, of q v] E(6) by auto
    note E = E [folded m(2,3)]
    define s where "s = (if uint den \<le> uint r * ?B + uint y
      then cairo_uint32s_to_uint64 r y - den else cairo_uint32s_to_uint64 r y)"
    have us: "uint s = uint r * ?B + uint y - (if uint den \<le> uint r * ?B + uint y then uint den else 0)"
      using uint_nonnegative [of s] by (auto simp: s_def uint_sub_if' uint_conv)
    note E = E [folded us]
    note W = wrapped_sum [of s den "rem m"]
    have g: "cairo_uint64_ge (cairo_uint32s_to_uint64 r y) den \<longleftrightarrow> uint den \<le> uint r * ?B + uint y"
      by (auto simp: cairo_uint64_ge_def cairo_uint64_lt_def word_less_def uint_conv)
    have md: "uint (rem m) < uint den" using m(3) xd(2) by simp
    let ?c1 = "uint den \<le> uint r * ?B + uint y" and ?c2 = "uint den \<le> uint s + uint (rem m)"
    have c2: "cairo_uint64_ge (s + rem m) den \<or> cairo_uint64_lt (s + rem m) (rem m) \<longleftrightarrow> ?c2"
      using W(1) E(8) md by (simp add: cairo_uint64_ge_def cairo_uint64_lt_def)
    define quot where "quot = q + cairo_uint64_to_uint32 (quo m) + (if ?c1 then 1 else 0)
      + (if ?c2 then 1 else 0)"
    have step: "cairo_uint_96by64_32x64_divrem num den = Some \<lparr> quo = cairo_uint32_to_uint64 quot,
        rem = (if ?c2 then s + rem m - den else s + rem m) \<rparr>"
    proof -
      have p1: "(if ?c1 then (cairo_uint32s_to_uint64 r y - den, k + 1)
          else (cairo_uint32s_to_uint64 r y, k)) = (s, k + (if ?c1 then 1 else 0))" for k :: u32
        by (simp add: s_def)
      have p2: "(if ?c2 then (s + rem m - den, k + 1) else (s + rem m, k)) =
          (if ?c2 then s + rem m - den else s + rem m, k + (if ?c2 then 1 else 0))" for k :: u32
        by simp
      show ?thesis
        unfolding cairo_uint_96by64_32x64_divrem_def Let_def x_def [symmetric] y_def [symmetric]
          u_def [symmetric] v_def [symmetric]
        by (simp only: ge lt False qr(1) m(1) g p1 c2 p2 if_False option.case prod.case quot_def
            cairo_uint64_add_def cairo_uint64_sub_def)
    qed
    have "uint quot = (uint q + uint (quo m) + (if ?c1 then 1 else 0) + (if ?c2 then 1 else 0)) mod ?B"
      by (simp add: quot_def uint_add_mod uint_conv mod_simps)
    also have "\<dots> = ?V div uint den mod ?B" by (simp only: V E(9))
    also have "\<dots> = ?V div uint den"
    proof (intro mod_pos_pos_trivial)
      have "uint x * ?B + uint y < uint den * ?B" using xd(1) b(1) by (rule pos_less) simp
      then show "?V div uint den < ?B"
        unfolding V using xd by (intro pos_div_less) (simp_all add: mult.commute)
    qed (use xd in \<open>simp add: pos_imp_zdiv_nonneg_iff\<close>)
    finally have "uint (cairo_uint32_to_uint64 quot) = ?V div uint den" by (simp only: uint_conv)
    moreover have "uint (if ?c2 then s + rem m - den else s + rem m) = ?V mod uint den"
      unfolding W(2) [OF E(8) md] V by (simp only: E(10))
    ultimately show ?thesis using step by simp
  qed
qed

section \<open>The signed front end\<close>

lemma overflow96:
  assumes "val128 num < 2 ^ 96" and "uint den \<le> val128 num div 2 ^ 32"
  shows "cairo_uint_96by64_32x64_divrem num den = Some \<lparr> quo = - 1, rem = den \<rparr>"
proof -
  have "cairo_uint64_ge (cairo_uint128_to_uint64 (cairo_uint128_rsl num 32)) den"
    using num_split(1) [OF assms(1)] assms(2)
    by (simp add: cairo_uint64_ge_def cairo_uint64_lt_def word_less_def)
  moreover have "cairo_uint32s_to_uint64 (- 1) (- 1) = - 1"
    by (simp add: word_uint_eq_iff uint_conv uint_word_ariths)
  ultimately show ?thesis by (simp add: cairo_uint_96by64_32x64_divrem_def Let_def)
qed

lemma fits96_iff: "0 \<le> V \<Longrightarrow> V < D * 2 ^ 32 \<longleftrightarrow> V div 2 ^ 32 < (D :: int)"
  using zdiv_mono1 [of "D * 2 ^ 32" V "2 ^ 32"] pos_div_less [of "2 ^ 32" V D]
  by (auto simp: not_less [symmetric])

lemma sint_twos64: "twos 64 (uint (w :: u64)) = sint w"
  using sint_twos [of w] by simp

lemma sint_sign:
  assumes "uint a < 2 ^ 63"
  shows "sint (if c then cairo_uint64_negate a else a) = (if c then - uint a else uint a)"
  unfolding sint_twos64 [symmetric]
proof (rule native_sdiv.sval_unique [OF native_sdiv.val_sign])
  show "- (2 ^ (64 - 1)) \<le> (if c then - uint a else uint a)" "(if c then - uint a else uint a) < 2 ^ (64 - 1)"
    using assms uint_nonnegative [of a] by (cases c; simp; linarith)+
qed

lemma int_divrem96_fits:
  assumes "\<bar>sval128 num\<bar> < 2 ^ 96" and f: "\<bar>sval128 num\<bar> < \<bar>sint den\<bar> * 2 ^ 32"
  shows "\<exists>qr. cairo_int_96by64_32x64_divrem num den = Some qr \<and>
    sint (quo qr) = sval128 num sdiv sint den \<and> sint (rem qr) = sval128 num smod sint den"
proof -
  define n where "n = (if cairo_int128_negative num then cairo_int128_negate num else num)"
  define d where "d = (if cairo_int64_negative den then cairo_uint64_negate den else den)"
  have n: "val128 n = \<bar>sval128 num\<bar>"
    unfolding n_def using sdiv128.val_abs [of num] by (simp add: sval128_twos)
  have d: "uint d = \<bar>sint den\<bar>"
    unfolding d_def using native_sdiv.val_abs [of den] by (simp add: sint_twos64)
  have "0 < \<bar>sint den\<bar>" using f by (auto simp: zero_less_mult_iff intro: ccontr)
  then have d0: "sint den \<noteq> 0" "0 < uint d" by (simp_all add: d)
  obtain qr where qr: "cairo_uint_96by64_32x64_divrem n d = Some qr"
      "uint (quo qr) = val128 n div uint d" "uint (rem qr) = val128 n mod uint d"
    using divrem96_ok [of n d] assms fits96_iff [of "val128 n" "uint d"] by (auto simp: n d)
  have rd: "uint (rem qr) < uint d" unfolding qr(3) using d0(2) by (rule pos_mod_bound)
  then have ne: "\<not> cairo_uint64_eq (rem qr) d" by (auto simp: cairo_uint64_eq_def)
  have neg: "cairo_int128_negative num \<longleftrightarrow> sval128 num < 0"
    using sdiv128.neg_sval [of num] by (simp add: sval128_twos)
  have eq: "cairo_int_96by64_32x64_divrem num den = Some
      \<lparr> quo = (if (sval128 num < 0) \<noteq> (sint den < 0) then cairo_uint64_negate (quo qr) else quo qr),
        rem = (if sval128 num < 0 then cairo_uint64_negate (rem qr) else rem qr) \<rparr>"
    using ne unfolding cairo_int_96by64_32x64_divrem_def Let_def n_def [symmetric] d_def [symmetric]
    by (simp add: qr(1) neg cairo_int64_negative_def)
  have q: "sval128 num sdiv sint den =
      (if (sval128 num < 0) \<noteq> (sint den < 0) then - uint (quo qr) else uint (quo qr))"
    and r: "sval128 num smod sint den = (if sval128 num < 0 then - uint (rem qr) else uint (rem qr))"
    by (simp_all only: qr n d sdiv_abs [OF d0(1)] smod_abs [OF d0(1)])
  have "uint (quo qr) < 2 ^ 32"
    unfolding qr n d using f d0 by (intro pos_div_less) (simp_all add: mult.commute)
  moreover have "uint (rem qr) < 2 ^ 63"
    using rd sint64_bounds [of den] unfolding d by linarith
  ultimately show ?thesis unfolding eq q r by (simp add: sint_sign)
qed

section \<open>Properties\<close>

text \<open>For a dividend of at most 96 bits, the 96 by 64 bit division returns the exact quotient
  and remainder whenever the quotient fits 32 bits, and otherwise (divisor zero included) the
  overflow result: the largest 64-bit quotient and the divisor as the remainder.\<close>

theorem cairo_uint_96by64_divrem_correct:
  assumes "val128 num < 2 ^ 96"
  shows "if val128 num < uint den * 2 ^ 32
    then (\<exists>qr. cairo_uint_96by64_32x64_divrem num den = Some qr \<and>
      uint (quo qr) = val128 num div uint den \<and> uint (rem qr) = val128 num mod uint den)
    else cairo_uint_96by64_32x64_divrem num den = Some \<lparr> quo = - 1, rem = den \<rparr>"
  using divrem96_ok [OF assms, of den] overflow96 [OF assms, of den]
    fits96_iff [of "val128 num" "uint den"] by simp

theorem cairo_uint_96by64_divrem_correct_witness:
  "\<exists>qr. cairo_uint_96by64_32x64_divrem \<lparr> lo = 7, hi = 1 \<rparr> 0x100000001 = Some qr \<and>
    uint (quo qr) = (2 ^ 64 + 7) div 0x100000001 \<and> uint (rem qr) = (2 ^ 64 + 7) mod 0x100000001"
  using cairo_uint_96by64_divrem_correct [where num = "\<lparr> lo = 7, hi = 1 \<rparr>" and den = "0x100000001"]
  by (simp add: val128_def wval_def)

text \<open>The signed 96 by 64 bit division of a dividend of magnitude below \<open>2 ^ 96\<close>
  truncates toward zero whenever the quotient's magnitude is below \<open>2 ^ 32\<close>; otherwise it
  returns the overflow result, the largest signed quotient and the divisor.\<close>

theorem cairo_int_96by64_divrem_correct:
  assumes "\<bar>sval128 num\<bar> < 2 ^ 96"
  shows "if \<bar>sval128 num\<bar> < \<bar>sint den\<bar> * 2 ^ 32
    then (\<exists>qr. cairo_int_96by64_32x64_divrem num den = Some qr \<and>
      sint (quo qr) = sval128 num sdiv sint den \<and> sint (rem qr) = sval128 num smod sint den)
    else cairo_int_96by64_32x64_divrem num den = Some \<lparr> quo = 0x7FFFFFFFFFFFFFFF, rem = den \<rparr>"
proof (cases "\<bar>sval128 num\<bar> < \<bar>sint den\<bar> * 2 ^ 32")
  case True
  then show ?thesis using int_divrem96_fits [OF assms] by simp
next
  case False
  let ?n = "if cairo_int128_negative num then cairo_int128_negate num else num"
  let ?d = "if cairo_int64_negative den then cairo_uint64_negate den else den"
  have n: "val128 ?n = \<bar>sval128 num\<bar>" and d: "uint ?d = \<bar>sint den\<bar>"
    using sdiv128.val_abs [of num] native_sdiv.val_abs [of den]
    by (simp_all only: sval128_twos sint_twos64)
  have "uint ?d \<le> val128 ?n div 2 ^ 32"
    using False fits96_iff [of "\<bar>sval128 num\<bar>" "\<bar>sint den\<bar>"] unfolding n d by simp
  then have "cairo_uint_96by64_32x64_divrem ?n ?d = Some \<lparr> quo = - 1, rem = ?d \<rparr>"
    using assms by (intro overflow96) (simp_all only: n)
  moreover have "cairo_uint32s_to_uint64 0x7FFFFFFF (- 1) = 0x7FFFFFFFFFFFFFFF"
    by (simp add: word_uint_eq_iff uint_conv uint_word_ariths)
  ultimately show ?thesis using False
    by (simp only: cairo_int_96by64_32x64_divrem_def Let_def) (simp add: cairo_uint64_eq_def)
qed

theorem cairo_int_96by64_divrem_correct_witness:
  "\<exists>qr. cairo_int_96by64_32x64_divrem \<lparr> lo = - 7, hi = - 1 \<rparr> 2 = Some qr \<and>
    sint (quo qr) = - 7 sdiv 2 \<and> sint (rem qr) = - 7 smod 2"
  using cairo_int_96by64_divrem_correct [where num = "\<lparr> lo = - 7, hi = - 1 \<rparr>" and den = 2]
  by (simp add: sval128_def swval_def)

end
