(* ===== verification/Inet.thy ===== *)
theory Inet
  imports Prelude
begin

text \<open>
  Byte order, the Internet checksum and textual addresses
  (\<open>src/nsc-0.5.3/lwip-HEAD/src/core/inet.c\<close>).  A region of memory is the list of its bytes; a
  pbuf chain is, for the checksum, the list of the payloads of its pbufs.  The machine is little
  endian and allows unaligned 16-bit loads (\<open>MEM_ALIGNMENT\<close> 1), as the build configures it.
\<close>

section \<open>Byte order\<close>

definition htons :: "u16 \<Rightarrow> u16" where
  "htons n = push_bit 8 (n AND 0xff) OR drop_bit 8 (n AND 0xff00)"

definition ntohs :: "u16 \<Rightarrow> u16" where
  "ntohs n = htons n"

definition htonl :: "u32 \<Rightarrow> u32" where
  "htonl n = push_bit 24 (n AND 0xff) OR push_bit 8 (n AND 0xff00) OR
    drop_bit 8 (n AND 0xff0000) OR drop_bit 24 (n AND 0xff000000)"

definition ntohl :: "u32 \<Rightarrow> u32" where
  "ntohl n = htonl n"

section \<open>The checksum routines\<close>

text \<open>The 16-bit load of two bytes on this machine.\<close>

definition load16 :: "u8 \<Rightarrow> u8 \<Rightarrow> u16" where
  "load16 a b = ucast a OR push_bit 8 (ucast b)"

fun chksum_words :: "u32 \<Rightarrow> u8 list \<Rightarrow> u32" where
  "chksum_words acc (a # b # bs) = chksum_words (acc + ucast (load16 a b)) bs"
| "chksum_words acc [a] = acc + ucast (htons (push_bit 8 (ucast a AND 0xff)))"
| "chksum_words acc [] = acc"

definition fold_once :: "u32 \<Rightarrow> u32" where
  "fold_once acc = drop_bit 16 acc + (acc AND 0xffff)"

definition lwip_standard_chksum :: "u8 list \<Rightarrow> u16" where
  "lwip_standard_chksum bs =
    (let acc = chksum_words 0 bs;
         acc = fold_once acc;
         acc = (if acc AND 0xffff0000 \<noteq> 0 then fold_once acc else acc)
     in ucast acc)"

text \<open>The folding loop \<open>while (acc >> 16)\<close>.\<close>

lemma unat_fold_once: "unat (fold_once acc) = unat acc div 65536 + unat acc mod 65536"
proof -
  have "unat acc < 4294967296" using unat_less_pow [of acc] by simp
  then have "unat acc div 65536 < 65536" by (simp add: less_mult_imp_div_less)
  moreover have "unat acc mod 65536 < 65536" by simp
  ultimately have "unat (drop_bit 16 acc) + unat (take_bit 16 acc) < 2 ^ LENGTH(32)"
    by (simp add: unat_drop_bit unat_take_bit del: take_bit_eq_mod)
  then show ?thesis
    by (simp add: fold_once_def mask_take unat_add_exact unat_drop_bit unat_take_bit)
qed

lemma high_half: "drop_bit 16 acc \<noteq> (0 :: u32) \<longleftrightarrow> 65536 \<le> unat acc"
proof -
  have "drop_bit 16 acc \<noteq> 0 \<longleftrightarrow> unat (drop_bit 16 acc) \<noteq> 0" by (simp add: unat_eq_0)
  then show ?thesis by (simp add: unat_drop_bit div_eq_0_iff not_less)
qed

function fold_loop :: "u32 \<Rightarrow> u32" where
  "fold_loop acc = (if drop_bit 16 acc \<noteq> 0 then fold_loop ((acc AND 0xffff) + drop_bit 16 acc) else acc)"
  by auto
termination
proof (relation "measure unat")
  fix acc :: u32
  assume "drop_bit 16 acc \<noteq> 0"
  then have "65536 \<le> unat acc" by (simp add: high_half)
  then have "unat (fold_once acc) < unat acc"
    using div_mult_mod_eq [of "unat acc" 65536] unfolding unat_fold_once by linarith
  then show "((acc AND 0xffff) + drop_bit 16 acc, acc) \<in> measure unat"
    by (simp add: fold_once_def add.commute)
qed simp

declare fold_loop.simps [simp del]

definition swap16 :: "u32 \<Rightarrow> u32" where
  "swap16 acc = push_bit 8 (acc AND 0xff) OR drop_bit 8 (acc AND 0xff00)"

fun chksum_chain :: "(u32 \<Rightarrow> u32) \<Rightarrow> u32 \<Rightarrow> bool \<Rightarrow> u8 list list \<Rightarrow> u32 \<times> bool" where
  "chksum_chain swp acc swapped [] = (acc, swapped)"
| "chksum_chain swp acc swapped (q # qs) =
    (let acc = fold_loop (acc + ucast (lwip_standard_chksum q))
     in if odd (length q) then chksum_chain swp (swp acc) (\<not> swapped) qs
        else chksum_chain swp acc swapped qs)"

definition inet_chksum_pseudo :: "u8 list list \<Rightarrow> u32 \<Rightarrow> u32 \<Rightarrow> u8 \<Rightarrow> u16 \<Rightarrow> u16" where
  "inet_chksum_pseudo p src dest proto proto_len =
    (let (acc, swapped) = chksum_chain swap16 0 False p;
         acc = (if swapped then swap16 acc else acc);
         acc = acc + (src AND 0xffff);
         acc = acc + (drop_bit 16 src AND 0xffff);
         acc = acc + (dest AND 0xffff);
         acc = acc + (drop_bit 16 dest AND 0xffff);
         acc = acc + ucast (htons (ucast proto));
         acc = acc + ucast (htons proto_len);
         acc = fold_loop acc
     in ucast (NOT (acc AND 0xffff)))"

definition inet_chksum :: "u8 list \<Rightarrow> u16" where
  "inet_chksum bs = ucast (NOT (fold_loop (ucast (lwip_standard_chksum bs)) AND 0xffff))"

text \<open>Line 181 as C parses it: the shifts bind tighter than the masks.\<close>

definition chksum_pbuf_swap :: "u32 \<Rightarrow> u32" where
  "chksum_pbuf_swap acc = (acc AND push_bit 8 0x00ff) OR (acc AND drop_bit 8 0xff00)"

definition inet_chksum_pbuf :: "u8 list list \<Rightarrow> u16" where
  "inet_chksum_pbuf p =
    (let (acc, swapped) = chksum_chain chksum_pbuf_swap 0 False p;
         acc = (if swapped then swap16 acc else acc)
     in ucast (NOT (acc AND 0xffff)))"

section \<open>Ones' complement arithmetic\<close>

text \<open>The sum of a list of bytes as 16-bit little-endian words, an odd last byte padded with
  zero, and the representative of a number in 16-bit ones' complement, where zero stands only for
  zero.  Together they are the checksum of RFC 1071 before complementing.\<close>

fun word_sum :: "u8 list \<Rightarrow> nat" where
  "word_sum (a # b # bs) = unat a + 256 * unat b + word_sum bs"
| "word_sum [a] = unat a"
| "word_sum [] = 0"

definition oc16 :: "nat \<Rightarrow> nat" where
  "oc16 n = (if n = 0 then 0 else (n - 1) mod 65535 + 1)"

lemma oc16_le: "oc16 n \<le> 65535"
proof -
  have "(n - 1) mod 65535 < 65535" by simp
  then show ?thesis unfolding oc16_def by (cases "n = 0") (simp_all only: if_True if_False, simp_all)
qed

lemma oc16_0 [simp]: "oc16 n = 0 \<longleftrightarrow> n = 0" "oc16 0 = 0"
  by (simp_all add: oc16_def)

lemma oc16_mod: "oc16 n mod 65535 = n mod 65535"
proof (cases "n = 0")
  case False
  then have "((n - 1) mod 65535 + 1) mod 65535 = (n - 1 + 1) mod 65535" by (simp only: mod_simps)
  then show ?thesis using False by (simp add: oc16_def)
qed simp

lemma oc16_unique:
  assumes "m \<le> 65535" "m mod 65535 = n mod 65535" "m = 0 \<longleftrightarrow> n = 0"
  shows "m = oc16 n"
proof (cases "n = 0")
  case True
  then show ?thesis using assms(3) by simp
next
  case False
  then show ?thesis using assms oc16_le oc16_mod mod_nonzero_inj [of m 65535 "oc16 n"]
    by (metis oc16_0(1))
qed

lemma oc16_id: "n \<le> 65535 \<Longrightarrow> oc16 n = n"
  by (rule oc16_unique [symmetric]) simp_all

lemma oc16_eqI: "a mod 65535 = b mod 65535 \<Longrightarrow> (a = 0 \<longleftrightarrow> b = 0) \<Longrightarrow> oc16 a = oc16 b"
  by (rule oc16_unique) (simp_all add: oc16_le oc16_mod)

lemma oc16_fold: "oc16 (n div 65536 + n mod 65536) = oc16 n"
proof (rule oc16_eqI)
  have "n = (n div 65536) * 65535 + (n div 65536 + n mod 65536)"
    using div_mult_mod_eq [of n 65536] by linarith
  then show "(n div 65536 + n mod 65536) mod 65535 = n mod 65535"
    by (metis mod_mult_self3)
  show "n div 65536 + n mod 65536 = 0 \<longleftrightarrow> n = 0"
    using div_mult_mod_eq [of n 65536] by auto
qed

lemma unat_fold_loop: "unat (fold_loop acc) = oc16 (unat acc)"
proof (induction acc rule: fold_loop.induct)
  case (1 acc)
  show ?case
  proof (cases "drop_bit 16 acc \<noteq> 0")
    case True
    then show ?thesis using "1.IH" unat_fold_once [of acc] oc16_fold [of "unat acc"]
      by (subst fold_loop.simps) (simp add: fold_once_def add.commute)
  next
    case False
    then have "unat acc \<le> 65535" using high_half [of acc] by simp
    then show ?thesis using False by (subst fold_loop.simps) (simp add: oc16_id)
  qed
qed

section \<open>The loops compute ones' complement sums\<close>

lemma unat_load16: "unat (load16 a b) = unat a + 256 * unat b"
proof -
  have "unat (load16 a b) = unat (ucast a :: u16) + unat (push_bit 8 (ucast b :: u16))"
    unfolding load16_def by (rule unat_or_disjoint) (auto simp: bit_simps dest: bit_imp_le_length)
  then show ?thesis using unat_less_pow [of a] unat_less_pow [of b]
    by (simp add: unat_push_bit unat_ucast_up)
qed

lemma unat_odd_byte: "unat (htons (push_bit 8 (ucast (a :: u8) AND 0xff))) = unat a"
proof -
  have "htons (push_bit 8 (ucast a AND 0xff)) = (ucast a :: u16)"
    by (rule bit_word_eqI) (auto simp: htons_def bit_simps mask_take dest: bit_imp_le_length)
  then show ?thesis by (simp add: unat_ucast_up)
qed

lemma word_sum_le: "word_sum bs \<le> 65535 * ((length bs + 1) div 2)"
proof (induction bs rule: word_sum.induct)
  case (1 a b bs)
  then show ?case using unat_less_pow [of a] unat_less_pow [of b] by simp
next
  case (2 a)
  then show ?case using unat_less_pow [of a] by simp
qed simp

lemma unat_chksum_words:
  "unat acc + word_sum bs < 2 ^ 32 \<Longrightarrow> unat (chksum_words acc bs) = unat acc + word_sum bs"
proof (induction acc bs rule: chksum_words.induct)
  case (1 acc a b bs)
  then have "unat (acc + ucast (load16 a b)) = unat acc + (unat a + 256 * unat b)"
    by (subst unat_add_exact) (simp_all add: unat_ucast_up unat_load16)
  then show ?case using 1 by simp
next
  case (2 acc a)
  then have "unat (acc + ucast (htons (push_bit 8 (ucast a AND 0xff)))) = unat acc + unat a"
    using unat_add_exact [of acc "ucast (htons (push_bit 8 (ucast a AND 0xff)))"]
      unat_ucast_up [of "htons (push_bit 8 (ucast a AND 0xff))", where 'b = 32]
    by (simp only: unat_odd_byte word_sum.simps len_num1 len_bit0 len_bit1) simp
  then show ?case by (simp only: chksum_words.simps word_sum.simps)
qed simp

text \<open>The two conditional folds of the routine are enough for a buffer whose length is a
  16-bit number.\<close>

lemma word_sum_32: "length bs \<le> 65535 \<Longrightarrow> word_sum bs \<le> 65535 * 32768"
  using word_sum_le [of bs] mult_le_mono2 [of "(length bs + 1) div 2" 32768 65535] by linarith

lemma high_mask: "acc AND 0xffff0000 \<noteq> (0 :: u32) \<longleftrightarrow> 65536 \<le> unat acc"
proof -
  have "acc AND 0xffff0000 = acc AND push_bit 16 (mask 16)" by (simp add: mask_eq_exp_minus_1)
  also have "\<dots> = push_bit 16 (drop_bit 16 acc)"
    by (rule bit_word_eqI) (auto simp: bit_simps)
  also have "\<dots> \<noteq> 0 \<longleftrightarrow> drop_bit 16 acc \<noteq> 0"
  proof
    assume "drop_bit 16 acc \<noteq> 0"
    then obtain k where "bit (drop_bit 16 acc) k" using bit_eq_iff [of "drop_bit 16 acc" 0] by auto
    then have "bit (push_bit 16 (drop_bit 16 acc)) (k + 16)"
      by (auto simp: bit_simps add.commute dest: bit_imp_le_length)
    then show "push_bit 16 (drop_bit 16 acc) \<noteq> 0" by auto
  qed auto
  finally show ?thesis by (simp only: high_half)
qed

lemma unat_standard_chksum:
  assumes "length bs \<le> 65535"
  shows "unat (lwip_standard_chksum bs) = oc16 (word_sum bs)"
proof -
  define w where "w = chksum_words 0 bs"
  define a where "a = fold_once w"
  define r where "r = (if a AND 0xffff0000 \<noteq> 0 then fold_once a else a)"
  have w: "unat w = word_sum bs" "unat w \<le> 65535 * 32768"
    using word_sum_32 [OF assms] by (simp_all add: unat_chksum_words w_def)
  have o: "oc16 (unat (fold_once x)) = oc16 (unat x)" for x by (simp only: unat_fold_once oc16_fold)
  have "unat w div 65536 < 32768" using w(2) by (intro less_mult_imp_div_less) linarith
  moreover have "unat w mod 65536 < 65536" by (rule mod_less_divisor) simp
  ultimately have a: "unat a < 98304" unfolding a_def unat_fold_once by linarith
  have "unat r \<le> 65535"
  proof (cases "65536 \<le> unat a")
    case True
    then have "unat a div 65536 = 1" using a by (intro div_nat_eqI) simp_all
    then have "unat (fold_once a) \<le> 65535"
      unfolding unat_fold_once using div_mult_mod_eq [of "unat a" 65536] a by linarith
    then show ?thesis using True by (simp add: r_def high_mask)
  qed (simp add: r_def high_mask)
  moreover have "oc16 (unat r) = oc16 (word_sum bs)"
    by (simp add: r_def a_def o w)
  moreover have "lwip_standard_chksum bs = ucast r"
    by (simp only: lwip_standard_chksum_def Let_def r_def a_def w_def)
  ultimately show ?thesis by (simp add: unat_ucast_mod oc16_id)
qed

section \<open>Splitting a buffer\<close>

text \<open>A byte that moves to the other half of its word is multiplied by 256, and two such moves
  cancel modulo 65535.\<close>

definition swap_factor :: "nat \<Rightarrow> nat" where
  "swap_factor n = (if odd n then 256 else 1)"

lemma swap_factor_simps [simp]:
  "swap_factor 0 = 1" "swap_factor (Suc 0) = 256" "swap_factor (Suc (Suc n)) = swap_factor n"
  by (simp_all add: swap_factor_def)

lemma swap_factor_add: "(swap_factor (m + n) * x) mod 65535 = (swap_factor m * (swap_factor n * x)) mod 65535"
proof -
  have "(65536 * x) mod 65535 = x mod 65535" using mod_mult_self3 [of x 65535 x] by simp
  then show ?thesis by (auto simp: swap_factor_def)
qed

lemma word_sum_Cons: "word_sum (a # bs) mod 65535 = (unat a + 256 * word_sum bs) mod 65535"
proof (induction bs arbitrary: a rule: word_sum.induct)
  case (1 b c bs)
  have "word_sum (a # b # c # bs) mod 65535 = (unat a + 256 * unat b + (unat c + 256 * word_sum bs)) mod 65535"
    using "1.IH" [of c] by (simp only: word_sum.simps) (metis mod_add_right_eq)
  also have "\<dots> = (unat a + 256 * unat b + (unat c + 256 * word_sum bs) + unat c * 65535) mod 65535"
    by (rule mod_mult_self1 [symmetric])
  finally show ?case by (simp add: algebra_simps)
qed simp_all

lemma word_sum_append:
  "word_sum (xs @ ys) mod 65535 = (word_sum xs + swap_factor (length xs) * word_sum ys) mod 65535"
proof (induction xs rule: word_sum.induct)
  case (1 a b bs)
  then show ?case by (simp only: append_Cons word_sum.simps length_Cons swap_factor_simps)
      (metis (no_types, opaque_lifting) add.assoc mod_add_right_eq)
next
  case (2 a)
  then show ?case by (simp add: word_sum_Cons)
qed simp

lemma word_sum_append_even: "even (length xs) \<Longrightarrow> word_sum (xs @ ys) = word_sum xs + word_sum ys"
  by (induction xs rule: word_sum.induct) auto

lemma word_sum_eq_0: "word_sum bs = 0 \<longleftrightarrow> (\<forall>b\<in>set bs. b = 0)"
  by (induction bs rule: word_sum.induct) (auto simp: unat_eq_0)

lemma oc16_append:
  "oc16 (word_sum (xs @ ys)) = oc16 (word_sum xs + swap_factor (length xs) * word_sum ys)"
  by (rule oc16_eqI [OF word_sum_append]) (auto simp: word_sum_eq_0 swap_factor_def)

lemma oc16_mult: "oc16 (k * oc16 n) = oc16 (k * n)"
  by (rule oc16_eqI) (metis mod_mult_right_eq oc16_mod, simp)

lemma oc16_add: "oc16 (oc16 m + n) = oc16 (m + n)" "oc16 (m + oc16 n) = oc16 (m + n)"
  by (rule oc16_eqI; metis mod_add_left_eq mod_add_right_eq oc16_mod add_eq_0_iff_both_eq_0 oc16_0(1))+

lemma oc16_mult_cong: "oc16 m = oc16 n \<Longrightarrow> oc16 (k * m) = oc16 (k * n)"
  using oc16_mult [of k m] oc16_mult [of k n] by simp

lemma oc16_add_cong: "oc16 m = oc16 n \<Longrightarrow> oc16 (k + m) = oc16 (k + n)"
  using oc16_add(2) [of k m] oc16_add(2) [of k n] by simp

lemma unat_swap16:
  assumes "unat acc \<le> 65535"
  shows "unat (swap16 acc) = oc16 (256 * unat acc)"
proof -
  have "acc AND 0xff00 = acc AND push_bit 8 (mask 8)" by (simp add: mask_eq_exp_minus_1)
  then have h: "drop_bit 8 (acc AND 0xff00) = take_bit 8 (drop_bit 8 acc)"
    by (simp only:) (rule bit_word_eqI, auto simp: bit_simps)
  have "unat (swap16 acc) = unat (push_bit 8 (take_bit 8 acc)) + unat (take_bit 8 (drop_bit 8 acc))"
    unfolding swap16_def mask_take h by (rule unat_or_disjoint) (auto simp: bit_simps)
  also have "\<dots> = unat acc mod 256 * 256 + unat acc div 256"
  proof -
    have "unat acc div 256 < 256" using assms by (intro less_mult_imp_div_less) simp
    moreover have "unat acc mod 256 * 256 < 4294967296"
      using mod_less_divisor [of 256 "unat acc"] by linarith
    ultimately show ?thesis by (simp add: unat_push_bit unat_take_bit unat_drop_bit)
  qed
  also have "\<dots> = oc16 (256 * unat acc)"
  proof (rule oc16_unique)
    have d: "unat acc = unat acc div 256 * 256 + unat acc mod 256" by simp
    have "unat acc div 256 < 256" using assms by (intro less_mult_imp_div_less) simp
    then show "unat acc mod 256 * 256 + unat acc div 256 \<le> 65535"
      using mod_less_divisor [of 256 "unat acc"] by linarith
    have "256 * unat acc = (unat acc mod 256 * 256 + unat acc div 256) + (unat acc div 256) * 65535"
      using d by linarith
    then show "(unat acc mod 256 * 256 + unat acc div 256) mod 65535 = 256 * unat acc mod 65535"
      by (metis mod_mult_self1)
    show "unat acc mod 256 * 256 + unat acc div 256 = 0 \<longleftrightarrow> 256 * unat acc = 0"
      using d by auto
  qed
  finally show ?thesis .
qed

section \<open>Checksums of chains\<close>

lemma chain_step:
  assumes "unat acc \<le> 65535" "length q \<le> 65535"
  shows "unat (fold_loop (acc + ucast (lwip_standard_chksum q))) = oc16 (unat acc + word_sum q)"
proof -
  have "unat (ucast (lwip_standard_chksum q) :: u32) = oc16 (word_sum q)"
    by (simp add: unat_ucast_up unat_standard_chksum [OF assms(2)])
  then have "unat (acc + ucast (lwip_standard_chksum q)) = unat acc + oc16 (word_sum q)"
    using assms(1) oc16_le [of "word_sum q"] by (subst unat_add_exact) simp_all
  then show ?thesis by (simp add: unat_fold_loop oc16_add)
qed

lemma chain_invariant:
  assumes "\<forall>q\<in>set qs. length q \<le> 65535" "unat acc \<le> 65535"
    and "chksum_chain swap16 acc swapped qs = (acc', swapped')"
  shows "swapped' = (swapped \<noteq> odd (length (concat qs))) \<and>
    unat acc' = oc16 (swap_factor (length (concat qs)) * (unat acc + word_sum (concat qs)))"
  using assms
proof (induction qs arbitrary: acc swapped)
  case Nil
  then show ?case by (simp add: oc16_id)
next
  case (Cons q qs)
  define f where "f = fold_loop (acc + ucast (lwip_standard_chksum q))"
  define g where "g = (if odd (length q) then swap16 f else f)"
  have f: "unat f = oc16 (unat acc + word_sum q)"
    unfolding f_def using Cons.prems by (intro chain_step) auto
  then have "unat f \<le> 65535" using oc16_le by metis
  then have g: "unat g = oc16 (swap_factor (length q) * (unat acc + word_sum q))"
    by (simp add: g_def unat_swap16 f oc16_mult swap_factor_def)
  have "unat g \<le> 65535" unfolding g by (rule oc16_le)
  moreover have "chksum_chain swap16 g (swapped \<noteq> odd (length q)) qs = (acc', swapped')"
    using Cons.prems(3) by (simp add: Let_def f_def [symmetric] g_def split: if_splits)
  ultimately have IH: "swapped' = ((swapped \<noteq> odd (length q)) \<noteq> odd (length (concat qs)))"
      "unat acc' = oc16 (swap_factor (length (concat qs)) * (unat g + word_sum (concat qs)))"
    using Cons.IH [of g] Cons.prems(1) by auto
  let ?a = "unat acc + word_sum q" and ?s = "word_sum (concat qs)"
  let ?m = "swap_factor (length q)" and ?n = "swap_factor (length (concat qs))"
  have "oc16 (?n * (unat g + ?s)) = oc16 (?n * (?m * ?a + ?s))"
    unfolding g by (rule oc16_mult_cong) (rule oc16_add(1))
  also have "\<dots> = oc16 (swap_factor (length q + length (concat qs)) * (?a + ?m * ?s))"
  proof (rule oc16_eqI)
    have "(?m * (?m * ?s)) mod 65535 = ?s mod 65535"
      using swap_factor_add [of "length q" "length q" ?s] by (simp add: swap_factor_def)
    then have "(?m * ?a + ?s) mod 65535 = (?m * (?a + ?m * ?s)) mod 65535"
      unfolding distrib_left by (rule mod_add_cong [OF refl, symmetric])
    then have "(?n * (?m * ?a + ?s)) mod 65535 = (?n * (?m * (?a + ?m * ?s))) mod 65535"
      by (rule mod_mult_cong [OF refl])
    then show "(?n * (?m * ?a + ?s)) mod 65535 =
        (swap_factor (length q + length (concat qs)) * (?a + ?m * ?s)) mod 65535"
      by (simp only: swap_factor_add mult.left_commute [of ?n ?m])
  qed (auto simp: swap_factor_def)
  also have "\<dots> = oc16 (swap_factor (length (concat (q # qs))) * (unat acc + word_sum (concat (q # qs))))"
  proof -
    have "oc16 (unat acc + word_sum (q @ concat qs)) = oc16 (unat acc + (word_sum q + ?m * ?s))"
      by (rule oc16_add_cong) (rule oc16_append)
    then show ?thesis
      using oc16_mult_cong [of "?a + ?m * ?s" "unat acc + word_sum (q @ concat qs)"]
      by (simp only: concat.simps length_append add.assoc)
  qed
  finally show ?case using IH by auto
qed

section \<open>Properties of the checksums\<close>

text \<open>The bytes of the TCP/UDP pseudo header: the two addresses as they lie in memory (network
  order), a zero byte, the protocol and the length, high byte first.\<close>

definition mem32 :: "u32 \<Rightarrow> u8 list" where
  "mem32 w = [ucast w, ucast (drop_bit 8 w), ucast (drop_bit 16 w), ucast (drop_bit 24 w)]"

definition pseudo_header :: "u32 \<Rightarrow> u32 \<Rightarrow> u8 \<Rightarrow> u16 \<Rightarrow> u8 list" where
  "pseudo_header src dest proto proto_len =
    mem32 src @ mem32 dest @ [0, proto, ucast (drop_bit 8 proto_len), ucast proto_len]"

lemma even_pseudo_header: "even (length (pseudo_header src dest proto proto_len))"
  by (simp add: pseudo_header_def mem32_def)

lemma nat_bytes: "(n :: nat) mod 256 + 256 * (n div 256 mod 256) = n mod 65536"
  using mod_mult2_eq [of n 256 256] by simp

lemma unat_htons: "unat (htons n) = 256 * (unat n mod 256) + unat n div 256"
proof -
  have "n AND 0xff00 = n AND push_bit 8 (mask 8)" by (simp add: mask_eq_exp_minus_1)
  then have h: "drop_bit 8 (n AND 0xff00) = drop_bit 8 n"
    by (simp only:) (rule bit_word_eqI, auto simp: bit_simps dest: bit_imp_le_length)
  have "unat (htons n) = unat (push_bit 8 (take_bit 8 n)) + unat (drop_bit 8 n)"
    unfolding htons_def mask_take h
    by (rule unat_or_disjoint) (auto simp: bit_simps dest: bit_imp_le_length)
  then show ?thesis
    using mod_less_divisor [of 256 "unat n"]
    by (simp add: unat_push_bit unat_take_bit unat_drop_bit)
qed

lemma unat_halves:
  "unat (w AND 0xffff) = unat w mod 65536"
  "unat (drop_bit 16 w AND 0xffff) = unat (w :: u32) div 65536"
proof -
  have "unat w div 65536 < 65536" using unat_less_pow [of w] by (intro less_mult_imp_div_less) simp
  then show "unat (w AND 0xffff) = unat w mod 65536"
    "unat (drop_bit 16 w AND 0xffff) = unat w div 65536"
    by (simp_all add: mask_take unat_take_bit unat_drop_bit)
qed

lemma word_sum_mem32: "word_sum (mem32 w) = unat w mod 65536 + unat w div 65536"
proof -
  have "unat w div 65536 < 65536" using unat_less_pow [of w] by (intro less_mult_imp_div_less) simp
  then have "unat w div 65536 mod 65536 = unat w div 65536" by simp
  then show ?thesis
    using nat_bytes [of "unat w"] nat_bytes [of "unat w div 65536"]
    by (simp add: mem32_def unat_ucast_mod unat_drop_bit div_mult2_eq [symmetric])
qed

lemma word_sum_pseudo_header:
  "word_sum (pseudo_header src dest proto proto_len) =
    unat (src AND 0xffff) + unat (drop_bit 16 src AND 0xffff) + unat (dest AND 0xffff) +
    unat (drop_bit 16 dest AND 0xffff) + unat (htons (ucast proto)) + unat (htons proto_len)"
proof -
  have "unat proto_len div 256 < 256"
    using unat_less_pow [of proto_len] by (intro less_mult_imp_div_less) simp
  moreover have "unat proto < 256" using unat_less_pow [of proto] by simp
  moreover have "even (length (mem32 w))" for w by (simp add: mem32_def)
  ultimately show ?thesis
    by (simp add: pseudo_header_def word_sum_append_even word_sum_mem32 unat_halves unat_htons
        unat_ucast_up unat_ucast_mod unat_drop_bit)
qed

lemma complement16: "unat acc \<le> 65535 \<Longrightarrow> unat (ucast (NOT (acc AND 0xffff) :: u32) :: u16) = 65535 - unat acc"
proof -
  assume a: "unat acc \<le> 65535"
  have "ucast (NOT (acc AND 0xffff) :: u32) = NOT (ucast acc :: u16)"
    by (rule bit_word_eqI) (auto simp: bit_simps mask_take)
  then show ?thesis using a by (simp add: unat_not unat_ucast_mod)
qed

lemma unat_inet_chksum:
  assumes "length bs \<le> 65535"
  shows "unat (inet_chksum bs) = 65535 - oc16 (word_sum bs)"
proof -
  have "unat (fold_loop (ucast (lwip_standard_chksum bs))) = oc16 (word_sum bs)"
    by (simp add: unat_fold_loop unat_ucast_up unat_standard_chksum [OF assms] oc16_id oc16_le)
  then show ?thesis using oc16_le [of "word_sum bs"]
    by (simp only: inet_chksum_def complement16)
qed

lemma unat_chain_unswapped:
  assumes "\<forall>q\<in>set qs. length q \<le> 65535"
    and "chksum_chain swap16 0 False qs = (acc, swapped)"
  shows "unat (if swapped then swap16 acc else acc) = oc16 (word_sum (concat qs))"
proof -
  have c: "swapped = odd (length (concat qs))"
      "unat acc = oc16 (swap_factor (length (concat qs)) * word_sum (concat qs))"
    using chain_invariant [OF assms(1) _ assms(2)] by simp_all
  then have "unat (swap16 acc) = oc16 (256 * (swap_factor (length (concat qs)) * word_sum (concat qs)))"
    using oc16_le by (simp add: unat_swap16 oc16_mult)
  moreover have "oc16 (256 * (256 * n)) = oc16 n" for n
    by (rule oc16_eqI) (use mod_mult_self3 [of n 65535 n] in simp_all)
  ultimately show ?thesis using c by (auto simp: swap_factor_def)
qed

lemma unat_inet_chksum_pseudo:
  assumes "\<forall>q\<in>set p. length q \<le> 65535"
  shows "unat (inet_chksum_pseudo p src dest proto proto_len) =
    65535 - oc16 (word_sum (pseudo_header src dest proto proto_len @ concat p))"
proof -
  obtain acc swapped where c: "chksum_chain swap16 0 False p = (acc, swapped)" by fastforce
  define a where "a = (if swapped then swap16 acc else acc)"
  have a: "unat a = oc16 (word_sum (concat p))" "unat a \<le> 65535"
    unfolding a_def unat_chain_unswapped [OF assms c] using oc16_le by simp_all
  define h1 h2 h3 h4 where "h1 = src AND 0xffff" and "h2 = drop_bit 16 src AND 0xffff"
    and "h3 = dest AND 0xffff" and "h4 = drop_bit 16 dest AND 0xffff"
  define h5 h6 where "h5 = (ucast (htons (ucast proto)) :: u32)" and "h6 = (ucast (htons proto_len) :: u32)"
  have b: "unat h1 < 65536" "unat h2 < 65536" "unat h3 < 65536" "unat h4 < 65536"
      "unat h5 < 65536" "unat h6 < 65536"
    using unat_less_pow [of "htons (ucast proto)"] unat_less_pow [of "htons proto_len"]
    by (simp_all add: h1_def h2_def h3_def h4_def h5_def h6_def mask_take unat_take_bit unat_ucast_up)
  have ph: "word_sum (pseudo_header src dest proto proto_len) =
      unat h1 + unat h2 + unat h3 + unat h4 + unat h5 + unat h6"
    unfolding word_sum_pseudo_header h1_def h2_def h3_def h4_def h5_def h6_def
    by (simp add: unat_ucast_up)
  have "unat (a + h1 + h2 + h3 + h4 + h5 + h6) =
      unat a + unat h1 + unat h2 + unat h3 + unat h4 + unat h5 + unat h6"
    using a(2) b by (simp add: unat_add_exact)
  then have "unat (fold_loop (a + h1 + h2 + h3 + h4 + h5 + h6)) =
      oc16 (oc16 (word_sum (concat p)) + word_sum (pseudo_header src dest proto proto_len))"
    by (simp add: unat_fold_loop a ph add.assoc)
  also have "\<dots> = oc16 (word_sum (pseudo_header src dest proto proto_len @ concat p))"
    by (simp add: oc16_add add.commute word_sum_append_even even_pseudo_header)
  finally show ?thesis
    using oc16_le [of "word_sum (pseudo_header src dest proto proto_len @ concat p)"]
    unfolding inet_chksum_pseudo_def c Let_def prod.case a_def [symmetric] h1_def [symmetric]
      h2_def [symmetric] h3_def [symmetric] h4_def [symmetric] h5_def [symmetric] h6_def [symmetric]
    by (simp only: complement16)
qed

text \<open>C37: The TCP/UDP checksum of a pbuf chain does not depend on how the data is split into
  pbufs, odd lengths included: it is the RFC 1071 checksum of the pseudo header followed by the
  payloads, for every chain whose pbufs have 16-bit lengths.\<close>

theorem inet_chksum_pseudo_chain:
  assumes "\<forall>q\<in>set p. length q \<le> 65535"
  shows "unat (inet_chksum_pseudo p src dest proto proto_len) =
    65535 - oc16 (word_sum (pseudo_header src dest proto proto_len @ concat p))"
  using assms by (rule unat_inet_chksum_pseudo)

theorem inet_chksum_pseudo_chain_witness:
  "unat (inet_chksum_pseudo [[1, 2, 3], [4], [5, 6]] 1 2 6 6) =
    65535 - oc16 (word_sum (pseudo_header 1 2 6 6 @ [1, 2, 3, 4, 5, 6]))"
  using inet_chksum_pseudo_chain [of "[[1, 2, 3], [4], [5, 6]]" 1 2 6 6] by simp

text \<open>Adding the complement of a sum makes it the other zero of ones' complement.\<close>

lemma oc16_complement: "oc16 (n + (65535 - oc16 n)) = 65535"
proof -
  have "oc16 (n + (65535 - oc16 n)) = oc16 (oc16 n + (65535 - oc16 n))" by (simp only: oc16_add)
  also have "oc16 n + (65535 - oc16 n) = 65535" using oc16_le [of n] by simp
  finally show ?thesis by (simp add: oc16_id)
qed

lemma word_sum_le16: "word_sum [ucast (c :: u16), ucast (drop_bit 8 c)] = unat c"
proof -
  have "unat c div 256 < 256" using unat_less_pow [of c] by (intro less_mult_imp_div_less) simp
  then show ?thesis by (simp add: unat_ucast_mod unat_drop_bit)
qed

lemma chksum_verifies:
  assumes "even (length xs)" and "length xs + length ys \<le> 65533"
  shows "inet_chksum (xs @ [ucast (inet_chksum (xs @ [0, 0] @ ys)),
      ucast (drop_bit 8 (inet_chksum (xs @ [0, 0] @ ys)))] @ ys) = 0"
proof -
  define c where "c = inet_chksum (xs @ [0, 0] @ ys)"
  define s where "s = word_sum xs + word_sum ys"
  have s: "word_sum (xs @ [0, 0] @ ys) = s" by (simp add: word_sum_append_even assms(1) s_def)
  have c: "unat c = 65535 - oc16 s"
    unfolding c_def using assms(2) by (simp add: unat_inet_chksum s [simplified])
  have "word_sum (xs @ [ucast c, ucast (drop_bit 8 c)] @ ys) = s + unat c"
    using assms(1) word_sum_le16 [of c] by (simp add: word_sum_append_even s_def)
  moreover have "oc16 (s + unat c) = 65535" unfolding c by (rule oc16_complement)
  ultimately have "unat (inet_chksum (xs @ [ucast c, ucast (drop_bit 8 c)] @ ys)) = 0"
    using assms(2) by (subst unat_inet_chksum) simp_all
  then show ?thesis unfolding c_def by (simp only: unat_eq_0)
qed

text \<open>A packet whose checksum field (at an even offset) holds the checksum computed with the
  field zeroed verifies: the checksum over the whole packet is zero.\<close>

theorem inet_chksum_verifies:
  assumes "even (length xs)" and "length xs + length ys \<le> 65533"
  shows "inet_chksum (xs @ [ucast (inet_chksum (xs @ [0, 0] @ ys)),
      ucast (drop_bit 8 (inet_chksum (xs @ [0, 0] @ ys)))] @ ys) = 0"
  using assms by (rule chksum_verifies)

theorem inet_chksum_verifies_witness:
  "inet_chksum ([0x45, 0] @ [ucast (inet_chksum ([0x45, 0] @ [0, 0] @ [7])),
      ucast (drop_bit 8 (inet_chksum ([0x45, 0] @ [0, 0] @ [7])))] @ [7]) = 0"
  using inet_chksum_verifies [of "[0x45, 0]" "[7]"] by simp

section \<open>The checksum of a pbuf chain without pseudo header\<close>

lemma pbuf_swap_id: "unat acc \<le> 65535 \<Longrightarrow> chksum_pbuf_swap acc = acc"
proof -
  assume "unat acc \<le> 65535"
  then have "take_bit 16 acc = acc" by (simp add: word_unat_eq_iff unat_take_bit)
  have "chksum_pbuf_swap acc = take_bit 16 acc"
  proof -
    have "chksum_pbuf_swap acc = (acc AND push_bit 8 (mask 8)) OR (acc AND mask 8)"
      by (simp add: chksum_pbuf_swap_def mask_eq_exp_minus_1)
    also have "\<dots> = take_bit 16 acc"
      by (rule bit_word_eqI) (auto simp: bit_simps)
    finally show ?thesis .
  qed
  then show ?thesis using \<open>take_bit 16 acc = acc\<close> by simp
qed

lemma chain_even:
  assumes "\<forall>q\<in>set qs. even (length q) \<and> length q \<le> 65535" "unat acc \<le> 65535"
  shows "\<exists>acc'. chksum_chain swp acc False qs = (acc', False) \<and>
    unat acc' = oc16 (unat acc + word_sum (concat qs))"
  using assms
proof (induction qs arbitrary: acc)
  case Nil
  then show ?case by (simp add: oc16_id)
next
  case (Cons q qs)
  define f where "f = fold_loop (acc + ucast (lwip_standard_chksum q))"
  have f: "unat f = oc16 (unat acc + word_sum q)"
    unfolding f_def using Cons.prems by (intro chain_step) auto
  then have "unat f \<le> 65535" using oc16_le by metis
  then obtain acc' where "chksum_chain swp f False qs = (acc', False)"
      "unat acc' = oc16 (unat f + word_sum (concat qs))"
    using Cons.IH [of f] Cons.prems(1) by auto
  then show ?case using Cons.prems(1)
    by (simp add: f_def [symmetric] f oc16_add word_sum_append_even add.assoc)
qed

lemma unat_chksum_pbuf_even:
  assumes "\<forall>q\<in>set p. even (length q) \<and> length q \<le> 65535"
  shows "unat (inet_chksum_pbuf p) = 65535 - oc16 (word_sum (concat p))"
proof -
  obtain acc' where "chksum_chain chksum_pbuf_swap 0 False p = (acc', False)"
      "unat acc' = oc16 (word_sum (concat p))"
    using chain_even [OF assms, of 0] by auto
  then show ?thesis using oc16_le [of "word_sum (concat p)"]
    by (simp only: inet_chksum_pbuf_def prod.case Let_def if_False complement16)
qed

lemma unat_chksum_pbuf_odd:
  assumes "odd (length q)" "length q \<le> 65535"
  shows "unat (inet_chksum_pbuf [q]) = 65535 - oc16 (256 * word_sum q)"
proof -
  define f where "f = fold_loop (ucast (lwip_standard_chksum q))"
  have f: "unat f = oc16 (word_sum q)" "unat f \<le> 65535"
    unfolding f_def using chain_step [of 0 q] assms(2) oc16_le by simp_all
  then have "chksum_chain chksum_pbuf_swap 0 False [q] = (f, True)"
    using assms(1) by (simp add: f_def [symmetric] pbuf_swap_id)
  moreover have "unat (swap16 f) = oc16 (256 * word_sum q)"
    using f by (simp add: unat_swap16 oc16_mult)
  ultimately show ?thesis using oc16_le [of "256 * word_sum q"]
    by (simp only: inet_chksum_pbuf_def prod.case Let_def if_True complement16)
qed

text \<open>The checksum of a pbuf chain without pseudo header is the RFC 1071 checksum of its data
  when every pbuf has an even length; for a single pbuf of odd length its bytes come out swapped,
  because the swap inside the loop masks without shifting.\<close>

theorem inet_chksum_pbuf_parity:
  assumes "\<forall>q\<in>set p. length q \<le> 65535"
  shows "((\<forall>q\<in>set p. even (length q)) \<longrightarrow>
      unat (inet_chksum_pbuf p) = 65535 - oc16 (word_sum (concat p))) \<and>
    (\<forall>q. p = [q] \<and> odd (length q) \<longrightarrow>
      unat (inet_chksum_pbuf p) = 65535 - oc16 (256 * word_sum q))"
  using unat_chksum_pbuf_even unat_chksum_pbuf_odd assms by auto

theorem inet_chksum_pbuf_parity_witness:
  "unat (inet_chksum_pbuf [[1]]) = 65535 - oc16 256 \<and> unat (inet_chksum_pbuf [[1, 2], [3, 4]]) = 65535 - oc16 (513 + 1027)"
  using inet_chksum_pbuf_parity [of "[[1]]"] inet_chksum_pbuf_parity [of "[[1, 2], [3, 4]]"] by simp

section \<open>Byte order is an involution\<close>

lemma bytes4_eqI:
  fixes v w :: u32
  assumes "mem32 v = mem32 w"
  shows "v = w"
proof (rule bit_word_eqI)
  fix k :: nat
  assume "k < LENGTH(32)"
  then have k: "k = 8 * (k div 8) + k mod 8" "k div 8 < 4" "k mod 8 < 8" by simp_all
  have b: "bit (ucast (drop_bit (8 * j) x) :: u8) i \<longleftrightarrow> bit x (8 * j + i)" if "i < 8" for x :: u32 and i j
    using that by (simp add: bit_simps)
  have e: "ucast (drop_bit (8 * j) v) = (ucast (drop_bit (8 * j) w) :: u8)" if "j < 4" for j
  proof -
    have "j = 0 \<or> j = 1 \<or> j = 2 \<or> j = 3" using that by linarith
    then show ?thesis using assms by (auto simp: mem32_def)
  qed
  show "bit v k \<longleftrightarrow> bit w k" using e [OF k(2)] b [OF k(3)] k(1) by metis
qed

lemma mem32_htonl: "mem32 (htonl n) = rev (mem32 n)"
proof -
  have "htonl n = push_bit 24 (n AND mask 8) OR push_bit 8 (n AND push_bit 8 (mask 8)) OR
      drop_bit 8 (n AND push_bit 16 (mask 8)) OR drop_bit 24 (n AND push_bit 24 (mask 8))"
    by (simp add: htonl_def mask_eq_exp_minus_1)
  then show ?thesis
    unfolding mem32_def by (auto intro!: bit_word_eqI simp: bit_simps)
qed

lemma htonl_htonl: "htonl (htonl n) = n"
  by (rule bytes4_eqI) (simp add: mem32_htonl)

lemma htons_htons: "htons (htons n) = n"
proof -
  have "unat n div 256 < 256" using unat_less_pow [of n] by (intro less_mult_imp_div_less) simp
  then show ?thesis by (simp add: word_unat_eq_iff unat_htons)
qed

end
