(* ===== verification/Inet_Text.thy ===== *)
theory Inet_Text
  imports Inet
begin

text \<open>
  Textual addresses (\<open>inet.c\<close> lines 192--349): the parser \<open>inet_aton\<close> with its
  decimal, octal and hexadecimal parts, and the printer \<open>inet_ntoa\<close>.  A C string is the list of
  its characters without the terminating NUL; a failed parse (return value 0) is \<open>None\<close>.
\<close>

section \<open>Character classes\<close>

abbreviation code :: "char \<Rightarrow> nat" where
  "code c \<equiv> of_char c"

definition in_range :: "char \<Rightarrow> nat \<Rightarrow> nat \<Rightarrow> bool" where
  "in_range c lo up = (lo \<le> code c \<and> code c \<le> up)"

definition isascii :: "char \<Rightarrow> bool" where "isascii c = in_range c 0x20 0x7f"
definition isdigit :: "char \<Rightarrow> bool" where "isdigit c = in_range c 48 57"
definition isxdigit :: "char \<Rightarrow> bool" where
  "isxdigit c = (isdigit c \<or> in_range c 97 102 \<or> in_range c 65 70)"
definition islower :: "char \<Rightarrow> bool" where "islower c = in_range c 97 122"
definition isspace :: "char \<Rightarrow> bool" where "isspace c = (code c \<in> {32, 12, 10, 13, 9, 11})"

section \<open>Parsing\<close>

fun aton_num :: "u32 \<Rightarrow> nat \<Rightarrow> string \<Rightarrow> u32 \<times> string" where
  "aton_num val base [] = (val, [])"
| "aton_num val base (c # cs) =
    (if isdigit c then aton_num (val * of_nat base + of_nat (code c - 48)) base cs
     else if base = 16 \<and> isxdigit c
     then aton_num (push_bit 4 val OR of_nat (code c + 10 - (if islower c then 97 else 65))) base cs
     else (val, c # cs))"

definition aton_prefix :: "char \<Rightarrow> string \<Rightarrow> nat \<times> string" where
  "aton_prefix c cs =
    (if c = CHR ''0''
     then (case cs of
             x # cs' \<Rightarrow> if x = CHR ''x'' \<or> x = CHR ''X'' then (16, cs') else (8, cs)
           | [] \<Rightarrow> (8, []))
     else (10, c # cs))"

lemma aton_num_length: "aton_num val base s = (v, r) \<Longrightarrow> length r \<le> length s"
  by (induction val base s rule: aton_num.induct) (auto split: if_splits)

lemma aton_prefix_length: "aton_prefix c cs = (b, s) \<Longrightarrow> length s \<le> Suc (length cs)"
  by (auto simp: aton_prefix_def split: if_splits list.splits)

function aton_parts :: "u32 list \<Rightarrow> string \<Rightarrow> (u32 list \<times> u32 \<times> string) option" where
  "aton_parts parts s =
    (case s of
       [] \<Rightarrow> None
     | c # cs \<Rightarrow>
         if \<not> isdigit c then None
         else (case aton_prefix c cs of (base, s') \<Rightarrow>
           case aton_num 0 base s' of (val, s'') \<Rightarrow>
             case s'' of
               d # r \<Rightarrow> if d = CHR ''.''
                        then (if length parts \<ge> 3 then None else aton_parts (parts @ [val]) r)
                        else Some (parts, val, s'')
             | [] \<Rightarrow> Some (parts, val, [])))"
  by pat_completeness auto
termination
  by (relation "measure (\<lambda>(parts, s). length s)")
    (auto dest!: aton_num_length [OF sym] aton_prefix_length [OF sym])

declare aton_parts.simps [simp del]

definition inet_aton :: "string \<Rightarrow> u32 option" where
  "inet_aton cp =
    (case aton_parts [] cp of
       None \<Rightarrow> None
     | Some (parts, val, rest) \<Rightarrow>
         if rest \<noteq> [] \<and> (\<not> isascii (hd rest) \<or> \<not> isspace (hd rest)) then None
         else (case parts of
                 [] \<Rightarrow> Some (htonl val)
               | [a] \<Rightarrow> if val > 0xffffff then None else Some (htonl (val OR push_bit 24 a))
               | [a, b] \<Rightarrow> if val > 0xffff then None
                           else Some (htonl (val OR (push_bit 24 a OR push_bit 16 b)))
               | a # b # c # _ \<Rightarrow> if val > 0xff then None
                   else Some (htonl (val OR (push_bit 24 a OR push_bit 16 b OR push_bit 8 c)))))"

definition INADDR_NONE :: u32 where "INADDR_NONE = 0xffffffff"

definition inet_addr :: "string \<Rightarrow> u32" where
  "inet_addr cp = (case inet_aton cp of Some v \<Rightarrow> v | None \<Rightarrow> INADDR_NONE)"

section \<open>Printing\<close>

text \<open>The digits of one byte, least significant first, as they fill the array \<open>inv\<close>.\<close>

function ntoa_inv :: "u8 \<Rightarrow> string" where
  "ntoa_inv ap = char_of (48 + unat (ap mod 10)) #
    (if ap div 10 \<noteq> 0 then ntoa_inv (ap div 10) else [])"
  by auto
termination
proof (relation "measure unat")
  fix ap :: u8
  assume "ap div 10 \<noteq> 0"
  then have "unat (ap div 10) \<noteq> 0" by (simp add: unat_eq_0)
  then show "(ap div 10, ap) \<in> measure unat" by (simp add: unat_div)
qed simp

declare ntoa_inv.simps [simp del]

definition inet_ntoa :: "u32 \<Rightarrow> string" where
  "inet_ntoa addr = butlast (concat (map (\<lambda>ap. rev (ntoa_inv ap) @ ''.'') (mem32 addr)))"

section \<open>Reading back what is printed\<close>

lemma digit_char: "n < 10 \<Longrightarrow> isdigit (char_of (48 + n)) \<and> code (char_of (48 + n) :: char) = 48 + n"
  by (simp add: isdigit_def in_range_def)

lemma u8_split: "unat (ap :: u8) = unat (ap div 10) * 10 + unat (ap mod 10)" "unat (ap mod 10) < 10"
  by (simp_all add: unat_div unat_mod)

lemma aton_num_byte:
  "aton_num 0 10 (rev (ntoa_inv ap) @ rest) = aton_num (ucast ap) 10 rest"
proof (induction ap arbitrary: rest rule: ntoa_inv.induct)
  case (1 ap)
  let ?d = "char_of (48 + unat (ap mod 10)) :: char"
  have d: "isdigit ?d" "code ?d = 48 + unat (ap mod 10)"
    using digit_char [OF u8_split(2) [of ap]] by auto
  have v: "ucast (ap div 10) * 10 + of_nat (unat (ap mod 10)) = (ucast ap :: u32)"
  proof -
    have "(ucast ap :: u32) = of_nat (unat (ap div 10) * 10 + unat (ap mod 10))"
      by (simp only: u8_split(1) [of ap, symmetric] of_nat_unat)
    then show ?thesis by (simp only: of_nat_add of_nat_mult of_nat_unat of_nat_numeral)
  qed
  show ?case
  proof (cases "ap div 10 = 0")
    case True
    then show ?thesis using d v by (subst ntoa_inv.simps) simp
  next
    case False
    then show ?thesis using d v "1.IH" [of "?d # rest"] by (subst ntoa_inv.simps) simp
  qed
qed

text \<open>A printed byte starts with a digit, and with the digit zero only when the byte is zero.\<close>

lemma ntoa_first:
  "\<exists>c cs. rev (ntoa_inv ap) = c # cs \<and> isdigit c \<and> (c = CHR ''0'' \<longrightarrow> ap = 0 \<and> cs = [])"
proof (induction ap rule: ntoa_inv.induct)
  case (1 ap)
  let ?d = "char_of (48 + unat (ap mod 10)) :: char"
  have d: "isdigit ?d" "code ?d = 48 + unat (ap mod 10)"
    using digit_char [OF u8_split(2) [of ap]] by auto
  show ?case
  proof (cases "ap div 10 = 0")
    case True
    have "unat ap = 0" if "?d = CHR ''0''"
    proof -
      have "code ?d = 48" unfolding that by simp
      then show ?thesis using d(2) u8_split(1) [of ap] True by simp
    qed
    then show ?thesis using d True by (subst ntoa_inv.simps) (auto simp: unat_eq_0)
  next
    case False
    then show ?thesis using "1.IH" by (subst ntoa_inv.simps) auto
  qed
qed

lemma ntoa_inv_length: "1 \<le> length (ntoa_inv ap) \<and> length (ntoa_inv ap) \<le> 3"
proof -
  have l: "length (ntoa_inv x) = (if x div 10 \<noteq> 0 then Suc (length (ntoa_inv (x div 10))) else 1)" for x
    by (subst ntoa_inv.simps) simp
  have "ap div 10 div 10 div 10 = 0"
    using unat_less_pow [of ap] by (simp add: word_unat_eq_iff unat_div div_mult2_eq [symmetric])
  then show ?thesis using l [of ap] l [of "ap div 10"] l [of "ap div 10 div 10"] by simp
qed

lemma aton_num_stop: "rest = [] \<or> hd rest = CHR ''.'' \<Longrightarrow> base \<noteq> 16 \<Longrightarrow> aton_num v base rest = (v, rest)"
  by (cases rest) (auto simp: isdigit_def in_range_def)

lemma aton_byte:
  assumes "rest = [] \<or> hd rest = CHR ''.''"
  shows "aton_parts parts (rev (ntoa_inv ap) @ rest) =
    (case rest of
       d # r \<Rightarrow> if length parts \<ge> 3 then None else aton_parts (parts @ [ucast ap]) r
     | [] \<Rightarrow> Some (parts, ucast ap, []))"
proof -
  obtain c cs where c: "rev (ntoa_inv ap) = c # cs" "isdigit c" "c = CHR ''0'' \<longrightarrow> ap = 0 \<and> cs = []"
    using ntoa_first by blast
  have n: "aton_num 0 10 (c # cs @ rest) = (ucast ap, rest)"
    using aton_num_byte [of ap rest] aton_num_stop [OF assms] c(1) by simp
  have "\<exists>b s. aton_prefix c (cs @ rest) = (b, s) \<and> aton_num 0 b s = (ucast ap, rest)"
  proof (cases "c = CHR ''0''")
    case True
    then have "ap = 0" "cs = []" using c(3) by simp_all
    moreover have "aton_prefix c rest = (8, rest)"
      using assms True by (auto simp: aton_prefix_def split: list.splits)
    ultimately show ?thesis using aton_num_stop [OF assms, of 8 0] by simp
  next
    case False
    then show ?thesis using n by (simp add: aton_prefix_def)
  qed
  then show ?thesis using assms c(1,2)
    by (subst aton_parts.simps) (auto split: list.splits)
qed

lemma or_bytes: "ucast d OR (push_bit 24 (ucast a) OR push_bit 16 (ucast b) OR push_bit 8 (ucast c)) =
    htonl w" if "mem32 w = [a, b, c, d]" for a b c d :: u8
proof (rule bytes4_eqI)
  have "mem32 (ucast d OR (push_bit 24 (ucast a) OR push_bit 16 (ucast b) OR push_bit 8 (ucast c))) = [d, c, b, a]"
  proof -
    have "\<not> bit (x :: u8) (8 + n)" "\<not> bit (x :: u8) (16 + n)" "\<not> bit (x :: u8) (24 + n)" for x n
      by (auto dest: bit_imp_le_length)
    then show ?thesis unfolding mem32_def by (auto intro!: bit_word_eqI simp: bit_simps)
  qed
  then show "mem32 (ucast d OR (push_bit 24 (ucast a) OR push_bit 16 (ucast b) OR push_bit 8 (ucast c))) =
      mem32 (htonl w)"
    using that by (simp add: mem32_htonl)
qed

text \<open>C38: Printing an address and parsing the text gives the address back, for all
  \<open>2 ^ 32\<close> addresses.\<close>

theorem inet_aton_ntoa: "inet_aton (inet_ntoa addr) = Some addr"
proof -
  obtain a b c d where m: "mem32 addr = [a, b, c, d]" by (simp add: mem32_def)
  have "inet_ntoa addr = rev (ntoa_inv a) @ ''.'' @ rev (ntoa_inv b) @ ''.'' @ rev (ntoa_inv c) @ ''.'' @
      rev (ntoa_inv d)"
    by (simp add: inet_ntoa_def m butlast_append)
  then have "aton_parts [] (inet_ntoa addr) = Some ([ucast a, ucast b, ucast c], ucast d, [])"
    by (simp add: aton_byte) (simp add: aton_byte [where rest = "[]", simplified])
  moreover have "\<not> (ucast d :: u32) > 0xff"
    using unat_less_pow [of d] by (simp add: word_less_nat_alt unat_ucast_up)
  ultimately show ?thesis
    by (simp add: inet_aton_def or_bytes [OF m] htonl_htonl)
qed

text \<open>The printer stays inside its buffers: at most three digits per byte in \<open>inv\<close> and at
  most 15 characters before the terminating NUL in the 16-byte \<open>str\<close>.\<close>

theorem inet_ntoa_fits: "length (ntoa_inv ap) \<le> 3 \<and> length (inet_ntoa addr) \<le> 15"
proof -
  obtain a b c d where m: "mem32 addr = [a, b, c, d]" by (simp add: mem32_def)
  show ?thesis using ntoa_inv_length [of ap] ntoa_inv_length [of a] ntoa_inv_length [of b]
      ntoa_inv_length [of c] ntoa_inv_length [of d]
    by (simp add: inet_ntoa_def m)
qed

end
