(* ===== verification/Pbuf.thy ===== *)
theory Pbuf
  imports Prelude "HOL-Library.Monad_Syntax"
begin

text \<open>
  Packet buffers (\<open>src/nsc-0.5.3/lwip-HEAD/src/core/pbuf.c\<close>, \<open>include/lwip/pbuf.h\<close>).  The
  store maps the address of every live \<open>struct pbuf\<close> to its fields; the free pbufs of the
  pool are live too and linked through \<open>next\<close>.  Payload pointers are byte addresses, the
  structure has 16 bytes (\<open>-m32\<close>), and the bytes themselves are a total memory.  An operation
  returns \<open>None\<close> when it dereferences an address that holds no pbuf, or when a walk along
  \<open>next\<close> never ends.  \<open>LWIP_ASSERT\<close> has no effect in this build (it asserts a string
  literal).  \<open>malloc\<close> is an argument: it maps the current store and a size to the address of a
  new block, or to \<open>None\<close> when memory is exhausted.
\<close>

section \<open>The structure and the state of the module\<close>

datatype pbuf_layer = PBUF_TRANSPORT | PBUF_IP | PBUF_LINK | PBUF_RAW
datatype pbuf_flag = PBUF_RAM | PBUF_ROM | PBUF_REF | PBUF_POOL

definition PBUF_TRANSPORT_HLEN :: u16 where [cfg_defs]: "PBUF_TRANSPORT_HLEN = 20"
definition PBUF_IP_HLEN :: u16 where [cfg_defs]: "PBUF_IP_HLEN = 20"
definition PBUF_LINK_HLEN :: u16 where [cfg_defs]: "PBUF_LINK_HLEN = 14"
definition PBUF_POOL_SIZE :: nat where [cfg_defs]: "PBUF_POOL_SIZE = 16"
definition PBUF_POOL_BUFSIZE :: u16 where [cfg_defs]: "PBUF_POOL_BUFSIZE = 128"
definition SIZEOF_PBUF :: nat where [cfg_defs]: "SIZEOF_PBUF = 16"
definition PBUF_FLAG_RAM :: u16 where [cfg_defs]: "PBUF_FLAG_RAM = 0"
definition PBUF_FLAG_ROM :: u16 where [cfg_defs]: "PBUF_FLAG_ROM = 1"
definition PBUF_FLAG_POOL :: u16 where [cfg_defs]: "PBUF_FLAG_POOL = 2"
definition PBUF_FLAG_REF :: u16 where [cfg_defs]: "PBUF_FLAG_REF = 4"

record pbuf =
  p_next :: "addr option"
  p_payload :: int
  p_tot_len :: u16
  p_len :: u16
  p_flags :: u16
  p_ref :: u16

record pbuf_stats =
  st_avail :: u16
  st_used :: u16
  st_max :: u16
  st_err :: u16
  st_alloc_locked :: u16

type_synonym heap = "addr \<rightharpoonup> pbuf"

record pstate =
  heap :: heap
  mem :: "int \<Rightarrow> u8"
  pool :: "addr option"
  free_lock :: u8
  alloc_lock :: u8
  stats :: pbuf_stats

type_synonym malloc = "heap \<Rightarrow> nat \<Rightarrow> addr option"

text \<open>Reading and writing a structure through a pointer.\<close>

definition deref :: "pstate \<Rightarrow> addr \<Rightarrow> pbuf option" where
  "deref s p = heap s p"

definition upd :: "pstate \<Rightarrow> addr \<Rightarrow> (pbuf \<Rightarrow> pbuf) \<Rightarrow> pstate option" where
  "upd s p f = (case heap s p of None \<Rightarrow> None | Some b \<Rightarrow> Some (s \<lparr> heap := (heap s)(p \<mapsto> f b) \<rparr>))"

section \<open>The pool\<close>

fun pbuf_init_loop :: "nat \<Rightarrow> addr \<Rightarrow> heap \<Rightarrow> heap" where
  "pbuf_init_loop 0 p h = h"
| "pbuf_init_loop (Suc n) p h =
    (let q = p + unat PBUF_POOL_BUFSIZE + SIZEOF_PBUF
     in pbuf_init_loop n q
          (h(p \<mapsto> \<lparr> p_next = (if n = 0 then None else Some q), p_payload = int (p + SIZEOF_PBUF),
                   p_tot_len = PBUF_POOL_BUFSIZE, p_len = PBUF_POOL_BUFSIZE,
                   p_flags = PBUF_FLAG_POOL, p_ref = 0 \<rparr>)))"

definition pbuf_init :: "addr \<Rightarrow> pstate \<Rightarrow> pstate" where
  "pbuf_init pbuf_pool_memory s =
    s \<lparr> heap := pbuf_init_loop PBUF_POOL_SIZE pbuf_pool_memory (heap s),
        pool := Some pbuf_pool_memory,
        stats := (stats s) \<lparr> st_avail := of_nat PBUF_POOL_SIZE \<rparr>,
        alloc_lock := 0, free_lock := 0 \<rparr>"

definition pbuf_pool_alloc :: "pstate \<Rightarrow> (addr option \<times> pstate) option" where
  "pbuf_pool_alloc s =
    (if free_lock s \<noteq> 0
     then Some (None, s \<lparr> stats := (stats s) \<lparr> st_alloc_locked := st_alloc_locked (stats s) + 1 \<rparr> \<rparr>)
     else
       (case pool s of
          None \<Rightarrow> Some (None, s \<lparr> alloc_lock := 0 \<rparr>)
        | Some p \<Rightarrow> do {
            b \<leftarrow> deref s p;
            let used = st_used (stats s) + 1;
            let st = (stats s) \<lparr> st_used := used,
                                 st_max := (if used > st_max (stats s) then used else st_max (stats s)) \<rparr>;
            Some (Some p, s \<lparr> pool := p_next b, stats := st, alloc_lock := 0 \<rparr>)
          }))"

definition PBUF_POOL_FREE :: "addr \<Rightarrow> pstate \<Rightarrow> pstate option" where
  "PBUF_POOL_FREE p s = do {
     s \<leftarrow> upd s p (\<lambda>b. b \<lparr> p_next := pool s \<rparr>);
     Some (s \<lparr> pool := Some p, stats := (stats s) \<lparr> st_used := st_used (stats s) - 1 \<rparr> \<rparr>)
   }"

section \<open>Reference counts\<close>

text \<open>The body of the loop of \<open>pbuf_free\<close> for one pbuf: the pointer to go on with, and whether the
  pbuf was deallocated.\<close>

definition pbuf_free_step :: "addr \<Rightarrow> pstate \<Rightarrow> (addr option \<times> bool \<times> pstate) option" where
  "pbuf_free_step p s = do {
     s \<leftarrow> upd s p (\<lambda>b. b \<lparr> p_ref := p_ref b - 1 \<rparr>);
     b \<leftarrow> deref s p;
     if p_ref b = 0 then
       (if p_flags b = PBUF_FLAG_POOL then do {
          s \<leftarrow> upd s p (\<lambda>b. b \<lparr> p_len := PBUF_POOL_BUFSIZE, p_tot_len := PBUF_POOL_BUFSIZE,
                                p_payload := int (p + SIZEOF_PBUF) \<rparr>);
          s \<leftarrow> PBUF_POOL_FREE p s;
          Some (p_next b, True, s)
        }
        else Some (p_next b, True, s \<lparr> heap := (heap s)(p := None) \<rparr>))
     else Some (None, False, s)
   }"

partial_function (option) pbuf_free_loop :: "addr option \<Rightarrow> u8 \<Rightarrow> pstate \<Rightarrow> (u8 \<times> pstate) option" where
  "pbuf_free_loop p count s =
    (case p of
       None \<Rightarrow> Some (count, s)
     | Some a \<Rightarrow>
         Option.bind (pbuf_free_step a s)
           (\<lambda>(q, freed, s). pbuf_free_loop q (if freed then count + 1 else count) s))"

definition pbuf_free :: "addr option \<Rightarrow> pstate \<Rightarrow> (u8 \<times> pstate) option" where
  "pbuf_free p s = pbuf_free_loop p 0 s"

definition pbuf_ref :: "addr option \<Rightarrow> pstate \<Rightarrow> pstate option" where
  "pbuf_ref p s = (case p of None \<Rightarrow> Some s | Some a \<Rightarrow> upd s a (\<lambda>b. b \<lparr> p_ref := p_ref b + 1 \<rparr>))"

section \<open>Allocation\<close>

definition layer_offset :: "pbuf_layer \<Rightarrow> u16" where
  "layer_offset l =
    (case l of
       PBUF_TRANSPORT \<Rightarrow> PBUF_TRANSPORT_HLEN + PBUF_IP_HLEN + PBUF_LINK_HLEN
     | PBUF_IP \<Rightarrow> PBUF_IP_HLEN + PBUF_LINK_HLEN
     | PBUF_LINK \<Rightarrow> PBUF_LINK_HLEN
     | PBUF_RAW \<Rightarrow> 0)"

text \<open>The loop that allocates the tail of a \<open>PBUF_POOL\<close> chain; \<open>r\<close> is the last pbuf so far and
  \<open>p\<close> the head, freed when the pool runs out.  Each round takes at least one byte off
  \<open>rem_len\<close>.\<close>

function pool_tail :: "addr \<Rightarrow> addr \<Rightarrow> nat \<Rightarrow> pstate \<Rightarrow> (addr option \<times> pstate) option" where
  "pool_tail p r rem_len s =
    (if rem_len = 0 then Some (Some p, s)
     else
       (case pbuf_pool_alloc s of
          None \<Rightarrow> None
        | Some (None, s) \<Rightarrow>
            (case pbuf_free (Some p) (s \<lparr> stats := (stats s) \<lparr> st_err := st_err (stats s) + 1 \<rparr> \<rparr>) of
               None \<Rightarrow> None
             | Some (_, s) \<Rightarrow> Some (None, s))
        | Some (Some q, s) \<Rightarrow>
            (let len = (if rem_len > unat PBUF_POOL_BUFSIZE then unat PBUF_POOL_BUFSIZE else rem_len)
             in case upd s q (\<lambda>b. b \<lparr> p_next := None \<rparr>) of
                  None \<Rightarrow> None
                | Some s \<Rightarrow>
                    (case upd s r (\<lambda>b. b \<lparr> p_next := Some q \<rparr>) of
                       None \<Rightarrow> None
                     | Some s \<Rightarrow>
                         (case upd s q (\<lambda>b. b \<lparr> p_tot_len := of_nat rem_len, p_len := of_nat len,
                                               p_payload := int (q + SIZEOF_PBUF), p_ref := 1 \<rparr>) of
                            None \<Rightarrow> None
                          | Some s \<Rightarrow> pool_tail p q (rem_len - len) s)))))"
  by pat_completeness auto
termination
  by (relation "measure (\<lambda>(p, r, n, s). n)") (auto simp: PBUF_POOL_BUFSIZE_def)

declare pool_tail.simps [simp del]

definition pbuf_alloc ::
    "malloc \<Rightarrow> pbuf_layer \<Rightarrow> u16 \<Rightarrow> pbuf_flag \<Rightarrow> pstate \<Rightarrow> (addr option \<times> pstate) option" where
  "pbuf_alloc malloc l sz flag s =
    (let offset = layer_offset l
     in case flag of
          PBUF_POOL \<Rightarrow> do {
            (p, s) \<leftarrow> pbuf_pool_alloc s;
            case p of
              None \<Rightarrow> Some (None, s \<lparr> stats := (stats s) \<lparr> st_err := st_err (stats s) + 1 \<rparr> \<rparr>)
            | Some p \<Rightarrow> do {
                let len = (if sz > PBUF_POOL_BUFSIZE - offset then PBUF_POOL_BUFSIZE - offset else sz);
                s \<leftarrow> upd s p (\<lambda>b. b \<lparr> p_next := None, p_payload := int (p + SIZEOF_PBUF + unat offset),
                                      p_tot_len := sz, p_len := len, p_ref := 1 \<rparr>);
                (r, s) \<leftarrow> pool_tail p p (unat sz - unat len) s;
                case r of
                  None \<Rightarrow> Some (None, s)
                | Some p \<Rightarrow> do { s \<leftarrow> upd s p (\<lambda>b. b \<lparr> p_ref := 1 \<rparr>); Some (Some p, s) }
              }
          }
        | PBUF_RAM \<Rightarrow>
            (case malloc (heap s) (SIZEOF_PBUF + unat offset + unat sz) of
               None \<Rightarrow> Some (None, s)
             | Some p \<Rightarrow> Some (Some p, s \<lparr> heap := (heap s)(p \<mapsto>
                 \<lparr> p_next = None, p_payload = int (p + SIZEOF_PBUF + unat offset), p_tot_len = sz,
                   p_len = sz, p_flags = PBUF_FLAG_RAM, p_ref = 1 \<rparr>) \<rparr>))
        | _ \<Rightarrow>
            (case malloc (heap s) SIZEOF_PBUF of
               None \<Rightarrow> Some (None, s)
             | Some p \<Rightarrow> Some (Some p, s \<lparr> heap := (heap s)(p \<mapsto>
                 \<lparr> p_next = None, p_payload = 0, p_tot_len = sz, p_len = sz,
                   p_flags = (if flag = PBUF_ROM then PBUF_FLAG_ROM else PBUF_FLAG_REF),
                   p_ref = 1 \<rparr>) \<rparr>)))"

section \<open>Shrinking, headers, counting\<close>

text \<open>The walk of \<open>pbuf_realloc\<close> over the pbufs that stay as they are.\<close>

partial_function (option) realloc_walk ::
    "u16 \<Rightarrow> u16 \<Rightarrow> addr \<Rightarrow> pstate \<Rightarrow> (u16 \<times> addr \<times> pstate) option" where
  "realloc_walk grow rem_len q s =
    Option.bind (deref s q) (\<lambda>b.
      if rem_len > p_len b
      then Option.bind (upd s q (\<lambda>b. b \<lparr> p_tot_len := p_tot_len b + grow \<rparr>)) (\<lambda>s.
             case p_next b of
               None \<Rightarrow> None
             | Some q' \<Rightarrow> realloc_walk grow (rem_len - p_len b) q' s)
      else Some (rem_len, q, s))"

text \<open>The call \<open>mem_realloc\<close> of the source shrinks the block of a \<open>PBUF_RAM\<close> pbuf and
  ignores the returned pointer; a shrunk block stays where it is.\<close>

definition pbuf_realloc :: "addr \<Rightarrow> u16 \<Rightarrow> pstate \<Rightarrow> pstate option" where
  "pbuf_realloc p new_len s = do {
     b \<leftarrow> deref s p;
     if new_len \<ge> p_tot_len b then Some s
     else do {
       (rem_len, q, s) \<leftarrow> realloc_walk (new_len - p_tot_len b) new_len p s;
       s \<leftarrow> upd s q (\<lambda>b. b \<lparr> p_len := rem_len, p_tot_len := rem_len \<rparr>);
       b \<leftarrow> deref s q;
       s \<leftarrow> (if p_next b \<noteq> None then map_option snd (pbuf_free (p_next b) s) else Some s);
       upd s q (\<lambda>b. b \<lparr> p_next := None \<rparr>)
     }
   }"

text \<open>The result is the return value (0 on success) and the state.\<close>

definition pbuf_header :: "addr option \<Rightarrow> 16 word \<Rightarrow> pstate \<Rightarrow> (u8 \<times> pstate) option" where
  "pbuf_header p inc s =
    (case p of
       None \<Rightarrow> Some (0, s)
     | Some a \<Rightarrow>
         if inc = 0 then Some (0, s)
         else do {
           b \<leftarrow> deref s a;
           let pl = p_payload b - sint inc;
           let done = (\<lambda>b. b \<lparr> p_len := p_len b + inc, p_tot_len := p_tot_len b + inc \<rparr>);
           if p_flags b = PBUF_FLAG_RAM \<or> p_flags b = PBUF_FLAG_POOL then
             (if pl < int (a + SIZEOF_PBUF) then Some (1, s)
              else do { s \<leftarrow> upd s a (\<lambda>b. done (b \<lparr> p_payload := pl \<rparr>)); Some (0, s) })
           else if p_flags b = PBUF_FLAG_REF \<or> p_flags b = PBUF_FLAG_ROM then
             (if sint inc < 0 \<and> sint inc - uint (p_len b) \<le> 0
              then do { s \<leftarrow> upd s a (\<lambda>b. done (b \<lparr> p_payload := pl \<rparr>)); Some (0, s) }
              else Some (1, s))
           else do { s \<leftarrow> upd s a done; Some (0, s) }
         })"

partial_function (option) clen_loop :: "addr option \<Rightarrow> u8 \<Rightarrow> pstate \<Rightarrow> u8 option" where
  "clen_loop p len s =
    (case p of
       None \<Rightarrow> Some len
     | Some a \<Rightarrow> Option.bind (deref s a) (\<lambda>b. clen_loop (p_next b) (len + 1) s))"

definition pbuf_clen :: "addr option \<Rightarrow> pstate \<Rightarrow> u8 option" where
  "pbuf_clen p s = clen_loop p 0 s"

section \<open>Joining and splitting chains\<close>

partial_function (option) cat_walk :: "addr \<Rightarrow> addr \<Rightarrow> pstate \<Rightarrow> (addr \<times> pstate) option" where
  "cat_walk t p s =
    Option.bind (deref s p) (\<lambda>b.
      case p_next b of
        None \<Rightarrow> Some (p, s)
      | Some q \<Rightarrow>
          Option.bind (deref s t) (\<lambda>tb.
            Option.bind (upd s p (\<lambda>b. b \<lparr> p_tot_len := p_tot_len b + p_tot_len tb \<rparr>)) (\<lambda>s.
              cat_walk t q s)))"

definition pbuf_cat :: "addr option \<Rightarrow> addr option \<Rightarrow> pstate \<Rightarrow> pstate option" where
  "pbuf_cat h t s =
    (case (h, t) of
       (Some h, Some t) \<Rightarrow> do {
         (p, s) \<leftarrow> cat_walk t h s;
         tb \<leftarrow> deref s t;
         upd s p (\<lambda>b. b \<lparr> p_tot_len := p_tot_len b + p_tot_len tb, p_next := Some t \<rparr>)
       }
     | _ \<Rightarrow> Some s)"

definition pbuf_chain :: "addr option \<Rightarrow> addr option \<Rightarrow> pstate \<Rightarrow> pstate option" where
  "pbuf_chain h t s = do { s \<leftarrow> pbuf_cat h t s; pbuf_ref t s }"

partial_function (option) last_walk :: "addr \<Rightarrow> pstate \<Rightarrow> addr option" where
  "last_walk p s = Option.bind (deref s p) (\<lambda>b. case p_next b of None \<Rightarrow> Some p | Some q \<Rightarrow> last_walk q s)"

definition pbuf_queue :: "addr option \<Rightarrow> addr option \<Rightarrow> pstate \<Rightarrow> pstate option" where
  "pbuf_queue p n s =
    (case (p, n) of
       (Some p, Some n) \<Rightarrow>
         if p = n then Some s
         else do {
           p \<leftarrow> last_walk p s;
           s \<leftarrow> upd s p (\<lambda>b. b \<lparr> p_next := Some n \<rparr>);
           pbuf_ref (Some n) s
         }
     | _ \<Rightarrow> Some s)"

partial_function (option) packet_end :: "addr \<Rightarrow> pstate \<Rightarrow> addr option" where
  "packet_end p s =
    Option.bind (deref s p) (\<lambda>b.
      if p_tot_len b \<noteq> p_len b
      then (case p_next b of None \<Rightarrow> None | Some q \<Rightarrow> packet_end q s)
      else Some p)"

definition pbuf_dequeue :: "addr \<Rightarrow> pstate \<Rightarrow> (addr option \<times> pstate) option" where
  "pbuf_dequeue p s = do {
     p \<leftarrow> packet_end p s;
     b \<leftarrow> deref s p;
     s \<leftarrow> upd s p (\<lambda>b. b \<lparr> p_next := None \<rparr>);
     Some (p_next b, s)
   }"

definition pbuf_dechain :: "addr \<Rightarrow> pstate \<Rightarrow> (addr option \<times> pstate) option" where
  "pbuf_dechain p s = do {
     b \<leftarrow> deref s p;
     case p_next b of
       None \<Rightarrow> Some (None, s)
     | Some q \<Rightarrow> do {
         s \<leftarrow> upd s q (\<lambda>c. c \<lparr> p_tot_len := p_tot_len b - p_len b \<rparr>);
         s \<leftarrow> upd s p (\<lambda>c. c \<lparr> p_next := None, p_tot_len := p_len c \<rparr>);
         (tail_gone, s) \<leftarrow> pbuf_free (Some q) s;
         Some (if tail_gone > 0 then None else Some q, s)
       }
   }"

section \<open>Copying referenced data\<close>

definition memcpy :: "int \<Rightarrow> int \<Rightarrow> nat \<Rightarrow> (int \<Rightarrow> u8) \<Rightarrow> int \<Rightarrow> u8" where
  "memcpy dst src n m = (\<lambda>a. if dst \<le> a \<and> a < dst + int n then m (src + (a - dst)) else m a)"

text \<open>One round of \<open>pbuf_take\<close> for a \<open>PBUF_REF\<close> pbuf: the replacement, or \<open>None\<close> when
  neither the pool nor the heap has room.\<close>

definition take_alloc :: "malloc \<Rightarrow> u16 \<Rightarrow> pstate \<Rightarrow> (addr option \<times> pstate) option" where
  "take_alloc malloc len s = do {
     (q, s) \<leftarrow> (if len \<le> PBUF_POOL_BUFSIZE then pbuf_alloc malloc PBUF_RAW len PBUF_POOL s
                else Some (None, s));
     case q of
       None \<Rightarrow> pbuf_alloc malloc PBUF_RAW len PBUF_RAM s
     | Some a \<Rightarrow> Some (Some a, s)
   }"

definition take_replace :: "addr option \<Rightarrow> addr \<Rightarrow> addr \<Rightarrow> pstate \<Rightarrow> pstate option" where
  "take_replace prev p q s = do {
     b \<leftarrow> deref s p;
     s \<leftarrow> upd s q (\<lambda>c. c \<lparr> p_next := p_next b \<rparr>);
     s \<leftarrow> upd s p (\<lambda>c. c \<lparr> p_next := None \<rparr>);
     s \<leftarrow> (case prev of None \<Rightarrow> Some s | Some pr \<Rightarrow> upd s pr (\<lambda>c. c \<lparr> p_next := Some q \<rparr>));
     c \<leftarrow> deref s q;
     let s = s \<lparr> mem := memcpy (p_payload c) (p_payload b) (unat (p_len b)) (mem s) \<rparr>;
     s \<leftarrow> upd s q (\<lambda>c. c \<lparr> p_tot_len := p_tot_len b, p_len := p_len b \<rparr>);
     map_option snd (pbuf_free (Some p) s)
   }"

partial_function (option) take_loop ::
    "malloc \<Rightarrow> addr option \<Rightarrow> addr \<Rightarrow> addr \<Rightarrow> pstate \<Rightarrow> (addr option \<times> pstate) option" where
  "take_loop malloc prev head p s =
    Option.bind (deref s p) (\<lambda>b.
      if p_flags b = PBUF_FLAG_REF then
        Option.bind (take_alloc malloc (p_len b) s) (\<lambda>(q, s).
          case q of
            None \<Rightarrow> map_option (\<lambda>(_, s). (None, s)) (pbuf_free (Some head) s)
          | Some q \<Rightarrow>
              Option.bind (take_replace prev p q s) (\<lambda>s.
                (let head = (if prev = None then q else head)
                 in Option.bind (deref s q) (\<lambda>c.
                      case p_next c of
                        None \<Rightarrow> Some (Some head, s)
                      | Some n \<Rightarrow> take_loop malloc (Some q) head n s))))
      else
        (case p_next b of
           None \<Rightarrow> Some (Some head, s)
         | Some n \<Rightarrow> take_loop malloc (Some p) head n s))"

definition pbuf_take :: "malloc \<Rightarrow> addr \<Rightarrow> pstate \<Rightarrow> (addr option \<times> pstate) option" where
  "pbuf_take malloc p s = take_loop malloc None p p s"

end
