(* ===== verification/Pbuf_Props.thy ===== *)
theory Pbuf_Props
  imports Pbuf
begin

text \<open>
  Correctness of the packet buffers: chains are abstracted to the lists of their addresses, the
  documented invariant on \<open>tot_len\<close> becomes \<open>packet\<close>, and the operations are specified by what
  they do to the lists, the lengths and the reference counts.
\<close>

section \<open>Chains as lists\<close>

fun path :: "heap \<Rightarrow> addr option \<Rightarrow> addr list \<Rightarrow> addr option \<Rightarrow> bool" where
  "path h a [] e = (a = e)"
| "path h a (p # ps) e = (a = Some p \<and> (case h p of None \<Rightarrow> False | Some b \<Rightarrow> path h (p_next b) ps e))"

abbreviation chain :: "heap \<Rightarrow> addr option \<Rightarrow> addr list \<Rightarrow> bool" where
  "chain h a ps \<equiv> path h a ps None"

definition sum_len :: "heap \<Rightarrow> addr list \<Rightarrow> nat" where
  "sum_len h ps = (\<Sum>p\<leftarrow>ps. unat (p_len (the (h p))))"

fun tot_ok :: "heap \<Rightarrow> addr list \<Rightarrow> bool" where
  "tot_ok h [] = True"
| "tot_ok h (p # ps) = (unat (p_tot_len (the (h p))) = sum_len h (p # ps) \<and> tot_ok h ps)"

text \<open>The invariant of \<open>include/lwip/pbuf.h\<close>: a packet is a finite chain in which every
  \<open>tot_len\<close> is the length of the rest of the chain.\<close>

definition packet :: "pstate \<Rightarrow> addr option \<Rightarrow> addr list \<Rightarrow> bool" where
  "packet s a ps = (chain (heap s) a ps \<and> tot_ok (heap s) ps)"

lemma path_live: "path h a ps e \<Longrightarrow> p \<in> set ps \<Longrightarrow> \<exists>b. h p = Some b"
  by (induction ps arbitrary: a) (auto split: option.splits)

lemma path_append: "path h a (xs @ ys) e \<longleftrightarrow> (\<exists>m. path h a xs m \<and> path h m ys e)"
  by (induction xs arbitrary: a) (auto split: option.splits)

lemma chain_unique: "chain h a ps \<Longrightarrow> chain h a qs \<Longrightarrow> ps = qs"
proof (induction ps arbitrary: a qs)
  case Nil
  then show ?case by (cases qs) auto
next
  case (Cons p ps)
  then show ?case by (cases qs) (auto split: option.splits)
qed

lemma chain_distinct: "chain h a ps \<Longrightarrow> distinct ps"
proof (induction ps arbitrary: a)
  case (Cons p ps)
  then obtain b where b: "h p = Some b" "chain h (p_next b) ps" by (auto split: option.splits)
  have "p \<notin> set ps"
  proof
    assume "p \<in> set ps"
    then obtain ys zs where ps: "ps = ys @ p # zs" by (auto simp: in_set_conv_decomp)
    then have "chain h (Some p) (p # zs)" using b(2) by (auto simp: path_append)
    moreover have "chain h (Some p) (p # ps)" using b by simp
    ultimately show False using chain_unique ps by fastforce
  qed
  then show ?case using Cons.IH b by simp
qed simp

lemma path_cong: "(\<And>p. p \<in> set ps \<Longrightarrow> map_option p_next (h' p) = map_option p_next (h p)) \<Longrightarrow>
    path h' a ps e = path h a ps e"
proof (induction ps arbitrary: a)
  case (Cons p ps)
  have "map_option p_next (h' p) = map_option p_next (h p)" using Cons.prems by simp
  then show ?case using Cons.IH Cons.prems by (cases "h' p"; cases "h p") auto
qed simp

lemma path_upd_other [simp]: "p \<notin> set ps \<Longrightarrow> path (h(p := x)) a ps e = path h a ps e"
  by (rule path_cong) auto

lemma path_upd_same [simp]:
  "h p = Some b \<Longrightarrow> p_next c = p_next b \<Longrightarrow> path (h(p \<mapsto> c)) a ps e = path h a ps e"
  by (rule path_cong) auto

lemma path_last:
  "path h a (xs @ [p]) e \<longleftrightarrow> path h a xs (Some p) \<and> (\<exists>b. h p = Some b \<and> p_next b = e)"
  by (auto simp: path_append split: option.splits)

lemma sum_len_Cons [simp]: "sum_len h (p # ps) = unat (p_len (the (h p))) + sum_len h ps"
  "sum_len h [] = 0" "sum_len h (xs @ ys) = sum_len h xs + sum_len h ys"
  by (simp_all add: sum_len_def)

lemma sum_len_cong:
  "(\<And>p. p \<in> set ps \<Longrightarrow> p_len (the (h' p)) = p_len (the (h p))) \<Longrightarrow> sum_len h' ps = sum_len h ps"
  by (simp add: sum_len_def cong: map_cong)

lemma tot_ok_cong:
  "(\<And>p. p \<in> set ps \<Longrightarrow> p_len (the (h' p)) = p_len (the (h p)) \<and> p_tot_len (the (h' p)) = p_tot_len (the (h p)))
    \<Longrightarrow> tot_ok h' ps = tot_ok h ps"
proof (induction ps)
  case (Cons p ps)
  then have "sum_len h' (p # ps) = sum_len h (p # ps)" by (intro sum_len_cong) auto
  then show ?case using Cons by auto
qed simp

lemma frame:
  assumes "\<And>q. q \<in> set ps \<Longrightarrow> h' q = h q"
  shows "path h' a ps e = path h a ps e" "tot_ok h' ps = tot_ok h ps" "sum_len h' ps = sum_len h ps"
  by (rule path_cong tot_ok_cong sum_len_cong; simp add: assms)+

lemma upd_Some [simp]: "heap s p = Some b \<Longrightarrow> upd s p f = Some (s \<lparr> heap := (heap s)(p \<mapsto> f b) \<rparr>)"
  by (simp add: upd_def)

lemma deref_heap [simp]: "deref s p = heap s p"
  by (simp add: deref_def)

section \<open>Reference counting\<close>

definition ref_at :: "heap \<Rightarrow> addr \<Rightarrow> u16" where
  "ref_at h p = p_ref (the (h p))"

definition from_pool :: "heap \<Rightarrow> addr \<Rightarrow> bool" where
  "from_pool h p = (p_flags (the (h p)) = PBUF_FLAG_POOL)"

text \<open>The pbufs that \<open>pbuf_free\<close> deallocates: the longest prefix with reference count one.\<close>

definition released :: "heap \<Rightarrow> addr list \<Rightarrow> addr list" where
  "released h ps = takeWhile (\<lambda>p. ref_at h p = 1) ps"

definition survivors :: "heap \<Rightarrow> addr list \<Rightarrow> addr list" where
  "survivors h ps = dropWhile (\<lambda>p. ref_at h p = 1) ps"

text \<open>What becomes of the pbuf at an address.\<close>

definition after_free :: "heap \<Rightarrow> addr list \<Rightarrow> heap \<Rightarrow> addr \<Rightarrow> bool" where
  "after_free h ps h' q =
    (if q \<in> set (released h ps)
     then (if from_pool h q
           then (\<exists>b. h' q = Some b \<and> p_flags b = PBUF_FLAG_POOL \<and> p_ref b = 0 \<and>
                  p_len b = PBUF_POOL_BUFSIZE \<and> p_tot_len b = PBUF_POOL_BUFSIZE \<and>
                  p_payload b = int (q + SIZEOF_PBUF))
           else h' q = None)
     else if Some q = (case survivors h ps of [] \<Rightarrow> None | r # _ \<Rightarrow> Some r)
     then h' q = map_option (\<lambda>b. b \<lparr> p_ref := p_ref b - 1 \<rparr>) (h q)
     else h' q = h q)"

lemma free_step_keep:
  assumes "heap s p = Some b" "p_ref b \<noteq> 1"
  shows "pbuf_free_step p s =
    Some (None, False, s \<lparr> heap := (heap s)(p \<mapsto> b \<lparr> p_ref := p_ref b - 1 \<rparr>) \<rparr>)"
  using assms by (simp add: pbuf_free_step_def)

lemma free_step_heap:
  assumes "heap s p = Some b" "p_ref b = 1" "p_flags b \<noteq> PBUF_FLAG_POOL"
  shows "pbuf_free_step p s = Some (p_next b, True, s \<lparr> heap := (heap s)(p := None) \<rparr>)"
  using assms by (simp add: pbuf_free_step_def)

lemma free_step_pool:
  assumes "heap s p = Some b" "p_ref b = 1" "p_flags b = PBUF_FLAG_POOL"
  shows "pbuf_free_step p s = Some (p_next b, True,
    s \<lparr> heap := (heap s)(p \<mapsto> \<lparr> p_next = pool s, p_payload = int (p + SIZEOF_PBUF),
          p_tot_len = PBUF_POOL_BUFSIZE, p_len = PBUF_POOL_BUFSIZE, p_flags = PBUF_FLAG_POOL, p_ref = 0 \<rparr>),
        pool := Some p, stats := (stats s) \<lparr> st_used := st_used (stats s) - 1 \<rparr> \<rparr>)"
  using assms by (cases b) (simp add: pbuf_free_step_def PBUF_POOL_FREE_def)

lemma released_cong: "(\<And>p. p \<in> set ps \<Longrightarrow> h' p = h p) \<Longrightarrow> released h' ps = released h ps"
  "(\<And>p. p \<in> set ps \<Longrightarrow> h' p = h p) \<Longrightarrow> survivors h' ps = survivors h ps"
  unfolding released_def survivors_def ref_at_def
  by (simp_all cong: takeWhile_cong dropWhile_cong)

text \<open>One deallocation: the state after it, and the list of free pool pbufs.\<close>

definition free_one :: "addr \<Rightarrow> pbuf \<Rightarrow> pstate \<Rightarrow> pstate" where
  "free_one p b s = (if p_flags b = PBUF_FLAG_POOL
    then s \<lparr> heap := (heap s)(p \<mapsto> \<lparr> p_next = pool s, p_payload = int (p + SIZEOF_PBUF),
          p_tot_len = PBUF_POOL_BUFSIZE, p_len = PBUF_POOL_BUFSIZE, p_flags = PBUF_FLAG_POOL, p_ref = 0 \<rparr>),
        pool := Some p, stats := (stats s) \<lparr> st_used := st_used (stats s) - 1 \<rparr> \<rparr>
    else s \<lparr> heap := (heap s)(p := None) \<rparr>)"

lemma free_one_other [simp]: "q \<noteq> p \<Longrightarrow> heap (free_one p b s) q = heap s q"
  "mem (free_one p b s) = mem s" "free_lock (free_one p b s) = free_lock s"
  by (simp_all add: free_one_def)

lemma free_loop_step:
  assumes "heap s p = Some b" "p_ref b = 1"
  shows "pbuf_free_loop (Some p) c s = pbuf_free_loop (p_next b) (c + 1) (free_one p b s)"
  using assms
  by (simp add: pbuf_free_loop.simps [of "Some p"] free_step_pool free_step_heap free_one_def)

lemma released_step:
  assumes "heap s p = Some b" "p_ref b = 1" "p \<notin> set ps"
  shows "released (heap s) (p # ps) = p # released (heap (free_one p b s)) ps"
    and "survivors (heap s) (p # ps) = survivors (heap (free_one p b s)) ps"
proof -
  have sm: "heap (free_one p b s) q = heap s q" if "q \<in> set ps" for q
    using that assms(3) by (metis free_one_other(1))
  show "released (heap s) (p # ps) = p # released (heap (free_one p b s)) ps"
    "survivors (heap s) (p # ps) = survivors (heap (free_one p b s)) ps"
    using assms(1,2) released_cong [OF sm] by (simp_all add: released_def survivors_def ref_at_def)
qed

lemma after_free_step:
  assumes b: "heap s p = Some b" "p_ref b = 1" "p \<notin> set ps"
    and IH: "\<And>q. after_free (heap (free_one p b s)) ps h' q"
  shows "after_free (heap s) (p # ps) h' q"
proof (cases "q = p")
  case True
  have "p \<notin> set (released h ps)" "Some p \<noteq> (case survivors h ps of [] \<Rightarrow> None | r # _ \<Rightarrow> Some r)" for h
    using b(3) by (auto simp: released_def survivors_def dest: set_takeWhileD split: list.splits)
      (metis list.set_intros(1) set_dropWhileD)
  then have "h' p = heap (free_one p b s) p" using IH [of p] by (simp add: after_free_def)
  then show ?thesis using True b
    by (simp add: after_free_def released_step free_one_def from_pool_def)
next
  case False
  then have "from_pool (heap (free_one p b s)) q = from_pool (heap s) q"
    by (simp add: from_pool_def)
  then show ?thesis using IH [of q] False b
    by (auto simp: after_free_def released_step split: if_splits)
qed

lemma free_loop_ok:
  assumes "chain (heap s) a ps" and "chain (heap s) (pool s) fs" and "set fs \<inter> set ps = {}"
  shows "\<exists>s'. pbuf_free_loop a c s = Some (c + of_nat (length (released (heap s) ps)), s') \<and>
    (\<forall>q. after_free (heap s) ps (heap s') q) \<and>
    chain (heap s') (pool s') (rev (filter (from_pool (heap s)) (released (heap s) ps)) @ fs) \<and>
    mem s' = mem s \<and> free_lock s' = free_lock s"
  using assms
proof (induction ps arbitrary: a c s fs)
  case Nil
  then show ?case
    by (simp add: pbuf_free_loop.simps after_free_def released_def survivors_def)
next
  case (Cons p ps)
  obtain b where b: "heap s p = Some b" "chain (heap s) (p_next b) ps" and a: "a = Some p"
    using Cons.prems(1) by (auto split: option.splits)
  have d: "p \<notin> set ps" "p \<notin> set fs" using chain_distinct [OF Cons.prems(1)] Cons.prems(3) by auto
  show ?case
  proof (cases "p_ref b = 1")
    case False
    then have "released (heap s) (p # ps) = []" "survivors (heap s) (p # ps) = p # ps"
      by (simp_all add: released_def survivors_def ref_at_def b)
    then show ?thesis using b False Cons.prems(2) d
      by (simp add: a pbuf_free_loop.simps [of "Some p"] free_step_keep pbuf_free_loop.simps [of None]
          after_free_def)
  next
    case True
    let ?s = "free_one p b s" and ?fs = "if p_flags b = PBUF_FLAG_POOL then p # fs else fs"
    have "chain (heap ?s) (p_next b) ps" "chain (heap ?s) (pool ?s) ?fs" "set ?fs \<inter> set ps = {}"
      using b(2) d Cons.prems(2,3) by (auto simp: free_one_def)
    from Cons.IH [OF this, of "c + 1"] obtain s' where s':
      "pbuf_free_loop (p_next b) (c + 1) ?s = Some (c + 1 + of_nat (length (released (heap ?s) ps)), s')"
      "\<And>q. after_free (heap ?s) ps (heap s') q"
      "chain (heap s') (pool s') (rev (filter (from_pool (heap ?s)) (released (heap ?s) ps)) @ ?fs)"
      "mem s' = mem s" "free_lock s' = free_lock s" by auto
    have "filter (from_pool (heap ?s)) (released (heap ?s) ps) =
        filter (from_pool (heap s)) (released (heap ?s) ps)"
      using d(1) by (intro filter_cong refl)
        (metis free_one_other(1) from_pool_def released_def set_takeWhileD)
    moreover have "from_pool (heap s) p \<longleftrightarrow> p_flags b = PBUF_FLAG_POOL" by (simp add: from_pool_def b)
    ultimately show ?thesis
      using s' free_loop_step [OF b(1) True] after_free_step [OF b(1) True d(1) s'(2)]
        released_step [OF b(1) True d(1)]
      by (simp add: a add.assoc all_conj_distrib split: if_splits) auto
  qed
qed

text \<open>C27: Freeing a chain deallocates exactly the longest prefix of pbufs whose reference count is
  one, returns their number, decrements the count of the first pbuf that stays and leaves every
  other pbuf as it was; deallocated pool pbufs are reset and come back to the pool, the others
  are gone.\<close>

theorem pbuf_free_refcount:
  assumes "chain (heap s) p ps" and "chain (heap s) (pool s) fs" and "set fs \<inter> set ps = {}"
  shows "\<exists>s'. pbuf_free p s = Some (of_nat (length (released (heap s) ps)), s') \<and>
    (\<forall>q. after_free (heap s) ps (heap s') q) \<and>
    chain (heap s') (pool s') (rev (filter (from_pool (heap s)) (released (heap s) ps)) @ fs)"
  using free_loop_ok [OF assms, of 0] by (auto simp: pbuf_free_def)

text \<open>The first example of the source comment: a chain with the counts 1, 2, 3.\<close>

definition example_chain :: pstate where
  "example_chain = \<lparr> heap = [100 \<mapsto> \<lparr> p_next = Some 200, p_payload = 116, p_tot_len = 30, p_len = 10,
                                p_flags = PBUF_FLAG_RAM, p_ref = 1 \<rparr>,
                      200 \<mapsto> \<lparr> p_next = Some 300, p_payload = 216, p_tot_len = 20, p_len = 10,
                                p_flags = PBUF_FLAG_RAM, p_ref = 2 \<rparr>,
                      300 \<mapsto> \<lparr> p_next = None, p_payload = 316, p_tot_len = 10, p_len = 10,
                                p_flags = PBUF_FLAG_RAM, p_ref = 3 \<rparr>],
      mem = (\<lambda>_. 0), pool = None, free_lock = 0, alloc_lock = 0,
      stats = \<lparr> st_avail = 0, st_used = 0, st_max = 0, st_err = 0, st_alloc_locked = 0 \<rparr> \<rparr>"

theorem pbuf_free_refcount_witness:
  "\<exists>s'. pbuf_free (Some 100) example_chain = Some (1, s') \<and> heap s' 100 = None \<and>
    map_option p_ref (heap s' 200) = Some 1 \<and> map_option p_ref (heap s' 300) = Some 3"
proof -
  have r: "released (heap example_chain) [100, 200, 300] = [100]"
    "survivors (heap example_chain) [100, 200, 300] = [200, 300]"
    by (simp_all add: released_def survivors_def ref_at_def example_chain_def)
  have "\<exists>s'. pbuf_free (Some 100) example_chain =
        Some (of_nat (length (released (heap example_chain) [100, 200, 300])), s') \<and>
      (\<forall>q. after_free (heap example_chain) [100, 200, 300] (heap s') q) \<and>
      chain (heap s') (pool s') (rev (filter (from_pool (heap example_chain))
        (released (heap example_chain) [100, 200, 300])) @ [])"
    by (rule pbuf_free_refcount) (simp_all add: example_chain_def)
  then obtain s' where "pbuf_free (Some 100) example_chain = Some (1, s')"
    and "\<And>q. after_free (heap example_chain) [100, 200, 300] (heap s') q" by (auto simp: r)
  moreover from this(2) [of 100] have "heap s' 100 = None"
    unfolding after_free_def r by (simp add: from_pool_def example_chain_def cfg_defs)
  moreover from calculation(2) [of 200] have "map_option p_ref (heap s' 200) = Some 1"
    unfolding after_free_def r by (simp add: example_chain_def)
  moreover from calculation(2) [of 300] have "map_option p_ref (heap s' 300) = Some 3"
    unfolding after_free_def r by (simp add: example_chain_def)
  ultimately show ?thesis by blast
qed

section \<open>Concatenation\<close>

definition add_tot :: "heap \<Rightarrow> addr list \<Rightarrow> u16 \<Rightarrow> heap" where
  "add_tot h ps d = (\<lambda>a. if a \<in> set ps then map_option (\<lambda>b. b \<lparr> p_tot_len := p_tot_len b + d \<rparr>) (h a) else h a)"

lemma path_add_tot [simp]: "path (add_tot h qs d) a ps e = path h a ps e"
  by (rule path_cong) (auto simp: add_tot_def option.map_comp o_def)

lemma cat_walk_ok:
  assumes "path (heap s) (Some h) xs (Some l)" "distinct (xs @ [l])" "t \<notin> set xs"
    and "heap s l = Some lb" "p_next lb = None" "heap s t = Some tb"
  shows "cat_walk t h s = Some (l, s \<lparr> heap := add_tot (heap s) xs (p_tot_len tb) \<rparr>)"
  using assms
proof (induction xs arbitrary: h s)
  case Nil
  have "add_tot (heap s) [] (p_tot_len tb) = heap s" by (simp add: add_tot_def)
  then show ?case using Nil by (simp add: cat_walk.simps)
next
  case (Cons x xs)
  then obtain b where b: "h = x" "heap s x = Some b" "path (heap s) (p_next b) xs (Some l)"
    by (auto split: option.splits)
  obtain q where q: "p_next b = Some q" using b(3) by (cases xs) (auto split: option.splits)
  let ?s = "s \<lparr> heap := (heap s)(x \<mapsto> b \<lparr> p_tot_len := p_tot_len b + p_tot_len tb \<rparr>) \<rparr>"
  have "cat_walk t q ?s = Some (l, ?s \<lparr> heap := add_tot (heap ?s) xs (p_tot_len tb) \<rparr>)"
    using Cons.prems b q by (intro Cons.IH) (auto simp del: fun_upd_apply, auto)
  moreover have "add_tot (heap ?s) xs (p_tot_len tb) = add_tot (heap s) (x # xs) (p_tot_len tb)"
    using Cons.prems(2) b(2) by (auto simp: add_tot_def fun_eq_iff)
  ultimately show ?case using Cons.prems b q by (simp add: cat_walk.simps [of t x])
qed

lemma unat_add_tot: "unat a + unat d < 65536 \<Longrightarrow> unat (a + d :: u16) = unat a + unat d"
  by (rule unat_add_exact) simp

lemma tot_ok_head: "tot_ok h ps \<Longrightarrow> p \<in> set ps \<Longrightarrow> unat (p_tot_len (the (h p))) \<le> sum_len h ps"
  by (induction ps) auto

lemma tot_ok_extend:
  assumes "tot_ok h ps" "tot_ok h' ts" "unat d = sum_len h' ts" "sum_len h ps + unat d < 65536"
    and "\<And>p. p \<in> set ps \<Longrightarrow> p_len (the (h' p)) = p_len (the (h p)) \<and>
      p_tot_len (the (h' p)) = p_tot_len (the (h p)) + d"
  shows "tot_ok h' (ps @ ts)"
  using assms
proof (induction ps)
  case (Cons p ps)
  have "sum_len h' (p # ps) = sum_len h (p # ps)" using Cons.prems(5) by (intro sum_len_cong) auto
  moreover have "unat (p_tot_len (the (h p)) + d) = unat (p_tot_len (the (h p))) + unat d"
    using Cons.prems(1,4) by (intro unat_add_tot) auto
  ultimately show ?case using Cons by auto
qed simp

lemma pbuf_cat_eq:
  assumes "chain (heap s) (Some h) (xs @ [l])" "chain (heap s) (Some t) ts" "l \<notin> set ts"
    and "set xs \<inter> set ts = {}" "heap s l = Some lb" "heap s t = Some tb"
  shows "pbuf_cat (Some h) (Some t) s = Some (s \<lparr> heap := (add_tot (heap s) xs (p_tot_len tb))
    (l \<mapsto> lb \<lparr> p_tot_len := p_tot_len lb + p_tot_len tb, p_next := Some t \<rparr>) \<rparr>)"
proof -
  have "path (heap s) (Some h) xs (Some l)" "p_next lb = None"
    using assms(1,5) by (auto simp: path_last)
  moreover have d: "distinct (xs @ [l])" using assms(1) by (rule chain_distinct)
  moreover have t: "t \<in> set ts" using assms(2) by (cases ts) auto
  then have "t \<notin> set xs" using assms(4) by auto
  ultimately have "cat_walk t h s = Some (l, s \<lparr> heap := add_tot (heap s) xs (p_tot_len tb) \<rparr>)"
    using assms by (intro cat_walk_ok) auto
  moreover have "l \<notin> set xs" using d by simp
  ultimately show ?thesis using assms(5,6) \<open>t \<notin> set xs\<close>
    by (simp add: pbuf_cat_def add_tot_def)
qed

text \<open>Concatenating two packets that share no pbuf gives the packet of both: the chain is the
  first followed by the second, every \<open>tot_len\<close> is right again, and no reference count and no pbuf
  outside the first packet changes, as long as the total length fits 16 bits.\<close>

theorem pbuf_cat_packet:
  assumes "packet s (Some h) hs" and "packet s (Some t) ts" and "set hs \<inter> set ts = {}"
    and "sum_len (heap s) hs + sum_len (heap s) ts < 65536"
  shows "\<exists>s'. pbuf_cat (Some h) (Some t) s = Some s' \<and> packet s' (Some h) (hs @ ts) \<and>
    packet s' (Some t) ts \<and> (\<forall>q. q \<notin> set hs \<longrightarrow> heap s' q = heap s q) \<and>
    (\<forall>q. map_option p_ref (heap s' q) = map_option p_ref (heap s q))"
proof -
  have c: "chain (heap s) (Some h) hs" "tot_ok (heap s) hs" "chain (heap s) (Some t) ts"
      "tot_ok (heap s) ts" using assms(1,2) by (simp_all add: packet_def)
  then obtain xs l where hs: "hs = xs @ [l]" by (cases hs rule: rev_cases) auto
  obtain lb where lb: "heap s l = Some lb" using path_live [OF c(1), of l] hs by auto
  have "t \<in> set ts" using c(3) by (cases ts) auto
  then obtain tb where tb: "heap s t = Some tb" using path_live [OF c(3)] by blast
  have td: "unat (p_tot_len tb) = sum_len (heap s) ts" using c(3,4) tb by (cases ts) auto
  define h' where "h' = (add_tot (heap s) xs (p_tot_len tb))
    (l \<mapsto> lb \<lparr> p_tot_len := p_tot_len lb + p_tot_len tb, p_next := Some t \<rparr>)"
  have l: "l \<notin> set xs" "l \<notin> set ts" "set xs \<inter> set ts = {}"
    using chain_distinct [OF c(1)] assms(3) hs by auto
  have eq: "pbuf_cat (Some h) (Some t) s = Some (s \<lparr> heap := h' \<rparr>)"
    unfolding h'_def using c hs l lb tb by (intro pbuf_cat_eq) auto
  have same: "h' q = heap s q" if "q \<notin> set hs" for q
    using that by (simp add: h'_def hs add_tot_def)
  have ts: "chain h' (Some t) ts" "tot_ok h' ts" "sum_len h' ts = sum_len (heap s) ts"
    using c(3,4) frame [of ts h' "heap s"] same assms(3) by (metis disjoint_iff)+
  have "path (heap s) (Some h) xs (Some l)" using c(1) hs by (simp add: path_last)
  then have "path h' (Some h) (xs @ [l]) (Some t)" using l(1) by (simp add: path_last h'_def)
  then have "chain h' (Some h) (hs @ ts)" using ts(1) unfolding hs path_append by blast
  moreover have "tot_ok h' (hs @ ts)"
  proof (rule tot_ok_extend [where d = "p_tot_len tb"])
    show "p_len (the (h' p)) = p_len (the (heap s p)) \<and>
        p_tot_len (the (h' p)) = p_tot_len (the (heap s p)) + p_tot_len tb" if "p \<in> set hs" for p
      using that path_live [OF c(1) that] lb by (auto simp: h'_def hs add_tot_def)
  qed (use c ts td assms(4) in auto)
  moreover have "map_option p_ref (h' q) = map_option p_ref (heap s q)" for q
    using lb by (auto simp: h'_def add_tot_def option.map_comp o_def)
  ultimately show ?thesis using eq ts same by (auto simp: packet_def)
qed

theorem pbuf_cat_packet_witness:
  "\<exists>s' s0. s0 = (example_chain \<lparr> heap := (heap example_chain)(400 \<mapsto> \<lparr> p_next = None, p_payload = 416,
      p_tot_len = 7, p_len = 7, p_flags = PBUF_FLAG_RAM, p_ref = 1 \<rparr>) \<rparr>) \<and>
    pbuf_cat (Some 100) (Some 400) s0 = Some s' \<and> packet s' (Some 100) [100, 200, 300, 400]"
  using pbuf_cat_packet [of "example_chain \<lparr> heap := (heap example_chain)(400 \<mapsto> \<lparr> p_next = None,
      p_payload = 416, p_tot_len = 7, p_len = 7, p_flags = PBUF_FLAG_RAM, p_ref = 1 \<rparr>) \<rparr>" 100
      "[100, 200, 300]" 400 "[400]"]
  by (simp add: packet_def example_chain_def sum_len_def) blast

end
