(* ===== verification/Pbuf_Alloc.thy ===== *)
theory Pbuf_Alloc
  imports Pbuf_Props
begin

text \<open>
  Allocation from the pool, header adjustment and shrinking of packet buffers.
\<close>

section \<open>Partial packets\<close>

text \<open>A chain whose last \<open>e\<close> bytes are still to be allocated.\<close>

fun tot_rem :: "heap \<Rightarrow> addr list \<Rightarrow> nat \<Rightarrow> bool" where
  "tot_rem h [] e = True"
| "tot_rem h (p # ps) e = (unat (p_tot_len (the (h p))) = sum_len h (p # ps) + e \<and> tot_rem h ps e)"

lemma tot_rem_0: "tot_rem h ps 0 = tot_ok h ps"
  by (induction ps) auto

lemma tot_rem_append: "tot_rem h (xs @ ys) e \<longleftrightarrow> tot_rem h xs (sum_len h ys + e) \<and> tot_rem h ys e"
  by (induction xs) auto

lemma tot_rem_cong:
  "(\<And>p. p \<in> set ps \<Longrightarrow> p_len (the (h' p)) = p_len (the (h p)) \<and> p_tot_len (the (h' p)) = p_tot_len (the (h p)))
    \<Longrightarrow> tot_rem h' ps e = tot_rem h ps e"
proof (induction ps)
  case (Cons p ps)
  then have "sum_len h' (p # ps) = sum_len h (p # ps)" by (intro sum_len_cong) auto
  then show ?case using Cons by auto
qed simp

section \<open>Taking from the pool\<close>

lemma pool_alloc_Some:
  assumes "free_lock s = 0" "pool s = Some q" "heap s q = Some b"
  shows "\<exists>st. pbuf_pool_alloc s = Some (Some q, s \<lparr> pool := p_next b, stats := st, alloc_lock := 0 \<rparr>)"
  using assms by (auto simp: pbuf_pool_alloc_def Let_def)

lemma pool_alloc_None:
  assumes "free_lock s = 0" "pool s = None"
  shows "pbuf_pool_alloc s = Some (None, s \<lparr> alloc_lock := 0 \<rparr>)"
  using assms by (simp add: pbuf_pool_alloc_def)

text \<open>A pool whose free pbufs are \<open>fs\<close>.\<close>

definition pool_ready :: "pstate \<Rightarrow> addr list \<Rightarrow> bool" where
  "pool_ready s fs \<longleftrightarrow> chain (heap s) (pool s) fs \<and> free_lock s = 0 \<and> (\<forall>q\<in>set fs. from_pool (heap s) q)"

text \<open>The chain built so far (\<open>xs\<close> and its last pbuf \<open>r\<close>), the free pbufs \<open>fs\<close> and the bytes
  still missing.\<close>

definition building :: "pstate \<Rightarrow> addr \<Rightarrow> addr list \<Rightarrow> addr \<Rightarrow> addr list \<Rightarrow> nat \<Rightarrow> bool" where
  "building s p xs r fs n =
    (path (heap s) (Some p) (xs @ [r]) None \<and> chain (heap s) (pool s) fs \<and>
     set (xs @ [r]) \<inter> set fs = {} \<and> free_lock s = 0 \<and>
     (\<forall>q\<in>set (xs @ [r] @ fs). from_pool (heap s) q) \<and>
     (\<forall>q\<in>set (xs @ [r]). ref_at (heap s) q = 1) \<and>
     tot_rem (heap s) (xs @ [r]) n \<and> n < 65536)"

definition tail_step :: "addr \<Rightarrow> addr \<Rightarrow> nat \<Rightarrow> heap \<Rightarrow> heap" where
  "tail_step r q n h = h(r \<mapsto> (the (h r)) \<lparr> p_next := Some q \<rparr>,
     q \<mapsto> (the (h q)) \<lparr> p_next := None, p_tot_len := of_nat n, p_len := of_nat (min n 128),
       p_payload := int (q + SIZEOF_PBUF), p_ref := 1 \<rparr>)"

lemma building_step:
  assumes "building s p xs r (q # fs) n" "heap s q = Some b" "0 < n"
  shows "building (s \<lparr> heap := tail_step r q n (heap s), pool := p_next b, stats := st, alloc_lock := 0 \<rparr>)
      p (xs @ [r]) q fs (n - min n 128)" (is "building ?s _ _ _ _ _")
    and "sum_len (tail_step r q n (heap s)) (xs @ [r, q]) = sum_len (heap s) (xs @ [r]) + min n 128"
proof -
  let ?h = "tail_step r q n (heap s)"
  have B: "path (heap s) (Some p) xs (Some r)" "chain (heap s) (pool s) (q # fs)"
      "q \<notin> set xs" "q \<noteq> r" "r \<notin> set fs" "set xs \<inter> set fs = {}" "free_lock s = 0"
      "\<forall>x\<in>set (xs @ r # q # fs). from_pool (heap s) x" "\<forall>x\<in>set (xs @ [r]). ref_at (heap s) x = 1"
      "tot_rem (heap s) (xs @ [r]) n" "n < 65536"
    using assms(1) by (auto simp: building_def path_last)
  obtain rb where rb: "heap s r = Some rb" using assms(1) by (auto simp: building_def path_last)
  have d: "r \<notin> set xs" "q \<notin> set fs"
    using assms(1) chain_distinct [OF B(2)] by (auto simp: building_def dest: chain_distinct)
  have nb: "chain (heap s) (p_next b) fs" using B(2) assms(2) by simp
  have same: "?h x = heap s x" if "x \<noteq> r" "x \<noteq> q" for x using that by (simp add: tail_step_def)
  have u: "unat (of_nat n :: u16) = n" "unat (of_nat (min n 128) :: u16) = min n 128"
    using B(11) by (simp_all add: unat_of_nat)
  have f: "p_len (the (?h x)) = p_len (the (heap s x)) \<and> p_tot_len (the (?h x)) = p_tot_len (the (heap s x))"
    if "x \<noteq> q" for x using that by (simp add: tail_step_def)
  have xr: "x \<noteq> q" if "x \<in> set (xs @ [r])" for x using that B(3,4) by auto
  have s1: "sum_len ?h (xs @ [r]) = sum_len (heap s) (xs @ [r])"
    using f xr by (intro sum_len_cong) blast
  have s2: "sum_len ?h [q] = min n 128" by (simp add: tail_step_def u)
  show "sum_len ?h (xs @ [r, q]) = sum_len (heap s) (xs @ [r]) + min n 128"
    using s1 s2 sum_len_Cons(3) [of ?h "xs @ [r]" "[q]"] by simp
  have "path ?h (Some p) xs (Some r)"
    using B(1) same d(1) B(3) frame(1) [of xs ?h "heap s"] by metis
  then have "path ?h (Some p) ((xs @ [r]) @ [q]) None"
    using B(4) unfolding path_last by (auto simp: tail_step_def)
  moreover have "chain ?h (p_next b) fs"
    using nb same B(5) d(2) frame(1) [of fs ?h "heap s"] by metis
  moreover have "tot_rem ?h (xs @ [r]) n" using B(10) f xr tot_rem_cong [of "xs @ [r]" ?h "heap s"] by blast
  then have "tot_rem ?h ((xs @ [r]) @ [q]) (n - min n 128)"
    unfolding tot_rem_append s2 by (simp add: tail_step_def u)
  ultimately show "building ?s p (xs @ [r]) q fs (n - min n 128)"
    using B d rb assms(2) by (auto simp: building_def from_pool_def ref_at_def tail_step_def)
qed

lemma pool_tail_step:
  assumes "building s p xs r (q # fs) n" "heap s q = Some b" "0 < n"
  shows "\<exists>st. pool_tail p r n s = pool_tail p q (n - min n 128)
    (s \<lparr> heap := tail_step r q n (heap s), pool := p_next b, stats := st, alloc_lock := 0 \<rparr>)"
proof -
  have B: "free_lock s = 0" "pool s = Some q" "q \<noteq> r" "n < 65536"
    using assms(1) by (auto simp: building_def)
  obtain rb where rb: "heap s r = Some rb" using assms(1) by (auto simp: building_def path_last)
  obtain st where st: "pbuf_pool_alloc s = Some (Some q, s \<lparr> pool := p_next b, stats := st, alloc_lock := 0 \<rparr>)"
    using pool_alloc_Some [OF B(1,2) assms(2)] by blast
  have len: "(if unat PBUF_POOL_BUFSIZE < n then unat PBUF_POOL_BUFSIZE else n) = min n 128"
    by (simp add: PBUF_POOL_BUFSIZE_def)
  have h: "(heap s)(q \<mapsto> b \<lparr> p_next := None \<rparr>, r \<mapsto> rb \<lparr> p_next := Some q \<rparr>,
      q \<mapsto> b \<lparr> p_next := None, p_tot_len := of_nat n, p_len := of_nat (min n 128),
            p_payload := int (q + SIZEOF_PBUF), p_ref := 1 \<rparr>) = tail_step r q n (heap s)"
    using B(3) rb assms(2) by (auto simp: tail_step_def fun_eq_iff)
  show ?thesis
    using assms(2,3) rb B(3) st h [symmetric]
    by (intro exI [of _ st], cases s) (simp add: pool_tail.simps [of p r n] len Let_def)
qed

lemma pool_tail_ok:
  assumes "building s p xs r fs n"
  shows "let k = (n + 127) div 128 in
    if k \<le> length fs
    then \<exists>s'. pool_tail p r n s = Some (Some p, s') \<and> packet s' (Some p) (xs @ [r] @ take k fs) \<and>
      sum_len (heap s') (xs @ [r] @ take k fs) = sum_len (heap s) (xs @ [r]) + n \<and>
      (\<forall>q\<in>set (xs @ [r] @ take k fs). ref_at (heap s') q = 1) \<and>
      pool_ready s' (drop k fs)
    else \<exists>s'. pool_tail p r n s = Some (None, s') \<and> pool_ready s' (rev (xs @ [r] @ fs))"
  using assms
proof (induction n arbitrary: s xs r fs rule: less_induct)
  case (less n)
  show ?case
  proof (cases "n = 0")
    case True
    then show ?thesis using less.prems
      by (simp add: building_def packet_def tot_rem_0 pool_tail.simps pool_ready_def Let_def)
  next
    case False
    show ?thesis
    proof (cases fs)
      case Nil
      then have B: "free_lock s = 0" "pool s = None" using less.prems by (auto simp: building_def)
      let ?s = "s \<lparr> alloc_lock := 0, stats := (stats s) \<lparr> st_err := st_err (stats s) + 1 \<rparr> \<rparr>"
      have c: "chain (heap ?s) (Some p) (xs @ [r])" "chain (heap ?s) (pool ?s) []"
        using less.prems B by (auto simp: building_def)
      have rel: "released (heap ?s) (xs @ [r]) = xs @ [r]"
        "filter (from_pool (heap ?s)) (xs @ [r]) = xs @ [r]"
        using less.prems by (auto simp: building_def released_def takeWhile_eq_all_conv filter_id_conv)
      from free_loop_ok [OF c, of 0, unfolded rel]
      obtain s' where "pbuf_free (Some p) ?s = Some (of_nat (length (xs @ [r])), s')"
          "chain (heap s') (pool s') (rev (xs @ [r]) @ [])" "free_lock s' = 0" "\<forall>q. after_free (heap ?s) (xs @ [r]) (heap s') q"
        unfolding pbuf_free_def using B(1) by (auto simp: add_0)
      moreover from this(4) have "\<forall>q\<in>set (xs @ [r]). from_pool (heap s') q"
      proof (intro ballI)
        fix q assume q: "q \<in> set (xs @ [r])"
        then have "from_pool (heap ?s) q" using less.prems by (auto simp: building_def from_pool_def)
        then show "from_pool (heap s') q"
          using spec [OF \<open>\<forall>q. after_free (heap ?s) (xs @ [r]) (heap s') q\<close>, of q] q rel(1)
          by (auto simp: after_free_def from_pool_def)
      qed
      moreover have "\<not> (n + 127) div 128 \<le> 0" using False by (simp add: div_greater_zero_iff)
      ultimately show ?thesis using False Nil pool_alloc_None [OF B]
        by (simp add: pool_tail.simps [of p r n] pool_ready_def Let_def)
    next
      case (Cons q gs)
      then obtain b where b: "heap s q = Some b"
        using less.prems by (auto simp: building_def split: option.splits)
      define m where "m = n - min n 128"
      have n: "0 < n" "m < n" using False by (auto simp: m_def)
      have B: "building s p xs r (q # gs) n" using less.prems Cons by simp
      obtain st where st: "pool_tail p r n s = pool_tail p q m
          (s \<lparr> heap := tail_step r q n (heap s), pool := p_next b, stats := st, alloc_lock := 0 \<rparr>)"
        using pool_tail_step [OF B b n(1)] unfolding m_def by blast
      have k: "(n + 127) div 128 = Suc ((m + 127) div 128)" using n(1) by (auto simp: m_def min_def)
      have sl: "sum_len (tail_step r q n (heap s)) (xs @ [r, q]) + m = sum_len (heap s) (xs @ [r]) + n"
        using building_step(2) [OF B b n(1)] by (simp add: m_def)
      show ?thesis
        using less.IH [OF n(2) building_step(1) [OF B b n(1), of st, folded m_def]] sl
        by (cases "(m + 127) div 128 \<le> length gs") (auto simp: k st Cons Let_def add.assoc)
    qed
  qed
qed

section \<open>Allocation from the pool\<close>

text \<open>How many pool pbufs a packet of the given size needs.\<close>

definition pool_need :: "pbuf_layer \<Rightarrow> u16 \<Rightarrow> nat" where
  "pool_need l sz = Suc ((unat sz - min (unat sz) (128 - unat (layer_offset l)) + 127) div 128)"

lemma unat_layer_offset: "unat (layer_offset l) \<le> 54"
  by (cases l) (simp_all add: layer_offset_def cfg_defs)

lemma first_len:
  "(if sz > PBUF_POOL_BUFSIZE - layer_offset l then PBUF_POOL_BUFSIZE - layer_offset l else sz) =
    (of_nat (min (unat sz) (128 - unat (layer_offset l))) :: u16)"
proof -
  have "unat (PBUF_POOL_BUFSIZE - layer_offset l) = 128 - unat (layer_offset l)"
    using unat_layer_offset [of l] unat_sub [of "layer_offset l" PBUF_POOL_BUFSIZE]
    by (simp add: word_le_nat_alt cfg_defs)
  then show ?thesis
    by (auto simp: word_less_nat_alt min_def) (metis of_nat_unat ucast_id)
qed

text \<open>The addresses of the pool: pbufs of 144 bytes each, one after the other.\<close>

definition pool_addrs :: "nat \<Rightarrow> addr \<Rightarrow> addr list" where
  "pool_addrs n p = map (\<lambda>i. p + 144 * i) [0..<n]"

lemma pool_addrs_Suc: "pool_addrs (Suc n) p = p # pool_addrs n (p + 144)"
proof -
  have "map (\<lambda>i. p + 144 * i) [0..<Suc n] = p # map (\<lambda>i. p + 144 * Suc i) [0..<n]"
    by (simp only: map_upt_Suc) simp
  then show ?thesis by (simp add: pool_addrs_def ac_simps)
qed

lemma init_loop_other: "a < p \<Longrightarrow> pbuf_init_loop n p h a = h a"
  by (induction n arbitrary: p h) (simp_all add: Let_def)

lemma init_loop_chain:
  "chain (pbuf_init_loop n p h) (if n = 0 then None else Some p) (pool_addrs n p) \<and>
    (\<forall>q\<in>set (pool_addrs n p). from_pool (pbuf_init_loop n p h) q)"
proof (induction n arbitrary: p h)
  case 0
  then show ?case by (simp add: pool_addrs_def)
next
  case (Suc n)
  let ?q = "p + 144"
  let ?h = "h(p \<mapsto> \<lparr> p_next = (if n = 0 then None else Some ?q), p_payload = int (p + SIZEOF_PBUF),
    p_tot_len = PBUF_POOL_BUFSIZE, p_len = PBUF_POOL_BUFSIZE, p_flags = PBUF_FLAG_POOL, p_ref = 0 \<rparr>)"
  have e: "pbuf_init_loop (Suc n) p h = pbuf_init_loop n ?q ?h"
    by (simp add: Let_def cfg_defs add.commute [of p])
  define g where "g = pbuf_init_loop n ?q ?h"
  have "g p = ?h p" unfolding g_def by (rule init_loop_other) simp
  then show ?case using Suc.IH [of ?q ?h] unfolding e g_def [symmetric]
    by (simp add: pool_addrs_Suc from_pool_def)
qed

text \<open>Initialisation puts all \<open>PBUF_POOL_SIZE\<close> pbufs into the pool, linked in address
  order, unlocked and marked as pool pbufs.\<close>

theorem pbuf_init_pool:
  "chain (heap (pbuf_init base s)) (pool (pbuf_init base s)) (pool_addrs 16 base) \<and>
    (\<forall>q\<in>set (pool_addrs 16 base). from_pool (heap (pbuf_init base s)) q) \<and>
    free_lock (pbuf_init base s) = 0 \<and> st_avail (stats (pbuf_init base s)) = 16"
  using init_loop_chain [of 16 base "heap s"]
  by (simp add: pbuf_init_def PBUF_POOL_SIZE_def)

lemma pbuf_alloc_ready:
  assumes "pool_ready s fs"
  shows "if pool_need l sz \<le> length fs
    then \<exists>s'. pbuf_alloc malloc l sz PBUF_POOL s = Some (Some (hd fs), s') \<and>
      packet s' (Some (hd fs)) (take (pool_need l sz) fs) \<and>
      sum_len (heap s') (take (pool_need l sz) fs) = unat sz \<and>
      (\<forall>q\<in>set (take (pool_need l sz) fs). ref_at (heap s') q = 1) \<and>
      pool_ready s' (drop (pool_need l sz) fs)
    else \<exists>s'. pbuf_alloc malloc l sz PBUF_POOL s = Some (None, s') \<and> pool_ready s' (rev fs)"
proof (cases fs)
  case Nil
  then show ?thesis using assms pool_alloc_None [of s]
    by (simp add: pbuf_alloc_def Let_def pool_need_def pool_ready_def)
next
  case (Cons p gs)
  define n where "n = min (unat sz) (128 - unat (layer_offset l))"
  obtain b where b: "heap s p = Some b" "chain (heap s) (p_next b) gs" "pool s = Some p"
    using assms Cons by (auto simp: pool_ready_def split: option.splits)
  obtain st where st: "pbuf_pool_alloc s = Some (Some p, s \<lparr> pool := p_next b, stats := st, alloc_lock := 0 \<rparr>)"
    using pool_alloc_Some [OF _ b(3,1)] assms by (auto simp: pool_ready_def)
  define b1 where "b1 = b \<lparr> p_next := None, p_payload := int (p + SIZEOF_PBUF + unat (layer_offset l)),
    p_tot_len := sz, p_len := of_nat n, p_ref := 1 \<rparr>"
  define s1 where "s1 = s \<lparr> pool := p_next b, stats := st, alloc_lock := 0, heap := (heap s)(p \<mapsto> b1) \<rparr>"
  have d: "p \<notin> set gs" using chain_distinct [of "heap s" "pool s" fs] assms Cons by (simp add: pool_ready_def)
  have "n \<le> unat sz" by (simp add: n_def)
  then have n: "n \<le> unat sz" "unat (of_nat n :: u16) = n"
    using unat_less_pow [of sz] by (simp_all add: unat_of_nat)
  have B: "building s1 p [] p gs (unat sz - n)"
    using assms b d n unat_less_pow [of sz] Cons
    by (auto simp: building_def s1_def b1_def from_pool_def ref_at_def pool_ready_def)
  have unsz: "unat (of_nat n :: u16) = n" "sum_len (heap s1) [p] = n" using n by (simp_all add: s1_def b1_def)
  have need: "pool_need l sz = Suc ((unat sz - n + 127) div 128)" by (simp add: pool_need_def n_def)
  have eq: "pbuf_alloc malloc l sz PBUF_POOL s =
      (case pool_tail p p (unat sz - n) s1 of
         None \<Rightarrow> None
       | Some (r, s) \<Rightarrow> (case r of None \<Rightarrow> Some (None, s)
           | Some p \<Rightarrow> (case upd s p (\<lambda>b. b \<lparr> p_ref := 1 \<rparr>) of None \<Rightarrow> None | Some s \<Rightarrow> Some (Some p, s))))"
    using b(1) st
    by (simp add: pbuf_alloc_def first_len n_def [symmetric] n s1_def b1_def Let_def add.assoc
        split: option.splits)
  have idem: "upd s' p (\<lambda>b. b \<lparr> p_ref := 1 \<rparr>) = Some s'"
    if "chain (heap s') (Some p) (p # xs)" "ref_at (heap s') p = 1" for s' xs
    using that by (cases s') (auto simp: ref_at_def fun_upd_idem split: option.splits)
  show ?thesis
    using pool_tail_ok [OF B] idem unsz(2) n(1)
    by (cases "(unat sz - n + 127) div 128 \<le> length gs")
      (auto simp: eq need Cons packet_def Let_def)
qed

text \<open>C26: Allocating from the pool succeeds exactly when enough pool pbufs are free; it then
  returns a packet of exactly the requested length made of the first free pbufs, each with
  reference count one, and takes only those from the pool.  When the pool runs out half way it
  returns NULL and every pbuf is back in the pool.\<close>

theorem pbuf_alloc_pool:
  assumes "chain (heap s) (pool s) fs" and "free_lock s = 0" and "\<forall>q\<in>set fs. from_pool (heap s) q"
  shows "if pool_need l sz \<le> length fs
    then \<exists>s'. pbuf_alloc malloc l sz PBUF_POOL s = Some (Some (hd fs), s') \<and>
      packet s' (Some (hd fs)) (take (pool_need l sz) fs) \<and>
      sum_len (heap s') (take (pool_need l sz) fs) = unat sz \<and>
      (\<forall>q\<in>set (take (pool_need l sz) fs). ref_at (heap s') q = 1) \<and>
      chain (heap s') (pool s') (drop (pool_need l sz) fs)
    else \<exists>s'. pbuf_alloc malloc l sz PBUF_POOL s = Some (None, s') \<and>
      chain (heap s') (pool s') (rev fs)"
  using pbuf_alloc_ready [of s fs l sz malloc] assms unfolding pool_ready_def by (auto split: if_splits)

definition example_pool :: pstate where
  "example_pool = pbuf_init 1000 \<lparr> heap = Map.empty, mem = (\<lambda>_. 0), pool = None, free_lock = 0,
    alloc_lock = 0,
    stats = \<lparr> st_avail = 0, st_used = 0, st_max = 0, st_err = 0, st_alloc_locked = 0 \<rparr> \<rparr>"

lemma example_pool_addrs: "pool_addrs 16 1000 = 1000 # 1144 # pool_addrs 14 1288"
  using pool_addrs_Suc [of 15 1000] pool_addrs_Suc [of 14 1144] by simp

lemma example_pool_ok:
  "chain (heap example_pool) (pool example_pool) (pool_addrs 16 1000)"
  "free_lock example_pool = 0" "\<forall>q\<in>set (pool_addrs 16 1000). from_pool (heap example_pool) q"
  using init_loop_chain [of 16 1000 Map.empty]
  by (simp_all add: example_pool_def pbuf_init_def PBUF_POOL_SIZE_def)

theorem pbuf_init_pool_witness:
  "chain (heap example_pool) (pool example_pool) (1000 # 1144 # pool_addrs 14 1288) \<and>
    from_pool (heap example_pool) 1144"
  using pbuf_init_pool [of 1000 "\<lparr> heap = Map.empty, mem = (\<lambda>_. 0), pool = None, free_lock = 0,
    alloc_lock = 0,
    stats = \<lparr> st_avail = 0, st_used = 0, st_max = 0, st_err = 0, st_alloc_locked = 0 \<rparr> \<rparr>"]
  unfolding example_pool_def [symmetric] example_pool_addrs by auto

theorem pbuf_alloc_pool_witness:
  "\<exists>s'. pbuf_alloc (\<lambda>_ _. None) PBUF_TRANSPORT 100 PBUF_POOL example_pool = Some (Some 1000, s') \<and>
    packet s' (Some 1000) [1000, 1144] \<and> sum_len (heap s') [1000, 1144] = 100"
proof -
  have "pool_need PBUF_TRANSPORT 100 = 2"
    by (simp add: pool_need_def layer_offset_def cfg_defs)
  moreover have "length (pool_addrs 16 1000) = 16" by (simp add: pool_addrs_def)
  ultimately show ?thesis
    using pbuf_alloc_pool [OF example_pool_ok, of PBUF_TRANSPORT 100 "\<lambda>_ _. None"]
    by (auto simp: example_pool_addrs)
qed

section \<open>Headers\<close>

text \<open>For a pbuf that owns its payload, revealing a header of \<open>n\<close> bytes fails, changing
  nothing, exactly when the payload pointer would leave the buffer, and otherwise moves the payload
  pointer and both lengths; hiding the header again restores the state.\<close>

theorem pbuf_header_roundtrip:
  assumes "heap s a = Some b" and "p_flags b = PBUF_FLAG_RAM \<or> p_flags b = PBUF_FLAG_POOL"
    and "0 < sint n"
  shows "if p_payload b - sint n < int (a + SIZEOF_PBUF)
    then pbuf_header (Some a) n s = Some (1, s)
    else \<exists>s' b'. pbuf_header (Some a) n s = Some (0, s') \<and> heap s' a = Some b' \<and>
      p_payload b' = p_payload b - sint n \<and> p_len b' = p_len b + n \<and> p_tot_len b' = p_tot_len b + n \<and>
      pbuf_header (Some a) (- n) s' = Some (0, s)"
proof -
  have n: "n \<noteq> 0" using assms(3) by auto
  have neg: "sint (- n) = - sint n"
    using assms(3) by (rule sint_uminus)
  define c where "c = b \<lparr> p_payload := p_payload b - sint n, p_len := p_len b + n, p_tot_len := p_tot_len b + n \<rparr>"
  have restore: "pbuf_header (Some a) (- n) (s \<lparr> heap := (heap s)(a \<mapsto> c) \<rparr>) = Some (0, s)"
    if "\<not> p_payload b - sint n < int (a + SIZEOF_PBUF)"
  proof -
    have "c \<lparr> p_payload := p_payload b, p_len := p_len b, p_tot_len := p_tot_len b \<rparr> = b" by (simp add: c_def)
    moreover have "(heap s)(a \<mapsto> b) = heap s" using assms(1) by (rule fun_upd_idem)
    ultimately show ?thesis using that n neg assms
      by (cases s) (simp add: pbuf_header_def Let_def c_def)
  qed
  show ?thesis using n assms(1,2) restore
    by (auto simp: pbuf_header_def Let_def c_def)
qed

theorem pbuf_header_roundtrip_witness:
  "\<exists>s' s0. s0 = example_chain \<lparr> heap := [100 \<mapsto> \<lparr> p_next = None, p_payload = 136, p_tot_len = 40,
      p_len = 40, p_flags = PBUF_FLAG_RAM, p_ref = 1 \<rparr>] \<rparr> \<and>
    pbuf_header (Some 100) 20 s0 = Some (0, s') \<and> pbuf_header (Some 100) (- 20) s' = Some (0, s0)"
  using pbuf_header_roundtrip [of "example_chain \<lparr> heap := [100 \<mapsto> \<lparr> p_next = None, p_payload = 136,
      p_tot_len = 40, p_len = 40, p_flags = PBUF_FLAG_RAM, p_ref = 1 \<rparr>] \<rparr>" 100
    "\<lparr> p_next = None, p_payload = 136, p_tot_len = 40, p_len = 40, p_flags = PBUF_FLAG_RAM, p_ref = 1 \<rparr>"
    20]
  by (auto simp: SIZEOF_PBUF_def)

text \<open>For a pbuf that refers to external data the bounds check is vacuous: hiding a header
  succeeds for every negative increment, also for one larger than the data, in which case the
  16-bit length wraps around.\<close>

theorem pbuf_header_ref_unchecked:
  assumes "heap s a = Some b" and "p_flags b = PBUF_FLAG_REF \<or> p_flags b = PBUF_FLAG_ROM"
    and "sint n < 0"
  shows "\<exists>s' b'. pbuf_header (Some a) n s = Some (0, s') \<and> heap s' a = Some b' \<and>
    p_len b' = p_len b + n \<and> p_payload b' = p_payload b - sint n"
proof -
  have "n \<noteq> 0" using assms(3) by auto
  moreover have "sint n - uint (p_len b) \<le> 0" using assms(3) uint_nonnegative [of "p_len b"] by linarith
  moreover have "\<not> (p_flags b = PBUF_FLAG_RAM \<or> p_flags b = PBUF_FLAG_POOL)"
    using assms(2) by (auto simp: cfg_defs)
  ultimately show ?thesis using assms by (simp add: pbuf_header_def Let_def)
qed

theorem pbuf_header_ref_unchecked_witness:
  "\<exists>s' b'. pbuf_header (Some 500) (- 5) (example_chain \<lparr> heap := [500 \<mapsto> \<lparr> p_next = None, p_payload = 9000,
      p_tot_len = 3, p_len = 3, p_flags = PBUF_FLAG_REF, p_ref = 1 \<rparr>] \<rparr>) = Some (0, s') \<and>
    heap s' 500 = Some b' \<and> p_len b' = 65534"
  using pbuf_header_ref_unchecked [of "example_chain \<lparr> heap := [500 \<mapsto> \<lparr> p_next = None, p_payload = 9000,
      p_tot_len = 3, p_len = 3, p_flags = PBUF_FLAG_REF, p_ref = 1 \<rparr>] \<rparr>" 500
    "\<lparr> p_next = None, p_payload = 9000, p_tot_len = 3, p_len = 3, p_flags = PBUF_FLAG_REF, p_ref = 1 \<rparr>"
    "- 5"]
  by auto

section \<open>Shrinking\<close>

lemma realloc_walk_ok:
  assumes "chain (heap s) (Some p) ps" "unat n \<le> sum_len (heap s) ps"
  shows "\<exists>xs q ys m. ps = xs @ q # ys \<and>
    realloc_walk g n p s = Some (m, q, s \<lparr> heap := add_tot (heap s) xs g \<rparr>) \<and>
    unat n = sum_len (heap s) xs + unat m \<and> unat m \<le> unat (p_len (the (heap s q)))"
  using assms
proof (induction ps arbitrary: p n s)
  case (Cons r ps)
  then obtain b where b: "r = p" "heap s p = Some b" "chain (heap s) (p_next b) ps"
    by (auto split: option.splits)
  have d: "p \<notin> set ps" using chain_distinct [OF Cons.prems(1)] b(1) by simp
  show ?case
  proof (cases "n > p_len b")
    case False
    have "add_tot (heap s) [] g = heap s" by (simp add: add_tot_def)
    then show ?thesis using False b
      by (intro exI [of _ "[]"] exI [of _ p] exI [of _ ps] exI [of _ n])
        (simp add: realloc_walk.simps word_less_nat_alt)
  next
    case True
    then have lt: "unat (p_len b) < unat n" by (simp add: word_less_nat_alt)
    then have m: "unat (n - p_len b) = unat n - unat (p_len b)" by (simp add: unat_sub word_le_nat_alt)
    let ?s = "s \<lparr> heap := (heap s)(p \<mapsto> b \<lparr> p_tot_len := p_tot_len b + g \<rparr>) \<rparr>"
    have "ps \<noteq> []" using Cons.prems(2) b lt by auto
    then obtain q where q: "p_next b = Some q" using b(3) by (cases ps) auto
    have sl: "sum_len (heap ?s) xs = sum_len (heap s) xs" for xs
      using b(2) by (intro sum_len_cong) auto
    have "chain (heap ?s) (Some q) ps" using b q d by simp
    moreover have "unat (n - p_len b) \<le> sum_len (heap ?s) ps"
      using Cons.prems(2) b m unfolding sl by simp
    ultimately obtain xs r' ys m' where IH: "ps = xs @ r' # ys"
      "realloc_walk g (n - p_len b) q ?s = Some (m', r', ?s \<lparr> heap := add_tot (heap ?s) xs g \<rparr>)"
      "unat (n - p_len b) = sum_len (heap ?s) xs + unat m'" "unat m' \<le> unat (p_len (the (heap ?s r')))"
      using Cons.IH [of ?s q "n - p_len b"] by blast
    have "add_tot (heap ?s) xs g = add_tot (heap s) (p # xs) g"
      using d IH(1) b(2) by (auto simp: add_tot_def fun_eq_iff)
    then show ?thesis using IH b q True lt m d unfolding sl
      by (intro exI [of _ "p # xs"] exI [of _ r'] exI [of _ ys] exI [of _ m'])
        (auto simp: realloc_walk.simps [of g n p])
  qed
qed simp

lemma tot_rem_shrink:
  assumes "tot_rem h xs e" "d \<le> e" "distinct xs" "\<forall>x\<in>set xs. h x \<noteq> None"
  shows "tot_rem (add_tot h xs (- of_nat d)) xs (e - d)"
proof -
  have "tot_rem (add_tot h zs (- of_nat d)) xs (e - d)" if "set xs \<subseteq> set zs" for zs
    using assms that
  proof (induction xs)
    case (Cons x xs)
    let ?h = "add_tot h zs (- of_nat d)"
    obtain b where b: "h x = Some b" using Cons.prems(4) by auto
    have "sum_len ?h (x # xs) = sum_len h (x # xs)"
      using Cons.prems(4) by (intro sum_len_cong) (auto simp: add_tot_def)
    moreover have "d \<le> unat (p_tot_len b)" using Cons.prems(1,2) b by simp
    then have "unat (p_tot_len b - of_nat d) = unat (p_tot_len b) - d"
      using unat_less_pow [of "p_tot_len b"]
      by (subst unat_sub) (simp_all add: word_le_nat_alt unat_of_nat)
    ultimately show ?case using Cons b by (auto simp: add_tot_def)
  qed simp
  then show ?thesis by blast
qed

lemma free_tail:
  assumes "chain (heap s) a ys" "chain (heap s) (pool s) fs" "set fs \<inter> set ys = {}"
  shows "\<exists>s'. (if a \<noteq> None then map_option snd (pbuf_free a s) else Some s) = Some s' \<and>
    (\<forall>x. x \<notin> set ys \<longrightarrow> heap s' x = heap s x)"
proof (cases "a = None")
  case False
  obtain s' where s': "pbuf_free a s = Some (of_nat (length (released (heap s) ys)), s')"
    "\<And>q. after_free (heap s) ys (heap s') q"
    using free_loop_ok [OF assms, of 0] by (auto simp: pbuf_free_def)
  have "heap s' x = heap s x" if "x \<notin> set ys" for x
  proof -
    have "x \<notin> set (released (heap s) ys)" "x \<notin> set (survivors (heap s) ys)"
      using that by (auto simp: released_def survivors_def dest: set_takeWhileD set_dropWhileD)
    then show ?thesis using s'(2) [of x] by (auto simp: after_free_def split: list.splits)
  qed
  then show ?thesis using False s' by auto
qed simp

text \<open>Adding the (negative) growth to the totals of the kept pbufs makes them right for the new
  length.\<close>

lemma realloc_totals:
  assumes "chain (heap s) (Some p) (xs @ q # ys)" "tot_ok (heap s) (xs @ q # ys)" "distinct xs"
    and "unat (p_tot_len pb) = sum_len (heap s) (xs @ q # ys)"
    and "unat n = sum_len (heap s) xs + unat m" "unat m \<le> unat (p_len (the (heap s q)))"
  shows "tot_rem (add_tot (heap s) xs (n - p_tot_len pb)) xs (unat m)"
proof -
  let ?e = "sum_len (heap s) (q # ys)"
  have e: "tot_rem (heap s) xs ?e" using assms(2) by (simp add: tot_rem_0 [symmetric] tot_rem_append)
  have m: "unat m \<le> ?e" using assms(6) by simp
  then have "unat n + (?e - unat m) = unat (p_tot_len pb)" using assms(4,5) by simp
  then have "n + of_nat (?e - unat m) = p_tot_len pb" by (metis of_nat_add of_nat_unat ucast_id)
  then have g: "n - p_tot_len pb = - of_nat (?e - unat m)"
    by (metis add_diff_cancel_left' diff_add_eq_diff_diff_swap diff_self minus_diff_eq)
  have "tot_rem (add_tot (heap s) xs (- of_nat (?e - unat m))) xs (?e - (?e - unat m))"
    using path_live [OF assms(1)] assms(3) e by (intro tot_rem_shrink) auto
  then show ?thesis using m unfolding g by simp
qed

text \<open>Shrinking a packet to a smaller length keeps a prefix of its pbufs, which is a packet of
  exactly the new length; the pbufs behind it are freed, and the packet's head stays the head.\<close>

theorem pbuf_realloc_shrinks:
  assumes "packet s (Some p) ps" and "unat new_len < sum_len (heap s) ps"
    and "chain (heap s) (pool s) fs" and "set fs \<inter> set ps = {}"
  shows "\<exists>s' xs q ys. pbuf_realloc p new_len s = Some s' \<and> ps = xs @ q # ys \<and>
    packet s' (Some p) (xs @ [q]) \<and> sum_len (heap s') (xs @ [q]) = unat new_len"
proof -
  have c: "chain (heap s) (Some p) ps" "tot_ok (heap s) ps" using assms(1) by (simp_all add: packet_def)
  obtain pb where pb: "heap s p = Some pb" "unat (p_tot_len pb) = sum_len (heap s) ps"
    using c by (cases ps) (auto split: option.splits)
  let ?g = "new_len - p_tot_len pb"
  obtain xs q ys m where w: "ps = xs @ q # ys" "unat new_len = sum_len (heap s) xs + unat m"
    "realloc_walk ?g new_len p s = Some (m, q, s \<lparr> heap := add_tot (heap s) xs ?g \<rparr>)"
    "unat m \<le> unat (p_len (the (heap s q)))"
    using realloc_walk_ok [OF c(1), of new_len ?g] assms(2) by auto
  obtain qb where qb: "heap s q = Some qb" using path_live [OF c(1), of q] w(1) by auto
  have dist: "q \<notin> set xs" "q \<notin> set ys" "set xs \<inter> set ys = {}" "distinct xs"
    using chain_distinct [OF c(1)] w(1) by auto
  define h2 where "h2 = (add_tot (heap s) xs ?g)(q \<mapsto> qb \<lparr> p_len := m, p_tot_len := m \<rparr>)"
  define s2 where "s2 = s \<lparr> heap := h2 \<rparr>"
  have same: "map_option p_next (h2 x) = map_option p_next (heap s x)" for x
    using qb by (auto simp: h2_def add_tot_def option.map_comp o_def)
  have pth: "path h2 a zs e = path (heap s) a zs e" for a zs e by (rule path_cong) (rule same)
  have tail: "chain (heap s) (p_next qb) ys" "path (heap s) (Some p) xs (Some q)"
    using c(1) qb w(1) by (auto simp: path_append split: option.splits)
  obtain s3 where s3: "(if p_next qb \<noteq> None then map_option snd (pbuf_free (p_next qb) s2) else Some s2) = Some s3"
    "\<And>x. x \<notin> set ys \<Longrightarrow> heap s3 x = h2 x"
    using free_tail [of s2 "p_next qb" ys fs] tail assms(3,4) w(1) by (auto simp: s2_def pth)
  have q3: "heap s3 q = Some (qb \<lparr> p_len := m, p_tot_len := m \<rparr>)"
    using s3(2) [OF dist(2)] by (simp add: h2_def)
  define h4 where "h4 = (heap s3)(q \<mapsto> qb \<lparr> p_len := m, p_tot_len := m, p_next := None \<rparr>)"
  have x4: "h4 x = add_tot (heap s) xs ?g x" if "x \<in> set xs" for x
    using that s3(2) [of x] dist by (auto simp: h4_def h2_def disjoint_iff)
  have "\<not> new_len \<ge> p_tot_len pb" using assms(2) pb(2) by (simp add: word_le_nat_alt)
  moreover have "upd (s \<lparr> heap := add_tot (heap s) xs ?g \<rparr>) q (\<lambda>b. b \<lparr> p_len := m, p_tot_len := m \<rparr>) = Some s2"
    "heap s2 q = Some (qb \<lparr> p_len := m, p_tot_len := m \<rparr>)"
    using qb dist(1) by (simp_all add: s2_def h2_def add_tot_def)
  ultimately have "pbuf_realloc p new_len s =
      Option.bind (if p_next qb \<noteq> None then map_option snd (pbuf_free (p_next qb) s2) else Some s2)
        (\<lambda>s. upd s q (\<lambda>b. b \<lparr> p_next := None \<rparr>))"
    using pb(1) w(3) by (simp add: pbuf_realloc_def)
  then have eq: "pbuf_realloc p new_len s = Some (s3 \<lparr> heap := h4 \<rparr>)"
    using q3 unfolding s3(1) by (simp add: h4_def)
  have "path h4 (Some p) xs (Some q)"
    using frame(1) [of xs h4 "add_tot (heap s) xs ?g"] x4 tail(2) by simp
  then have "chain h4 (Some p) (xs @ [q])" by (simp add: path_last h4_def)
  moreover have sl: "sum_len h4 xs = sum_len (heap s) xs" "sum_len h4 [q] = unat m"
    using x4 path_live [OF c(1)] w(1)
    by (force intro!: sum_len_cong simp: add_tot_def) (simp add: h4_def)
  moreover have "tot_rem h4 xs (unat m)"
    using realloc_totals [of s p xs q ys pb new_len m] c w pb(2) dist(4)
      tot_rem_cong [of xs h4 "add_tot (heap s) xs ?g"] x4 by simp
  ultimately have "packet (s3 \<lparr> heap := h4 \<rparr>) (Some p) (xs @ [q])"
    by (simp add: packet_def tot_rem_0 [symmetric] tot_rem_append h4_def)
  then show ?thesis using eq w(1,2) sl
    by (intro exI [of _ "s3 \<lparr> heap := h4 \<rparr>"] exI [of _ xs] exI [of _ q] exI [of _ ys]) simp
qed

theorem pbuf_realloc_shrinks_witness:
  "\<exists>s' xs q ys. pbuf_realloc 100 15 example_chain = Some s' \<and> [100, 200, 300] = xs @ q # ys \<and>
    packet s' (Some 100) (xs @ [q]) \<and> sum_len (heap s') (xs @ [q]) = 15"
  using pbuf_realloc_shrinks [of example_chain 100 "[100, 200, 300]" 15 "[]"]
  by (simp add: packet_def example_chain_def sum_len_def)

end
