(* ===== verification/Tcp_Base.thy ===== *)
theory Tcp_Base
  imports Inet "HOL-Library.Monad_Syntax"
begin

text \<open>
  The data of the TCP module (\<open>include/lwip/tcp.h\<close>): sequence number comparison, the header and
  its flag macros, segments, protocol control blocks, and the part of the machine the module
  works against.

  Header fields hold host-order values; the conversions around every access of the source cancel
  out.  The pbuf chain of a segment is represented by the bytes that follow the fixed TCP header
  and by the number of pbufs in the chain; theory \<open>Pbuf_Props\<close> shows what the chain operations do
  to the pbufs.  What is not TCP's own code is a field of \<open>tcp_env\<close>: whether the n-th allocation
  succeeds, which address the allocator hands out for a control block, the routing decision of IP,
  and the contents of freshly allocated memory where the code reads it before writing.
\<close>

section \<open>Constants\<close>

type_synonym err_t = int
type_synonym fptr = nat

definition ERR_OK :: err_t where [cfg_defs]: "ERR_OK = 0"
definition ERR_MEM :: err_t where [cfg_defs]: "ERR_MEM = -1"
definition ERR_BUF :: err_t where [cfg_defs]: "ERR_BUF = -2"
definition ERR_ABRT :: err_t where [cfg_defs]: "ERR_ABRT = -3"
definition ERR_RST :: err_t where [cfg_defs]: "ERR_RST = -4"
definition ERR_CONN :: err_t where [cfg_defs]: "ERR_CONN = -6"
definition ERR_VAL :: err_t where [cfg_defs]: "ERR_VAL = -7"
definition ERR_USE :: err_t where [cfg_defs]: "ERR_USE = -10"

definition TCP_MSS :: u16 where [cfg_defs]: "TCP_MSS = 1460"
definition TCP_SND_BUF :: u16 where [cfg_defs]: "TCP_SND_BUF = 64512"
definition TCP_WND :: u16 where [cfg_defs]: "TCP_WND = 64512"
definition TCP_SND_QUEUELEN :: nat where [cfg_defs]: "TCP_SND_QUEUELEN = 176"
definition TCP_TTL :: u8 where [cfg_defs]: "TCP_TTL = 255"
definition TCP_MAXRTX :: u8 where [cfg_defs]: "TCP_MAXRTX = 12"
definition TCP_SYNMAXRTX :: u8 where [cfg_defs]: "TCP_SYNMAXRTX = 6"
definition TCP_SLOW_INTERVAL :: u32 where [cfg_defs]: "TCP_SLOW_INTERVAL = 500"
definition TCP_FIN_WAIT_TIMEOUT :: u32 where [cfg_defs]: "TCP_FIN_WAIT_TIMEOUT = 20000"
definition TCP_SYN_RCVD_TIMEOUT :: u32 where [cfg_defs]: "TCP_SYN_RCVD_TIMEOUT = 20000"
definition TCP_OOSEQ_TIMEOUT :: u32 where [cfg_defs]: "TCP_OOSEQ_TIMEOUT = 6"
definition TCP_MSL :: u32 where [cfg_defs]: "TCP_MSL = 60000"
definition TCP_KEEPDEFAULT :: u32 where [cfg_defs]: "TCP_KEEPDEFAULT = 7200000"
definition TCP_KEEPINTVL :: u32 where [cfg_defs]: "TCP_KEEPINTVL = 75000"
definition TCP_KEEPCNT :: u32 where [cfg_defs]: "TCP_KEEPCNT = 9"
definition TCP_MAXIDLE :: u32 where "TCP_MAXIDLE = TCP_KEEPCNT * TCP_KEEPINTVL"
definition TCP_PRIO_NORMAL :: u8 where [cfg_defs]: "TCP_PRIO_NORMAL = 64"
definition TCP_PRIO_MAX :: u8 where [cfg_defs]: "TCP_PRIO_MAX = 127"
definition TCP_HLEN :: nat where [cfg_defs]: "TCP_HLEN = 20"
definition IP_PROTO_TCP :: u8 where [cfg_defs]: "IP_PROTO_TCP = 6"

definition SOF_DEBUG :: u16 where [cfg_defs]: "SOF_DEBUG = 0x0001"
definition SOF_ACCEPTCONN :: u16 where [cfg_defs]: "SOF_ACCEPTCONN = 0x0002"
definition SOF_KEEPALIVE :: u16 where [cfg_defs]: "SOF_KEEPALIVE = 0x0008"
definition SOF_DONTROUTE :: u16 where [cfg_defs]: "SOF_DONTROUTE = 0x0010"
definition SOF_LINGER :: u16 where [cfg_defs]: "SOF_LINGER = 0x0080"
definition SOF_OOBINLINE :: u16 where [cfg_defs]: "SOF_OOBINLINE = 0x0100"

section \<open>Sequence numbers\<close>

definition TCP_SEQ_LT :: "u32 \<Rightarrow> u32 \<Rightarrow> bool" where "TCP_SEQ_LT a b \<longleftrightarrow> sint (a - b) < 0"
definition TCP_SEQ_LEQ :: "u32 \<Rightarrow> u32 \<Rightarrow> bool" where "TCP_SEQ_LEQ a b \<longleftrightarrow> sint (a - b) \<le> 0"
definition TCP_SEQ_GT :: "u32 \<Rightarrow> u32 \<Rightarrow> bool" where "TCP_SEQ_GT a b \<longleftrightarrow> sint (a - b) > 0"
definition TCP_SEQ_GEQ :: "u32 \<Rightarrow> u32 \<Rightarrow> bool" where "TCP_SEQ_GEQ a b \<longleftrightarrow> sint (a - b) \<ge> 0"

definition TCP_SEQ_BETWEEN :: "u32 \<Rightarrow> u32 \<Rightarrow> u32 \<Rightarrow> bool" where
  "TCP_SEQ_BETWEEN a b c \<longleftrightarrow> TCP_SEQ_GEQ a b \<and> TCP_SEQ_LEQ a c"

section \<open>The header\<close>

definition TCP_FIN :: u8 where [cfg_defs]: "TCP_FIN = 0x01"
definition TCP_SYN :: u8 where [cfg_defs]: "TCP_SYN = 0x02"
definition TCP_RST :: u8 where [cfg_defs]: "TCP_RST = 0x04"
definition TCP_PSH :: u8 where [cfg_defs]: "TCP_PSH = 0x08"
definition TCP_ACK :: u8 where [cfg_defs]: "TCP_ACK = 0x10"
definition TCP_FLAGS :: u16 where [cfg_defs]: "TCP_FLAGS = 0x3f"

record tcp_hdr =
  h_src :: u16
  h_dest :: u16
  h_seqno :: u32
  h_ackno :: u32
  h_word :: u16
  h_wnd :: u16
  h_chksum :: u16
  h_urgp :: u16

definition TCPH_HDRLEN :: "tcp_hdr \<Rightarrow> u16" where
  "TCPH_HDRLEN h = drop_bit 12 (h_word h)"

definition TCPH_FLAGS :: "tcp_hdr \<Rightarrow> u8" where
  "TCPH_FLAGS h = ucast (h_word h AND TCP_FLAGS)"

definition TCPH_HDRLEN_SET :: "tcp_hdr \<Rightarrow> nat \<Rightarrow> tcp_hdr" where
  "TCPH_HDRLEN_SET h n = h \<lparr> h_word := push_bit 12 (of_nat n) OR ucast (TCPH_FLAGS h) \<rparr>"

definition TCPH_FLAGS_SET :: "tcp_hdr \<Rightarrow> u8 \<Rightarrow> tcp_hdr" where
  "TCPH_FLAGS_SET h fl = h \<lparr> h_word := (h_word h AND NOT TCP_FLAGS) OR ucast fl \<rparr>"

definition TCPH_SET_FLAG :: "tcp_hdr \<Rightarrow> u8 \<Rightarrow> tcp_hdr" where
  "TCPH_SET_FLAG h fl = h \<lparr> h_word := h_word h OR ucast fl \<rparr>"

text \<open>The bytes of a header on the wire: fields are big-endian; the checksum is stored as computed.\<close>

definition be16 :: "u16 \<Rightarrow> u8 list" where
  "be16 w = [ucast (drop_bit 8 w), ucast w]"

definition be32 :: "u32 \<Rightarrow> u8 list" where
  "be32 w = [ucast (drop_bit 24 w), ucast (drop_bit 16 w), ucast (drop_bit 8 w), ucast w]"

definition le16 :: "u16 \<Rightarrow> u8 list" where
  "le16 w = [ucast w, ucast (drop_bit 8 w)]"

definition tcp_hdr_bytes :: "tcp_hdr \<Rightarrow> u8 list" where
  "tcp_hdr_bytes h = be16 (h_src h) @ be16 (h_dest h) @ be32 (h_seqno h) @ be32 (h_ackno h) @
    be16 (h_word h) @ be16 (h_wnd h) @ le16 (h_chksum h) @ be16 (h_urgp h)"

section \<open>Segments\<close>

record tcp_seg =
  s_data :: "u8 list"
  s_clen :: nat
  s_len :: u16
  s_tcphdr :: tcp_hdr

definition TCP_TCPLEN :: "tcp_seg \<Rightarrow> u32" where
  "TCP_TCPLEN seg = ucast (s_len seg) +
    (if TCPH_FLAGS (s_tcphdr seg) AND TCP_FIN \<noteq> 0 \<or> TCPH_FLAGS (s_tcphdr seg) AND TCP_SYN \<noteq> 0
     then 1 else 0)"

abbreviation seg_seqno :: "tcp_seg \<Rightarrow> u32" where
  "seg_seqno seg \<equiv> h_seqno (s_tcphdr seg)"

section \<open>Protocol control blocks\<close>

datatype tcp_state = CLOSED | LISTEN | SYN_SENT | SYN_RCVD | ESTABLISHED | FIN_WAIT_1
  | FIN_WAIT_2 | CLOSE_WAIT | CLOSING | LAST_ACK | TIME_WAIT

fun state_num :: "tcp_state \<Rightarrow> nat" where
  "state_num CLOSED = 0" | "state_num LISTEN = 1" | "state_num SYN_SENT = 2"
| "state_num SYN_RCVD = 3" | "state_num ESTABLISHED = 4" | "state_num FIN_WAIT_1 = 5"
| "state_num FIN_WAIT_2 = 6" | "state_num CLOSE_WAIT = 7" | "state_num CLOSING = 8"
| "state_num LAST_ACK = 9" | "state_num TIME_WAIT = 10"

definition TF_ACK_DELAY :: u8 where [cfg_defs]: "TF_ACK_DELAY = 0x01"
definition TF_ACK_NOW :: u8 where [cfg_defs]: "TF_ACK_NOW = 0x02"
definition TF_INFR :: u8 where [cfg_defs]: "TF_INFR = 0x04"
definition TF_RESET :: u8 where [cfg_defs]: "TF_RESET = 0x08"
definition TF_CLOSED :: u8 where [cfg_defs]: "TF_CLOSED = 0x10"
definition TF_GOT_FIN :: u8 where [cfg_defs]: "TF_GOT_FIN = 0x20"

record tcp_pcb =
  local_ip :: u32
  remote_ip :: u32
  so_options :: u16
  tos :: u8
  ttl :: u8
  state :: tcp_state
  prio :: u8
  callback_arg :: nat
  local_port :: u16
  remote_port :: u16
  flags :: u8
  rcv_nxt :: u32
  rcv_wnd :: u16
  tmr :: u32
  polltmr :: u8
  pollinterval :: u8
  rtime :: u16
  mss :: u16
  rttest :: u32
  rtseq :: u32
  sa :: u16
  sv :: u16
  rto :: u16
  nrtx :: u8
  lastack :: u32
  dupacks :: u8
  cwnd :: u16
  ssthresh :: u16
  snd_nxt :: u32
  snd_max :: u32
  snd_wnd :: u32
  snd_wl1 :: u32
  snd_wl2 :: u32
  snd_lbb :: u32
  acked :: u16
  snd_buf :: u16
  snd_queuelen :: u8
  unsent :: "tcp_seg list"
  unacked :: "tcp_seg list"
  ooseq :: "tcp_seg list"
  sent_cb :: "fptr option"
  recv_cb :: "fptr option"
  connected_cb :: "fptr option"
  accept_cb :: "fptr option"
  poll_cb :: "fptr option"
  errf_cb :: "fptr option"
  keepalive :: u32
  keep_cnt :: u8

text \<open>A control block of zero bytes, as \<open>memset\<close> leaves it.\<close>

definition zero_pcb :: tcp_pcb where
  "zero_pcb =
    \<lparr> local_ip = 0, remote_ip = 0, so_options = 0, tos = 0, ttl = 0, state = CLOSED, prio = 0,
      callback_arg = 0, local_port = 0, remote_port = 0, flags = 0, rcv_nxt = 0, rcv_wnd = 0, tmr = 0,
      polltmr = 0, pollinterval = 0, rtime = 0, mss = 0, rttest = 0, rtseq = 0, sa = 0, sv = 0, rto = 0,
      nrtx = 0, lastack = 0, dupacks = 0, cwnd = 0, ssthresh = 0, snd_nxt = 0, snd_max = 0, snd_wnd = 0,
      snd_wl1 = 0, snd_wl2 = 0, snd_lbb = 0, acked = 0, snd_buf = 0, snd_queuelen = 0, unsent = [],
      unacked = [], ooseq = [], sent_cb = None, recv_cb = None, connected_cb = None, accept_cb = None,
      poll_cb = None, errf_cb = None, keepalive = 0, keep_cnt = 0 \<rparr>"

record tcp_pcb_listen =
  l_local_ip :: u32
  l_so_options :: u16
  l_tos :: u8
  l_ttl :: u8
  l_state :: tcp_state
  l_prio :: u8
  l_callback_arg :: nat
  l_local_port :: u16
  l_accept :: "fptr option"

section \<open>The machine\<close>

record tcp_env =
  mem_ok :: "nat \<Rightarrow> bool"
  pcb_malloc :: "nat \<Rightarrow> (addr \<Rightarrow> bool) \<Rightarrow> addr option"
  route :: "u32 \<Rightarrow> u32 option"
  junk :: u16

text \<open>A datagram handed to \<open>ip_output\<close>.\<close>

record ip_dgram =
  d_src :: u32
  d_dest :: u32
  d_ttl :: u8
  d_tos :: u8
  d_hdr :: tcp_hdr
  d_data :: "u8 list"

text \<open>The globals the per-connection code uses: the clock, the control block being given input, the
  number of allocations made so far, and the datagrams handed to IP so far.\<close>

record net =
  tcp_ticks :: u32
  tcp_input_pcb :: "addr option"
  allocs :: nat
  wire :: "ip_dgram list"

definition mem_alloc :: "tcp_env \<Rightarrow> 'a net_scheme \<Rightarrow> bool \<times> 'a net_scheme" where
  "mem_alloc env n = (mem_ok env (allocs n), n \<lparr> allocs := Suc (allocs n) \<rparr>)"

definition ip_output :: "ip_dgram \<Rightarrow> 'a net_scheme \<Rightarrow> 'a net_scheme" where
  "ip_output d n = n \<lparr> wire := wire n @ [d] \<rparr>"

abbreviation (input) ip_addr_isany :: "u32 \<Rightarrow> bool" where
  "ip_addr_isany a \<equiv> a = 0"

text \<open>The checksum of a segment: the chain is header and data.\<close>

definition tcp_chksum :: "u32 \<Rightarrow> u32 \<Rightarrow> tcp_hdr \<Rightarrow> u8 list \<Rightarrow> u16" where
  "tcp_chksum src dest h d =
    inet_chksum_pseudo [tcp_hdr_bytes h, d] src dest IP_PROTO_TCP (of_nat (TCP_HLEN + length d))"

definition with_chksum :: "u32 \<Rightarrow> u32 \<Rightarrow> tcp_hdr \<Rightarrow> u8 list \<Rightarrow> tcp_hdr" where
  "with_chksum src dest h d =
    (let h0 = h \<lparr> h_chksum := 0 \<rparr> in h0 \<lparr> h_chksum := tcp_chksum src dest h0 d \<rparr>)"

end
