(* ===== verification/Tcp_Out.thy ===== *)
theory Tcp_Out
  imports Tcp_Base
begin

text \<open>
  The output side of TCP (\<open>src/nsc-0.5.3/lwip-HEAD/src/core/tcp_out.c\<close>): queueing data and
  options as segments, sending what the windows allow, retransmission, resets and keep-alive
  probes.  Every operation works on the control block of one connection and on the globals of
  record \<open>net\<close>; sending appends a datagram to \<open>wire\<close>.  Releasing memory has no effect on the
  model, since whether an allocation succeeds is left open.
\<close>

section \<open>Queueing\<close>

text \<open>\<open>tcp_seg_copy\<close> of \<open>tcp.c\<close>: a copy of a segment that shares its pbufs.\<close>

definition tcp_seg_copy :: "tcp_env \<Rightarrow> tcp_seg \<Rightarrow> 'a net_scheme \<Rightarrow> tcp_seg option \<times> 'a net_scheme" where
  "tcp_seg_copy env seg n = (let (ok, n) = mem_alloc env n in (if ok then Some seg else None, n))"

text \<open>The pbufs of one new segment: its bytes and the number of pbufs, or \<open>None\<close> when memory is
  exhausted.  Options are copied into one pbuf, copied data into one, and data that is referenced
  needs a second pbuf for the headers.\<close>

definition enq_pbuf ::
  "tcp_env \<Rightarrow> u8 list option \<Rightarrow> bool \<Rightarrow> u8 list \<Rightarrow> 'a net_scheme \<Rightarrow> (u8 list \<times> nat) option \<times> 'a net_scheme" where
  "enq_pbuf env optdata cp bytes n =
    (case optdata of
       Some opts \<Rightarrow> (let (ok, n) = mem_alloc env n in (if ok then Some (opts, 1) else None, n))
     | None \<Rightarrow>
         if cp then (let (ok, n) = mem_alloc env n in (if ok then Some (bytes, 1) else None, n))
         else
           (let (ok, n) = mem_alloc env n
            in if \<not> ok then (None, n)
               else (let (ok, n) = mem_alloc env n in (if ok then Some (bytes, 2) else None, n))))"

lemma enq_pbuf_pos: "enq_pbuf env optdata cp bytes n = (Some (d, k), n') \<Longrightarrow> 0 < k"
  by (auto simp: enq_pbuf_def mem_alloc_def Let_def split: option.splits if_splits)

definition enq_hdr :: "tcp_env \<Rightarrow> tcp_pcb \<Rightarrow> u32 \<Rightarrow> u8 \<Rightarrow> u8 list option \<Rightarrow> tcp_hdr" where
  "enq_hdr env pcb seqno fl optdata =
    TCPH_HDRLEN_SET
      (TCPH_FLAGS_SET
        \<lparr> h_src = local_port pcb, h_dest = remote_port pcb, h_seqno = seqno, h_ackno = 0,
          h_word = junk env, h_wnd = 0, h_chksum = 0, h_urgp = 0 \<rparr> fl)
      (case optdata of None \<Rightarrow> 5 | Some opts \<Rightarrow> 5 + length opts div 4)"

text \<open>The loop that breaks the data up.  The queue length is a byte in the source; it starts below
  \<open>TCP_SND_QUEUELEN\<close> and the loop is left above it, so it never wraps.\<close>

function enq_loop ::
  "tcp_env \<Rightarrow> tcp_pcb \<Rightarrow> u8 \<Rightarrow> bool \<Rightarrow> u8 list option \<Rightarrow> u8 list \<Rightarrow> nat \<Rightarrow> u32 \<Rightarrow> nat \<Rightarrow> tcp_seg list \<Rightarrow>
    'a net_scheme \<Rightarrow> (tcp_seg list \<times> nat) option \<times> 'a net_scheme" where
  "enq_loop env pcb fl cp optdata ptr left seqno queuelen queue n =
    (if queue \<noteq> [] \<and> left = 0 then (Some (queue, queuelen), n)
     else
       (let seglen = (if left > unat (mss pcb) then unat (mss pcb) else left);
            (ok, n) = mem_alloc env n
        in if \<not> ok then (None, n)
           else
             (case enq_pbuf env optdata cp (take seglen ptr) n of
                (None, n) \<Rightarrow> (None, n)
              | (Some (bytes, k), n) \<Rightarrow>
                  if queuelen + k > TCP_SND_QUEUELEN then (None, n)
                  else
                    enq_loop env pcb fl cp optdata (drop seglen ptr) (left - seglen)
                      (seqno + of_nat seglen) (queuelen + k)
                      (queue @ [\<lparr> s_data = bytes, s_clen = k, s_len = of_nat seglen,
                                  s_tcphdr = enq_hdr env pcb seqno fl optdata \<rparr>]) n)))"
  by pat_completeness auto
termination
  by (relation "measure (\<lambda>(_, _, _, _, _, _, _, _, queuelen, _, _). TCP_SND_QUEUELEN - queuelen)")
    (auto dest!: sym [where s = "(Some _, _)"] enq_pbuf_pos)

declare enq_loop.simps [simp del]

text \<open>Appending the new segments to the unsent queue: the first of them is merged into the last
  unsent segment when both carry plain data and fit into one segment.  The second component says
  whether the last new segment was consumed by the merge.\<close>

definition enq_mergeable :: "tcp_pcb \<Rightarrow> u8 \<Rightarrow> tcp_seg \<Rightarrow> tcp_seg \<Rightarrow> bool" where
  "enq_mergeable pcb fl useg q \<longleftrightarrow>
    TCP_TCPLEN useg \<noteq> 0 \<and>
    TCPH_FLAGS (s_tcphdr useg) AND (TCP_SYN OR TCP_FIN) = 0 \<and>
    fl AND (TCP_SYN OR TCP_FIN) = 0 \<and>
    unat (s_len useg) + unat (s_len q) \<le> unat (mss pcb)"

definition enq_append :: "tcp_pcb \<Rightarrow> u8 \<Rightarrow> tcp_seg list \<Rightarrow> tcp_seg list \<times> bool" where
  "enq_append pcb fl queue =
    (if unsent pcb \<noteq> [] \<and> enq_mergeable pcb fl (last (unsent pcb)) (hd queue)
     then
       (let useg = last (unsent pcb); q = hd queue
        in (butlast (unsent pcb) @
              [useg \<lparr> s_data := s_data useg @ s_data q, s_clen := s_clen useg + s_clen q,
                      s_len := s_len useg + s_len q \<rparr>] @ tl queue,
            tl queue = []))
     else (unsent pcb @ queue, False))"

definition set_psh :: "tcp_seg \<Rightarrow> tcp_seg" where
  "set_psh seg = seg \<lparr> s_tcphdr := TCPH_SET_FLAG (s_tcphdr seg) TCP_PSH \<rparr>"

definition tcp_enqueue ::
  "tcp_env \<Rightarrow> tcp_pcb \<Rightarrow> u8 list \<Rightarrow> u16 \<Rightarrow> u8 \<Rightarrow> bool \<Rightarrow> u8 list option \<Rightarrow> 'a net_scheme \<Rightarrow>
    err_t \<times> tcp_pcb \<times> 'a net_scheme" where
  "tcp_enqueue env pcb arg len fl cp optdata n =
    (if len > snd_buf pcb then (ERR_MEM, pcb, n)
     else if unat (snd_queuelen pcb) \<ge> TCP_SND_QUEUELEN then (ERR_MEM, pcb, n)
     else
       (case enq_loop env pcb fl cp optdata arg (unat len) (snd_lbb pcb) (unat (snd_queuelen pcb)) [] n of
          (None, n) \<Rightarrow> (ERR_MEM, pcb, n)
        | (Some (queue, queuelen), n) \<Rightarrow>
            (let (us, merged) = enq_append pcb fl queue;
                 seglen = s_len (last queue);
                 len = (if fl AND TCP_SYN \<noteq> 0 \<or> fl AND TCP_FIN \<noteq> 0 then len + 1 else len);
                 us = (if \<not> merged \<and> seglen > 0 then butlast us @ [set_psh (last us)] else us)
             in (ERR_OK,
                 pcb \<lparr> unsent := us,
                       snd_lbb := snd_lbb pcb + ucast len,
                       snd_buf := snd_buf pcb - ((len + 1) AND NOT 1),
                       snd_queuelen := of_nat queuelen \<rparr>, n))))"

definition tcp_send_ctrl ::
  "tcp_env \<Rightarrow> tcp_pcb \<Rightarrow> u8 \<Rightarrow> 'a net_scheme \<Rightarrow> err_t \<times> tcp_pcb \<times> 'a net_scheme" where
  "tcp_send_ctrl env pcb fl n = tcp_enqueue env pcb [] 0 fl True None n"

definition tcp_write ::
  "tcp_env \<Rightarrow> tcp_pcb \<Rightarrow> u8 list \<Rightarrow> u16 \<Rightarrow> bool \<Rightarrow> 'a net_scheme \<Rightarrow> err_t \<times> tcp_pcb \<times> 'a net_scheme" where
  "tcp_write env pcb arg len cp n =
    (if state pcb = ESTABLISHED \<or> state pcb = CLOSE_WAIT \<or> state pcb = SYN_SENT \<or> state pcb = SYN_RCVD
     then (if len > 0 then tcp_enqueue env pcb arg len 0 cp None n else (ERR_OK, pcb, n))
     else (ERR_CONN, pcb, n))"

section \<open>Sending\<close>

text \<open>\<open>tcp_output_segment\<close>: fills in acknowledgement and window, and gives the segment to IP
  unless there is no route to take the local address from.\<close>

definition tcp_output_segment ::
  "tcp_env \<Rightarrow> tcp_seg \<Rightarrow> tcp_pcb \<Rightarrow> 'a net_scheme \<Rightarrow> tcp_seg \<times> tcp_pcb \<times> 'a net_scheme" where
  "tcp_output_segment env seg pcb n =
    (let h = (s_tcphdr seg) \<lparr> h_ackno := rcv_nxt pcb,
                              h_wnd := (if rcv_wnd pcb < mss pcb then 0 else rcv_wnd pcb) \<rparr>;
         seg = seg \<lparr> s_tcphdr := h \<rparr>
     in case (if ip_addr_isany (local_ip pcb) then route env (remote_ip pcb) else Some (local_ip pcb)) of
          None \<Rightarrow> (seg, pcb, n)
        | Some lip \<Rightarrow>
            (let pcb = pcb \<lparr> local_ip := lip, rtime := 0 \<rparr>;
                 pcb = (if rttest pcb = 0 then pcb \<lparr> rttest := tcp_ticks n, rtseq := h_seqno h \<rparr> else pcb);
                 h = with_chksum lip (remote_ip pcb) h (s_data seg)
             in (seg \<lparr> s_tcphdr := h \<rparr>, pcb,
                 ip_output \<lparr> d_src = lip, d_dest = remote_ip pcb, d_ttl = ttl pcb, d_tos = tos pcb,
                             d_hdr = h, d_data = s_data seg \<rparr> n)))"

text \<open>One iteration of the send loop for the first unsent segment, and where it goes afterwards.\<close>

definition unack_insert :: "tcp_seg \<Rightarrow> tcp_seg list \<Rightarrow> tcp_seg list" where
  "unack_insert seg us =
    (if us = [] then [seg]
     else if TCP_SEQ_LT (seg_seqno seg) (seg_seqno (last us)) then seg # us
     else us @ [seg])"

definition out_one :: "tcp_env \<Rightarrow> tcp_seg \<Rightarrow> tcp_seg list \<Rightarrow> tcp_pcb \<Rightarrow> 'a net_scheme \<Rightarrow> tcp_pcb \<times> 'a net_scheme" where
  "out_one env seg rest pcb n =
    (let pcb = pcb \<lparr> unsent := rest \<rparr>;
         (seg, pcb) =
           (if state pcb \<noteq> SYN_SENT
            then (seg \<lparr> s_tcphdr := TCPH_SET_FLAG (s_tcphdr seg) TCP_ACK \<rparr>,
                  pcb \<lparr> flags := flags pcb AND NOT (TF_ACK_DELAY OR TF_ACK_NOW) \<rparr>)
            else (seg, pcb));
         (seg, pcb, n) = tcp_output_segment env seg pcb n;
         pcb = pcb \<lparr> snd_nxt := seg_seqno seg + TCP_TCPLEN seg \<rparr>;
         pcb = (if TCP_SEQ_LT (snd_max pcb) (snd_nxt pcb) then pcb \<lparr> snd_max := snd_nxt pcb \<rparr> else pcb);
         pcb = (if TCP_TCPLEN seg > 0 then pcb \<lparr> unacked := unack_insert seg (unacked pcb) \<rparr> else pcb)
     in (pcb, n))"

fun out_loop :: "tcp_env \<Rightarrow> u32 \<Rightarrow> tcp_seg list \<Rightarrow> tcp_pcb \<Rightarrow> 'a net_scheme \<Rightarrow> tcp_pcb \<times> 'a net_scheme" where
  "out_loop env wnd [] pcb n = (pcb, n)"
| "out_loop env wnd (seg # rest) pcb n =
    (if seg_seqno seg - lastack pcb + ucast (s_len seg) \<le> wnd
     then (let (pcb, n) = out_one env seg rest pcb n in out_loop env wnd rest pcb n)
     else (pcb, n))"

definition send_wnd :: "tcp_pcb \<Rightarrow> u32" where
  "send_wnd pcb = min (snd_wnd pcb) (ucast (cwnd pcb))"

text \<open>The header of a segment without data, sent from one freshly allocated pbuf.\<close>

definition bare_hdr :: "tcp_env \<Rightarrow> u16 \<Rightarrow> u16 \<Rightarrow> u32 \<Rightarrow> u32 \<Rightarrow> u16 \<Rightarrow> tcp_hdr" where
  "bare_hdr env src dest seqno ackno wnd =
    \<lparr> h_src = src, h_dest = dest, h_seqno = seqno, h_ackno = ackno, h_word = junk env,
      h_wnd = wnd, h_chksum = 0, h_urgp = 0 \<rparr>"

definition empty_ack :: "tcp_env \<Rightarrow> tcp_pcb \<Rightarrow> ip_dgram" where
  "empty_ack env pcb =
    (let h = TCPH_HDRLEN_SET
               (TCPH_FLAGS_SET
                 (bare_hdr env (local_port pcb) (remote_port pcb) (snd_nxt pcb) (rcv_nxt pcb) (rcv_wnd pcb))
                 TCP_ACK) 5
     in \<lparr> d_src = local_ip pcb, d_dest = remote_ip pcb, d_ttl = ttl pcb, d_tos = tos pcb,
          d_hdr = with_chksum (local_ip pcb) (remote_ip pcb) h [], d_data = [] \<rparr>)"

definition tcp_output :: "tcp_env \<Rightarrow> addr \<Rightarrow> tcp_pcb \<Rightarrow> 'a net_scheme \<Rightarrow> err_t \<times> tcp_pcb \<times> 'a net_scheme" where
  "tcp_output env a pcb n =
    (if tcp_input_pcb n = Some a then (ERR_OK, pcb, n)
     else
       (let wnd = send_wnd pcb
        in if flags pcb AND TF_ACK_NOW \<noteq> 0 \<and>
              (case unsent pcb of
                 [] \<Rightarrow> True
               | seg # _ \<Rightarrow> seg_seqno seg - lastack pcb + ucast (s_len seg) > wnd)
           then
             (let (ok, n) = mem_alloc env n
              in if \<not> ok then (ERR_BUF, pcb, n)
                 else (ERR_OK, pcb \<lparr> flags := flags pcb AND NOT (TF_ACK_DELAY OR TF_ACK_NOW) \<rparr>,
                       ip_output (empty_ack env pcb) n))
           else (let (pcb, n) = out_loop env wnd (unsent pcb) pcb n in (ERR_OK, pcb, n))))"

section \<open>Acknowledging, resetting, retransmitting, probing\<close>

definition tcp_ack_now :: "tcp_env \<Rightarrow> addr \<Rightarrow> tcp_pcb \<Rightarrow> 'a net_scheme \<Rightarrow> tcp_pcb \<times> 'a net_scheme" where
  "tcp_ack_now env a pcb n = snd (tcp_output env a (pcb \<lparr> flags := flags pcb OR TF_ACK_NOW \<rparr>) n)"

definition tcp_ack :: "tcp_env \<Rightarrow> addr \<Rightarrow> tcp_pcb \<Rightarrow> 'a net_scheme \<Rightarrow> tcp_pcb \<times> 'a net_scheme" where
  "tcp_ack env a pcb n =
    (if flags pcb AND TF_ACK_DELAY \<noteq> 0
     then snd (tcp_output env a (pcb \<lparr> flags := (flags pcb AND NOT TF_ACK_DELAY) OR TF_ACK_NOW \<rparr>) n)
     else (pcb \<lparr> flags := flags pcb OR TF_ACK_DELAY \<rparr>, n))"

definition tcp_rst ::
  "tcp_env \<Rightarrow> u32 \<Rightarrow> u32 \<Rightarrow> u32 \<Rightarrow> u32 \<Rightarrow> u16 \<Rightarrow> u16 \<Rightarrow> 'a net_scheme \<Rightarrow> 'a net_scheme" where
  "tcp_rst env seqno ackno lip rip lport rport n =
    (let (ok, n) = mem_alloc env n
     in if \<not> ok then n
        else
          (let h = TCPH_HDRLEN_SET
                     (TCPH_FLAGS_SET (bare_hdr env lport rport seqno ackno TCP_WND) (TCP_RST OR TCP_ACK)) 5
           in ip_output \<lparr> d_src = lip, d_dest = rip, d_ttl = TCP_TTL, d_tos = 0,
                          d_hdr = with_chksum lip rip h [], d_data = [] \<rparr> n))"

definition tcp_rexmit_rto :: "tcp_env \<Rightarrow> addr \<Rightarrow> tcp_pcb \<Rightarrow> 'a net_scheme \<Rightarrow> tcp_pcb \<times> 'a net_scheme" where
  "tcp_rexmit_rto env a pcb n =
    (case unacked pcb of
       [] \<Rightarrow> (pcb, n)
     | seg # _ \<Rightarrow>
         snd (tcp_output env a
           (pcb \<lparr> unsent := unacked pcb @ unsent pcb, unacked := [], snd_nxt := seg_seqno seg,
                  nrtx := nrtx pcb + 1, rttest := 0 \<rparr>) n))"

definition tcp_rexmit :: "tcp_env \<Rightarrow> addr \<Rightarrow> tcp_pcb \<Rightarrow> 'a net_scheme \<Rightarrow> tcp_pcb \<times> 'a net_scheme" where
  "tcp_rexmit env a pcb n =
    (case unacked pcb of
       [] \<Rightarrow> (pcb, n)
     | seg # rest \<Rightarrow>
         snd (tcp_output env a
           (pcb \<lparr> unsent := seg # unsent pcb, unacked := rest, snd_nxt := seg_seqno seg,
                  nrtx := nrtx pcb + 1, rttest := 0 \<rparr>) n))"

text \<open>\<open>tcp_keepalive\<close> sets the header length but not the flags of its probe.\<close>

definition tcp_keepalive :: "tcp_env \<Rightarrow> tcp_pcb \<Rightarrow> 'a net_scheme \<Rightarrow> 'a net_scheme" where
  "tcp_keepalive env pcb n =
    (let (ok, n) = mem_alloc env n
     in if \<not> ok then n
        else
          (let h = TCPH_HDRLEN_SET
                     (bare_hdr env (local_port pcb) (remote_port pcb) (snd_nxt pcb - 1) (rcv_nxt pcb) (rcv_wnd pcb)) 5
           in ip_output \<lparr> d_src = local_ip pcb, d_dest = remote_ip pcb, d_ttl = ttl pcb, d_tos = 0,
                          d_hdr = with_chksum (local_ip pcb) (remote_ip pcb) h [], d_data = [] \<rparr> n))"

end
