(* ===== verification/Tcp_Seq.thy ===== *)
theory Tcp_Seq
  imports Tcp_Base
begin

text \<open>
  Facts about the data of TCP: what the sequence number comparisons decide, what the flag macros
  do to a header, and that a header carrying the computed checksum verifies.
\<close>

section \<open>Sequence number comparison\<close>

text \<open>The position of a sequence number in the window that starts at \<open>b\<close>.\<close>

definition off :: "u32 \<Rightarrow> u32 \<Rightarrow> nat" where
  "off b x = unat (x - b)"

lemma off_self [simp]: "off b b = 0"
  by (simp add: off_def)

lemma off_less: "off b x < 2 ^ 32"
  unfolding off_def using unat_less_pow [of "x - b"] by simp

lemma off_inj: "off b x = off b y \<longleftrightarrow> x = y"
  by (simp add: off_def word_unat_eq_iff [symmetric])

lemma off_0 [simp]: "off b x = 0 \<longleftrightarrow> x = b"
  using off_inj [of b x b] by simp

lemma off_add: "off b x + unat d < 2 ^ 32 \<Longrightarrow> off b (x + d) = off b x + unat d"
proof -
  assume "off b x + unat d < 2 ^ 32"
  then have "unat (x - b) + unat d < 2 ^ LENGTH(32)" by (simp add: off_def)
  moreover have "x + d - b = (x - b) + d" by simp
  ultimately show ?thesis unfolding off_def by (simp only: unat_add_exact)
qed

lemma off_plus [simp]: "off b (b + d) = unat d"
  by (simp add: off_def)

lemma off_add_nat: "off b x + k < 2 ^ 32 \<Longrightarrow> off b (x + of_nat k) = off b x + k"
  using off_add [of b x "of_nat k"] by (simp add: unat_of_nat take_bit_nat_eq_self)

text \<open>Seen from a number in the window, the distances add up.\<close>

lemma off_shift: "off b x \<le> off b y \<Longrightarrow> off x y = off b y - off b x"
proof -
  assume "off b x \<le> off b y"
  moreover have "y - x = (y - b) - (x - b)" by simp
  ultimately show ?thesis
    unfolding off_def by (simp only: unat_sub word_le_nat_alt)
qed

lemma sint_sub_neg:
  fixes u v :: u32
  assumes "unat u < 2 ^ 31" and "unat v < 2 ^ 31"
  shows "sint (u - v) < 0 \<longleftrightarrow> unat u < unat v" and "sint (u - v) = 0 \<longleftrightarrow> unat u = unat v"
proof -
  have n: "uint u = int (unat u)" "uint v = int (unat v)" by simp_all
  have "uint u < 2 ^ 31" "uint v < 2 ^ 31"
    using assms [THEN of_nat_less_iff [THEN iffD2, where 'a1 = int]] by simp_all
  then have s: "sint u = uint u" "sint v = uint v"
    using sint_twos [of u] sint_twos [of v] by (simp_all add: twos_def)
  have "sint (u - v) = uint u - uint v"
  proof -
    have "- (2 ^ 31) \<le> uint u - uint v" "uint u - uint v < 2 ^ 31"
      using \<open>uint u < 2 ^ 31\<close> \<open>uint v < 2 ^ 31\<close> uint_ge_0 [of u] uint_ge_0 [of v] by linarith+
    then show ?thesis
      unfolding sint_word_ariths(2) s by (simp only: signed_take_bit_int_eq_self len_of_numeral_defs, simp add: signed_take_bit_int_eq_self)
  qed
  then show "sint (u - v) < 0 \<longleftrightarrow> unat u < unat v" "sint (u - v) = 0 \<longleftrightarrow> unat u = unat v"
    unfolding n by linarith+
qed

lemma seq_order:
  assumes "off b x < 2 ^ 31" and "off b y < 2 ^ 31"
  shows seq_lt: "TCP_SEQ_LT x y \<longleftrightarrow> off b x < off b y"
    and seq_leq: "TCP_SEQ_LEQ x y \<longleftrightarrow> off b x \<le> off b y"
    and seq_gt: "TCP_SEQ_GT x y \<longleftrightarrow> off b y < off b x"
    and seq_geq: "TCP_SEQ_GEQ x y \<longleftrightarrow> off b y \<le> off b x"
proof -
  have d: "x - y = (x - b) - (y - b)" by simp
  note c = sint_sub_neg [OF assms [unfolded off_def]]
  show "TCP_SEQ_LT x y \<longleftrightarrow> off b x < off b y"
    unfolding TCP_SEQ_LT_def off_def d by (rule c)
  show "TCP_SEQ_LEQ x y \<longleftrightarrow> off b x \<le> off b y"
    unfolding TCP_SEQ_LEQ_def off_def d using c by linarith
  show "TCP_SEQ_GT x y \<longleftrightarrow> off b y < off b x"
    unfolding TCP_SEQ_GT_def off_def d using c by linarith
  show "TCP_SEQ_GEQ x y \<longleftrightarrow> off b y \<le> off b x"
    unfolding TCP_SEQ_GEQ_def off_def d using c by linarith
qed

lemma not_seq_geq:
  assumes "2 ^ 31 \<le> off b a"
  shows "\<not> TCP_SEQ_GEQ a b"
proof -
  have "(2 :: int) ^ 31 \<le> uint (a - b)"
    using assms [unfolded off_def] by (drule_tac of_nat_le_iff [THEN iffD2, where 'a1 = int]) simp
  then show ?thesis using sint_neg_iff [of "a - b"] by (simp add: TCP_SEQ_GEQ_def)
qed

lemma seq_between:
  assumes "off b c < 2 ^ 31"
  shows "TCP_SEQ_BETWEEN a b c \<longleftrightarrow> off b a \<le> off b c"
proof (cases "off b a < 2 ^ 31")
  case True
  then show ?thesis
    using assms seq_geq [of b a b] seq_leq [of b a c] unfolding TCP_SEQ_BETWEEN_def by simp
next
  case False
  then have "2 ^ 31 \<le> off b a" by (simp only: not_less)
  then show ?thesis using not_seq_geq [of b a] False assms unfolding TCP_SEQ_BETWEEN_def by linarith
qed

lemma off_rev:
  assumes "2 ^ 31 < off b a"
  shows "off a b < 2 ^ 31"
proof -
  have e: "b - a = 0 - (a - b)" by simp
  have "off a b = 2 ^ 32 - off b a"
    using assms unfolding off_def e unat_sub_if_size by (simp add: word_size)
  then show ?thesis using assms by simp
qed

text \<open>The test whether a sequence number lies between two others, by signed differences, is
  right for every window shorter than half of the number space, whatever the number tested: it
  holds exactly when the number is no further from the lower end than the upper end is.\<close>

theorem tcp_seq_between:
  assumes "unat (c - b) < 2 ^ 31"
  shows "TCP_SEQ_BETWEEN a b c \<longleftrightarrow> unat (a - b) \<le> unat (c - b)"
  using seq_between [unfolded off_def, OF assms] .

theorem tcp_seq_between_witness:
  "TCP_SEQ_BETWEEN 5 0xfffffff0 0x10 \<longleftrightarrow> unat (5 - (0xfffffff0 :: u32)) \<le> unat (0x10 - (0xfffffff0 :: u32))"
  using tcp_seq_between [of "0x10" "0xfffffff0" 5] by simp

section \<open>Header flags\<close>

lemma TCP_FLAGS_mask: "TCP_FLAGS = mask 6"
  by (simp add: TCP_FLAGS_def mask_eq_exp_minus_1)

lemma bit_TCPH_FLAGS: "bit (TCPH_FLAGS h) k \<longleftrightarrow> k < 6 \<and> bit (h_word h) k"
  by (auto simp: TCPH_FLAGS_def TCP_FLAGS_mask bit_simps)

lemma TCPH_FLAGS_simps [simp]:
  "TCPH_FLAGS (TCPH_HDRLEN_SET h n) = TCPH_FLAGS h"
  "TCPH_FLAGS (TCPH_FLAGS_SET h fl) = take_bit 6 fl"
  "TCPH_FLAGS (TCPH_SET_FLAG h fl) = TCPH_FLAGS h OR take_bit 6 fl"
  by (rule bit_word_eqI;
      auto simp: bit_TCPH_FLAGS TCPH_HDRLEN_SET_def TCPH_FLAGS_SET_def TCPH_SET_FLAG_def TCP_FLAGS_mask bit_simps)+

lemma TCPH_FLAGS_upd [simp]:
  "TCPH_FLAGS (h \<lparr> h_ackno := x \<rparr>) = TCPH_FLAGS h" "TCPH_FLAGS (h \<lparr> h_wnd := w \<rparr>) = TCPH_FLAGS h"
  "TCPH_FLAGS (h \<lparr> h_chksum := w \<rparr>) = TCPH_FLAGS h" "TCPH_FLAGS (h \<lparr> h_seqno := x \<rparr>) = TCPH_FLAGS h"
  by (simp_all add: TCPH_FLAGS_def)

lemma TCPH_seqno [simp]:
  "h_seqno (TCPH_HDRLEN_SET h n) = h_seqno h" "h_seqno (TCPH_FLAGS_SET h fl) = h_seqno h"
  "h_seqno (TCPH_SET_FLAG h fl) = h_seqno h" "h_seqno (with_chksum src dest h d) = h_seqno h"
  by (simp_all add: TCPH_HDRLEN_SET_def TCPH_FLAGS_SET_def TCPH_SET_FLAG_def with_chksum_def)

lemma TCPH_FLAGS_chksum [simp]: "TCPH_FLAGS (with_chksum src dest h d) = TCPH_FLAGS h"
  by (simp add: with_chksum_def Let_def)

text \<open>Whether a segment occupies a sequence number of its own.\<close>

definition syn_fin :: "tcp_seg \<Rightarrow> bool" where
  "syn_fin seg \<longleftrightarrow> TCPH_FLAGS (s_tcphdr seg) AND (TCP_SYN OR TCP_FIN) \<noteq> 0"

lemma and_or_zero: "x AND (a OR b) = (0 :: 'a::len word) \<longleftrightarrow> x AND a = 0 \<and> x AND b = 0"
  by (auto simp: bit_eq_iff bit_simps)

lemma TCP_TCPLEN_alt: "TCP_TCPLEN seg = ucast (s_len seg) + (if syn_fin seg then 1 else 0)"
  by (auto simp: TCP_TCPLEN_def syn_fin_def and_or_zero)

lemma unat_TCP_TCPLEN: "unat (TCP_TCPLEN seg) = unat (s_len seg) + (if syn_fin seg then 1 else 0)"
proof -
  have "unat (ucast (s_len seg) :: u32) < 65536"
    using unat_less_pow [of "s_len seg"] by (simp add: unat_ucast_up)
  then show ?thesis by (simp add: TCP_TCPLEN_alt unat_add_exact unat_ucast_up)
qed

section \<open>Checksums\<close>

lemma word_sum_hdr:
  "word_sum (tcp_hdr_bytes (h \<lparr> h_chksum := c \<rparr>) @ d) = word_sum (tcp_hdr_bytes (h \<lparr> h_chksum := 0 \<rparr>) @ d) + unat c"
  using word_sum_le16 [of c] by (simp add: tcp_hdr_bytes_def be16_def be32_def le16_def)

lemma tcp_hdr_bytes_length [simp]: "length (tcp_hdr_bytes h) = 20"
  by (simp add: tcp_hdr_bytes_def be16_def be32_def le16_def)

text \<open>A header with its checksum filled in passes the check of the receiving side, which sums the
  header and the data in one piece.\<close>

lemma with_chksum_verifies:
  assumes "length d \<le> 65515"
  shows "inet_chksum_pseudo [tcp_hdr_bytes (with_chksum src dest h d) @ d] src dest IP_PROTO_TCP
    (of_nat (TCP_HLEN + length d)) = 0"
proof -
  let ?l = "of_nat (TCP_HLEN + length d) :: u16"
  define ph where "ph = pseudo_header src dest IP_PROTO_TCP ?l"
  define h0 where "h0 = h \<lparr> h_chksum := 0 \<rparr>"
  define c where "c = tcp_chksum src dest h0 d"
  have "unat c = 65535 - oc16 (word_sum (ph @ tcp_hdr_bytes h0 @ d))"
    unfolding c_def tcp_chksum_def using assms
    by (subst unat_inet_chksum_pseudo) (simp_all add: ph_def)
  moreover have "word_sum (ph @ tcp_hdr_bytes (h \<lparr> h_chksum := c \<rparr>) @ d) =
      word_sum (ph @ tcp_hdr_bytes h0 @ d) + unat c"
    using word_sum_hdr [of c h d] by (simp add: ph_def h0_def word_sum_append_even even_pseudo_header)
  ultimately have "oc16 (word_sum (ph @ tcp_hdr_bytes (h \<lparr> h_chksum := c \<rparr>) @ d)) = 65535"
    by (simp only: oc16_complement)
  moreover have "unat (inet_chksum_pseudo [tcp_hdr_bytes (h \<lparr> h_chksum := c \<rparr>) @ d] src dest IP_PROTO_TCP ?l) =
      65535 - oc16 (word_sum (ph @ tcp_hdr_bytes (h \<lparr> h_chksum := c \<rparr>) @ d))"
    using assms by (subst unat_inet_chksum_pseudo) (simp_all add: ph_def)
  ultimately have "inet_chksum_pseudo [tcp_hdr_bytes (h \<lparr> h_chksum := c \<rparr>) @ d] src dest IP_PROTO_TCP ?l = 0"
    by (simp only: diff_self_eq_0 unat_eq_0)
  then show ?thesis by (simp add: with_chksum_def Let_def c_def h0_def)
qed

end
