(* ===== verification/Tcp_Send.thy ===== *)
theory Tcp_Send
  imports Tcp_Out Tcp_Seq
begin

text \<open>
  The send queue of a connection.  The segments on \<open>unacked\<close> followed by those on \<open>unsent\<close>
  are a contiguous piece of the sequence space that ends at \<open>snd_lbb\<close>; writing appends to it,
  sending and retransmitting move segments between the two queues and keep their order, sequence
  numbers and contents.  Every datagram sent carries a valid checksum.
\<close>

section \<open>Contiguous queues\<close>

fun contig :: "u32 \<Rightarrow> tcp_seg list \<Rightarrow> u32 \<Rightarrow> bool" where
  "contig sq [] e \<longleftrightarrow> sq = e"
| "contig sq (x # xs) e \<longleftrightarrow> seg_seqno x = sq \<and> contig (sq + TCP_TCPLEN x) xs e"

definition seq_len :: "tcp_seg list \<Rightarrow> nat" where
  "seq_len xs = sum_list (map (\<lambda>x. unat (TCP_TCPLEN x)) xs)"

lemma seq_len_simps [simp]:
  "seq_len [] = 0" "seq_len (x # xs) = unat (TCP_TCPLEN x) + seq_len xs"
  "seq_len (xs @ ys) = seq_len xs + seq_len ys"
  by (simp_all add: seq_len_def)

lemma contig_append [simp]: "contig sq (xs @ ys) e \<longleftrightarrow> (\<exists>m. contig sq xs m \<and> contig m ys e)"
  by (induction xs arbitrary: sq) auto

lemma contig_end: "contig sq xs e \<Longrightarrow> e = sq + of_nat (seq_len xs)"
proof (induction xs arbitrary: sq)
  case (Cons x xs)
  then show ?case using Cons.IH [of "sq + TCP_TCPLEN x"] by (simp add: add.assoc)
qed simp

lemma contig_off: "contig sq xs e \<Longrightarrow> seq_len xs < 2 ^ 32 \<Longrightarrow> off sq e = seq_len xs"
  using off_add_nat [of sq sq "seq_len xs"] contig_end [of sq xs e] by simp

text \<open>What identifies a segment: sending changes nothing else of it.\<close>

definition seg_key :: "tcp_seg \<Rightarrow> u32 \<times> u16 \<times> u8 list \<times> nat \<times> bool" where
  "seg_key x = (seg_seqno x, s_len x, s_data x, s_clen x, syn_fin x)"

lemma seg_key_tcplen: "seg_key x = seg_key y \<Longrightarrow> TCP_TCPLEN x = TCP_TCPLEN y"
  by (simp add: seg_key_def TCP_TCPLEN_alt)

lemma seg_key_seqno: "seg_key x = seg_key y \<Longrightarrow> seg_seqno x = seg_seqno y"
  by (simp add: seg_key_def)

lemma contig_key: "map seg_key xs = map seg_key ys \<Longrightarrow> contig sq xs e = contig sq ys e"
proof (induction xs arbitrary: sq ys)
  case (Cons x xs)
  then obtain y zs where "ys = y # zs" "seg_key x = seg_key y" "map seg_key xs = map seg_key zs" by auto
  then show ?case using Cons.IH [of zs] by (simp add: seg_key_tcplen [of x y] seg_key_seqno [of x y])
qed simp

lemma seq_len_key: "map seg_key xs = map seg_key ys \<Longrightarrow> seq_len xs = seq_len ys"
proof (induction xs arbitrary: ys)
  case (Cons x xs)
  then obtain y zs where "ys = y # zs" "seg_key x = seg_key y" "map seg_key xs = map seg_key zs" by auto
  then show ?case using Cons.IH [of zs] by (simp add: seg_key_tcplen [of x y])
qed simp

text \<open>A segment that follows a queue does not come before the last of its segments.\<close>

lemma contig_not_before:
  assumes "contig sq (us @ x # rest) e" and "seq_len (us @ x # rest) < 2 ^ 31" and "us \<noteq> []"
  shows "\<not> TCP_SEQ_LT (seg_seqno x) (seg_seqno (last us))"
proof -
  let ?vs = "butlast us" and ?l = "last us"
  have us: "us = ?vs @ [?l]" using assms(3) by simp
  then have "contig sq (?vs @ ?l # x # rest) e" "seq_len (?vs @ ?l # x # rest) < 2 ^ 31"
    using assms(1,2) by (metis append_Cons append_Nil append_assoc)+
  then obtain m where m: "contig sq ?vs m" "seg_seqno ?l = m" "seg_seqno x = m + TCP_TCPLEN ?l"
    and s: "seq_len ?vs + unat (TCP_TCPLEN ?l) < 2 ^ 31" by auto
  have o: "off sq m = seq_len ?vs" using contig_off [OF m(1)] s by simp
  then have "off sq (seg_seqno x) = seq_len ?vs + unat (TCP_TCPLEN ?l)"
    using off_add [of sq m "TCP_TCPLEN ?l"] m s by simp
  then show ?thesis
    using seq_lt [of sq "seg_seqno x" "seg_seqno ?l"] o m(2) s by simp
qed

text \<open>A retransmitted first segment comes before the last of the others.\<close>

lemma contig_before:
  assumes "contig sq (x # us) e" and "seq_len (x # us) < 2 ^ 31" and "us \<noteq> []" and "0 < unat (TCP_TCPLEN x)"
  shows "TCP_SEQ_LT (seg_seqno x) (seg_seqno (last us))"
proof -
  let ?vs = "butlast us" and ?l = "last us"
  have us: "us = ?vs @ [?l]" using assms(3) by simp
  then have "contig sq ((x # ?vs) @ [?l]) e" "seq_len ((x # ?vs) @ [?l]) < 2 ^ 31"
    using assms(1,2) by (metis append_Cons)+
  then obtain m where m: "contig sq (x # ?vs) m" "seg_seqno ?l = m" "seg_seqno x = sq"
    and s: "seq_len (x # ?vs) < 2 ^ 31" by auto
  have "off sq m = seq_len (x # ?vs)" using contig_off [OF m(1)] s by simp
  then show ?thesis
    using seq_lt [of sq "seg_seqno x" "seg_seqno ?l"] m(2,3) s assms(4) by simp
qed

section \<open>What sending leaves alone\<close>

definition out_erase :: "tcp_pcb \<Rightarrow> tcp_pcb" where
  "out_erase p = p \<lparr> local_ip := 0, rtime := 0, rttest := 0, rtseq := 0, flags := 0,
     snd_nxt := 0, snd_max := 0, unsent := [], unacked := [] \<rparr>"

lemma out_erase_fields:
  assumes "out_erase p' = out_erase p"
  shows "state p' = state p" "lastack p' = lastack p" "snd_lbb p' = snd_lbb p" "snd_wnd p' = snd_wnd p"
    "cwnd p' = cwnd p" "rcv_nxt p' = rcv_nxt p" "rcv_wnd p' = rcv_wnd p" "ooseq p' = ooseq p"
    "snd_queuelen p' = snd_queuelen p" "remote_ip p' = remote_ip p" "mss p' = mss p"
    "local_port p' = local_port p" "errf_cb p' = errf_cb p"
  using arg_cong [OF assms, of state] arg_cong [OF assms, of lastack] arg_cong [OF assms, of snd_lbb]
    arg_cong [OF assms, of snd_wnd] arg_cong [OF assms, of cwnd] arg_cong [OF assms, of rcv_nxt]
    arg_cong [OF assms, of rcv_wnd] arg_cong [OF assms, of ooseq] arg_cong [OF assms, of snd_queuelen]
    arg_cong [OF assms, of remote_ip] arg_cong [OF assms, of mss] arg_cong [OF assms, of local_port]
    arg_cong [OF assms, of errf_cb]
  by (simp_all add: out_erase_def)

lemma output_segment_frame:
  assumes "tcp_output_segment env seg p n = (seg', p', n')"
  shows "seg_key seg' = seg_key seg" "out_erase p' = out_erase p" "unsent p' = unsent p"
    "unacked p' = unacked p"
  using assms
  by (auto simp: tcp_output_segment_def seg_key_def syn_fin_def out_erase_def Let_def
      split: option.splits if_splits)

text \<open>One round of the send loop: the segment goes onto \<open>unacked\<close>.\<close>

lemma seg_key_ack: "seg_key (seg \<lparr> s_tcphdr := TCPH_SET_FLAG (s_tcphdr seg) TCP_ACK \<rparr>) = seg_key seg"
proof -
  have "take_bit 6 TCP_ACK AND (TCP_SYN OR TCP_FIN) = 0" by (simp add: cfg_defs)
  then have "(f OR take_bit 6 TCP_ACK) AND (TCP_SYN OR TCP_FIN) = f AND (TCP_SYN OR TCP_FIN)" for f :: u8
    by (simp add: bit.conj_disj_distrib2)
  then show ?thesis by (simp add: seg_key_def syn_fin_def)
qed

lemma out_one_spec:
  assumes "out_one env seg rest p n = (p', n')" and "0 < unat (TCP_TCPLEN seg)"
  shows "\<exists>seg'. seg_key seg' = seg_key seg \<and> unacked p' = unack_insert seg' (unacked p) \<and>
    unsent p' = rest \<and> out_erase p' = out_erase p"
proof -
  define seg1 where "seg1 = (if state p \<noteq> SYN_SENT
     then seg \<lparr> s_tcphdr := TCPH_SET_FLAG (s_tcphdr seg) TCP_ACK \<rparr> else seg)"
  define p1 where "p1 = (if state p \<noteq> SYN_SENT
     then p \<lparr> unsent := rest, flags := flags p AND NOT (TF_ACK_DELAY OR TF_ACK_NOW) \<rparr>
     else p \<lparr> unsent := rest \<rparr>)"
  obtain seg2 p2 n2 where o: "tcp_output_segment env seg1 p1 n = (seg2, p2, n2)"
    by (cases "tcp_output_segment env seg1 p1 n")
  note f = output_segment_frame [OF o]
  have k: "seg_key seg2 = seg_key seg" using f(1) seg_key_ack by (simp add: seg1_def)
  then have len: "TCP_TCPLEN seg2 > 0"
    using seg_key_tcplen [OF k] assms(2) by (simp add: word_gt_0_no word_less_nat_alt)
  have p1: "out_erase p1 = out_erase p" "unsent p1 = rest" "unacked p1 = unacked p"
    by (simp_all add: p1_def out_erase_def)
  have "p' = (let q = p2 \<lparr> snd_nxt := seg_seqno seg2 + TCP_TCPLEN seg2 \<rparr>;
                  q = (if TCP_SEQ_LT (snd_max q) (snd_nxt q) then q \<lparr> snd_max := snd_nxt q \<rparr> else q)
              in q \<lparr> unacked := unack_insert seg2 (unacked q) \<rparr>)"
    using assms(1) o len unfolding out_one_def seg1_def p1_def
    by (auto simp: Let_def split: if_splits)
  then have "unacked p' = unack_insert seg2 (unacked p)" "unsent p' = rest" "out_erase p' = out_erase p2"
    using f p1 by (auto simp: Let_def out_erase_def)
  then show ?thesis using k f(2) p1(1) by (intro exI [of _ seg2]) simp
qed

lemma out_one_frame:
  assumes "out_one env seg rest p n = (p', n')"
  shows "out_erase p' = out_erase p"
proof -
  define seg1 where "seg1 = (if state p \<noteq> SYN_SENT
     then seg \<lparr> s_tcphdr := TCPH_SET_FLAG (s_tcphdr seg) TCP_ACK \<rparr> else seg)"
  define p1 where "p1 = (if state p \<noteq> SYN_SENT
     then p \<lparr> unsent := rest, flags := flags p AND NOT (TF_ACK_DELAY OR TF_ACK_NOW) \<rparr>
     else p \<lparr> unsent := rest \<rparr>)"
  obtain seg2 p2 n2 where o: "tcp_output_segment env seg1 p1 n = (seg2, p2, n2)"
    by (cases "tcp_output_segment env seg1 p1 n")
  have "out_erase p' = out_erase p2"
    using assms o unfolding out_one_def seg1_def p1_def
    by (auto simp: Let_def out_erase_def split: if_splits)
  then show ?thesis using output_segment_frame(2) [OF o] by (auto simp: p1_def out_erase_def split: if_splits)
qed

lemma out_loop_frame: "out_loop env wnd segs p n = (p', n') \<Longrightarrow> out_erase p' = out_erase p"
proof (induction segs arbitrary: p n)
  case (Cons seg rest)
  then show ?case
    by (cases "out_one env seg rest p n") (auto dest: out_one_frame split: if_splits)
qed simp

section \<open>The send loop\<close>

abbreviation in_snd_wnd :: "tcp_pcb \<Rightarrow> u32 \<Rightarrow> tcp_seg \<Rightarrow> bool" where
  "in_snd_wnd p wnd seg \<equiv> seg_seqno seg - lastack p + ucast (s_len seg) \<le> wnd"

text \<open>The segments sent are a prefix of the unsent queue; they end up behind the unacknowledged ones.\<close>

lemma out_loop_spec:
  assumes "out_loop env wnd segs p n = (p', n')" and "unsent p = segs"
    and "contig sq (unacked p @ segs) e" and "seq_len (unacked p @ segs) < 2 ^ 31"
    and "\<forall>seg\<in>set segs. 0 < unat (TCP_TCPLEN seg)"
  shows "\<exists>out. segs = out @ unsent p' \<and> map seg_key (unacked p') = map seg_key (unacked p @ out) \<and>
    (\<forall>seg\<in>set out. in_snd_wnd p wnd seg) \<and>
    (unsent p' \<noteq> [] \<longrightarrow> \<not> in_snd_wnd p wnd (hd (unsent p'))) \<and> out_erase p' = out_erase p"
  using assms
proof (induction segs arbitrary: p n)
  case (Cons seg rest)
  show ?case
  proof (cases "in_snd_wnd p wnd seg")
    case False
    then show ?thesis using Cons.prems by (intro exI [of _ "[]"]) auto
  next
    case True
    obtain p1 n1 where o: "out_one env seg rest p n = (p1, n1)" by fastforce
    from out_one_spec [OF o] Cons.prems(5) obtain seg' where
      k: "seg_key seg' = seg_key seg" "unacked p1 = unack_insert seg' (unacked p)" "unsent p1 = rest"
      and e: "out_erase p1 = out_erase p" by auto
    have "\<not> TCP_SEQ_LT (seg_seqno seg') (seg_seqno (last (unacked p)))" if "unacked p \<noteq> []"
      using contig_not_before [OF Cons.prems(3,4) that] seg_key_seqno [OF k(1)] by simp
    then have u: "unacked p1 = unacked p @ [seg']" by (auto simp: k(2) unack_insert_def)
    have "map seg_key (unacked p1 @ rest) = map seg_key (unacked p @ seg # rest)" by (simp add: u k(1))
    from contig_key [OF this] have c: "contig sq (unacked p1 @ rest) e" using Cons.prems(3) by simp
    have s: "seq_len (unacked p1 @ rest) < 2 ^ 31"
      using Cons.prems(4) seg_key_tcplen [OF k(1)] by (simp add: u)
    have l: "out_loop env wnd rest p1 n1 = (p', n')"
      using Cons.prems(1) True o by simp
    from Cons.IH [OF l k(3) c s] Cons.prems(5) obtain out where
      "rest = out @ unsent p'" "map seg_key (unacked p') = map seg_key (unacked p1 @ out)"
      "\<forall>seg\<in>set out. in_snd_wnd p1 wnd seg"
      "unsent p' \<noteq> [] \<longrightarrow> \<not> in_snd_wnd p1 wnd (hd (unsent p'))" "out_erase p' = out_erase p1"
      by auto
    then show ?thesis
      using True e k(1) out_erase_fields(2) [OF e] by (intro exI [of _ "seg # out"]) (simp add: u)
  qed
qed auto

text \<open>\<open>tcp_output\<close> sends nothing, or an empty acknowledgement, or runs the loop.\<close>

lemma tcp_output_cases:
  assumes "tcp_output env a p n = (err, p', n')"
  shows "p' = p \<or> p' = p \<lparr> flags := flags p AND NOT (TF_ACK_DELAY OR TF_ACK_NOW) \<rparr> \<or>
    (tcp_input_pcb n \<noteq> Some a \<and> err = ERR_OK \<and> out_loop env (send_wnd p) (unsent p) p n = (p', n'))"
  using assms by (auto simp: tcp_output_def mem_alloc_def Let_def split: if_splits prod.splits)

lemma tcp_output_frame: "tcp_output env a p n = (err, p', n') \<Longrightarrow> out_erase p' = out_erase p"
  using tcp_output_cases [of env a p n err p' n'] out_loop_frame by (auto simp: out_erase_def)

lemma tcp_ack_now_frame: "tcp_ack_now env a p n = (p', n') \<Longrightarrow> out_erase p' = out_erase p"
  unfolding tcp_ack_now_def
  by (cases "tcp_output env a (p \<lparr> flags := flags p OR TF_ACK_NOW \<rparr>) n")
    (auto dest!: tcp_output_frame simp: out_erase_def)

lemma tcp_ack_frame: "tcp_ack env a p n = (p', n') \<Longrightarrow> out_erase p' = out_erase p"
  unfolding tcp_ack_def
  by (cases "tcp_output env a (p \<lparr> flags := (flags p AND NOT TF_ACK_DELAY) OR TF_ACK_NOW \<rparr>) n")
    (auto dest!: tcp_output_frame simp: out_erase_def split: if_splits)

lemmas output_frames = tcp_output_frame tcp_ack_now_frame tcp_ack_frame

lemma tcp_output_spec:
  assumes "tcp_output env a p n = (err, p', n')"
    and "contig sq (unacked p @ unsent p) e" and "seq_len (unacked p @ unsent p) < 2 ^ 31"
    and "\<forall>seg\<in>set (unsent p). 0 < unat (TCP_TCPLEN seg)"
  shows "\<exists>out. unsent p = out @ unsent p' \<and> map seg_key (unacked p') = map seg_key (unacked p @ out) \<and>
    (\<forall>seg\<in>set out. in_snd_wnd p (send_wnd p) seg) \<and> out_erase p' = out_erase p"
  using tcp_output_cases [OF assms(1)]
proof (elim disjE conjE)
  assume "out_loop env (send_wnd p) (unsent p) p n = (p', n')"
  from out_loop_spec [OF this refl assms(2,3,4)] show ?thesis by blast
qed (auto simp: out_erase_def intro: exI [of _ "[]"])

text \<open>C20: Sending keeps the send queue: on a contiguous queue \<open>tcp_output\<close> moves a prefix of the
  unsent segments, each inside the usable window, behind the unacknowledged ones, so that the two
  queues together hold the same segments (sequence number, length and bytes) in the same order.\<close>

theorem tcp_output_in_order:
  assumes "tcp_output env a p n = (err, p', n')"
    and "contig sq (unacked p @ unsent p) (snd_lbb p)" and "seq_len (unacked p @ unsent p) < 2 ^ 31"
    and "\<forall>seg\<in>set (unsent p). 0 < unat (TCP_TCPLEN seg)"
  shows "map seg_key (unacked p' @ unsent p') = map seg_key (unacked p @ unsent p) \<and>
    contig sq (unacked p' @ unsent p') (snd_lbb p') \<and>
    (\<exists>out. unsent p = out @ unsent p' \<and>
       (\<forall>seg\<in>set out. seg_seqno seg - lastack p + ucast (s_len seg) \<le> min (snd_wnd p) (ucast (cwnd p))))"
proof -
  from tcp_output_spec [OF assms] obtain out where o: "unsent p = out @ unsent p'"
    "map seg_key (unacked p') = map seg_key (unacked p @ out)"
    "\<forall>seg\<in>set out. in_snd_wnd p (send_wnd p) seg" "out_erase p' = out_erase p" by blast
  then have k: "map seg_key (unacked p' @ unsent p') = map seg_key (unacked p @ unsent p)"
    by (metis append_assoc map_append)
  moreover have "contig sq (unacked p' @ unsent p') (snd_lbb p')"
    using contig_key [OF k] assms(2) out_erase_fields(3) [OF o(4)] by simp
  ultimately show ?thesis using o(1,3) by (auto simp: send_wnd_def)
qed

text \<open>A connection with two segments to send, for the examples.\<close>

definition ex_env :: tcp_env where
  "ex_env = \<lparr> mem_ok = (\<lambda>_. True), pcb_malloc = (\<lambda>k live. if live k then None else Some k),
     route = (\<lambda>_. None), junk = 0 \<rparr>"

definition ex_net :: net where
  "ex_net = \<lparr> tcp_ticks = 7, tcp_input_pcb = None, allocs = 0, wire = [] \<rparr>"

definition ex_seg :: "u32 \<Rightarrow> u8 list \<Rightarrow> tcp_seg" where
  "ex_seg sq d = \<lparr> s_data = d, s_clen = 1, s_len = of_nat (length d), s_tcphdr =
     \<lparr> h_src = 80, h_dest = 1024, h_seqno = sq, h_ackno = 0, h_word = 0x5010, h_wnd = 0,
       h_chksum = 0, h_urgp = 0 \<rparr> \<rparr>"

definition ex_pcb :: tcp_pcb where
  "ex_pcb = zero_pcb \<lparr> state := ESTABLISHED, local_ip := 1, remote_ip := 2, local_port := 80,
     remote_port := 1024, mss := TCP_MSS, lastack := 100, snd_lbb := 105, snd_nxt := 100, snd_wnd := 4,
     cwnd := 1460, ttl := TCP_TTL, snd_buf := TCP_SND_BUF, rcv_wnd := TCP_WND,
     unsent := [ex_seg 100 [1, 2, 3], ex_seg 103 [4, 5]] \<rparr>"

lemma ex_seg_simps [simp]:
  "seg_seqno (ex_seg sq d) = sq" "s_len (ex_seg sq d) = of_nat (length d)" "s_data (ex_seg sq d) = d"
  "s_clen (ex_seg sq d) = 1" "syn_fin (ex_seg sq d) = False"
  "TCP_TCPLEN (ex_seg sq d) = ucast (of_nat (length d) :: u16)"
  by (simp_all add: ex_seg_def syn_fin_def TCP_TCPLEN_alt TCPH_FLAGS_def cfg_defs)

lemma ex_pcb_simps [simp]:
  "unsent ex_pcb = [ex_seg 100 [1, 2, 3], ex_seg 103 [4, 5]]" "unacked ex_pcb = []" "snd_lbb ex_pcb = 105"
  "lastack ex_pcb = 100" "snd_wnd ex_pcb = 4" "cwnd ex_pcb = 1460" "mss ex_pcb = TCP_MSS"
  by (simp_all add: ex_pcb_def zero_pcb_def)

theorem tcp_output_in_order_witness:
  "map seg_key (unacked (fst (snd (tcp_output ex_env 0 ex_pcb ex_net))) @
      unsent (fst (snd (tcp_output ex_env 0 ex_pcb ex_net)))) = map seg_key (unacked ex_pcb @ unsent ex_pcb)"
proof -
  obtain err p' n' where o: "tcp_output ex_env 0 ex_pcb ex_net = (err, p', n')" by (rule prod_cases3)
  show ?thesis unfolding o using tcp_output_in_order [OF o, of 100] by simp
qed

section \<open>Retransmission\<close>

lemma rexmit_rto_spec:
  assumes "tcp_rexmit_rto env a p n = (p', n')"
    and "contig sq (unacked p @ unsent p) (snd_lbb p)" and "seq_len (unacked p @ unsent p) < 2 ^ 31"
    and "\<forall>seg\<in>set (unacked p @ unsent p). 0 < unat (TCP_TCPLEN seg)"
  shows "map seg_key (unacked p' @ unsent p') = map seg_key (unacked p @ unsent p) \<and>
    contig sq (unacked p' @ unsent p') (snd_lbb p')"
proof (cases "unacked p")
  case Nil
  then show ?thesis using assms by (simp add: tcp_rexmit_rto_def)
next
  case (Cons seg rest)
  define q where "q = p \<lparr> unsent := unacked p @ unsent p, unacked := [], snd_nxt := seg_seqno seg,
                  nrtx := nrtx p + 1, rttest := 0 \<rparr>"
  obtain err where o: "tcp_output env a q n = (err, p', n')"
    using assms(1) Cons unfolding tcp_rexmit_rto_def q_def by (cases "tcp_output env a q n") (auto simp: q_def)
  have "contig sq (unacked q @ unsent q) (snd_lbb p)" "seq_len (unacked q @ unsent q) < 2 ^ 31"
    "\<forall>seg\<in>set (unsent q). 0 < unat (TCP_TCPLEN seg)" using assms(2-4) by (simp_all add: q_def)
  from tcp_output_spec [OF o this] obtain out where r: "unsent q = out @ unsent p'"
    "map seg_key (unacked p') = map seg_key (unacked q @ out)" "out_erase p' = out_erase q" by blast
  have "map seg_key (unacked p' @ unsent p') = map seg_key (unsent q)" using r(1,2) by (simp add: q_def)
  then have k: "map seg_key (unacked p' @ unsent p') = map seg_key (unacked p @ unsent p)"
    by (simp add: q_def)
  have l: "snd_lbb p' = snd_lbb p" using out_erase_fields(3) [OF r(3)] by (simp add: q_def)
  show ?thesis using k contig_key [OF k] l assms(2) by simp
qed

text \<open>A retransmission timeout requeues every unacknowledged segment and sends again from the
  first one on; no segment is lost, duplicated or reordered.\<close>

theorem tcp_rexmit_rto_in_order:
  assumes "tcp_rexmit_rto env a p n = (p', n')"
    and "contig sq (unacked p @ unsent p) (snd_lbb p)" and "seq_len (unacked p @ unsent p) < 2 ^ 31"
    and "\<forall>seg\<in>set (unacked p @ unsent p). 0 < unat (TCP_TCPLEN seg)"
  shows "map seg_key (unacked p' @ unsent p') = map seg_key (unacked p @ unsent p) \<and>
    contig sq (unacked p' @ unsent p') (snd_lbb p')"
  using assms by (rule rexmit_rto_spec)

theorem tcp_rexmit_rto_in_order_witness:
  "map seg_key (unacked (fst (tcp_rexmit_rto ex_env 0 (ex_pcb \<lparr> unsent := [ex_seg 103 [4, 5]],
        unacked := [ex_seg 100 [1, 2, 3]] \<rparr>) ex_net)) @
      unsent (fst (tcp_rexmit_rto ex_env 0 (ex_pcb \<lparr> unsent := [ex_seg 103 [4, 5]],
        unacked := [ex_seg 100 [1, 2, 3]] \<rparr>) ex_net))) =
    map seg_key [ex_seg 100 [1, 2, 3], ex_seg 103 [4, 5]]"
proof -
  let ?p = "ex_pcb \<lparr> unsent := [ex_seg 103 [4, 5]], unacked := [ex_seg 100 [1, 2, 3]] \<rparr>"
  obtain p' n' where o: "tcp_rexmit_rto ex_env 0 ?p ex_net = (p', n')" by fastforce
  show ?thesis unfolding o using tcp_rexmit_rto_in_order [OF o, of 100] by simp
qed

text \<open>The first segment is back at the head of \<open>unsent\<close>, in front of segments that follow the
  unacknowledged ones: one round of the loop puts it where it came from.\<close>

lemma out_one_front:
  assumes "out_one env seg us p n = (p', n')" and "contig sq (seg # unacked p @ us) e"
    and "seq_len (seg # unacked p @ us) < 2 ^ 31" and "0 < unat (TCP_TCPLEN seg)"
  shows "map seg_key (unacked p') = map seg_key (seg # unacked p) \<and> unsent p' = us \<and> out_erase p' = out_erase p"
proof -
  from out_one_spec [OF assms(1,4)] obtain seg' where
    k: "seg_key seg' = seg_key seg" "unacked p' = unack_insert seg' (unacked p)" "unsent p' = us"
    "out_erase p' = out_erase p" by blast
  have "TCP_SEQ_LT (seg_seqno seg') (seg_seqno (last (unacked p)))" if "unacked p \<noteq> []"
  proof -
    obtain m where "contig sq (seg # unacked p) m" using assms(2) by auto
    then show ?thesis
      using contig_before [of sq seg "unacked p" m] that assms(3,4) seg_key_seqno [OF k(1)] by simp
  qed
  then show ?thesis using k by (auto simp: unack_insert_def)
qed

text \<open>Fast retransmit puts the first unacknowledged segment back on the unsent queue while the
  input function is active; the \<open>tcp_output\<close> that follows sends it, if the window then admits it, and
  restores the queues: the same segments in the same order.\<close>

theorem tcp_rexmit_in_order:
  assumes "tcp_rexmit env a p n = (p1, n1)" and "unacked p \<noteq> []" and "tcp_input_pcb n = Some a"
    and "contig sq (unacked p @ unsent p) e" and "seq_len (unacked p @ unsent p) < 2 ^ 31"
    and "\<forall>seg\<in>set (unacked p @ unsent p). 0 < unat (TCP_TCPLEN seg)"
    and "unacked q = unacked p1" and "unsent q = unsent p1"
    and "in_snd_wnd q (send_wnd q) (hd (unacked p))" and "tcp_input_pcb m \<noteq> Some a"
    and "tcp_output env a q m = (err, q', m')"
  shows "map seg_key (unacked q' @ unsent q') = map seg_key (unacked p @ unsent p)"
proof -
  obtain seg rest where u: "unacked p = seg # rest" using assms(2) by (cases "unacked p") auto
  have q: "unacked q = rest" "unsent q = seg # unsent p"
    using assms(1,3) unfolding assms(7,8) by (auto simp: tcp_rexmit_def u tcp_output_def)
  have w: "in_snd_wnd q (send_wnd q) seg" using assms(9) u by simp
  have l: "out_loop env (send_wnd q) (unsent q) q m = (q', m')"
  proof -
    have "\<not> send_wnd q < seg_seqno seg - lastack q + ucast (s_len seg)" using w by (simp add: not_less)
    then show ?thesis
      using assms(10,11) by (simp add: tcp_output_def q(2) Let_def del: out_loop.simps split: prod.splits)
  qed
  obtain q1 m1 where o: "out_one env seg (unsent p) q m = (q1, m1)" by fastforce
  have c: "contig sq (seg # unacked q @ unsent p) e" "seq_len (seg # unacked q @ unsent p) < 2 ^ 31"
    using assms(4,5) by (simp_all add: u q)
  from out_one_front [OF o c] assms(6) have f: "map seg_key (unacked q1) = map seg_key (seg # rest)"
    "unsent q1 = unsent p" by (simp_all add: u q)
  have k: "map seg_key (unacked q1 @ unsent p) = map seg_key (unacked p @ unsent p)" by (simp add: u f(1))
  have s: "seq_len (unacked q1) = seq_len (unacked p)"
    using f(1) by (intro seq_len_key) (simp add: u)
  have l1: "out_loop env (send_wnd q) (unsent p) q1 m1 = (q', m')" using l w o by (simp add: q)
  have c1: "contig sq (unacked q1 @ unsent p) e" using contig_key [OF k] assms(4) by simp
  have "seq_len (unacked q1 @ unsent p) < 2 ^ 31" using assms(5) by (simp add: s)
  from out_loop_spec [OF l1 f(2) c1 this] assms(6) obtain out where
    "unsent p = out @ unsent q'" "map seg_key (unacked q') = map seg_key (unacked q1 @ out)" by auto
  then have "map seg_key (unacked q' @ unsent q') = map seg_key (unacked q1 @ unsent p)" by simp
  then show ?thesis using k by simp
qed

theorem tcp_rexmit_in_order_witness:
  "let p = ex_pcb \<lparr> unsent := [ex_seg 103 [4, 5]], unacked := [ex_seg 100 [1, 2, 3]] \<rparr>;
       q = fst (tcp_rexmit ex_env 0 p (ex_net \<lparr> tcp_input_pcb := Some 0 \<rparr>));
       q' = fst (snd (tcp_output ex_env 0 q ex_net))
   in map seg_key (unacked q' @ unsent q') = map seg_key [ex_seg 100 [1, 2, 3], ex_seg 103 [4, 5]]"
proof -
  let ?p = "ex_pcb \<lparr> unsent := [ex_seg 103 [4, 5]], unacked := [ex_seg 100 [1, 2, 3]] \<rparr>"
  let ?n = "ex_net \<lparr> tcp_input_pcb := Some 0 \<rparr>"
  obtain q n1 where r: "tcp_rexmit ex_env 0 ?p ?n = (q, n1)" by fastforce
  obtain err q' m' where o: "tcp_output ex_env 0 q ex_net = (err, q', m')" by (rule prod_cases3)
  have q: "lastack q = 100" "snd_wnd q = 4" "cwnd q = 1460"
    using r by (auto simp: tcp_rexmit_def tcp_output_def)
  have "map seg_key (unacked q' @ unsent q') = map seg_key (unacked ?p @ unsent ?p)"
    by (rule tcp_rexmit_in_order [OF r _ _ _ _ _ refl refl _ _ o, of 100 105])
      (simp_all add: q send_wnd_def ex_net_def)
  then show ?thesis by (simp add: r o)
qed

section \<open>Checksums of what is sent\<close>

text \<open>The check the receiver makes, in \<open>tcp_input\<close>.\<close>

definition dgram_ok :: "ip_dgram \<Rightarrow> bool" where
  "dgram_ok d \<longleftrightarrow>
    inet_chksum_pseudo [tcp_hdr_bytes (d_hdr d) @ d_data d] (d_src d) (d_dest d) IP_PROTO_TCP
      (of_nat (TCP_HLEN + length (d_data d))) = 0"

lemma output_segment_wire:
  assumes "tcp_output_segment env seg p n = (seg', p', n')" and "length (s_data seg) \<le> 65515"
  shows "\<exists>ds. wire n' = wire n @ ds \<and> list_all dgram_ok ds"
  using assms
  by (auto simp: tcp_output_segment_def ip_output_def Let_def dgram_ok_def with_chksum_verifies [simplified]
      split: option.splits if_splits)

lemma out_one_wire:
  assumes "out_one env seg rest p n = (p', n')" and "length (s_data seg) \<le> 65515"
  shows "\<exists>ds. wire n' = wire n @ ds \<and> list_all dgram_ok ds"
proof -
  define seg1 where "seg1 = (if state p \<noteq> SYN_SENT
     then seg \<lparr> s_tcphdr := TCPH_SET_FLAG (s_tcphdr seg) TCP_ACK \<rparr> else seg)"
  define p1 where "p1 = (if state p \<noteq> SYN_SENT
     then p \<lparr> unsent := rest, flags := flags p AND NOT (TF_ACK_DELAY OR TF_ACK_NOW) \<rparr>
     else p \<lparr> unsent := rest \<rparr>)"
  obtain seg2 p2 n2 where o: "tcp_output_segment env seg1 p1 n = (seg2, p2, n2)"
    by (cases "tcp_output_segment env seg1 p1 n")
  have "n' = n2" using assms(1) o unfolding out_one_def seg1_def p1_def
    by (auto simp: Let_def split: if_splits)
  then show ?thesis using output_segment_wire [OF o] assms(2) by (simp add: seg1_def split: if_splits)
qed

lemma out_loop_wire:
  assumes "out_loop env wnd segs p n = (p', n')" and "\<forall>seg\<in>set segs. length (s_data seg) \<le> 65515"
  shows "\<exists>ds. wire n' = wire n @ ds \<and> list_all dgram_ok ds"
  using assms
proof (induction segs arbitrary: p n)
  case (Cons seg rest)
  show ?case
  proof (cases "in_snd_wnd p wnd seg")
    case True
    obtain p1 n1 where o: "out_one env seg rest p n = (p1, n1)" by fastforce
    obtain d1 where d1: "wire n1 = wire n @ d1" "list_all dgram_ok d1"
      using out_one_wire [OF o] Cons.prems(2) by auto
    have "out_loop env wnd rest p1 n1 = (p', n')" using Cons.prems(1) True o by simp
    from Cons.IH [OF this] Cons.prems(2) obtain d2 where "wire n' = wire n1 @ d2" "list_all dgram_ok d2"
      by auto
    then show ?thesis using d1 by (intro exI [of _ "d1 @ d2"]) simp
  qed (use Cons.prems in auto)
qed auto

text \<open>C33: Every datagram \<open>tcp_output\<close> gives to IP, data segments and empty acknowledgements alike,
  carries a checksum that the receiving side accepts.\<close>

theorem tcp_output_checksums:
  assumes "tcp_output env a p n = (err, p', n')" and "\<forall>seg\<in>set (unsent p). length (s_data seg) \<le> 65515"
  shows "\<exists>ds. wire n' = wire n @ ds \<and> list_all dgram_ok ds"
proof (cases "tcp_input_pcb n \<noteq> Some a \<and> out_loop env (send_wnd p) (unsent p) p n = (p', n')")
  case True
  then show ?thesis using out_loop_wire assms(2) by blast
next
  case False
  then have "wire n' = wire n \<or> wire n' = wire n @ [empty_ack env p]"
    using assms(1)
    by (auto simp: tcp_output_def mem_alloc_def ip_output_def Let_def split: if_splits prod.splits)
  moreover have "dgram_ok (empty_ack env p)"
    using with_chksum_verifies [of "[]", simplified] by (simp add: dgram_ok_def empty_ack_def Let_def)
  ultimately show ?thesis by auto
qed

theorem tcp_output_checksums_witness:
  "\<exists>ds. wire (snd (snd (tcp_output ex_env 0 ex_pcb ex_net))) = wire ex_net @ ds \<and> list_all dgram_ok ds"
proof -
  obtain err p' n' where o: "tcp_output ex_env 0 ex_pcb ex_net = (err, p', n')" by (rule prod_cases3)
  show ?thesis using tcp_output_checksums [OF o] by (simp add: o)
qed

end
