(* ===== verification/Tcp_In.thy ===== *)
theory Tcp_In
  imports Tcp_Out
begin

text \<open>
  Receiving on one connection (\<open>src/nsc-0.5.3/lwip-HEAD/src/core/tcp_in.c\<close>): the options of a
  segment, the acknowledgement it carries, and its data, which is delivered in order through the
  queue of out-of-sequence segments.  The file-static variables of the source are the record
  \<open>tcp_in\<close>.  \<open>None\<close> stands for a read outside the packet, an option walk that never ends, or a
  division by zero.
\<close>

section \<open>The input variables\<close>

record tcp_in =
  inseg :: tcp_seg
  inseg_p :: bool
  in_opts :: "u8 list"
  in_src :: u32
  in_dest :: u32
  in_seqno :: u32
  in_ackno :: u32
  in_flags :: u8
  in_tcplen :: u16
  recv_flags :: u8
  recv_data :: "u8 list option"

abbreviation in_hdr :: "tcp_in \<Rightarrow> tcp_hdr" where
  "in_hdr i \<equiv> s_tcphdr (inseg i)"

section \<open>Options\<close>

definition rd :: "u8 list \<Rightarrow> nat \<Rightarrow> u8 option" where
  "rd bs i = (if i < length bs then Some (bs ! i) else None)"

text \<open>The walk over the options.  The position is a byte, as in the source.\<close>

partial_function (option) parseopt_loop :: "u8 list \<Rightarrow> nat \<Rightarrow> u8 \<Rightarrow> u16 \<Rightarrow> u16 option" where
  "parseopt_loop opts lim c m =
    (if unat c < lim
     then do {
       opt \<leftarrow> rd opts (unat c);
       if opt = 0 then Some m
       else if opt = 1 then parseopt_loop opts lim (c + 1) m
       else do {
         l \<leftarrow> rd opts (unat c + 1);
         if opt = 2 \<and> l = 4 then do {
           b2 \<leftarrow> rd opts (unat c + 2);
           b3 \<leftarrow> rd opts (unat c + 3);
           let v = push_bit 8 (ucast b2) OR ucast b3;
           Some (if v > TCP_MSS then TCP_MSS else v)
         }
         else if l = 0 then Some m
         else parseopt_loop opts lim (c + l) m
       }
     }
     else Some m)"

definition tcp_parseopt :: "tcp_in \<Rightarrow> tcp_pcb \<Rightarrow> tcp_pcb option" where
  "tcp_parseopt i pcb =
    (if TCPH_HDRLEN (in_hdr i) > 5
     then do {
       m \<leftarrow> parseopt_loop (in_opts i) ((unat (TCPH_HDRLEN (in_hdr i)) - 5) * 4) 0 (mss pcb);
       Some (pcb \<lparr> mss := m \<rparr>)
     }
     else Some pcb)"

section \<open>Acknowledgements\<close>

definition rx_window :: "tcp_in \<Rightarrow> tcp_pcb \<Rightarrow> tcp_pcb" where
  "rx_window i pcb =
    (if TCP_SEQ_LT (snd_wl1 pcb) (in_seqno i) \<or>
        (snd_wl1 pcb = in_seqno i \<and> TCP_SEQ_LT (snd_wl2 pcb) (in_ackno i)) \<or>
        (snd_wl2 pcb = in_ackno i \<and> ucast (h_wnd (in_hdr i)) > snd_wnd pcb)
     then pcb \<lparr> snd_wnd := ucast (h_wnd (in_hdr i)), snd_wl1 := in_seqno i, snd_wl2 := in_ackno i \<rparr>
     else pcb)"

text \<open>A duplicate acknowledgement: the third starts fast retransmit, later ones inflate the window.\<close>

definition rx_dupack ::
  "tcp_env \<Rightarrow> addr \<Rightarrow> u32 \<Rightarrow> tcp_pcb \<Rightarrow> 'a net_scheme \<Rightarrow> tcp_pcb \<times> 'a net_scheme" where
  "rx_dupack env a right_wnd_edge pcb n =
    (let pcb = pcb \<lparr> acked := 0 \<rparr>
     in if snd_wl1 pcb + snd_wnd pcb = right_wnd_edge
        then
          (let pcb = pcb \<lparr> dupacks := dupacks pcb + 1 \<rparr>
           in if dupacks pcb \<ge> 3 \<and> unacked pcb \<noteq> []
              then
                (if flags pcb AND TF_INFR = 0
                 then
                   (let (pcb, n) = tcp_rexmit env a pcb n;
                        pcb = pcb \<lparr> ssthresh := (if ucast (cwnd pcb) > snd_wnd pcb
                                                then ucast (snd_wnd pcb div 2) else cwnd pcb div 2) \<rparr>;
                        pcb = pcb \<lparr> cwnd := ssthresh pcb + 3 * mss pcb \<rparr>
                    in (pcb \<lparr> flags := flags pcb OR TF_INFR \<rparr>, n))
                 else if cwnd pcb + mss pcb > cwnd pcb then (pcb \<lparr> cwnd := cwnd pcb + mss pcb \<rparr>, n)
                 else (pcb, n))
              else (pcb, n))
        else (pcb, n))"

text \<open>Congestion control on an acknowledgement of new data; the division is the machine's.\<close>

definition rx_cwnd :: "tcp_pcb \<Rightarrow> tcp_pcb option" where
  "rx_cwnd pcb =
    (if state_num (state pcb) \<ge> state_num ESTABLISHED
     then
       (if cwnd pcb < ssthresh pcb
        then Some (if cwnd pcb + mss pcb > cwnd pcb then pcb \<lparr> cwnd := cwnd pcb + mss pcb \<rparr> else pcb)
        else if cwnd pcb = 0 then None
        else
          (let new_cwnd = of_nat (unat (cwnd pcb) + unat (mss pcb) * unat (mss pcb) div unat (cwnd pcb))
           in Some (if new_cwnd > cwnd pcb then pcb \<lparr> cwnd := new_cwnd \<rparr> else pcb)))
     else Some pcb)"

text \<open>Removing the acknowledged segments from the front of a queue, with the count of pbufs.\<close>

fun ack_unacked :: "u32 \<Rightarrow> tcp_seg list \<Rightarrow> u8 \<Rightarrow> tcp_seg list \<times> u8" where
  "ack_unacked ackno [] q = ([], q)"
| "ack_unacked ackno (seg # segs) q =
    (if TCP_SEQ_LEQ (seg_seqno seg + TCP_TCPLEN seg) ackno
     then ack_unacked ackno segs (q - of_nat (s_clen seg)) else (seg # segs, q))"

definition rto_of :: "tcp_pcb \<Rightarrow> u16" where
  "rto_of pcb = of_int (sint (sa pcb) div 8 + sint (sv pcb))"

definition rx_newack :: "tcp_in \<Rightarrow> tcp_pcb \<Rightarrow> tcp_pcb option" where
  "rx_newack i pcb = do {
     let pcb = (if flags pcb AND TF_INFR \<noteq> 0
                then pcb \<lparr> flags := flags pcb AND NOT TF_INFR, cwnd := ssthresh pcb \<rparr> else pcb);
     let pcb = pcb \<lparr> nrtx := 0, rto := rto_of pcb, acked := ucast (in_ackno i - lastack pcb) \<rparr>;
     let pcb = pcb \<lparr> snd_buf := snd_buf pcb + ((acked pcb + 1) AND NOT 1),
                     dupacks := 0, lastack := in_ackno i \<rparr>;
     pcb \<leftarrow> rx_cwnd pcb;
     let (us, q) = ack_unacked (in_ackno i) (unacked pcb) (snd_queuelen pcb);
     Some (pcb \<lparr> unacked := us, snd_queuelen := q, polltmr := 0 \<rparr>)
   }"

fun ack_unsent :: "u32 \<Rightarrow> u32 \<Rightarrow> tcp_seg list \<Rightarrow> u8 \<Rightarrow> u32 \<Rightarrow> tcp_seg list \<times> u8 \<times> u32" where
  "ack_unsent ackno mx [] q nxt = ([], q, nxt)"
| "ack_unsent ackno mx (seg # segs) q nxt =
    (if TCP_SEQ_BETWEEN ackno (seg_seqno seg + TCP_TCPLEN seg) mx
     then ack_unsent ackno mx segs (q - of_nat (s_clen seg))
            (case segs of [] \<Rightarrow> nxt | s # _ \<Rightarrow> seg_seqno s)
     else (seg # segs, q, nxt))"

definition rx_unsent :: "tcp_in \<Rightarrow> tcp_pcb \<Rightarrow> tcp_pcb" where
  "rx_unsent i pcb =
    (let (us, q, nxt) = ack_unsent (in_ackno i) (snd_max pcb) (unsent pcb) (snd_queuelen pcb) (snd_nxt pcb)
     in pcb \<lparr> unsent := us, snd_queuelen := q, snd_nxt := nxt \<rparr>)"

text \<open>Round-trip time estimation, in two's complement arithmetic.\<close>

definition rx_rtt :: "u32 \<Rightarrow> tcp_in \<Rightarrow> tcp_pcb \<Rightarrow> tcp_pcb" where
  "rx_rtt ticks i pcb =
    (if rttest pcb \<noteq> 0 \<and> TCP_SEQ_LT (rtseq pcb) (in_ackno i)
     then
       (let m = ticks - rttest pcb;
            m = m - of_int (sint (sa pcb) div 8);
            pcb = pcb \<lparr> sa := ucast (of_int (sint (sa pcb)) + m) \<rparr>;
            m = (if sint m < 0 then - m else m);
            m = m - of_int (sint (sv pcb) div 4);
            pcb = pcb \<lparr> sv := ucast (of_int (sint (sv pcb)) + m) \<rparr>
        in pcb \<lparr> rto := rto_of pcb, rttest := 0 \<rparr>)
     else pcb)"

definition rx_ack ::
  "tcp_env \<Rightarrow> addr \<Rightarrow> tcp_in \<Rightarrow> tcp_pcb \<Rightarrow> 'a net_scheme \<Rightarrow> (tcp_pcb \<times> 'a net_scheme) option" where
  "rx_ack env a i pcb n = do {
     let right_wnd_edge = snd_wnd pcb + snd_wl1 pcb;
     let pcb = rx_window i pcb;
     (pcb, n) \<leftarrow>
       (if lastack pcb = in_ackno i then Some (rx_dupack env a right_wnd_edge pcb n)
        else if TCP_SEQ_BETWEEN (in_ackno i) (lastack pcb + 1) (snd_max pcb)
        then do { pcb \<leftarrow> rx_newack i pcb; Some (pcb, n) }
        else Some (pcb, n));
     Some (rx_rtt (tcp_ticks n) i (rx_unsent i pcb), n)
   }"

section \<open>Data\<close>

text \<open>\<open>pbuf_realloc\<close> together with the length of the segment: keep the first bytes.\<close>

definition seg_trim :: "tcp_seg \<Rightarrow> u16 \<Rightarrow> tcp_seg" where
  "seg_trim seg l = seg \<lparr> s_len := l, s_data := take (unat l) (s_data seg) \<rparr>"

text \<open>Cutting what was already received off the front of the incoming segment.\<close>

definition rx_trim_front :: "tcp_pcb \<Rightarrow> tcp_in \<Rightarrow> tcp_in" where
  "rx_trim_front pcb i =
    (let off = rcv_nxt pcb - in_seqno i; seg = inseg i
     in i \<lparr> inseg := seg \<lparr> s_data := drop (unat off) (s_data seg), s_len := s_len seg - ucast off,
                           s_tcphdr := (s_tcphdr seg) \<lparr> h_seqno := rcv_nxt pcb \<rparr> \<rparr>,
            in_seqno := rcv_nxt pcb \<rparr>)"

definition wnd_sub :: "u16 \<Rightarrow> u32 \<Rightarrow> u16" where
  "wnd_sub w l = (if ucast w < l then 0 else w - ucast l)"

text \<open>Moving the segments that have become in-sequence from the queue to the application.\<close>

fun ooseq_deliver :: "tcp_seg list \<Rightarrow> tcp_pcb \<Rightarrow> tcp_in \<Rightarrow> tcp_pcb \<times> tcp_in" where
  "ooseq_deliver [] pcb i = (pcb \<lparr> ooseq := [] \<rparr>, i)"
| "ooseq_deliver (cseg # segs) pcb i =
    (if seg_seqno cseg = rcv_nxt pcb
     then
       (let i = i \<lparr> in_seqno := seg_seqno cseg \<rparr>;
            pcb = pcb \<lparr> rcv_nxt := rcv_nxt pcb + TCP_TCPLEN cseg,
                        rcv_wnd := wnd_sub (rcv_wnd pcb) (TCP_TCPLEN cseg) \<rparr>;
            i = (if s_data cseg \<noteq> []
                 then i \<lparr> recv_data := Some (case recv_data i of None \<Rightarrow> s_data cseg
                                             | Some d \<Rightarrow> d @ s_data cseg) \<rparr>
                 else i);
            i = (if TCPH_FLAGS (s_tcphdr cseg) AND TCP_FIN \<noteq> 0 then i \<lparr> recv_flags := TF_GOT_FIN \<rparr> else i)
        in ooseq_deliver segs pcb i)
     else (pcb \<lparr> ooseq := cseg # segs \<rparr>, i))"

definition rx_inseq ::
  "tcp_env \<Rightarrow> addr \<Rightarrow> tcp_pcb \<Rightarrow> tcp_in \<Rightarrow> 'a net_scheme \<Rightarrow> tcp_pcb \<times> tcp_in \<times> 'a net_scheme" where
  "rx_inseq env a pcb i n =
    (let i = (case ooseq pcb of
                [] \<Rightarrow> i
              | oseg # _ \<Rightarrow>
                  if TCP_SEQ_LEQ (seg_seqno oseg) (in_seqno i + ucast (s_len (inseg i)))
                  then i \<lparr> inseg := seg_trim (inseg i) (ucast (seg_seqno oseg - in_seqno i)) \<rparr>
                  else i);
         i = i \<lparr> in_tcplen := ucast (TCP_TCPLEN (inseg i)) \<rparr>;
         pcb = pcb \<lparr> rcv_nxt := rcv_nxt pcb + ucast (in_tcplen i),
                     rcv_wnd := wnd_sub (rcv_wnd pcb) (ucast (in_tcplen i)) \<rparr>;
         i = (if s_data (inseg i) \<noteq> [] then i \<lparr> recv_data := Some (s_data (inseg i)), inseg_p := False \<rparr> else i);
         i = (if TCPH_FLAGS (in_hdr i) AND TCP_FIN \<noteq> 0 then i \<lparr> recv_flags := TF_GOT_FIN \<rparr> else i);
         (pcb, i) = ooseq_deliver (ooseq pcb) pcb i;
         (pcb, n) = tcp_ack env a pcb n
     in (pcb, i, n))"

text \<open>The walk that places an out-of-sequence segment: \<open>pre\<close> are the segments already passed.  An
  overlapping successor cuts the new segment, the new segment cuts an overlapping predecessor; a
  longer segment replaces one with the same sequence number as it stands.\<close>

definition trim_to_next :: "u32 \<Rightarrow> tcp_seg \<Rightarrow> tcp_seg \<Rightarrow> tcp_seg" where
  "trim_to_next seqno seg nxt =
    (if TCP_SEQ_GT (seqno + ucast (s_len seg)) (seg_seqno nxt)
     then seg_trim seg (ucast (seg_seqno nxt - seqno)) else seg)"

definition trim_prev :: "u32 \<Rightarrow> tcp_seg \<Rightarrow> tcp_seg" where
  "trim_prev seqno seg =
    (if TCP_SEQ_GT (seg_seqno seg + ucast (s_len seg)) seqno
     then seg_trim seg (ucast (seqno - seg_seqno seg)) else seg)"

fun ooseq_walk ::
  "tcp_env \<Rightarrow> u32 \<Rightarrow> tcp_seg \<Rightarrow> tcp_seg list \<Rightarrow> tcp_seg list \<Rightarrow> 'a net_scheme \<Rightarrow> tcp_seg list \<times> 'a net_scheme" where
  "ooseq_walk env seqno seg pre [] n = (pre, n)"
| "ooseq_walk env seqno seg pre (nxt # rest) n =
    (if seqno = seg_seqno nxt
     then
       (if s_len seg > s_len nxt
        then (case tcp_seg_copy env seg n of
                (None, n) \<Rightarrow> (pre @ nxt # rest, n)
              | (Some cseg, n) \<Rightarrow> (pre @ cseg # rest, n))
        else (pre @ nxt # rest, n))
     else if pre = [] \<and> TCP_SEQ_LT seqno (seg_seqno nxt)
     then
       (case tcp_seg_copy env (trim_to_next seqno seg nxt) n of
          (None, n) \<Rightarrow> (nxt # rest, n)
        | (Some cseg, n) \<Rightarrow> (cseg # nxt # rest, n))
     else if pre \<noteq> [] \<and> TCP_SEQ_BETWEEN seqno (seg_seqno (last pre) + 1) (seg_seqno nxt - 1)
     then
       (case tcp_seg_copy env (trim_to_next seqno seg nxt) n of
          (None, n) \<Rightarrow> (pre @ nxt # rest, n)
        | (Some cseg, n) \<Rightarrow> (butlast pre @ trim_prev seqno (last pre) # cseg # nxt # rest, n))
     else if rest = [] \<and> TCP_SEQ_GT seqno (seg_seqno nxt)
     then
       (case tcp_seg_copy env seg n of
          (None, n) \<Rightarrow> (pre @ [nxt], n)
        | (Some cseg, n) \<Rightarrow> (pre @ [trim_prev seqno nxt, cseg], n))
     else ooseq_walk env seqno seg (pre @ [nxt]) rest n)"

definition rx_outseq ::
  "tcp_env \<Rightarrow> addr \<Rightarrow> tcp_pcb \<Rightarrow> tcp_in \<Rightarrow> 'a net_scheme \<Rightarrow> tcp_pcb \<times> 'a net_scheme" where
  "rx_outseq env a pcb i n =
    (let (pcb, n) = tcp_ack_now env a pcb n
     in if ooseq pcb = []
        then (case tcp_seg_copy env (inseg i) n of
                (None, n) \<Rightarrow> (pcb, n)
              | (Some cseg, n) \<Rightarrow> (pcb \<lparr> ooseq := [cseg] \<rparr>, n))
        else (let (os, n) = ooseq_walk env (in_seqno i) (inseg i) [] (ooseq pcb) n
              in (pcb \<lparr> ooseq := os \<rparr>, n)))"

definition in_window :: "tcp_pcb \<Rightarrow> tcp_in \<Rightarrow> bool" where
  "in_window pcb i \<longleftrightarrow>
    TCP_SEQ_BETWEEN (in_seqno i) (rcv_nxt pcb) (rcv_nxt pcb + ucast (rcv_wnd pcb) - 1)"

definition rx_data ::
  "tcp_env \<Rightarrow> addr \<Rightarrow> tcp_pcb \<Rightarrow> tcp_in \<Rightarrow> 'a net_scheme \<Rightarrow> tcp_pcb \<times> tcp_in \<times> 'a net_scheme" where
  "rx_data env a pcb i n =
    (if in_tcplen i > 0
     then
       (let (i, pcb, n) =
              (if TCP_SEQ_BETWEEN (rcv_nxt pcb) (in_seqno i + 1) (in_seqno i + ucast (in_tcplen i) - 1)
               then (rx_trim_front pcb i, pcb, n)
               else if TCP_SEQ_LT (in_seqno i) (rcv_nxt pcb) then (i, tcp_ack_now env a pcb n)
               else (i, pcb, n))
        in if in_window pcb i
           then
             (if rcv_nxt pcb = in_seqno i then rx_inseq env a pcb i n
              else (let (pcb, n) = rx_outseq env a pcb i n in (pcb, i, n)))
           else (let (pcb, n) = tcp_ack_now env a pcb n in (pcb, i, n)))
     else if \<not> in_window pcb i then (let (pcb, n) = tcp_ack_now env a pcb n in (pcb, i, n))
     else (pcb, i, n))"

definition tcp_receive ::
  "tcp_env \<Rightarrow> addr \<Rightarrow> tcp_pcb \<Rightarrow> tcp_in \<Rightarrow> 'a net_scheme \<Rightarrow> (tcp_pcb \<times> tcp_in \<times> 'a net_scheme) option" where
  "tcp_receive env a pcb i n = do {
     (pcb, n) \<leftarrow> (if in_flags i AND TCP_ACK \<noteq> 0 then rx_ack env a i pcb n else Some (pcb, n));
     Some (rx_data env a pcb i n)
   }"

end
