(* ===== verification/Tcp_Queue.thy ===== *)
theory Tcp_Queue
  imports Tcp_Send Tcp_In
begin

text \<open>
  The send queue as a queue of bytes.  The abstract state of the sending side is the list of bytes
  written but not yet acknowledged; \<open>tcp_enqueue\<close> appends to it, an acknowledgement removes a
  prefix, and sending or retransmitting leave it alone.
\<close>

section \<open>The abstract queue\<close>

definition seg_bytes :: "tcp_seg \<Rightarrow> u8 list" where
  "seg_bytes x = take (unat (s_len x)) (s_data x)"

definition stream_of :: "tcp_seg list \<Rightarrow> u8 list" where
  "stream_of xs = concat (map seg_bytes xs)"

definition stream :: "tcp_pcb \<Rightarrow> u8 list" where
  "stream p = stream_of (unacked p @ unsent p)"

lemma stream_of_simps [simp]:
  "stream_of [] = []" "stream_of (x # xs) = seg_bytes x @ stream_of xs"
  "stream_of (xs @ ys) = stream_of xs @ stream_of ys"
  by (simp_all add: stream_of_def)

text \<open>A queued segment occupies sequence numbers, and its length is that of its data unless it
  carries SYN or FIN (and then perhaps options).\<close>

definition seg_wf :: "tcp_seg \<Rightarrow> bool" where
  "seg_wf x \<longleftrightarrow> 0 < unat (TCP_TCPLEN x) \<and> (syn_fin x \<or> length (s_data x) = unat (s_len x))"

definition sndq_ok :: "tcp_pcb \<Rightarrow> bool" where
  "sndq_ok p \<longleftrightarrow> (\<exists>sq. contig sq (unacked p @ unsent p) (snd_lbb p)) \<and>
    list_all seg_wf (unacked p @ unsent p) \<and> seq_len (unacked p @ unsent p) < 2 ^ 31"

section \<open>Queueing\<close>

abbreviation synfin :: "u8 \<Rightarrow> bool" where
  "synfin fl \<equiv> fl AND (TCP_SYN OR TCP_FIN) \<noteq> 0"

lemma enq_hdr_simps [simp]:
  "h_seqno (enq_hdr env p sq fl opt) = sq" "TCPH_FLAGS (enq_hdr env p sq fl opt) = take_bit 6 fl"
  by (simp_all add: enq_hdr_def)

lemma synfin_take: "take_bit 6 fl AND (TCP_SYN OR TCP_FIN) = fl AND (TCP_SYN OR TCP_FIN)"
proof -
  have "TCP_SYN OR TCP_FIN = mask 2" by (simp add: cfg_defs mask_eq_exp_minus_1)
  then show ?thesis by (simp only:) (rule bit_word_eqI, auto simp: bit_simps)
qed

lemma syn_fin_enq [simp]: "syn_fin \<lparr> s_data = d, s_clen = k, s_len = l, s_tcphdr = enq_hdr env p sq fl opt \<rparr> = synfin fl"
  by (simp add: syn_fin_def synfin_take)

lemma enq_pbuf_data:
  "enq_pbuf env optdata cp bytes n = (Some (d, k), n') \<Longrightarrow> d = (case optdata of None \<Rightarrow> bytes | Some os \<Rightarrow> os)"
  by (auto simp: enq_pbuf_def mem_alloc_def Let_def split: option.splits if_splits)

text \<open>What the loop of \<open>tcp_enqueue\<close> builds.\<close>

definition enq_result :: "tcp_pcb \<Rightarrow> u8 \<Rightarrow> u32 \<Rightarrow> u8 list \<Rightarrow> bool \<Rightarrow> tcp_seg list \<Rightarrow> bool" where
  "enq_result p fl sq ptr first new \<longleftrightarrow>
    contig sq new (sq + of_nat (length ptr) + (if synfin fl \<and> first then 1 else 0)) \<and>
    stream_of new = ptr \<and> seq_len new = length ptr + (if synfin fl \<and> first then 1 else 0) \<and>
    (\<forall>x\<in>set new. seg_wf x \<and> unat (s_len x) \<le> unat (mss p) \<and> syn_fin x = synfin fl) \<and>
    (first \<longrightarrow> new \<noteq> [])"

lemma enq_result_Cons:
  assumes "enq_result p fl (sq + of_nat sl) (drop sl ptr) False new"
    and "unat (s_len seg) = sl" and "sl \<le> length ptr" and "sl \<le> unat (mss p)" and "seg_seqno seg = sq"
    and "syn_fin seg = synfin fl" and "synfin fl \<longrightarrow> first \<and> ptr = []"
    and "\<not> synfin fl \<longrightarrow> 0 < sl \<and> s_data seg = take sl ptr"
  shows "enq_result p fl sq ptr first (seg # new)"
proof -
  have t: "TCP_TCPLEN seg = of_nat (sl + (if synfin fl then 1 else 0))"
    unfolding TCP_TCPLEN_alt assms(2) [symmetric] assms(6) by simp
  have w: "seg_wf seg" using assms(2,3,6-8) by (auto simp: seg_wf_def unat_TCP_TCPLEN)
  show ?thesis
  proof (cases "synfin fl")
    case True
    then have z: "ptr = []" "sl = 0" "first" using assms(3,7) by auto
    have "new = []" using assms(1) z
      by (cases new) (auto simp: enq_result_def seg_wf_def)
    then show ?thesis using z w t assms(2,4,5,6) True
      by (simp add: enq_result_def seg_bytes_def)
  next
    case False
    have b: "seg_bytes seg = take sl ptr" using False assms(2,8) by (simp add: seg_bytes_def)
    have "sq + of_nat sl + (of_nat (length ptr - sl)) = sq + (of_nat (length ptr) :: u32)"
      using assms(3) by (simp add: of_nat_diff)
    then show ?thesis using assms(1,3,4,5,6) False w t b unat_TCP_TCPLEN [of seg]
      by (auto simp: enq_result_def assms(2))
  qed
qed

lemma enq_loop_spec:
  assumes "enq_loop env p fl cp opt ptr left sq q queue n = (Some (queue', q'), n')"
    and "length ptr = left" and "left < 65536" and "synfin fl \<or> opt \<noteq> None \<longrightarrow> left = 0"
    and "opt \<noteq> None \<longrightarrow> synfin fl" and "queue = [] \<longrightarrow> 0 < left \<or> synfin fl" and "0 < unat (mss p)"
  shows "\<exists>new. queue' = queue @ new \<and> enq_result p fl sq ptr (queue = []) new \<and>
    (if new = [] then q' = q else q' \<le> TCP_SND_QUEUELEN)"
  using assms
proof (induction "TCP_SND_QUEUELEN - q" arbitrary: ptr left sq q queue n rule: less_induct)
  case less
  show ?case
  proof (cases "queue \<noteq> [] \<and> left = 0")
    case True
    then show ?thesis using less.prems by (auto simp: enq_loop.simps enq_result_def)
  next
    case False
    define sl where "sl = (if left > unat (mss p) then unat (mss p) else left)"
    obtain ok n1 where m: "mem_alloc env n = (ok, n1)" by fastforce
    have ok: "ok" using less.prems(1) False m by (simp add: enq_loop.simps Let_def split: if_splits)
    obtain r n2 where e: "enq_pbuf env opt cp (take sl ptr) n1 = (r, n2)" by fastforce
    obtain d k where r: "r = Some (d, k)"
      using less.prems(1) False m ok e by (cases r) (auto simp: enq_loop.simps sl_def Let_def)
    define seg where "seg = \<lparr> s_data = d, s_clen = k, s_len = of_nat sl, s_tcphdr = enq_hdr env p sq fl opt \<rparr>"
    have qk: "q + k \<le> TCP_SND_QUEUELEN" and rec: "enq_loop env p fl cp opt (drop sl ptr) (left - sl)
        (sq + of_nat sl) (q + k) (queue @ [seg]) n2 = (Some (queue', q'), n')"
      using less.prems(1) False m ok e r
      by (auto simp: enq_loop.simps [of env p fl cp opt ptr left sq q queue n] sl_def seg_def Let_def
          split: if_splits)
    have sl: "sl \<le> left" "sl \<le> unat (mss p)" "0 < left \<longrightarrow> 0 < sl" "sl < 65536"
      using less.prems(3,7) by (auto simp: sl_def)
    have k: "0 < k" and dd: "d = (case opt of None \<Rightarrow> take sl ptr | Some os \<Rightarrow> os)"
      using enq_pbuf_pos enq_pbuf_data e r by blast+
    from k have mlt: "TCP_SND_QUEUELEN - (q + k) < TCP_SND_QUEUELEN - q" using qk by simp
    have "length (drop sl ptr) = left - sl" "left - sl < 65536" using less.prems(2,3) by simp_all
    moreover have "synfin fl \<or> opt \<noteq> None \<longrightarrow> left - sl = 0" using less.prems(4) by auto
    moreover have "queue @ [seg] = [] \<longrightarrow> 0 < left - sl \<or> synfin fl" by simp
    ultimately obtain new where n:
      "queue' = queue @ seg # new" "enq_result p fl (sq + of_nat sl) (drop sl ptr) False new"
      "if new = [] then q' = q + k else q' \<le> TCP_SND_QUEUELEN"
      using less.hyps [OF mlt rec _ _ _ less.prems(5) _ less.prems(7)] by auto
    have u: "unat (s_len seg) = sl" using sl by (simp add: seg_def unat_of_nat take_bit_nat_eq_self)
    have "enq_result p fl sq ptr (queue = []) (seg # new)"
    proof (rule enq_result_Cons [OF n(2) u])
      show "synfin fl \<longrightarrow> queue = [] \<and> ptr = []" using False less.prems(2,4) by auto
      show "\<not> synfin fl \<longrightarrow> 0 < sl \<and> s_data seg = take sl ptr"
        using False less.prems(5,6) sl dd by (auto simp: seg_def)
    qed (use sl less.prems(2) in \<open>simp_all add: seg_def\<close>)
    moreover have "q' \<le> TCP_SND_QUEUELEN" using n(3) qk by (simp split: if_splits)
    ultimately show ?thesis using n(1) by (intro exI [of _ "seg # new"]) simp
  qed
qed

text \<open>Merging the first new segment into the last unsent one, and setting PSH, keep all that.\<close>

lemma set_psh_key [simp]:
  "seg_seqno (set_psh x) = seg_seqno x" "s_len (set_psh x) = s_len x" "s_data (set_psh x) = s_data x"
  "s_clen (set_psh x) = s_clen x" "syn_fin (set_psh x) = syn_fin x"
proof -
  have "take_bit 6 TCP_PSH AND (TCP_SYN OR TCP_FIN) = 0" by (simp add: cfg_defs)
  then have "(f OR take_bit 6 TCP_PSH) AND (TCP_SYN OR TCP_FIN) = f AND (TCP_SYN OR TCP_FIN)" for f :: u8
    by (simp add: bit.conj_disj_distrib2)
  then show "syn_fin (set_psh x) = syn_fin x" by (simp add: syn_fin_def set_psh_def)
qed (simp_all add: set_psh_def)

lemma seg_key_psh: "seg_key (set_psh x) = seg_key x"
  by (simp add: seg_key_def)

lemma seg_key_bytes: "seg_key x = seg_key y \<Longrightarrow> seg_bytes x = seg_bytes y \<and> seg_wf x = seg_wf y"
  using seg_key_tcplen [of x y] by (simp add: seg_key_def seg_bytes_def seg_wf_def)

lemma stream_of_key: "map seg_key xs = map seg_key ys \<Longrightarrow> stream_of xs = stream_of ys"
proof (induction xs arbitrary: ys)
  case (Cons x xs)
  then obtain y zs where "ys = y # zs" "seg_key x = seg_key y" "map seg_key xs = map seg_key zs" by auto
  then show ?case using Cons.IH [of zs] seg_key_bytes [of x y] by simp
qed simp

lemma seg_wf_key: "map seg_key xs = map seg_key ys \<Longrightarrow> list_all seg_wf xs = list_all seg_wf ys"
proof (induction xs arbitrary: ys)
  case (Cons x xs)
  then obtain y zs where "ys = y # zs" "seg_key x = seg_key y" "map seg_key xs = map seg_key zs" by auto
  then show ?case using Cons.IH [of zs] seg_key_bytes [of x y] by simp
qed simp

definition queue_ok :: "u32 \<Rightarrow> u8 list \<Rightarrow> nat \<Rightarrow> u32 \<Rightarrow> tcp_seg list \<Rightarrow> bool" where
  "queue_ok sq bs l e xs \<longleftrightarrow> contig sq xs e \<and> stream_of xs = bs \<and> seq_len xs = l \<and> list_all seg_wf xs"

lemma queue_ok_key: "map seg_key xs = map seg_key ys \<Longrightarrow> queue_ok sq bs l e xs = queue_ok sq bs l e ys"
  unfolding queue_ok_def using contig_key stream_of_key seq_len_key seg_wf_key by metis

lemma merge_seg:
  assumes "enq_mergeable p fl u q" and "seg_wf u" and "seg_wf q" and "syn_fin q = synfin fl"
  defines "m \<equiv> u \<lparr> s_data := s_data u @ s_data q, s_clen := s_clen u + s_clen q, s_len := s_len u + s_len q \<rparr>"
  shows "TCP_TCPLEN m = TCP_TCPLEN u + TCP_TCPLEN q" "unat (TCP_TCPLEN m) = unat (TCP_TCPLEN u) + unat (TCP_TCPLEN q)"
    "seg_bytes m = seg_bytes u @ seg_bytes q" "seg_wf m" "seg_seqno m = seg_seqno u"
proof -
  have s: "\<not> syn_fin u" "\<not> syn_fin q" using assms(1,4) by (simp_all add: enq_mergeable_def syn_fin_def)
  have b: "unat (s_len u) + unat (s_len q) < 2 ^ LENGTH(16)"
    using assms(1) unat_less_pow [of "mss p"] by (simp add: enq_mergeable_def)
  have l: "unat (s_len m) = unat (s_len u) + unat (s_len q)" using unat_add_exact [OF b] by (simp add: m_def)
  have sm: "\<not> syn_fin m" using s by (simp add: m_def syn_fin_def)
  show t: "unat (TCP_TCPLEN m) = unat (TCP_TCPLEN u) + unat (TCP_TCPLEN q)"
    using l s sm by (simp add: unat_TCP_TCPLEN)
  then show "TCP_TCPLEN m = TCP_TCPLEN u + TCP_TCPLEN q"
    using unat_less_pow [of "TCP_TCPLEN m"] by (simp only: word_unat_eq_iff unat_add_exact)
  show "seg_bytes m = seg_bytes u @ seg_bytes q" using l s assms(2,3)
    by (simp add: seg_bytes_def seg_wf_def m_def)
  show "seg_wf m" using t l s assms(2,3) by (simp add: seg_wf_def m_def)
  show "seg_seqno m = seg_seqno u" by (simp add: m_def)
qed

lemma enq_append_ok:
  assumes "enq_append p fl queue = (us, merged)" and "queue \<noteq> []" and "\<forall>x\<in>set queue. seg_wf x \<and> syn_fin x = synfin fl"
    and "queue_ok sq b1 l1 m (unsent p)" and "queue_ok m b2 l2 e queue"
  shows "queue_ok sq (b1 @ b2) (l1 + l2) e us \<and> us \<noteq> [] \<and> (\<not> merged \<longrightarrow> last us = last queue)"
proof (cases "unsent p \<noteq> [] \<and> enq_mergeable p fl (last (unsent p)) (hd queue)")
  case False
  then have "us = unsent p @ queue" "\<not> merged" using assms(1) by (auto simp: enq_append_def)
  then show ?thesis using assms(2,4,5) by (auto simp: queue_ok_def)
next
  case True
  obtain vs u where v: "unsent p = vs @ [u]" using True by (metis rev_exhaust)
  obtain q qs where q: "queue = q # qs" using assms(2) by (cases queue) auto
  have "seg_wf u" "seg_wf q" "syn_fin q = synfin fl" "enq_mergeable p fl u q"
    using assms(3,4) True by (simp_all add: v q queue_ok_def)
  note m = merge_seg [OF this(4,1,2,3)]
  show ?thesis using assms(1,3,4,5) True m
    by (auto simp: enq_append_def v q queue_ok_def Let_def add.assoc [symmetric])
qed

lemma enq_append_mss:
  assumes "enq_append p fl queue = (us, merged)" and "queue \<noteq> []" and "\<forall>x\<in>set queue. unat (s_len x) \<le> unat (mss p)"
  shows "\<forall>x\<in>set us. x \<in> set (unsent p) \<or> unat (s_len x) \<le> unat (mss p)"
proof (cases "unsent p \<noteq> [] \<and> enq_mergeable p fl (last (unsent p)) (hd queue)")
  case False
  then have "us = unsent p @ queue" using assms(1) by (auto simp: enq_append_def)
  then show ?thesis using assms(3) by auto
next
  case True
  define u q where "u = last (unsent p)" and "q = hd queue"
  have b: "unat (s_len u) + unat (s_len q) \<le> unat (mss p)" using True by (simp add: enq_mergeable_def u_def q_def)
  then have "unat (s_len u + s_len q) \<le> unat (mss p)"
    using unat_add_exact [of "s_len u" "s_len q"] unat_less_pow [of "mss p"] by simp
  moreover have "us = butlast (unsent p) @ [u \<lparr> s_data := s_data u @ s_data q, s_clen := s_clen u + s_clen q,
      s_len := s_len u + s_len q \<rparr>] @ tl queue" using assms(1) True by (auto simp: enq_append_def u_def q_def Let_def)
  ultimately show ?thesis using assms(3) list.set_sel(2) [OF assms(2)] by (auto dest: in_set_butlastD)
qed

lemma tcp_enqueue_cases:
  assumes "tcp_enqueue env p arg len fl cp opt n = (err, p', n')"
  obtains "err = ERR_MEM" "p' = p"
  | queue q' us merged where
      "enq_loop env p fl cp opt arg (unat len) (snd_lbb p) (unat (snd_queuelen p)) [] n = (Some (queue, q'), n')"
      "enq_append p fl queue = (us, merged)" "err = ERR_OK"
      "unsent p' = (if \<not> merged \<and> s_len (last queue) > 0 then butlast us @ [set_psh (last us)] else us)"
      "unacked p' = unacked p" "snd_queuelen p' = of_nat q'"
      "snd_lbb p' = snd_lbb p + ucast (if synfin fl then len + 1 else len)"
proof (cases "len > snd_buf p \<or> unat (snd_queuelen p) \<ge> TCP_SND_QUEUELEN")
  case True
  then show thesis using assms that(1) by (simp add: tcp_enqueue_def split: if_splits)
next
  case False
  show thesis
  proof (cases "enq_loop env p fl cp opt arg (unat len) (snd_lbb p) (unat (snd_queuelen p)) [] n")
    case (Pair r n1)
    show thesis
    proof (cases r)
      case None
      then show thesis using assms False Pair that(1) by (simp add: tcp_enqueue_def)
    next
      case (Some qq)
      then obtain queue q' us merged where "r = Some (queue, q')" "enq_append p fl queue = (us, merged)"
        by (cases qq) fastforce
      then show thesis using assms False Pair that(2)
        by (auto simp: tcp_enqueue_def Let_def and_or_zero)
    qed
  qed
qed

lemma map_key_psh: "us \<noteq> [] \<Longrightarrow> map seg_key (butlast us @ [set_psh (last us)]) = map seg_key us"
  using seg_key_psh [of "last us"] append_butlast_last_id [of us] by (metis list.simps(8,9) map_append)

lemma tcp_enqueue_spec:
  assumes "tcp_enqueue env p arg len fl cp opt n = (err, p', n')" and "length arg = unat len"
    and "synfin fl \<or> opt \<noteq> None \<longrightarrow> len = 0" and "opt \<noteq> None \<longrightarrow> synfin fl" and "0 < len \<or> synfin fl"
    and "0 < mss p" and "sndq_ok p" and "seq_len (unacked p @ unsent p) + 65536 < 2 ^ 31"
  shows "(err = ERR_OK \<and> stream p' = stream p @ arg \<and> sndq_ok p' \<and> unacked p' = unacked p \<and>
      (\<forall>x\<in>set (unsent p'). x \<in> set (unsent p) \<or> unat (s_len x) \<le> unat (mss p)) \<and>
      snd_lbb p' = snd_lbb p + of_nat (length arg) + (if synfin fl then 1 else 0) \<and>
      unat (snd_queuelen p') \<le> TCP_SND_QUEUELEN) \<or>
    (err = ERR_MEM \<and> p' = p)"
  using assms(1)
proof (cases rule: tcp_enqueue_cases)
  case (2 queue q' us merged)
  have ll: "unat len < 65536" using unat_less_pow [of len] by simp
  from enq_loop_spec [OF 2(1) assms(2) ll] assms(3-6)
  have eq: "enq_result p fl (snd_lbb p) arg True queue" and q': "q' \<le> TCP_SND_QUEUELEN"
    by (auto simp: word_less_nat_alt enq_result_def split: if_splits)
  define e where "e = snd_lbb p + of_nat (length arg) + (if synfin fl then 1 else 0)"
  define l2 where "l2 = length arg + (if synfin fl then 1 else 0)"
  obtain sq m where c: "contig sq (unacked p) m" "contig m (unsent p) (snd_lbb p)"
    using assms(7) by (auto simp: sndq_ok_def)
  have qu: "queue_ok m (stream_of (unsent p)) (seq_len (unsent p)) (snd_lbb p) (unsent p)"
    using c assms(7) by (simp add: queue_ok_def sndq_ok_def)
  have qq: "queue_ok (snd_lbb p) arg l2 e queue"
    using eq by (auto simp: queue_ok_def enq_result_def e_def l2_def list_all_iff)
  from enq_append_ok [OF 2(2) _ _ qu qq] eq
  have us: "queue_ok m (stream_of (unsent p) @ arg) (seq_len (unsent p) + l2) e us" "us \<noteq> []"
    by (auto simp: enq_result_def)
  have mss: "\<forall>x\<in>set us. x \<in> set (unsent p) \<or> unat (s_len x) \<le> unat (mss p)" "unat (s_len (last queue)) \<le> unat (mss p)"
    using enq_append_mss [OF 2(2)] eq by (auto simp: enq_result_def)
  have "last us = last queue" if "\<not> merged" using enq_append_ok [OF 2(2) _ _ qu qq] eq that by (auto simp: enq_result_def)
  then have bound: "\<forall>x\<in>set (unsent p'). x \<in> set (unsent p) \<or> unat (s_len x) \<le> unat (mss p)"
    using 2(4) mss by (auto dest: in_set_butlastD)
  have "map seg_key (unsent p') = map seg_key us" using 2(4) map_key_psh [OF us(2)] by auto
  then have ok: "queue_ok m (stream_of (unsent p) @ arg) (seq_len (unsent p) + l2) e (unsent p')"
    using us(1) queue_ok_key by metis
  have "snd_lbb p' = e" using 2(7) assms(2,3) by (auto simp: e_def)
  moreover have "l2 \<le> 65536" using ll assms(2) by (simp add: l2_def)
  moreover have "unat (of_nat q' :: u8) = q'"
    using q' by (simp add: TCP_SND_QUEUELEN_def unat_of_nat take_bit_nat_eq_self)
  ultimately show ?thesis
    using ok c(1) assms(7,8) 2(3,5,6) q' bound
    by (auto simp: sndq_ok_def stream_def queue_ok_def e_def)
qed simp


lemma ex_pcb_ok: "sndq_ok ex_pcb"
  by (auto simp: sndq_ok_def seg_wf_def intro!: exI [of _ 100])

lemma ex_enqueue_ok: "fst (tcp_enqueue ex_env ex_pcb [9, 8] 2 0 True None ex_net) = ERR_OK"
  by (simp add: tcp_enqueue_def enq_loop.simps enq_pbuf_def mem_alloc_def ex_env_def ex_net_def
      ex_pcb_def zero_pcb_def Let_def TCP_MSS_def TCP_SND_BUF_def TCP_SND_QUEUELEN_def case_prod_beta)


section \<open>Acknowledgements\<close>

definition seg_end :: "tcp_seg \<Rightarrow> u32" where
  "seg_end x = seg_seqno x + TCP_TCPLEN x"

text \<open>The loop over the unacknowledged segments removes those that end no later than the
  acknowledgement; positions are relative to a fixed number \<open>b\<close>.\<close>

lemma contig_mid:
  assumes "contig m (xs @ x # ys) e" and "off b m + seq_len (xs @ x # ys) < 2 ^ 32"
  shows "off b (seg_end x) = off b m + seq_len xs + unat (TCP_TCPLEN x)"
proof -
  have "seg_seqno x = m + of_nat (seq_len xs)" using assms(1) contig_end by fastforce
  then have "off b (seg_seqno x) = off b m + seq_len xs" using assms(2) by (simp add: off_add_nat)
  then show ?thesis using off_add [of b "seg_seqno x" "TCP_TCPLEN x"] assms(2) by (simp add: seg_end_def)
qed

lemma ack_unacked_spec:
  assumes "ys = fst (ack_unacked ackno xs q)" and "contig m xs e" and "off b m + seq_len xs < 2 ^ 31"
    and "off b ackno < 2 ^ 31"
  shows "\<exists>pre. xs = pre @ ys \<and> (\<forall>x\<in>set pre. off b (seg_end x) \<le> off b ackno) \<and>
    (ys \<noteq> [] \<longrightarrow> off b ackno < off b (seg_end (hd ys)))"
  using assms
proof (induction xs arbitrary: m q)
  case (Cons x xs)
  have e: "off b (seg_end x) = off b m + unat (TCP_TCPLEN x)"
    using off_add [of b m "TCP_TCPLEN x"] Cons.prems(2,3) by (simp add: seg_end_def)
  then have l: "TCP_SEQ_LEQ (seg_seqno x + TCP_TCPLEN x) ackno \<longleftrightarrow> off b (seg_end x) \<le> off b ackno"
    using seq_leq [of b "seg_end x" ackno] Cons.prems(3,4) by (simp add: seg_end_def)
  show ?case
  proof (cases "off b (seg_end x) \<le> off b ackno")
    case True
    with Cons.prems l have "ys = fst (ack_unacked ackno xs (q - of_nat (s_clen x)))" by simp
    from Cons.IH [OF this, of "m + TCP_TCPLEN x"] Cons.prems(2-4) e obtain pre where
      "xs = pre @ ys" "\<forall>x\<in>set pre. off b (seg_end x) \<le> off b ackno"
      "ys \<noteq> [] \<longrightarrow> off b ackno < off b (seg_end (hd ys))" by (auto simp: seg_end_def)
    then show ?thesis using True by (intro exI [of _ "x # pre"]) auto
  next
    case False
    then show ?thesis using Cons.prems(1) l by (intro exI [of _ "[]"]) auto
  qed
qed simp

lemma ack_unsent_spec:
  assumes "ys = fst (ack_unsent ackno mx xs q nxt)" and "contig m xs e" and "off b m + seq_len xs < 2 ^ 31"
    and "off b ackno < 2 ^ 31" and "TCP_SEQ_LEQ ackno mx"
  shows "\<exists>pre. xs = pre @ ys \<and> (\<forall>x\<in>set pre. off b (seg_end x) \<le> off b ackno) \<and>
    (ys \<noteq> [] \<longrightarrow> off b ackno < off b (seg_end (hd ys)))"
  using assms
proof (induction xs arbitrary: m q nxt)
  case (Cons x xs)
  have e: "off b (seg_end x) = off b m + unat (TCP_TCPLEN x)"
    using off_add [of b m "TCP_TCPLEN x"] Cons.prems(2,3) by (simp add: seg_end_def)
  then have l: "TCP_SEQ_BETWEEN ackno (seg_seqno x + TCP_TCPLEN x) mx \<longleftrightarrow> off b (seg_end x) \<le> off b ackno"
    using seq_geq [of b ackno "seg_end x"] Cons.prems(3-5) by (simp add: seg_end_def TCP_SEQ_BETWEEN_def)
  show ?case
  proof (cases "off b (seg_end x) \<le> off b ackno")
    case True
    with Cons.prems l obtain q1 n1 where "ys = fst (ack_unsent ackno mx xs q1 n1)" by fastforce
    from Cons.IH [OF this, of "m + TCP_TCPLEN x"] Cons.prems(2-5) e obtain pre where
      "xs = pre @ ys" "\<forall>x\<in>set pre. off b (seg_end x) \<le> off b ackno"
      "ys \<noteq> [] \<longrightarrow> off b ackno < off b (seg_end (hd ys))" by (auto simp: seg_end_def)
    then show ?thesis using True by (intro exI [of _ "x # pre"]) auto
  next
    case False
    then show ?thesis using Cons.prems(1) l by (intro exI [of _ "[]"]) auto
  qed
qed simp

text \<open>What processing an acknowledgement of new data does to the fields of the queue.\<close>

lemma rx_cwnd_frame: "rx_cwnd p = Some p' \<Longrightarrow> \<exists>c. p' = p \<lparr> cwnd := c \<rparr>"
  by (auto simp: rx_cwnd_def Let_def split: if_splits intro: exI [of _ "cwnd p"])

lemma rx_newack_fields:
  assumes "rx_newack i p = Some p1"
  shows "(\<exists>q. unacked p1 = fst (ack_unacked (in_ackno i) (unacked p) q)) \<and> lastack p1 = in_ackno i \<and>
    snd_max p1 = snd_max p \<and> unsent p1 = unsent p \<and> snd_lbb p1 = snd_lbb p"
proof -
  define p0 where "p0 = (if flags p AND TF_INFR \<noteq> 0
     then p \<lparr> flags := flags p AND NOT TF_INFR, cwnd := ssthresh p \<rparr> else p)"
  have f0: "unacked p0 = unacked p" "snd_max p0 = snd_max p" "unsent p0 = unsent p" "snd_lbb p0 = snd_lbb p"
    by (simp_all add: p0_def)
  define p2 where "p2 = p0 \<lparr> nrtx := 0, rto := rto_of p0, acked := ucast (in_ackno i - lastack p0) \<rparr>"
  define p3 where "p3 = p2 \<lparr> snd_buf := snd_buf p2 + ((acked p2 + 1) AND NOT 1), dupacks := 0, lastack := in_ackno i \<rparr>"
  from assms obtain p4 where p4: "rx_cwnd p3 = Some p4"
    and p1: "p1 = p4 \<lparr> unacked := fst (ack_unacked (in_ackno i) (unacked p4) (snd_queuelen p4)),
                snd_queuelen := snd (ack_unacked (in_ackno i) (unacked p4) (snd_queuelen p4)), polltmr := 0 \<rparr>"
    unfolding rx_newack_def Let_def p0_def [symmetric] p2_def [symmetric] p3_def [symmetric]
    by (auto simp: bind_eq_Some_conv case_prod_beta)
  from rx_cwnd_frame [OF p4] obtain c where "p4 = p3 \<lparr> cwnd := c \<rparr>" by blast
  then show ?thesis using p1 by (auto simp: p3_def p2_def f0)
qed

lemma rx_rtt_fields [simp]:
  "unacked (rx_rtt t i p) = unacked p" "unsent (rx_rtt t i p) = unsent p" "lastack (rx_rtt t i p) = lastack p"
  "snd_lbb (rx_rtt t i p) = snd_lbb p"
  by (simp_all add: rx_rtt_def Let_def)

lemma rx_window_fields [simp]:
  "lastack (rx_window i p) = lastack p" "snd_max (rx_window i p) = snd_max p"
  "unacked (rx_window i p) = unacked p" "unsent (rx_window i p) = unsent p" "snd_lbb (rx_window i p) = snd_lbb p"
  by (simp_all add: rx_window_def)

lemma rx_ack_new_fields:
  assumes "rx_ack env a i p n = Some (p', n')" and "lastack p \<noteq> in_ackno i"
    and "TCP_SEQ_BETWEEN (in_ackno i) (lastack p + 1) (snd_max p)"
  shows "(\<exists>q. unacked p' = fst (ack_unacked (in_ackno i) (unacked p) q)) \<and>
    (\<exists>q nxt. unsent p' = fst (ack_unsent (in_ackno i) (snd_max p) (unsent p) q nxt)) \<and>
    lastack p' = in_ackno i \<and> snd_lbb p' = snd_lbb p \<and> n' = n"
proof -
  obtain p1 where p1: "rx_newack i (rx_window i p) = Some p1"
    and p': "p' = rx_rtt (tcp_ticks n) i (rx_unsent i p1)" "n' = n"
    using assms by (auto simp: rx_ack_def Let_def bind_eq_Some_conv)
  show ?thesis using rx_newack_fields [OF p1]
    by (auto simp: p' rx_unsent_def Let_def case_prod_beta)
qed

lemma rx_ack_spec:
  assumes "rx_ack env a i p n = Some (p', n')" and "lastack p \<noteq> in_ackno i"
    and "TCP_SEQ_BETWEEN (in_ackno i) (lastack p + 1) (snd_max p)" and "sndq_ok p"
    and "contig sq (unacked p @ unsent p) (snd_lbb p)" and "off sq (in_ackno i) < 2 ^ 31"
  shows "\<exists>done. unacked p @ unsent p = done @ unacked p' @ unsent p' \<and>
    stream p = stream_of done @ stream p' \<and> sndq_ok p' \<and> lastack p' = in_ackno i \<and>
    (\<forall>x\<in>set done. off sq (seg_end x) \<le> off sq (in_ackno i)) \<and>
    (unacked p' @ unsent p' \<noteq> [] \<longrightarrow> off sq (in_ackno i) < off sq (seg_end (hd (unacked p' @ unsent p'))))"
proof -
  from rx_ack_new_fields [OF assms(1-3)] obtain q q1 nxt where
    a: "unacked p' = fst (ack_unacked (in_ackno i) (unacked p) q)"
    and u: "unsent p' = fst (ack_unsent (in_ackno i) (snd_max p) (unsent p) q1 nxt)"
    and f: "lastack p' = in_ackno i" "snd_lbb p' = snd_lbb p" by blast
  obtain m where m: "contig sq (unacked p) m" "contig m (unsent p) (snd_lbb p)" using assms(5) by auto
  have l: "seq_len (unacked p) + seq_len (unsent p) < 2 ^ 31" using assms(4) by (simp add: sndq_ok_def)
  have om: "off sq m = seq_len (unacked p)" using contig_off [OF m(1)] l by simp
  from ack_unacked_spec [OF a m(1), of sq] l assms(6) obtain d1 where
    d1: "unacked p = d1 @ unacked p'" "\<forall>x\<in>set d1. off sq (seg_end x) \<le> off sq (in_ackno i)"
    "unacked p' \<noteq> [] \<longrightarrow> off sq (in_ackno i) < off sq (seg_end (hd (unacked p')))" by auto
  from ack_unsent_spec [OF u m(2), of sq] l om assms(3,6) obtain d2 where
    d2: "unsent p = d2 @ unsent p'" "\<forall>x\<in>set d2. off sq (seg_end x) \<le> off sq (in_ackno i)"
    "unsent p' \<noteq> [] \<longrightarrow> off sq (in_ackno i) < off sq (seg_end (hd (unsent p')))"
    by (auto simp: TCP_SEQ_BETWEEN_def)
  have e: "unacked p' = [] \<or> d2 = []"
  proof (rule ccontr)
    assume "\<not> ?thesis"
    then obtain x xs y ys where xy: "unacked p' = x # xs" "d2 = y # ys"
      by (cases "unacked p'"; cases d2) auto
    have "off sq (seg_end x) \<le> seq_len (unacked p)"
      using contig_mid [of sq d1 x xs m sq] m(1) d1(1) l xy by simp
    moreover have "seq_len (unacked p) \<le> off sq (seg_end y)"
      using contig_mid [of m "[]" y "ys @ unsent p'" "snd_lbb p" sq] m(2) d2(1) l xy om by simp
    ultimately show False using d1(3) d2(2) xy by simp
  qed
  then have s: "unacked p @ unsent p = (d1 @ d2) @ unacked p' @ unsent p'" using d1(1) d2(1) by auto
  moreover have "sndq_ok p'" using assms(4) f(2) unfolding sndq_ok_def s by (auto simp: s)
  moreover have "stream p = stream_of (d1 @ d2) @ stream p'"
    unfolding stream_def s by (simp only: stream_of_simps append_assoc)
  moreover have "unacked p' @ unsent p' \<noteq> [] \<longrightarrow> off sq (in_ackno i) < off sq (seg_end (hd (unacked p' @ unsent p')))"
    using d1(3) d2(3) by (cases "unacked p'") auto
  ultimately show ?thesis using d1(2) d2(2) f(1) by (intro exI [of _ "d1 @ d2"]) auto
qed

text \<open>C21: An acknowledgement of new data removes from the send queue exactly the segments it covers:
  the leading segments that end no later than the acknowledgement number, from both queues, so that
  what remains unacknowledged is the rest of the byte stream.\<close>

theorem rx_ack_removes_prefix:
  assumes "rx_ack env a i p n = Some (p', n')" and "lastack p \<noteq> in_ackno i"
    and "TCP_SEQ_BETWEEN (in_ackno i) (lastack p + 1) (snd_max p)" and "sndq_ok p"
    and "contig sq (unacked p @ unsent p) (snd_lbb p)" and "off sq (in_ackno i) < 2 ^ 31"
  shows "\<exists>done. unacked p @ unsent p = done @ unacked p' @ unsent p' \<and>
    stream p = stream_of done @ stream p' \<and> sndq_ok p' \<and> lastack p' = in_ackno i \<and>
    (\<forall>x\<in>set done. off sq (seg_end x) \<le> off sq (in_ackno i)) \<and>
    (unacked p' @ unsent p' \<noteq> [] \<longrightarrow> off sq (in_ackno i) < off sq (seg_end (hd (unacked p' @ unsent p'))))"
  using assms by (rule rx_ack_spec)

definition ex_ack :: tcp_in where
  "ex_ack = \<lparr> inseg = ex_seg 50 [], inseg_p = True, in_opts = [], in_src = 2, in_dest = 1, in_seqno = 50,
     in_ackno = 103, in_flags = TCP_ACK, in_tcplen = 0, recv_flags = 0, recv_data = None \<rparr>"

definition ex_sent :: tcp_pcb where
  "ex_sent = ex_pcb \<lparr> unacked := [ex_seg 100 [1, 2, 3]], unsent := [ex_seg 103 [4, 5]], snd_nxt := 103,
     snd_max := 103 \<rparr>"

lemma ex_sent_simps [simp]:
  "unacked ex_sent = [ex_seg 100 [1, 2, 3]]" "unsent ex_sent = [ex_seg 103 [4, 5]]" "lastack ex_sent = 100"
  "snd_max ex_sent = 103" "snd_lbb ex_sent = 105" "sndq_ok ex_sent"
  by (auto simp: ex_sent_def sndq_ok_def seg_wf_def intro!: exI [of _ 100])

lemma ex_ack_runs: "rx_ack ex_env 0 ex_ack ex_sent ex_net \<noteq> None"
  by (simp add: rx_ack_def rx_newack_def rx_cwnd_def rx_window_def ex_sent_def ex_ack_def ex_pcb_def zero_pcb_def
      Let_def TCP_SEQ_BETWEEN_def TCP_SEQ_GEQ_def TCP_SEQ_LEQ_def TCP_SEQ_LT_def case_prod_beta)

theorem rx_ack_removes_prefix_witness:
  "\<exists>done p'. map_option fst (rx_ack ex_env 0 ex_ack ex_sent ex_net) = Some p' \<and>
    unacked ex_sent @ unsent ex_sent = done @ unacked p' @ unsent p' \<and> stream ex_sent = stream_of done @ stream p'"
proof -
  obtain p' n' where r: "rx_ack ex_env 0 ex_ack ex_sent ex_net = Some (p', n')" using ex_ack_runs by auto
  have "\<exists>done. unacked ex_sent @ unsent ex_sent = done @ unacked p' @ unsent p' \<and>
      stream ex_sent = stream_of done @ stream p'"
    using rx_ack_removes_prefix [OF r, of 100]
    by (simp add: ex_ack_def TCP_SEQ_BETWEEN_def TCP_SEQ_GEQ_def TCP_SEQ_LEQ_def off_def) blast
  then show ?thesis using r by auto
qed

end
