(* ===== verification/Tcp_Fifo.thy ===== *)
theory Tcp_Fifo
  imports Tcp_Queue "HOL-Library.Multiset"
begin

text \<open>
  The sending side over whole runs.  Every byte is queued together with its sequence number; the
  queues \<open>unacked\<close> and \<open>unsent\<close> together are a collection of numbered bytes.  Writing adds the given bytes with the next
  numbers, sending and retransmitting move segments between the queues, not always in order, and an
  acknowledgement removes only bytes it covers.
\<close>

section \<open>Numbered bytes\<close>

fun number :: "u32 \<Rightarrow> u8 list \<Rightarrow> (u32 \<times> u8) list" where
  "number q [] = []"
| "number q (b # bs) = (q, b) # number (q + 1) bs"

lemma number_append: "number q (xs @ ys) = number q xs @ number (q + of_nat (length xs)) ys"
  by (induction xs arbitrary: q) (simp_all add: add.assoc)

lemma number_mem: "(s, b) \<in> set (number q bs) \<Longrightarrow> \<exists>j < length bs. s = q + of_nat j"
proof (induction bs arbitrary: q)
  case (Cons c bs)
  then consider "s = q" | "(s, b) \<in> set (number (q + 1) bs)" by auto
  then show ?case
  proof cases
    case 2
    from Cons.IH [OF this] obtain j where "j < length bs" "s = q + 1 + of_nat j" by blast
    then show ?thesis by (intro exI [of _ "Suc j"]) (simp add: algebra_simps)
  qed (auto intro: exI [of _ 0])
qed simp

definition seg_numbered :: "tcp_seg \<Rightarrow> (u32 \<times> u8) list" where
  "seg_numbered x = number (seg_seqno x) (seg_bytes x)"

definition content :: "tcp_seg list \<Rightarrow> (u32 \<times> u8) multiset" where
  "content xs = (\<Sum>x\<in>#mset xs. mset (seg_numbered x))"

definition queued :: "tcp_pcb \<Rightarrow> (u32 \<times> u8) multiset" where
  "queued p = content (unacked p @ unsent p)"

lemma content_simps [simp]:
  "content [] = {#}" "content (x # xs) = mset (seg_numbered x) + content xs" "content (xs @ ys) = content xs + content ys"
  by (simp_all add: content_def)

text \<open>A byte is covered by an acknowledgement number that lies after it, in the half of the number space that
  the comparison of the code takes for later, counted from the end of the segment of the byte.\<close>

definition acked_by :: "u32 \<Rightarrow> u32 \<Rightarrow> bool" where
  "acked_by s k \<longleftrightarrow> 0 < unat (k - s) \<and> unat (k - s) \<le> 2 ^ 31 + 65536"

lemma seq_leq_off:
  assumes "TCP_SEQ_LEQ e k"
  shows "unat (k - e) \<le> 2 ^ 31"
proof (rule ccontr)
  assume "\<not> ?thesis"
  then have gt: "2 ^ 31 < off e k" by (simp add: off_def)
  then have "off k e < 2 ^ 31" by (rule off_rev)
  then have "e = k" using seq_leq [of k e k] assms by simp
  then show False using gt by simp
qed

lemma seq_geq_off: "TCP_SEQ_GEQ k e \<Longrightarrow> unat (k - e) \<le> 2 ^ 31"
  using not_seq_geq [of e k] by (cases "2 ^ 31 \<le> unat (k - e)") (simp_all add: off_def)

lemma covered_bytes:
  assumes "unat (k - seg_end x) \<le> 2 ^ 31" and "(s, b) \<in> set (seg_numbered x)"
  shows "acked_by s k"
proof -
  obtain j where j: "j < length (seg_bytes x)" "s = seg_seqno x + of_nat j"
    using number_mem [of s b "seg_seqno x" "seg_bytes x"] assms(2) by (auto simp: seg_numbered_def)
  have l: "j < unat (TCP_TCPLEN x)" "unat (TCP_TCPLEN x) \<le> 65536"
    using j(1) unat_less_pow [of "s_len x"] by (simp_all add: seg_bytes_def unat_TCP_TCPLEN)
  have u: "unat (of_nat j :: u32) = j" using l by (simp add: unat_of_nat take_bit_nat_eq_self)
  define d where "d = TCP_TCPLEN x - of_nat j"
  have d: "unat d = unat (TCP_TCPLEN x) - j" using l(1) u by (simp add: d_def unat_sub word_le_nat_alt)
  have e: "k - s = (k - seg_end x) + d" by (simp add: d_def seg_end_def j(2))
  have "unat (k - seg_end x) + unat d < 2 ^ LENGTH(32)" using assms(1) d l by simp
  then have "unat (k - s) = unat (k - seg_end x) + unat d" unfolding e by (rule unat_add_exact)
  then show ?thesis using assms(1) d l by (simp add: acked_by_def)
qed

section \<open>Moving segments about\<close>

text \<open>The collection of segments, up to the header fields that sending fills in.\<close>

abbreviation keys :: "tcp_pcb \<Rightarrow> (u32 \<times> u16 \<times> u8 list \<times> nat \<times> bool) multiset" where
  "keys p \<equiv> mset (map seg_key (unacked p @ unsent p))"

definition segs_ok :: "tcp_pcb \<Rightarrow> bool" where
  "segs_ok p \<longleftrightarrow> (\<forall>x\<in>set (unacked p @ unsent p). seg_wf x)"

fun key_numbered :: "u32 \<times> u16 \<times> u8 list \<times> nat \<times> bool \<Rightarrow> (u32 \<times> u8) list" where
  "key_numbered (q, l, d, k, f) = number q (take (unat l) d)"

lemma queued_keys: "queued p = (\<Sum>k\<in>#keys p. mset (key_numbered k))"
proof -
  have "seg_numbered x = key_numbered (seg_key x)" for x by (simp add: seg_numbered_def seg_key_def seg_bytes_def)
  then show ?thesis by (simp add: queued_def content_def image_mset.compositionality comp_def)
qed

lemma same_keys:
  assumes "keys p' = keys p"
  shows "queued p' = queued p" "segs_ok p' = segs_ok p"
proof -
  show "queued p' = queued p" by (simp only: queued_keys assms)
  have s: "seg_key ` set (unacked p' @ unsent p') = seg_key ` set (unacked p @ unsent p)"
    using arg_cong [OF assms, of set_mset] by (simp add: image_Un)
  have "(\<forall>x\<in>A. seg_wf x) = (\<forall>x\<in>B. seg_wf x)" if "seg_key ` A = seg_key ` B" for A B
    using that seg_key_bytes by (metis (no_types, lifting) imageE imageI)
  from this [OF s] show "segs_ok p' = segs_ok p" by (simp only: segs_ok_def)
qed

lemma keys_insert: "mset (map seg_key (unack_insert x us)) = add_mset (seg_key x) (mset (map seg_key us))"
  by (simp add: unack_insert_def)

lemma out_loop_keys:
  assumes "out_loop env wnd segs p n = (p', n')" and "unsent p = segs" and "\<forall>x\<in>set segs. 0 < unat (TCP_TCPLEN x)"
  shows "keys p' = keys p"
  using assms
proof (induction segs arbitrary: p n)
  case (Cons x segs)
  show ?case
  proof (cases "seg_seqno x - lastack p + ucast (s_len x) \<le> wnd")
    case True
    obtain p1 n1 where o: "out_one env x segs p n = (p1, n1)" by fastforce
    have "0 < unat (TCP_TCPLEN x)" using Cons.prems(3) by simp
    from out_one_spec [OF o this] obtain y where
      y: "seg_key y = seg_key x" "unacked p1 = unack_insert y (unacked p)" "unsent p1 = segs" by blast
    have "keys p' = keys p1" using Cons.IH [of p1 n1] Cons.prems True o y(3) by simp
    then show ?thesis using y Cons.prems(2) keys_insert [of y "unacked p"] by simp
  qed (use Cons.prems in simp)
qed simp

lemma segs_ok_pos: "segs_ok p \<Longrightarrow> \<forall>x\<in>set (unacked p @ unsent p). 0 < unat (TCP_TCPLEN x)"
  by (simp add: segs_ok_def seg_wf_def)

lemma output_keys:
  assumes "tcp_output env a p n = (err, p', n')" and "segs_ok p"
  shows "keys p' = keys p" "snd_lbb p' = snd_lbb p"
proof -
  show "snd_lbb p' = snd_lbb p" using out_erase_fields(3) [OF tcp_output_frame [OF assms(1)]] .
  have "\<forall>x\<in>set (unsent p). 0 < unat (TCP_TCPLEN x)" using segs_ok_pos [OF assms(2)] by simp
  from out_loop_keys [OF _ refl this, of env "send_wnd p" n p' n'] show "keys p' = keys p"
    using tcp_output_cases [OF assms(1)] by auto
qed

lemma reordered_output:
  assumes "tcp_output env a q n = (err, p', n')" and "keys q = keys p" and "snd_lbb q = snd_lbb p" and "segs_ok p"
  shows "keys p' = keys p \<and> snd_lbb p' = snd_lbb p"
  using output_keys [OF assms(1)] same_keys(2) [OF assms(2)] assms by simp

lemma rexmit_keys:
  assumes "tcp_rexmit env a p n = (p', n')" and "segs_ok p"
  shows "keys p' = keys p \<and> snd_lbb p' = snd_lbb p"
proof (cases "unacked p")
  case (Cons seg rest)
  define q where "q = p \<lparr> unsent := seg # unsent p, unacked := rest, snd_nxt := seg_seqno seg, nrtx := nrtx p + 1, rttest := 0 \<rparr>"
  obtain err where "tcp_output env a q n = (err, p', n')"
    using assms(1) Cons unfolding tcp_rexmit_def q_def by (cases "tcp_output env a q n") (auto simp: q_def)
  moreover have "keys q = keys p" "snd_lbb q = snd_lbb p" by (simp_all add: q_def Cons)
  ultimately show ?thesis using reordered_output assms(2) by blast
qed (use assms in \<open>simp add: tcp_rexmit_def\<close>)

lemma rexmit_rto_keys:
  assumes "tcp_rexmit_rto env a p n = (p', n')" and "segs_ok p"
  shows "keys p' = keys p \<and> snd_lbb p' = snd_lbb p"
proof (cases "unacked p")
  case (Cons seg rest)
  define q where "q = p \<lparr> unsent := unacked p @ unsent p, unacked := [], snd_nxt := seg_seqno seg, nrtx := nrtx p + 1, rttest := 0 \<rparr>"
  obtain err where "tcp_output env a q n = (err, p', n')"
    using assms(1) Cons unfolding tcp_rexmit_rto_def q_def by (cases "tcp_output env a q n") (auto simp: q_def)
  moreover have "keys q = keys p" "snd_lbb q = snd_lbb p" by (simp_all add: q_def)
  ultimately show ?thesis using reordered_output assms(2) by blast
qed (use assms in \<open>simp add: tcp_rexmit_rto_def\<close>)

section \<open>Acknowledgements of every kind\<close>

lemma dupack_keys:
  assumes "rx_dupack env a e p n = (p', n')" and "segs_ok p"
  shows "keys p' = keys p \<and> snd_lbb p' = snd_lbb p"
proof -
  define q where "q = p \<lparr> acked := 0, dupacks := dupacks p + 1 \<rparr>"
  obtain r m where r: "tcp_rexmit env a q n = (r, m)" by fastforce
  have q: "segs_ok q" "keys q = keys p" "snd_lbb q = snd_lbb p" using assms(2) by (simp_all add: q_def segs_ok_def)
  have "keys r = keys p \<and> snd_lbb r = snd_lbb p" using rexmit_keys [OF r q(1)] q by simp
  moreover have "(unacked p' = unacked p \<and> unsent p' = unsent p \<and> snd_lbb p' = snd_lbb p) \<or>
      (unacked p' = unacked r \<and> unsent p' = unsent r \<and> snd_lbb p' = snd_lbb r)"
    using assms(1) r unfolding rx_dupack_def q_def by (auto simp: Let_def split: if_splits)
  ultimately show ?thesis by auto
qed

lemma ack_unacked_covers: "\<exists>pre. xs = pre @ fst (ack_unacked k xs c) \<and> (\<forall>x\<in>set pre. unat (k - seg_end x) \<le> 2 ^ 31)"
proof (induction xs arbitrary: c)
  case (Cons x xs)
  show ?case
  proof (cases "TCP_SEQ_LEQ (seg_seqno x + TCP_TCPLEN x) k")
    case True
    obtain pre where "xs = pre @ fst (ack_unacked k xs (c - of_nat (s_clen x)))" "\<forall>x\<in>set pre. unat (k - seg_end x) \<le> 2 ^ 31"
      using Cons.IH by blast
    then show ?thesis using True seq_leq_off [OF True] by (intro exI [of _ "x # pre"]) (simp add: seg_end_def)
  qed auto
qed simp

lemma ack_unsent_covers: "\<exists>pre. xs = pre @ fst (ack_unsent k mx xs c nxt) \<and> (\<forall>x\<in>set pre. unat (k - seg_end x) \<le> 2 ^ 31)"
proof (induction xs arbitrary: c nxt)
  case (Cons x xs)
  show ?case
  proof (cases "TCP_SEQ_BETWEEN k (seg_seqno x + TCP_TCPLEN x) mx")
    case True
    then have "unat (k - seg_end x) \<le> 2 ^ 31" using seq_geq_off by (simp add: TCP_SEQ_BETWEEN_def seg_end_def)
    moreover obtain pre where "xs = pre @ fst (ack_unsent k mx xs (c - of_nat (s_clen x)) (case xs of [] \<Rightarrow> nxt | s # _ \<Rightarrow> seg_seqno s))"
      "\<forall>x\<in>set pre. unat (k - seg_end x) \<le> 2 ^ 31" using Cons.IH by blast
    ultimately show ?thesis using True by (intro exI [of _ "x # pre"]) simp
  qed auto
qed simp

text \<open>Before the segments are removed, a duplicate acknowledgement may have moved one.\<close>

lemma rx_ack_removes:
  assumes "rx_ack env a i p n = Some (p', n')" and "segs_ok p"
  shows "\<exists>q pre1 pre2. keys q = keys p \<and> snd_lbb p' = snd_lbb p \<and> unacked q = pre1 @ unacked p' \<and> unsent q = pre2 @ unsent p' \<and>
    (\<forall>x\<in>set (pre1 @ pre2). unat (in_ackno i - seg_end x) \<le> 2 ^ 31)"
proof -
  let ?w = "rx_window i p" and ?k = "in_ackno i"
  obtain q1 n1 where q1: "(if lastack ?w = ?k then Some (rx_dupack env a (snd_wnd p + snd_wl1 p) ?w n)
      else if TCP_SEQ_BETWEEN ?k (lastack ?w + 1) (snd_max ?w)
      then Option.bind (rx_newack i ?w) (\<lambda>pcb. Some (pcb, n)) else Some (?w, n)) = Some (q1, n1)"
    and p': "p' = rx_rtt (tcp_ticks n1) i (rx_unsent i q1)"
    using assms(1) by (auto simp: rx_ack_def Let_def bind_eq_Some_conv)
  have w: "segs_ok ?w" "keys ?w = keys p" "snd_lbb ?w = snd_lbb p" using assms(2) by (simp_all add: segs_ok_def)
  have "\<exists>q pre. keys q = keys p \<and> snd_lbb q1 = snd_lbb p \<and> unacked q = pre @ unacked q1 \<and> unsent q = unsent q1 \<and>
      (\<forall>x\<in>set pre. unat (?k - seg_end x) \<le> 2 ^ 31)"
  proof (cases "lastack ?w = ?k")
    case True
    then have "rx_dupack env a (snd_wnd p + snd_wl1 p) ?w n = (q1, n1)" using q1 by simp
    from dupack_keys [OF this w(1)] show ?thesis using w by (intro exI [of _ q1] exI [of _ "[]"]) simp
  next
    case ne: False
    show ?thesis
    proof (cases "TCP_SEQ_BETWEEN ?k (lastack ?w + 1) (snd_max ?w)")
      case True
      then have "rx_newack i ?w = Some q1" using q1 ne by (auto simp: bind_eq_Some_conv)
      from rx_newack_fields [OF this] obtain c where
        c: "unacked q1 = fst (ack_unacked ?k (unacked ?w) c)" "unsent q1 = unsent ?w" "snd_lbb q1 = snd_lbb ?w" by blast
      obtain pre where "unacked ?w = pre @ unacked q1" "\<forall>x\<in>set pre. unat (?k - seg_end x) \<le> 2 ^ 31"
        using ack_unacked_covers [of "unacked ?w" ?k c] c(1) by auto
      then show ?thesis using c w by (intro exI [of _ ?w] exI [of _ pre]) simp
    next
      case False
      then have "q1 = ?w" using q1 ne by simp
      then show ?thesis using w by (intro exI [of _ ?w] exI [of _ "[]"]) simp
    qed
  qed
  then obtain q pre where q: "keys q = keys p" "snd_lbb q1 = snd_lbb p" "unacked q = pre @ unacked q1" "unsent q = unsent q1"
    "\<forall>x\<in>set pre. unat (?k - seg_end x) \<le> 2 ^ 31" by blast
  obtain pre2 where u: "unsent q1 = pre2 @ unsent p'" "\<forall>x\<in>set pre2. unat (?k - seg_end x) \<le> 2 ^ 31"
    using ack_unsent_covers [of "unsent q1" ?k "snd_max q1" "snd_queuelen q1" "snd_nxt q1"]
    by (auto simp: p' rx_unsent_def case_prod_beta)
  have "unacked p' = unacked q1" "snd_lbb p' = snd_lbb q1" by (simp_all add: p' rx_unsent_def case_prod_beta)
  then show ?thesis using q u by (intro exI [of _ q] exI [of _ pre] exI [of _ pre2]) auto
qed

lemma rx_ack_content:
  assumes "rx_ack env a i p n = Some (p', n')" and "segs_ok p"
  shows "segs_ok p'" "snd_lbb p' = snd_lbb p"
    "\<exists>gone. queued p = gone + queued p' \<and> (\<forall>(s, b)\<in>#gone. acked_by s (in_ackno i))"
proof -
  obtain q pre1 pre2 where q: "keys q = keys p" "snd_lbb p' = snd_lbb p" "unacked q = pre1 @ unacked p'" "unsent q = pre2 @ unsent p'"
    "\<forall>x\<in>set (pre1 @ pre2). unat (in_ackno i - seg_end x) \<le> 2 ^ 31" using rx_ack_removes [OF assms] by blast
  show "snd_lbb p' = snd_lbb p" by (rule q(2))
  have "segs_ok q" using same_keys(2) [OF q(1)] assms(2) by simp
  then show "segs_ok p'" by (auto simp: segs_ok_def q(3,4))
  have "queued p = content (pre1 @ pre2) + queued p'"
    using same_keys(1) [OF q(1)] by (simp add: queued_def q(3,4) ac_simps)
  moreover have "\<forall>(s, b)\<in>#content (pre1 @ pre2). acked_by s (in_ackno i)"
    using q(5) covered_bytes by (fastforce simp: content_def)
  ultimately show "\<exists>gone. queued p = gone + queued p' \<and> (\<forall>(s, b)\<in>#gone. acked_by s (in_ackno i))" by blast
qed

section \<open>Writing\<close>

text \<open>Whether the last unsent segment ends where new data begins.  A fast retransmission leaves a segment
  from the front of the queue alone on \<open>unsent\<close> until it is sent; new data written at that moment is appended to it although
  it does not continue it.\<close>

definition in_order :: "tcp_pcb \<Rightarrow> bool" where
  "in_order p \<longleftrightarrow> (unsent p \<noteq> [] \<longrightarrow> seg_end (last (unsent p)) = snd_lbb p)"

lemma contig_content:
  "contig q xs e \<Longrightarrow> \<forall>x\<in>set xs. \<not> syn_fin x \<and> seg_wf x \<Longrightarrow> content xs = mset (number q (stream_of xs))"
proof (induction xs arbitrary: q)
  case (Cons x xs)
  have x: "\<not> syn_fin x" "seg_wf x" using Cons.prems(2) by simp_all
  then have "length (seg_bytes x) = unat (s_len x)" by (simp add: seg_bytes_def seg_wf_def)
  then have "TCP_TCPLEN x = of_nat (length (seg_bytes x))" using x(1) by (simp add: TCP_TCPLEN_alt)
  then show ?case using Cons.IH [of "q + TCP_TCPLEN x"] Cons.prems by (simp add: seg_numbered_def number_append)
qed simp

lemma merge_numbered:
  assumes "enq_mergeable p fl u q" and "seg_wf u" and "seg_wf q" and "syn_fin q = synfin fl" and "seg_seqno q = seg_end u"
  shows "seg_numbered (u \<lparr> s_data := s_data u @ s_data q, s_clen := s_clen u + s_clen q, s_len := s_len u + s_len q \<rparr>) =
    seg_numbered u @ seg_numbered q"
proof -
  have "\<not> syn_fin u" using assms(1) by (simp add: enq_mergeable_def syn_fin_def)
  then have "length (seg_bytes u) = unat (s_len u)" "TCP_TCPLEN u = of_nat (unat (s_len u))"
    using assms(2) by (simp_all add: seg_bytes_def seg_wf_def TCP_TCPLEN_alt)
  then have "seg_end u = seg_seqno u + of_nat (length (seg_bytes u))" by (simp add: seg_end_def)
  then show ?thesis using merge_seg(3,5) [OF assms(1-4)] assms(5) by (simp add: seg_numbered_def number_append)
qed

lemma enq_append_content:
  assumes "enq_append p fl queue = (us, merged)" and "queue \<noteq> []" and "\<forall>x\<in>set queue. seg_wf x \<and> syn_fin x = synfin fl"
    and "\<forall>x\<in>set (unsent p). seg_wf x" and "in_order p" and "seg_seqno (hd queue) = snd_lbb p"
  shows "content us = content (unsent p) + content queue \<and> (\<forall>x\<in>set us. seg_wf x) \<and> us \<noteq> []"
proof (cases "unsent p \<noteq> [] \<and> enq_mergeable p fl (last (unsent p)) (hd queue)")
  case False
  then have "us = unsent p @ queue" using assms(1) by (auto simp: enq_append_def)
  then show ?thesis using assms(2-4) by auto
next
  case True
  obtain vs u where v: "unsent p = vs @ [u]" using True by (metis rev_exhaust)
  obtain q qs where q: "queue = q # qs" using assms(2) by (cases queue) auto
  have uq: "enq_mergeable p fl u q" "seg_wf u" "seg_wf q" "syn_fin q = synfin fl" "seg_seqno q = seg_end u"
    using assms(3-6) True by (simp_all add: v q in_order_def)
  show ?thesis using assms(1,3,4) True merge_numbered [OF uq] merge_seg(4) [OF uq(1-4)]
    by (auto simp: enq_append_def v q Let_def)
qed

lemma content_key: "map seg_key xs = map seg_key ys \<Longrightarrow> content xs = content ys \<and> (\<forall>x\<in>set xs. seg_wf x) = (\<forall>y\<in>set ys. seg_wf y)"
proof (induction xs arbitrary: ys)
  case (Cons x xs)
  then obtain y zs where y: "ys = y # zs" "seg_key x = seg_key y" "map seg_key xs = map seg_key zs" by auto
  then show ?case using Cons.IH [of zs] seg_key_bytes [OF y(2)] seg_key_seqno [OF y(2)] by (simp add: seg_numbered_def)
qed simp

lemma enqueue_content:
  assumes "tcp_enqueue env p d len 0 cp None n = (err, p', n')" and "length d = unat len" and "0 < len" and "0 < mss p"
    and "in_order p" and "segs_ok p"
  shows "if err = ERR_OK
    then segs_ok p' \<and> snd_lbb p' = snd_lbb p + of_nat (length d) \<and> queued p' = queued p + mset (number (snd_lbb p) d)
    else p' = p"
  using assms(1)
proof (cases rule: tcp_enqueue_cases)
  case 1
  then show ?thesis by (simp add: ERR_OK_def ERR_MEM_def)
next
  case (2 queue q' us merged)
  have "unat len < 65536" using unat_less_pow [of len] by simp
  from enq_loop_spec [OF 2(1) assms(2) this] assms(3,4)
  have eq: "enq_result p 0 (snd_lbb p) d True queue" by (auto simp: word_less_nat_alt enq_result_def)
  then have c: "contig (snd_lbb p) queue (snd_lbb p + of_nat (length d))" "stream_of queue = d" "queue \<noteq> []"
    "\<forall>x\<in>set queue. seg_wf x \<and> syn_fin x = synfin 0" by (auto simp: enq_result_def)
  then have hd: "seg_seqno (hd queue) = snd_lbb p" by (cases queue) auto
  have wf: "\<forall>x\<in>set (unsent p). seg_wf x" "\<forall>x\<in>set (unacked p). seg_wf x" using assms(6) by (auto simp: segs_ok_def)
  have us: "content us = content (unsent p) + content queue" "\<forall>x\<in>set us. seg_wf x" "us \<noteq> []"
    using enq_append_content [OF 2(2) c(3,4) wf(1) assms(5) hd] by simp_all
  have q: "content queue = mset (number (snd_lbb p) d)" using contig_content [OF c(1)] c(2,4) by simp
  have "map seg_key (unsent p') = map seg_key us" using 2(4) map_key_psh [OF us(3)] by auto
  from content_key [OF this] have "content (unsent p') = content us" "\<forall>x\<in>set (unsent p'). seg_wf x" using us(2) by simp_all
  moreover have "snd_lbb p' = snd_lbb p + of_nat (length d)" using 2(7) assms(2) by simp
  ultimately show ?thesis using 2(3,5) us(1) wf(2) q by (auto simp: queued_def segs_ok_def)
qed

lemma write_content:
  assumes "tcp_write env p d len cp n = (err, p', n')" and "length d = unat len" and "0 < mss p" and "in_order p" and "segs_ok p"
  shows "if err = ERR_OK
    then segs_ok p' \<and> snd_lbb p' = snd_lbb p + of_nat (length d) \<and> queued p' = queued p + mset (number (snd_lbb p) d)
    else p' = p"
proof (cases "0 < len \<and> (state p = ESTABLISHED \<or> state p = CLOSE_WAIT \<or> state p = SYN_SENT \<or> state p = SYN_RCVD)")
  case True
  then have "tcp_enqueue env p d len 0 cp None n = (err, p', n')" using assms(1) by (simp add: tcp_write_def)
  from enqueue_content [OF this assms(2) _ assms(3-5)] show ?thesis using True by blast
next
  case False
  then have "p' = p" "err = ERR_OK \<longrightarrow> len = 0"
    using assms(1) by (auto simp: tcp_write_def ERR_OK_def ERR_CONN_def word_gt_0 split: if_splits)
  then show ?thesis using assms(2,5) by auto
qed

section \<open>Whole runs\<close>

text \<open>An abstract sender: a collection of numbered bytes and the next number.  A write adds its bytes with
  consecutive numbers, an acknowledgement takes out bytes that its number covers, and nothing else changes it.\<close>

datatype snd_ev = Wrote "u8 list" | Moved | Acked u32

fun written :: "snd_ev list \<Rightarrow> u8 list" where
  "written [] = []"
| "written (Wrote d # evs) = d @ written evs"
| "written (_ # evs) = written evs"

inductive trace :: "(snd_ev \<Rightarrow> 's \<Rightarrow> 's \<Rightarrow> bool) \<Rightarrow> 's \<Rightarrow> snd_ev list \<Rightarrow> 's \<Rightarrow> bool" for step where
  trace_nil: "trace step p [] p"
| trace_step: "step ev p p' \<Longrightarrow> trace step p' evs p'' \<Longrightarrow> trace step p (ev # evs) p''"

locale numbered_queue =
  fixes ok :: "'s \<Rightarrow> bool" and bytes :: "'s \<Rightarrow> (u32 \<times> u8) multiset" and top :: "'s \<Rightarrow> u32"
    and step :: "snd_ev \<Rightarrow> 's \<Rightarrow> 's \<Rightarrow> bool"
  assumes keeps_ok: "ok p \<Longrightarrow> step ev p p' \<Longrightarrow> ok p'"
    and wrote: "ok p \<Longrightarrow> step (Wrote d) p p' \<Longrightarrow> bytes p' = bytes p + mset (number (top p) d) \<and> top p' = top p + of_nat (length d)"
    and moved: "ok p \<Longrightarrow> step Moved p p' \<Longrightarrow> bytes p' = bytes p \<and> top p' = top p"
    and taken: "ok p \<Longrightarrow> step (Acked k) p p' \<Longrightarrow> top p' = top p \<and> (\<exists>gone. bytes p = gone + bytes p' \<and> (\<forall>(s, b)\<in>#gone. acked_by s k))"
begin

lemma step_content:
  assumes "ok p" and "step ev p p'"
  shows "top p' = top p + of_nat (length (written [ev]))"
    "\<exists>gone. bytes p + mset (number (top p) (written [ev])) = gone + bytes p' \<and> (\<forall>(s, b)\<in>#gone. \<exists>k. ev = Acked k \<and> acked_by s k)"
proof (atomize (full), cases ev)
  case (Acked k)
  then obtain gone where "bytes p = gone + bytes p'" "\<forall>(s, b)\<in>#gone. acked_by s k" "top p' = top p" using taken assms by blast
  then show "top p' = top p + of_nat (length (written [ev])) \<and>
    (\<exists>gone. bytes p + mset (number (top p) (written [ev])) = gone + bytes p' \<and> (\<forall>(s, b)\<in>#gone. \<exists>k. ev = Acked k \<and> acked_by s k))"
    using Acked by (auto intro!: exI [of _ gone])
qed (use wrote moved assms in \<open>auto intro!: exI [of _ "{#}"]\<close>)

lemma conserved:
  "trace step p evs p' \<Longrightarrow> ok p \<Longrightarrow> ok p' \<and> top p' = top p + of_nat (length (written evs)) \<and>
    (\<exists>gone. bytes p + mset (number (top p) (written evs)) = gone + bytes p' \<and>
      (\<forall>(s, b)\<in>#gone. \<exists>k. Acked k \<in> set evs \<and> acked_by s k))"
proof (induction rule: trace.induct)
  case (trace_nil p)
  then show ?case by (auto intro!: exI [of _ "{#}"])
next
  case (trace_step ev p p1 evs p2)
  have ok1: "ok p1" using keeps_ok trace_step.hyps(1) trace_step.prems by blast
  note s = step_content [OF trace_step.prems trace_step.hyps(1)]
  obtain g1 where g1: "bytes p + mset (number (top p) (written [ev])) = g1 + bytes p1"
    "\<forall>(s, b)\<in>#g1. \<exists>k. ev = Acked k \<and> acked_by s k" using s(2) by blast
  obtain g2 where g2: "bytes p1 + mset (number (top p1) (written evs)) = g2 + bytes p2"
    "\<forall>(s, b)\<in>#g2. \<exists>k. Acked k \<in> set evs \<and> acked_by s k" "ok p2" "top p2 = top p1 + of_nat (length (written evs))"
    using trace_step.IH [OF ok1] by blast
  have w: "written (ev # evs) = written [ev] @ written evs" by (cases ev) simp_all
  have "bytes p + mset (number (top p) (written (ev # evs))) =
      (bytes p + mset (number (top p) (written [ev]))) + mset (number (top p1) (written evs))"
    by (simp add: w number_append s(1) add.assoc)
  also have "\<dots> = (g1 + g2) + bytes p2" unfolding g1(1) using g2(1) by (simp add: add.assoc)
  finally have sum: "bytes p + mset (number (top p) (written (ev # evs))) = (g1 + g2) + bytes p2" .
  have "\<forall>(s, b)\<in>#g1 + g2. \<exists>k. Acked k \<in> set (ev # evs) \<and> acked_by s k" using g1(2) g2(2) by fastforce
  moreover have "top p2 = top p + of_nat (length (written (ev # evs)))" using g2(4) s(1) by (simp add: w add.assoc)
  ultimately show ?case using g2(3) sum by blast
qed

end

text \<open>The steps of a connection that concern its send queue, as the code takes them: writes by the application, sending, both kinds of
  retransmission, and acknowledgements, whether of new data, duplicate or old.\<close>

inductive snd_step :: "tcp_env \<Rightarrow> addr \<Rightarrow> snd_ev \<Rightarrow> tcp_pcb \<Rightarrow> tcp_pcb \<Rightarrow> bool" for env a where
  snd_write: "tcp_write env p d len cp (n :: net) = (err, p', n') \<Longrightarrow> length d = unat len \<Longrightarrow> 0 < mss p \<Longrightarrow> in_order p \<Longrightarrow>
    snd_step env a (Wrote (if err = ERR_OK then d else [])) p p'"
| snd_output: "tcp_output env a p (n :: net) = (err, p', n') \<Longrightarrow> snd_step env a Moved p p'"
| snd_rto: "tcp_rexmit_rto env a p (n :: net) = (p', n') \<Longrightarrow> snd_step env a Moved p p'"
| snd_rexmit: "tcp_rexmit env a p (n :: net) = (p', n') \<Longrightarrow> snd_step env a Moved p p'"
| snd_ack: "rx_ack env a i p (n :: net) = Some (p', n') \<Longrightarrow> snd_step env a (Acked (in_ackno i)) p p'"

lemma keys_moved:
  assumes "keys p' = keys p \<and> snd_lbb p' = snd_lbb p" and "segs_ok p"
  shows "segs_ok p' \<and> queued p' = queued p \<and> snd_lbb p' = snd_lbb p"
  using same_keys [OF conjunct1 [OF assms(1)]] conjunct2 [OF assms(1)] assms(2) by blast

definition snd_law :: "snd_ev \<Rightarrow> tcp_pcb \<Rightarrow> tcp_pcb \<Rightarrow> bool" where
  "snd_law ev p p' \<longleftrightarrow> (case ev of
      Wrote d \<Rightarrow> queued p' = queued p + mset (number (snd_lbb p) d) \<and> snd_lbb p' = snd_lbb p + of_nat (length d)
    | Moved \<Rightarrow> queued p' = queued p \<and> snd_lbb p' = snd_lbb p
    | Acked k \<Rightarrow> snd_lbb p' = snd_lbb p \<and> (\<exists>gone. queued p = gone + queued p' \<and> (\<forall>(s, b)\<in>#gone. acked_by s k)))"

lemma snd_step_law:
  assumes "snd_step env a ev p p'" and "segs_ok p"
  shows "segs_ok p' \<and> snd_law ev p p'"
  using assms(1)
proof cases
  case (snd_write d len cp n err n')
  note w = write_content [OF snd_write(2-5) assms(2)]
  show ?thesis
  proof (cases "err = ERR_OK")
    case True
    then show ?thesis using w snd_write(1) by (simp add: snd_law_def)
  next
    case False
    then show ?thesis using w snd_write(1) assms(2) by (simp add: snd_law_def)
  qed
next
  case (snd_output n err n')
  have "keys p' = keys p \<and> snd_lbb p' = snd_lbb p" using output_keys [OF snd_output(2) assms(2)] by blast
  from keys_moved [OF this assms(2)] show ?thesis by (simp add: snd_law_def snd_output(1))
next
  case (snd_rto n n')
  from keys_moved [OF rexmit_rto_keys [OF snd_rto(2) assms(2)] assms(2)] show ?thesis by (simp add: snd_law_def snd_rto(1))
next
  case (snd_rexmit n n')
  from keys_moved [OF rexmit_keys [OF snd_rexmit(2) assms(2)] assms(2)] show ?thesis by (simp add: snd_law_def snd_rexmit(1))
next
  case (snd_ack i n n')
  show ?thesis using rx_ack_content [OF snd_ack(2) assms(2)] unfolding snd_law_def snd_ack(1) snd_ev.case by blast
qed

interpretation sndq: numbered_queue segs_ok queued snd_lbb "snd_step env a" for env a
proof
  fix p ev p'
  assume ok: "segs_ok p" and st: "snd_step env a ev p p'"
  note law = snd_step_law [OF st ok]
  show "segs_ok p'" using law by blast
next
  fix p d p'
  assume "segs_ok p" and "snd_step env a (Wrote d) p p'"
  from snd_step_law [OF this(2,1)] show "queued p' = queued p + mset (number (snd_lbb p) d) \<and> snd_lbb p' = snd_lbb p + of_nat (length d)"
    unfolding snd_law_def snd_ev.case by blast
next
  fix p p'
  assume "segs_ok p" and "snd_step env a Moved p p'"
  from snd_step_law [OF this(2,1)] show "queued p' = queued p \<and> snd_lbb p' = snd_lbb p"
    unfolding snd_law_def snd_ev.case by blast
next
  fix p k p'
  assume "segs_ok p" and "snd_step env a (Acked k) p p'"
  from snd_step_law [OF this(2,1)]
  show "snd_lbb p' = snd_lbb p \<and> (\<exists>gone. queued p = gone + queued p' \<and> (\<forall>(s, b)\<in>#gone. acked_by s k))"
    unfolding snd_law_def snd_ev.case by blast
qed

text \<open>C1: The sending side of a connection loses, duplicates and renumbers nothing.  Take any run of writes, sends, retransmissions
  after a timeout or after duplicate acknowledgements, and acknowledgements of every kind, new, duplicate or old, in any order; a write
  is made when the last unsent segment ends at \<open>snd_lbb\<close>, the next number.  The bytes queued at first and the bytes of all successful
  writes, numbered consecutively from \<open>snd_lbb\<close>, are at the end exactly the bytes still queued, each under its own
  sequence number, and bytes that have been removed; and each removed byte has a sequence number that is covered by one of the
  acknowledgement numbers received.\<close>

theorem tcp_send_no_loss:
  assumes "trace (snd_step env a) p evs p'" and "segs_ok p"
  shows "segs_ok p' \<and> snd_lbb p' = snd_lbb p + of_nat (length (written evs)) \<and>
    (\<exists>gone. queued p + mset (number (snd_lbb p) (written evs)) = gone + queued p' \<and>
      (\<forall>(s, b)\<in>#gone. \<exists>k. Acked k \<in> set evs \<and> acked_by s k))"
  using assms by (rule sndq.conserved)

lemma ex_sent_ok: "segs_ok ex_sent" "in_order ex_sent" "0 < mss ex_sent"
  by (auto simp: segs_ok_def seg_wf_def in_order_def seg_end_def TCP_TCPLEN_alt ex_sent_def TCP_MSS_def)

lemmas ex_run_defs = ex_env_def ex_net_def ex_sent_def ex_pcb_def zero_pcb_def Let_def case_prod_beta

definition ex_written :: tcp_pcb where
  "ex_written = fst (snd (tcp_write ex_env ex_sent [9, 8] 2 True ex_net))"

lemma ex_write_ok: "fst (tcp_write ex_env ex_sent [9, 8] 2 True ex_net) = ERR_OK"
  by (simp add: tcp_write_def tcp_enqueue_def enq_loop.simps enq_pbuf_def mem_alloc_def ex_run_defs
      TCP_MSS_def TCP_SND_BUF_def TCP_SND_QUEUELEN_def)

lemma ex_written_ack: "rx_ack ex_env 0 ex_ack ex_written ex_net \<noteq> None"
  by (simp add: ex_written_def tcp_write_def tcp_enqueue_def enq_loop.simps enq_pbuf_def mem_alloc_def ex_run_defs
      TCP_MSS_def TCP_SND_BUF_def TCP_SND_QUEUELEN_def rx_ack_def rx_newack_def rx_cwnd_def rx_window_def ex_ack_def
      split: option.splits)

theorem tcp_send_no_loss_witness:
  "\<exists>r gone. trace (snd_step ex_env 0) ex_sent [Wrote [9, 8], Acked 103, Moved] r \<and> segs_ok r \<and> snd_lbb r = 107 \<and>
    queued ex_sent + {#(105, 9), (106, 8)#} = gone + queued r \<and> set_mset gone \<subseteq> {(s, b). acked_by s 103}"
proof -
  obtain n where "tcp_write ex_env ex_sent [9, 8] 2 True ex_net = (ERR_OK, ex_written, n)"
    using ex_write_ok by (metis ex_written_def prod.collapse)
  from snd_write [OF this] have w: "snd_step ex_env 0 (Wrote [9, 8]) ex_sent ex_written" using ex_sent_ok by simp
  obtain q n1 where "rx_ack ex_env 0 ex_ack ex_written ex_net = Some (q, n1)" using ex_written_ack by auto
  from snd_ack [OF this] have a: "snd_step ex_env 0 (Acked 103) ex_written q" by (simp add: ex_ack_def)
  obtain r n2 where "tcp_rexmit_rto ex_env 0 q ex_net = (r, n2)" by fastforce
  from snd_rto [OF this] have m: "snd_step ex_env 0 Moved q r" .
  have t: "trace (snd_step ex_env 0) ex_sent [Wrote [9, 8], Acked 103, Moved] r"
    using w a m by (blast intro: trace.intros)
  from tcp_send_no_loss [OF t ex_sent_ok(1)] obtain gone where
    g: "segs_ok r" "snd_lbb r = 107" "queued ex_sent + {#(105, 9), (106, 8)#} = gone + queued r"
      "\<forall>(s, b)\<in>#gone. acked_by s 103" by auto
  then have "set_mset gone \<subseteq> {(s, b). acked_by s 103}" by auto
  then show ?thesis using t g by blast
qed

end
