(* ===== verification/Tcp.thy ===== *)
theory Tcp
  imports Tcp_Out
begin

text \<open>
  The connection manager (\<open>src/nsc-0.5.3/lwip-HEAD/src/core/tcp.c\<close>): the lists of control
  blocks, opening, binding, closing and aborting connections, and the timers.

  The store maps the address of every allocated control block to its contents; \<open>memp_free\<close>
  removes the entry, so any later use of the pointer makes the operation return \<open>None\<close>.  The
  linked lists are the lists of the addresses in the order of the \<open>next\<close> pointers.  Application
  callbacks are fields of \<open>tcp_app\<close>: functions of the pointer stored in the control block, its
  argument, and the whole state.
\<close>

section \<open>State and callbacks\<close>

record tstate = net +
  tcp_timer :: u8
  active_pcbs :: "addr list"
  tw_pcbs :: "addr list"
  listen_pcbs :: "addr list"
  pcbs :: "addr \<rightharpoonup> tcp_pcb"
  lpcbs :: "addr \<rightharpoonup> tcp_pcb_listen"
  port_ctr :: u16
  iss_ctr :: u32

record tcp_app =
  app_accept :: "fptr \<Rightarrow> nat \<Rightarrow> addr \<Rightarrow> err_t \<Rightarrow> tstate \<Rightarrow> (err_t \<times> tstate) option"
  app_sent :: "fptr \<Rightarrow> nat \<Rightarrow> addr \<Rightarrow> u16 \<Rightarrow> tstate \<Rightarrow> (err_t \<times> tstate) option"
  app_recv :: "fptr \<Rightarrow> nat \<Rightarrow> addr \<Rightarrow> u8 list option \<Rightarrow> err_t \<Rightarrow> tstate \<Rightarrow> (err_t \<times> tstate) option"
  app_connected :: "fptr \<Rightarrow> nat \<Rightarrow> addr \<Rightarrow> err_t \<Rightarrow> tstate \<Rightarrow> (err_t \<times> tstate) option"
  app_poll :: "fptr \<Rightarrow> nat \<Rightarrow> addr \<Rightarrow> tstate \<Rightarrow> (err_t \<times> tstate) option"
  app_errf :: "fptr \<Rightarrow> nat \<Rightarrow> err_t \<Rightarrow> tstate \<Rightarrow> tstate option"

definition put_pcb :: "addr \<Rightarrow> tcp_pcb \<Rightarrow> tstate \<Rightarrow> tstate" where
  "put_pcb a p s = s \<lparr> pcbs := (pcbs s)(a \<mapsto> p) \<rparr>"

definition memp_free_pcb :: "addr \<Rightarrow> tstate \<Rightarrow> tstate" where
  "memp_free_pcb a s = s \<lparr> pcbs := (pcbs s)(a := None) \<rparr>"

definition memp_malloc_pcb :: "tcp_env \<Rightarrow> tstate \<Rightarrow> addr option \<times> tstate" where
  "memp_malloc_pcb env s =
    (pcb_malloc env (allocs s) (\<lambda>a. pcbs s a \<noteq> None \<or> lpcbs s a \<noteq> None), s \<lparr> allocs := Suc (allocs s) \<rparr>)"

text \<open>Running an operation on the control block at an address.\<close>

definition on_pcb :: "(tcp_pcb \<Rightarrow> tstate \<Rightarrow> tcp_pcb \<times> tstate) \<Rightarrow> addr \<Rightarrow> tstate \<Rightarrow> tstate option" where
  "on_pcb f a s = do {
     p \<leftarrow> pcbs s a;
     let (p, s) = f p s;
     Some (put_pcb a p s)
   }"

definition output_pcb :: "tcp_env \<Rightarrow> addr \<Rightarrow> tstate \<Rightarrow> (err_t \<times> tstate) option" where
  "output_pcb env a s = do {
     p \<leftarrow> pcbs s a;
     let (err, p, s) = tcp_output env a p s;
     Some (err, put_pcb a p s)
   }"

definition tcp_init :: "tstate \<Rightarrow> tstate" where
  "tcp_init s = s \<lparr> listen_pcbs := [], active_pcbs := [], tw_pcbs := [], tcp_ticks := 0, tcp_timer := 0 \<rparr>"

definition TCP_EVENT_ERR :: "tcp_app \<Rightarrow> fptr option \<Rightarrow> nat \<Rightarrow> err_t \<Rightarrow> tstate \<Rightarrow> tstate option" where
  "TCP_EVENT_ERR app errf arg err s =
    (case errf of None \<Rightarrow> Some s | Some f \<Rightarrow> app_errf app f arg err s)"

definition TCP_EVENT_POLL :: "tcp_app \<Rightarrow> addr \<Rightarrow> err_t \<Rightarrow> tstate \<Rightarrow> (err_t \<times> tstate) option" where
  "TCP_EVENT_POLL app a ret s = do {
     p \<leftarrow> pcbs s a;
     (case poll_cb p of None \<Rightarrow> Some (ret, s) | Some f \<Rightarrow> app_poll app f (callback_arg p) a s)
   }"

section \<open>Removing control blocks\<close>

definition tcp_pcb_purge :: "tcp_pcb \<Rightarrow> tcp_pcb" where
  "tcp_pcb_purge p =
    (if state p \<noteq> CLOSED \<and> state p \<noteq> TIME_WAIT \<and> state p \<noteq> LISTEN
     then p \<lparr> ooseq := [], unsent := [], unacked := [] \<rparr> else p)"

text \<open>What \<open>tcp_pcb_remove\<close> does to the control block once it is off its list: an outstanding
  delayed acknowledgement is sent first.\<close>

definition tcp_pcb_remove_at :: "tcp_env \<Rightarrow> addr \<Rightarrow> tcp_pcb \<Rightarrow> tstate \<Rightarrow> tcp_pcb \<times> tstate" where
  "tcp_pcb_remove_at env a p s =
    (let p = tcp_pcb_purge p;
         (p, s) = (if state p \<noteq> TIME_WAIT \<and> state p \<noteq> LISTEN \<and> flags p AND TF_ACK_DELAY \<noteq> 0
                   then snd (tcp_output env a (p \<lparr> flags := flags p OR TF_ACK_NOW \<rparr>) s)
                   else (p, s))
     in (p \<lparr> state := CLOSED \<rparr>, s))"

definition remove_active :: "tcp_env \<Rightarrow> addr \<Rightarrow> tstate \<Rightarrow> tstate option" where
  "remove_active env a s =
    on_pcb (tcp_pcb_remove_at env a) a (s \<lparr> active_pcbs := remove1 a (active_pcbs s) \<rparr>)"

definition remove_tw :: "tcp_env \<Rightarrow> addr \<Rightarrow> tstate \<Rightarrow> tstate option" where
  "remove_tw env a s =
    on_pcb (tcp_pcb_remove_at env a) a (s \<lparr> tw_pcbs := remove1 a (tw_pcbs s) \<rparr>)"

definition tcp_abort :: "tcp_env \<Rightarrow> tcp_app \<Rightarrow> addr \<Rightarrow> tstate \<Rightarrow> tstate option" where
  "tcp_abort env app a s = do {
     p \<leftarrow> pcbs s a;
     if state p = TIME_WAIT
     then do { s \<leftarrow> remove_tw env a s; Some (memp_free_pcb a s) }
     else do {
       s \<leftarrow> remove_active env a s;
       s \<leftarrow> TCP_EVENT_ERR app (errf_cb p) (callback_arg p) ERR_ABRT (memp_free_pcb a s);
       Some (tcp_rst env (snd_nxt p) (rcv_nxt p) (local_ip p) (remote_ip p)
               (local_port p) (remote_port p) s)
     }
   }"

text \<open>Queueing a FIN and moving on to the next state of the closing handshake.\<close>

definition close_fin :: "tcp_env \<Rightarrow> tcp_state \<Rightarrow> addr \<Rightarrow> tstate \<Rightarrow> (err_t \<times> tstate) option" where
  "close_fin env st a s = do {
     p \<leftarrow> pcbs s a;
     let (err, p, s) = tcp_send_ctrl env p TCP_FIN s;
     if err = ERR_OK then output_pcb env a (put_pcb a (p \<lparr> state := st \<rparr>) s)
     else Some (err, put_pcb a p s)
   }"

definition tcp_close :: "tcp_env \<Rightarrow> addr \<Rightarrow> tstate \<Rightarrow> (err_t \<times> tstate) option" where
  "tcp_close env a s =
    (case lpcbs s a of
       Some lp \<Rightarrow>
         Some (ERR_OK, s \<lparr> listen_pcbs := remove1 a (listen_pcbs s), lpcbs := (lpcbs s)(a := None) \<rparr>)
     | None \<Rightarrow> do {
         p \<leftarrow> pcbs s a;
         (case state p of
            CLOSED \<Rightarrow> Some (ERR_OK, memp_free_pcb a s)
          | LISTEN \<Rightarrow> Some (ERR_OK, memp_free_pcb a (s \<lparr> listen_pcbs := remove1 a (listen_pcbs s) \<rparr>))
          | SYN_SENT \<Rightarrow> do { s \<leftarrow> remove_active env a s; Some (ERR_OK, memp_free_pcb a s) }
          | SYN_RCVD \<Rightarrow> close_fin env FIN_WAIT_1 a s
          | ESTABLISHED \<Rightarrow> close_fin env FIN_WAIT_1 a s
          | CLOSE_WAIT \<Rightarrow> close_fin env LAST_ACK a s
          | _ \<Rightarrow> Some (ERR_OK, s))
       })"

section \<open>Ports and addresses\<close>

text \<open>Searches along a list: whether some control block on it satisfies a condition.\<close>

definition pcb_ex :: "(tcp_pcb \<Rightarrow> bool) \<Rightarrow> addr list \<Rightarrow> tstate \<Rightarrow> bool" where
  "pcb_ex P xs s = list_ex (\<lambda>a. case pcbs s a of None \<Rightarrow> False | Some p \<Rightarrow> P p) xs"

definition lpcb_ex :: "(tcp_pcb_listen \<Rightarrow> bool) \<Rightarrow> tstate \<Rightarrow> bool" where
  "lpcb_ex P s = list_ex (\<lambda>a. case lpcbs s a of None \<Rightarrow> False | Some p \<Rightarrow> P p) (listen_pcbs s)"

definition port_used :: "tstate \<Rightarrow> u16 \<Rightarrow> bool" where
  "port_used s port \<longleftrightarrow>
    pcb_ex (\<lambda>p. local_port p = port) (active_pcbs s) s \<or>
    pcb_ex (\<lambda>p. local_port p = port) (tw_pcbs s) s \<or>
    lpcb_ex (\<lambda>p. l_local_port p = port) s"

definition next_port :: "u16 \<Rightarrow> u16" where
  "next_port port = (if port + 1 > 0x7fff then 4096 else port + 1)"

partial_function (option) new_port_loop :: "(u16 \<Rightarrow> bool) \<Rightarrow> u16 \<Rightarrow> u16 option" where
  "new_port_loop used port =
    (if used (next_port port) then new_port_loop used (next_port port) else Some (next_port port))"

definition tcp_new_port :: "tstate \<Rightarrow> (u16 \<times> tstate) option" where
  "tcp_new_port s = do {
     port \<leftarrow> new_port_loop (port_used s) (port_ctr s);
     Some (port, s \<lparr> port_ctr := port \<rparr>)
   }"

definition addr_clash :: "u32 \<Rightarrow> u32 \<Rightarrow> bool" where
  "addr_clash lip ip \<longleftrightarrow> ip_addr_isany lip \<or> ip_addr_isany ip \<or> lip = ip"

definition bind_local :: "addr \<Rightarrow> u32 \<Rightarrow> u16 \<Rightarrow> tstate \<Rightarrow> tstate option" where
  "bind_local a ip port s =
    on_pcb (\<lambda>p s. ((if \<not> ip_addr_isany ip then p \<lparr> local_ip := ip \<rparr> else p) \<lparr> local_port := port \<rparr>, s)) a s"

definition tcp_bind :: "addr \<Rightarrow> u32 option \<Rightarrow> u16 \<Rightarrow> tstate \<Rightarrow> (err_t \<times> tstate) option" where
  "tcp_bind a ipaddr port s = do {
     let ip = (case ipaddr of None \<Rightarrow> 0 | Some x \<Rightarrow> x);
     (port, s) \<leftarrow> (if port = 0 then tcp_new_port s else Some (port, s));
     if lpcb_ex (\<lambda>c. l_local_port c = port \<and> addr_clash (l_local_ip c) ip) s
     then Some (ERR_USE, s)
     else if pcb_ex (\<lambda>c. local_port c = port \<and> addr_clash (local_ip c) ip) (active_pcbs s) s
     then Some (ERR_USE, s)
     else do { s \<leftarrow> bind_local a ip port s; Some (ERR_OK, s) }
   }"

definition TCP_ACCEPT_NULL :: fptr where "TCP_ACCEPT_NULL = 1"
definition TCP_RECV_NULL :: fptr where "TCP_RECV_NULL = 2"

text \<open>\<open>tcp_listen\<close> leaves the priority of the new control block as the allocator returns it.\<close>

definition tcp_listen :: "tcp_env \<Rightarrow> addr \<Rightarrow> tstate \<Rightarrow> (addr option \<times> tstate) option" where
  "tcp_listen env a s =
    (if lpcbs s a \<noteq> None then Some (Some a, s)
     else do {
       p \<leftarrow> pcbs s a;
       if state p = LISTEN then Some (Some a, s)
       else
         (case memp_malloc_pcb env s of
            (None, s) \<Rightarrow> Some (None, s)
          | (Some l, s) \<Rightarrow>
              (let lp = \<lparr> l_local_ip = local_ip p, l_so_options = so_options p OR SOF_ACCEPTCONN,
                          l_tos = tos p, l_ttl = ttl p, l_state = LISTEN, l_prio = ucast (junk env),
                          l_callback_arg = callback_arg p, l_local_port = local_port p,
                          l_accept = Some TCP_ACCEPT_NULL \<rparr>;
                   s = memp_free_pcb a s
               in Some (Some l, s \<lparr> lpcbs := (lpcbs s)(l \<mapsto> lp), listen_pcbs := l # listen_pcbs s \<rparr>)))
     })"

definition tcp_recved :: "tcp_env \<Rightarrow> addr \<Rightarrow> u16 \<Rightarrow> tcp_pcb \<Rightarrow> 'a net_scheme \<Rightarrow> tcp_pcb \<times> 'a net_scheme" where
  "tcp_recved env a len p n =
    (let p = (if unat (rcv_wnd p) + unat len > unat TCP_WND then p \<lparr> rcv_wnd := TCP_WND \<rparr>
              else p \<lparr> rcv_wnd := rcv_wnd p + len \<rparr>)
     in if flags p AND TF_ACK_DELAY = 0 \<and> flags p AND TF_ACK_NOW = 0 then tcp_ack env a p n
        else if flags p AND TF_ACK_DELAY \<noteq> 0 \<and> rcv_wnd p \<ge> TCP_WND div 2 then tcp_ack_now env a p n
        else (p, n))"

definition tcp_next_iss :: "tstate \<Rightarrow> u32 \<times> tstate" where
  "tcp_next_iss s = (let v = iss_ctr s + tcp_ticks s in (v, s \<lparr> iss_ctr := v \<rparr>))"

definition mss_option :: "u16 \<Rightarrow> u8 list" where
  "mss_option m = [2, 4, ucast (m div 256), ucast (m AND 255)]"

definition tcp_connect ::
  "tcp_env \<Rightarrow> addr \<Rightarrow> u32 option \<Rightarrow> u16 \<Rightarrow> fptr option \<Rightarrow> tstate \<Rightarrow> (err_t \<times> tstate) option" where
  "tcp_connect env a ipaddr port connected s =
    (case ipaddr of
       None \<Rightarrow> Some (ERR_VAL, s)
     | Some ip \<Rightarrow> do {
         p \<leftarrow> pcbs s a;
         (lport, s) \<leftarrow> (if local_port p = 0 then tcp_new_port s else Some (local_port p, s));
         let (iss, s) = tcp_next_iss s;
         let p = p \<lparr> remote_ip := ip, remote_port := port, local_port := lport,
                     rcv_nxt := 0, snd_nxt := iss, lastack := iss - 1, snd_lbb := iss - 1,
                     rcv_wnd := TCP_WND, snd_wnd := ucast TCP_WND, mss := TCP_MSS, cwnd := 1,
                     ssthresh := TCP_MSS * 10, state := SYN_SENT, connected_cb := connected \<rparr>;
         let s = s \<lparr> active_pcbs := a # active_pcbs s \<rparr>;
         let (ret, p, s) = tcp_enqueue env p [] 0 TCP_SYN False (Some (mss_option (mss p))) s;
         if ret = ERR_OK
         then do { (e, s) \<leftarrow> output_pcb env a (put_pcb a p s); Some (ret, s) }
         else Some (ret, put_pcb a p s)
       })"

section \<open>Timers\<close>

definition tcp_backoff :: "nat list" where
  "tcp_backoff = [1, 2, 3, 4, 5, 6, 7, 7, 7, 7, 7, 7, 7]"

definition backoff :: "u8 \<Rightarrow> nat option" where
  "backoff k = (if unat k < length tcp_backoff then Some (tcp_backoff ! unat k) else None)"

text \<open>The retransmission timer of one connection; the flag says that it has retried too often.\<close>

definition slow_rexmit :: "tcp_env \<Rightarrow> addr \<Rightarrow> tcp_pcb \<Rightarrow> 'a net_scheme \<Rightarrow> (bool \<times> tcp_pcb \<times> 'a net_scheme) option" where
  "slow_rexmit env a p n =
    (if state p = SYN_SENT \<and> nrtx p = TCP_SYNMAXRTX then Some (True, p, n)
     else if nrtx p = TCP_MAXRTX then Some (True, p, n)
     else
       (let p = p \<lparr> rtime := rtime p + 1 \<rparr>
        in if unacked p \<noteq> [] \<and> rtime p \<ge> rto p
           then do {
             p \<leftarrow> (if state p \<noteq> SYN_SENT
                   then do {
                     k \<leftarrow> backoff (nrtx p);
                     Some (p \<lparr> rto := of_int ((sint (sa p) div 8 + sint (sv p)) * 2 ^ k) \<rparr>)
                   }
                   else Some p);
             let eff_wnd = min (ucast (cwnd p)) (snd_wnd p);
             let p = p \<lparr> ssthresh := ucast (eff_wnd div 2) \<rparr>;
             let p = (if ssthresh p < mss p then p \<lparr> ssthresh := mss p * 2 \<rparr> else p);
             Some (False, tcp_rexmit_rto env a (p \<lparr> cwnd := mss p \<rparr>) n)
           }
           else Some (False, p, n)))"

definition idle :: "tcp_pcb \<Rightarrow> 'a net_scheme \<Rightarrow> u32" where
  "idle p n = tcp_ticks n - tmr p"

text \<open>The keep-alive timer: \<open>None\<close> when the connection is to be aborted.\<close>

definition slow_keepalive :: "tcp_env \<Rightarrow> tcp_pcb \<Rightarrow> 'a net_scheme \<Rightarrow> (tcp_pcb \<times> 'a net_scheme) option" where
  "slow_keepalive env p n =
    (if so_options p AND SOF_KEEPALIVE \<noteq> 0 \<and> (state p = ESTABLISHED \<or> state p = CLOSE_WAIT)
     then
       (if idle p n > (keepalive p + TCP_MAXIDLE) div TCP_SLOW_INTERVAL then None
        else if idle p n > (keepalive p + ucast (keep_cnt p) * TCP_KEEPINTVL) div TCP_SLOW_INTERVAL
        then Some (p \<lparr> keep_cnt := keep_cnt p + 1 \<rparr>, tcp_keepalive env p n)
        else Some (p, n))
     else Some (p, n))"

definition slow_ooseq :: "tcp_pcb \<Rightarrow> 'a net_scheme \<Rightarrow> tcp_pcb" where
  "slow_ooseq p n =
    (if ooseq p \<noteq> [] \<and> idle p n \<ge> ucast (rto p) * TCP_OOSEQ_TIMEOUT then p \<lparr> ooseq := [] \<rparr> else p)"

definition slow_stuck :: "tcp_pcb \<Rightarrow> 'a net_scheme \<Rightarrow> bool" where
  "slow_stuck p n \<longleftrightarrow>
    state p = FIN_WAIT_2 \<and> idle p n > TCP_FIN_WAIT_TIMEOUT div TCP_SLOW_INTERVAL \<or>
    state p = SYN_RCVD \<and> idle p n > TCP_SYN_RCVD_TIMEOUT div TCP_SLOW_INTERVAL"

text \<open>The successor of an element, the \<open>next\<close> pointer of a control block on a list.\<close>

fun succ_in :: "addr \<Rightarrow> addr list \<Rightarrow> addr option" where
  "succ_in a (x # xs) = (if x = a then (case xs of [] \<Rightarrow> None | y # _ \<Rightarrow> Some y) else succ_in a xs)"
| "succ_in a [] = None"

definition pcb_next :: "addr \<Rightarrow> tstate \<Rightarrow> addr option" where
  "pcb_next a s = (if a \<in> set (active_pcbs s) then succ_in a (active_pcbs s) else succ_in a (tw_pcbs s))"

text \<open>The source unlinks the connection through a pointer to its predecessor; here it is removed by
  its address.  The successor is the one its \<open>next\<close> field had before the error callback ran.\<close>

definition slow_remove :: "tcp_app \<Rightarrow> addr \<Rightarrow> tcp_pcb \<Rightarrow> tstate \<Rightarrow> (addr option \<times> tstate) option" where
  "slow_remove app a p s = do {
     let nxt = pcb_next a s;
     let s = put_pcb a (tcp_pcb_purge p) (s \<lparr> active_pcbs := remove1 a (active_pcbs s) \<rparr>);
     s \<leftarrow> TCP_EVENT_ERR app (errf_cb p) (callback_arg p) ERR_ABRT s;
     Some (nxt, memp_free_pcb a s)
   }"

text \<open>Polling the application; the last result is carried from one connection to the next.\<close>

definition slow_poll :: "tcp_env \<Rightarrow> tcp_app \<Rightarrow> addr \<Rightarrow> tcp_pcb \<Rightarrow> err_t \<Rightarrow> tstate \<Rightarrow>
    (addr option \<times> err_t \<times> tstate) option" where
  "slow_poll env app a p err s = do {
     let p = p \<lparr> polltmr := polltmr p + 1 \<rparr>;
     (err, s) \<leftarrow>
       (if polltmr p \<ge> pollinterval p
        then do {
          (err, s) \<leftarrow> TCP_EVENT_POLL app a err (put_pcb a (p \<lparr> polltmr := 0 \<rparr>) s);
          if err = ERR_OK then do { (e, s) \<leftarrow> output_pcb env a s; Some (err, s) } else Some (err, s)
        }
        else Some (err, put_pcb a p s));
     p \<leftarrow> pcbs s a;
     Some (pcb_next a s, err, s)
   }"

text \<open>One round of the loop over the active connections.  After \<open>tcp_abort\<close> the source goes on
  to use the control block it has just released.\<close>

definition slow_step :: "tcp_env \<Rightarrow> tcp_app \<Rightarrow> addr \<Rightarrow> err_t \<Rightarrow> tstate \<Rightarrow>
    (addr option \<times> err_t \<times> tstate) option" where
  "slow_step env app a err s = do {
     p \<leftarrow> pcbs s a;
     (rm, p, s) \<leftarrow> slow_rexmit env a p s;
     (p, s) \<leftarrow>
       (case slow_keepalive env p s of
          Some r \<Rightarrow> Some r
        | None \<Rightarrow> do { s \<leftarrow> tcp_abort env app a (put_pcb a p s); p \<leftarrow> pcbs s a; Some (p, s) });
     let p = slow_ooseq p s;
     if rm \<or> slow_stuck p s
     then do { (nxt, s) \<leftarrow> slow_remove app a p s; Some (nxt, err, s) }
     else slow_poll env app a p err s
   }"

partial_function (option) slow_loop :: "tcp_env \<Rightarrow> tcp_app \<Rightarrow> addr option \<Rightarrow> err_t \<Rightarrow> tstate \<Rightarrow> tstate option" where
  "slow_loop env app c err s =
    (case c of
       None \<Rightarrow> Some s
     | Some a \<Rightarrow> do {
         (c, err, s) \<leftarrow> slow_step env app a err s;
         slow_loop env app c err s
       })"

fun tw_loop :: "addr list \<Rightarrow> tstate \<Rightarrow> tstate" where
  "tw_loop [] s = s"
| "tw_loop (a # as) s =
    (case pcbs s a of
       None \<Rightarrow> tw_loop as s
     | Some p \<Rightarrow>
         if idle p s > 2 * TCP_MSL div TCP_SLOW_INTERVAL
         then tw_loop as (memp_free_pcb a (s \<lparr> tw_pcbs := remove1 a (tw_pcbs s) \<rparr>))
         else tw_loop as s)"

definition tcp_slowtmr :: "tcp_env \<Rightarrow> tcp_app \<Rightarrow> tstate \<Rightarrow> tstate option" where
  "tcp_slowtmr env app s = do {
     let s = s \<lparr> tcp_ticks := tcp_ticks s + 1 \<rparr>;
     s \<leftarrow> slow_loop env app (case active_pcbs s of [] \<Rightarrow> None | a # _ \<Rightarrow> Some a) ERR_OK s;
     Some (tw_loop (tw_pcbs s) s)
   }"

definition fast_one :: "tcp_env \<Rightarrow> addr \<Rightarrow> tcp_pcb \<Rightarrow> 'a net_scheme \<Rightarrow> tcp_pcb \<times> 'a net_scheme" where
  "fast_one env a p n =
    (if flags p AND TF_ACK_DELAY \<noteq> 0
     then (let (p, n) = tcp_ack_now env a p n
           in (p \<lparr> flags := flags p AND NOT (TF_ACK_DELAY OR TF_ACK_NOW) \<rparr>, n))
     else (p, n))"

fun fast_loop :: "tcp_env \<Rightarrow> addr list \<Rightarrow> tstate \<Rightarrow> tstate option" where
  "fast_loop env [] s = Some s"
| "fast_loop env (a # as) s = do { s \<leftarrow> on_pcb (fast_one env a) a s; fast_loop env as s }"

definition tcp_fasttmr :: "tcp_env \<Rightarrow> tstate \<Rightarrow> tstate option" where
  "tcp_fasttmr env s = fast_loop env (active_pcbs s) s"

definition tcp_tmr :: "tcp_env \<Rightarrow> tcp_app \<Rightarrow> tstate \<Rightarrow> tstate option" where
  "tcp_tmr env app s = do {
     s \<leftarrow> tcp_fasttmr env s;
     let s = s \<lparr> tcp_timer := tcp_timer s + 1 \<rparr>;
     if tcp_timer s AND 1 \<noteq> 0 then tcp_slowtmr env app s else Some s
   }"

section \<open>Allocation\<close>

definition tcp_setprio :: "u8 \<Rightarrow> tcp_pcb \<Rightarrow> tcp_pcb" where
  "tcp_setprio pr p = p \<lparr> prio := pr \<rparr>"

text \<open>The scans for the connection to sacrifice: the last best candidate wins.\<close>

fun kill_prio_scan :: "u8 \<Rightarrow> tstate \<Rightarrow> addr list \<Rightarrow> u8 \<Rightarrow> u32 \<Rightarrow> addr option \<Rightarrow> addr option" where
  "kill_prio_scan pr s [] mprio inactivity inactive = inactive"
| "kill_prio_scan pr s (a # as) mprio inactivity inactive =
    (case pcbs s a of
       None \<Rightarrow> kill_prio_scan pr s as mprio inactivity inactive
     | Some p \<Rightarrow>
         if prio p \<le> pr \<and> prio p \<le> mprio \<and> idle p s \<ge> inactivity
         then kill_prio_scan pr s as (prio p) (idle p s) (Some a)
         else kill_prio_scan pr s as mprio inactivity inactive)"

definition tcp_kill_prio :: "tcp_env \<Rightarrow> tcp_app \<Rightarrow> u8 \<Rightarrow> tstate \<Rightarrow> tstate option" where
  "tcp_kill_prio env app pr s =
    (case kill_prio_scan pr s (active_pcbs s) TCP_PRIO_MAX 0 None of
       None \<Rightarrow> Some s
     | Some a \<Rightarrow> tcp_abort env app a s)"

fun kill_tw_scan :: "tstate \<Rightarrow> addr list \<Rightarrow> u32 \<Rightarrow> addr option \<Rightarrow> addr option" where
  "kill_tw_scan s [] inactivity inactive = inactive"
| "kill_tw_scan s (a # as) inactivity inactive =
    (case pcbs s a of
       None \<Rightarrow> kill_tw_scan s as inactivity inactive
     | Some p \<Rightarrow>
         if idle p s \<ge> inactivity then kill_tw_scan s as (idle p s) (Some a)
         else kill_tw_scan s as inactivity inactive)"

definition tcp_kill_timewait :: "tcp_env \<Rightarrow> tcp_app \<Rightarrow> tstate \<Rightarrow> tstate option" where
  "tcp_kill_timewait env app s =
    (case kill_tw_scan s (tw_pcbs s) 0 None of None \<Rightarrow> Some s | Some a \<Rightarrow> tcp_abort env app a s)"

definition fresh_pcb :: "u32 \<Rightarrow> u32 \<Rightarrow> tcp_pcb" where
  "fresh_pcb iss ticks = zero_pcb
    \<lparr> prio := TCP_PRIO_NORMAL, snd_buf := TCP_SND_BUF, snd_queuelen := 0, rcv_wnd := TCP_WND, tos := 0,
      ttl := TCP_TTL, mss := TCP_MSS, rto := ucast (3000 div TCP_SLOW_INTERVAL), sa := 0,
      sv := ucast (3000 div TCP_SLOW_INTERVAL), rtime := 0, cwnd := 1, snd_wl2 := iss, snd_nxt := iss,
      snd_max := iss, lastack := iss, snd_lbb := iss, tmr := ticks, polltmr := 0,
      recv_cb := Some TCP_RECV_NULL, keepalive := TCP_KEEPDEFAULT, keep_cnt := 0 \<rparr>"

definition alloc_retry :: "tcp_env \<Rightarrow> (tstate \<Rightarrow> tstate option) \<Rightarrow> addr option \<times> tstate \<Rightarrow> (addr option \<times> tstate) option" where
  "alloc_retry env kill r =
    (case r of
       (Some a, s) \<Rightarrow> Some (Some a, s)
     | (None, s) \<Rightarrow> do { s \<leftarrow> kill s; Some (memp_malloc_pcb env s) })"

definition tcp_alloc :: "tcp_env \<Rightarrow> tcp_app \<Rightarrow> u8 \<Rightarrow> tstate \<Rightarrow> (addr option \<times> tstate) option" where
  "tcp_alloc env app pr s = do {
     r \<leftarrow> alloc_retry env (tcp_kill_timewait env app) (memp_malloc_pcb env s);
     (m, s) \<leftarrow> alloc_retry env (tcp_kill_prio env app pr) r;
     (case m of
        None \<Rightarrow> Some (None, s)
      | Some a \<Rightarrow>
          (let (iss, s) = tcp_next_iss s
           in Some (Some a, put_pcb a (fresh_pcb iss (tcp_ticks s)) s)))
   }"

definition tcp_new :: "tcp_env \<Rightarrow> tcp_app \<Rightarrow> tstate \<Rightarrow> (addr option \<times> tstate) option" where
  "tcp_new env app s = tcp_alloc env app TCP_PRIO_NORMAL s"

text \<open>The setters of the application interface.\<close>

definition tcp_arg :: "nat \<Rightarrow> tcp_pcb \<Rightarrow> tcp_pcb" where "tcp_arg arg p = p \<lparr> callback_arg := arg \<rparr>"
definition tcp_recv :: "fptr option \<Rightarrow> tcp_pcb \<Rightarrow> tcp_pcb" where "tcp_recv f p = p \<lparr> recv_cb := f \<rparr>"
definition tcp_sent :: "fptr option \<Rightarrow> tcp_pcb \<Rightarrow> tcp_pcb" where "tcp_sent f p = p \<lparr> sent_cb := f \<rparr>"
definition tcp_err :: "fptr option \<Rightarrow> tcp_pcb \<Rightarrow> tcp_pcb" where "tcp_err f p = p \<lparr> errf_cb := f \<rparr>"
definition tcp_accept :: "fptr option \<Rightarrow> tcp_pcb_listen \<Rightarrow> tcp_pcb_listen" where
  "tcp_accept f lp = lp \<lparr> l_accept := f \<rparr>"
definition tcp_poll :: "fptr option \<Rightarrow> u8 \<Rightarrow> tcp_pcb \<Rightarrow> tcp_pcb" where
  "tcp_poll f interval p = p \<lparr> poll_cb := f, pollinterval := interval \<rparr>"

end
