(* ===== verification/Tcp_Recv.thy ===== *)
theory Tcp_Recv
  imports Tcp_Queue Tcp
begin

text \<open>
  Reassembly on the receiving side.  If every segment carries the bytes the sender assigned to its
  sequence numbers, then what \<open>tcp_receive\<close> passes to the application is, byte for byte, the piece of
  that stream that starts at \<open>rcv_nxt\<close>, and the out-of-sequence queue stays sorted and free of
  overlaps.  One branch of the insertion is excluded, and shown to be wrong: a longer segment with
  the same sequence number as a queued one replaces it without regard to the segments behind it, so it
  must not reach over the next of them.  Segments with SYN or FIN are not considered.
\<close>

section \<open>Pieces of a stream\<close>

definition slice :: "(u32 \<Rightarrow> u8) \<Rightarrow> u32 \<Rightarrow> nat \<Rightarrow> u8 list" where
  "slice sb q n = map (\<lambda>k. sb (q + of_nat k)) [0..<n]"

lemma length_slice [simp]: "length (slice sb q n) = n"
  by (simp add: slice_def)

lemma slice_0 [simp]: "slice sb q 0 = []"
  by (simp add: slice_def)

lemma slice_eq_Nil [simp]: "slice sb q n = [] \<longleftrightarrow> n = 0"
  using length_slice [of sb q n] by (metis length_0_conv)

lemma slice_append: "slice sb q m @ slice sb (q + of_nat m) n = slice sb q (m + n)"
  by (rule nth_equalityI) (auto simp: slice_def nth_append algebra_simps)

lemma take_slice: "k \<le> n \<Longrightarrow> take k (slice sb q n) = slice sb q k"
  by (rule nth_equalityI) (auto simp: slice_def)

lemma take_slice_min: "take k (slice sb q n) = slice sb q (min k n)"
  by (cases "k \<le> n") (simp_all add: take_slice)

lemma drop_slice: "k \<le> n \<Longrightarrow> drop k (slice sb q n) = slice sb (q + of_nat k) (n - k)"
  by (rule nth_equalityI) (auto simp: slice_def algebra_simps)

text \<open>A data segment that carries the stream.\<close>

definition carries :: "(u32 \<Rightarrow> u8) \<Rightarrow> tcp_seg \<Rightarrow> bool" where
  "carries sb x \<longleftrightarrow> \<not> syn_fin x \<and> 0 < unat (s_len x) \<and> s_data x = slice sb (seg_seqno x) (unat (s_len x))"

lemma carries_tcplen: "carries sb x \<Longrightarrow> TCP_TCPLEN x = of_nat (unat (s_len x))"
  by (simp add: carries_def TCP_TCPLEN_alt)

lemma carries_trim:
  assumes "carries sb x" and "0 < unat l" and "unat l \<le> unat (s_len x)"
  shows "carries sb (seg_trim x l)"
  using assms by (simp add: carries_def seg_trim_def syn_fin_def take_slice)

section \<open>The out-of-sequence queue\<close>

definition before :: "u32 \<Rightarrow> tcp_seg \<Rightarrow> tcp_seg \<Rightarrow> bool" where
  "before b x y \<longleftrightarrow> off b (seg_seqno x) + unat (s_len x) \<le> off b (seg_seqno y)"

definition ooseq_ok :: "(u32 \<Rightarrow> u8) \<Rightarrow> u32 \<Rightarrow> tcp_seg list \<Rightarrow> bool" where
  "ooseq_ok sb b xs \<longleftrightarrow> sorted_wrt (before b) xs \<and>
    (\<forall>x\<in>set xs. carries sb x \<and> 0 < off b (seg_seqno x) \<and> off b (seg_seqno x) < 65536)"

lemma before_less: "before b x y \<Longrightarrow> carries sb x \<Longrightarrow> off b (seg_seqno x) < off b (seg_seqno y)"
  by (simp add: before_def carries_def)

text \<open>Cutting segments against each other, as offsets from \<open>b\<close>.\<close>

lemma unat_seq_diff:
  assumes "off b x \<le> off b y" and "off b y < 65536"
  shows "unat (ucast (y - x) :: u16) = off b y - off b x"
proof -
  have "unat (y - x) = off b y - off b x" using off_shift [OF assms(1)] by (simp add: off_def)
  then show ?thesis using assms(2) by (simp add: unat_ucast_mod)
qed

lemma off_opposite: "off x y \<noteq> 0 \<Longrightarrow> off x y + off y x = 2 ^ 32"
proof -
  assume "off x y \<noteq> 0"
  moreover have "unat ((y - x) + (x - y)) = 0" by simp
  ultimately show "off x y + off y x = 2 ^ 32"
    by (subst (asm) unat_plus_if_size) (auto simp: off_def word_size split: if_splits)
qed

lemma seg_end_off:
  assumes "off b x < 65536"
  shows "off b (x + ucast (l :: u16)) = off b x + unat l" "off b (x + ucast l) < 2 ^ 31"
proof -
  have l: "unat l < 65536" using unat_less_pow [of l] by simp
  then show "off b (x + ucast l) = off b x + unat l"
    using off_add [of b x "ucast l"] assms by (simp add: unat_ucast_up)
  then show "off b (x + ucast l) < 2 ^ 31" using l assms by simp
qed

lemma trim_to_next_ok:
  assumes "carries sb x" and "seg_seqno x = sq" and "off b sq < off b (seg_seqno y)" and "off b (seg_seqno y) < 65536"
  shows "carries sb (trim_to_next sq x y)" "seg_seqno (trim_to_next sq x y) = sq" "before b (trim_to_next sq x y) y"
proof -
  have o: "off b sq < 65536" using assms(3,4) by simp
  note e = seg_end_off [OF o, of "s_len x"]
  have g: "TCP_SEQ_GT (sq + ucast (s_len x)) (seg_seqno y) \<longleftrightarrow> off b (seg_seqno y) < off b sq + unat (s_len x)"
    using seq_gt [OF e(2), of "seg_seqno y"] e(1) assms(4) by simp
  have d: "unat (ucast (seg_seqno y - sq) :: u16) = off b (seg_seqno y) - off b sq"
    using unat_seq_diff [of b sq "seg_seqno y"] assms(3,4) by simp
  show "carries sb (trim_to_next sq x y)"
    using g d assms(1,3) carries_trim [OF assms(1)] by (auto simp: trim_to_next_def)
  show "seg_seqno (trim_to_next sq x y) = sq" using assms(2) by (simp add: trim_to_next_def seg_trim_def)
  show "before b (trim_to_next sq x y) y"
    using g d assms(2,3) by (auto simp: trim_to_next_def before_def seg_trim_def)
qed

lemma trim_prev_ok:
  assumes "carries sb x" and "off b (seg_seqno x) < off b sq" and "off b sq < 65536"
  shows "carries sb (trim_prev sq x)" "seg_seqno (trim_prev sq x) = seg_seqno x"
    "off b (seg_seqno x) + unat (s_len (trim_prev sq x)) \<le> off b sq" "unat (s_len (trim_prev sq x)) \<le> unat (s_len x)"
proof -
  have o: "off b (seg_seqno x) < 65536" using assms(2,3) by simp
  note e = seg_end_off [OF o, of "s_len x"]
  have g: "TCP_SEQ_GT (seg_seqno x + ucast (s_len x)) sq \<longleftrightarrow> off b sq < off b (seg_seqno x) + unat (s_len x)"
    using seq_gt [OF e(2), of sq] e(1) assms(3) by simp
  have d: "unat (ucast (sq - seg_seqno x) :: u16) = off b sq - off b (seg_seqno x)"
    using unat_seq_diff [of b "seg_seqno x" sq] assms(2,3) by simp
  show "carries sb (trim_prev sq x)"
    using g d assms(1,2) carries_trim [OF assms(1)] by (auto simp: trim_prev_def)
  show "seg_seqno (trim_prev sq x) = seg_seqno x" by (simp add: trim_prev_def seg_trim_def)
  show "off b (seg_seqno x) + unat (s_len (trim_prev sq x)) \<le> off b sq"
    "unat (s_len (trim_prev sq x)) \<le> unat (s_len x)"
    using g d assms(2) by (auto simp: trim_prev_def seg_trim_def)
qed

text \<open>Putting a segment between two parts of a queue.\<close>

lemma ooseq_insert_ok:
  assumes "ooseq_ok sb b (xs @ ys)" and "carries sb z" and "0 < off b (seg_seqno z)" and "off b (seg_seqno z) < 65536"
    and "\<forall>x\<in>set xs. before b x z" and "\<forall>y\<in>set ys. before b z y"
  shows "ooseq_ok sb b (xs @ z # ys)"
  using assms by (auto simp: ooseq_ok_def sorted_wrt_append)

text \<open>Cutting the segment before the insertion point.\<close>

lemma ooseq_trim_ok:
  assumes "ooseq_ok sb b (xs @ x # ys)" and "off b (seg_seqno x) < off b sq" and "off b sq < 65536"
  shows "ooseq_ok sb b (xs @ trim_prev sq x # ys)"
proof -
  have "carries sb x" using assms(1) by (simp add: ooseq_ok_def)
  note t = trim_prev_ok [OF this assms(2,3)]
  then show ?thesis using assms(1)
    by (auto simp: ooseq_ok_def sorted_wrt_append before_def intro: order_trans [OF add_left_mono])
qed

lemma ooseq_head_before:
  assumes "ooseq_ok sb b (xs @ nxt # rest)" and "before b z nxt"
  shows "\<forall>y\<in>set (nxt # rest). before b z y"
  using assms by (auto simp: ooseq_ok_def sorted_wrt_append before_def)

text \<open>In the middle of the queue the test of the source says that the segment comes before \<open>nxt\<close>.\<close>

lemma between_neighbours:
  assumes "off b x < off b sq" and "off b sq < 65536" and "off b y < 65536" and "0 < off b y"
  shows "TCP_SEQ_BETWEEN sq (x + 1) (y - 1) \<longleftrightarrow> off b sq < off b y"
proof -
  have x1: "off b (x + 1) = off b x + 1" using off_add_nat [of b x 1] assms(1,2) by simp
  have "off b (y - 1) + 1 = off b y"
  proof -
    have "y - b \<noteq> 0" using assms(4) by (simp add: off_def unat_gt_0)
    then have "unat (y - b - 1) = unat (y - b) - 1" by (rule unat_minus_one)
    moreover have e: "y - 1 - b = y - b - 1" by simp
    ultimately show ?thesis using assms(4) unfolding off_def e by simp
  qed
  then show ?thesis
    unfolding TCP_SEQ_BETWEEN_def
    using seq_geq [of b sq "x + 1"] seq_leq [of b sq "y - 1"] x1 assms by auto
qed

text \<open>A longer copy of a queued segment does not reach over the segment queued behind that.\<close>

fun no_overrun :: "tcp_seg \<Rightarrow> tcp_seg list \<Rightarrow> bool" where
  "no_overrun seg (x # y # rest) \<longleftrightarrow>
    (seg_seqno x = seg_seqno seg \<and> s_len x < s_len seg \<longrightarrow> unat (s_len seg) \<le> unat (seg_seqno y - seg_seqno seg)) \<and>
    no_overrun seg (y # rest)"
| "no_overrun seg _ \<longleftrightarrow> True"

lemma no_overrun_tl: "no_overrun seg (x # rest) \<Longrightarrow> no_overrun seg rest"
  by (cases rest) simp_all

lemma ooseq_replace_ok:
  assumes "ooseq_ok sb b (pre @ x # rest)" and "carries sb seg" and "seg_seqno x = seg_seqno seg"
    and "no_overrun seg (x # rest)" and "s_len x < s_len seg"
  shows "ooseq_ok sb b (pre @ seg # rest)"
proof -
  have o: "ooseq_ok sb b (pre @ rest)" using assms(1) by (auto simp: ooseq_ok_def sorted_wrt_append)
  have x: "0 < off b (seg_seqno seg)" "off b (seg_seqno seg) < 65536" "\<forall>y\<in>set pre. before b y seg"
    using assms(1,3) by (auto simp: ooseq_ok_def sorted_wrt_append before_def)
  have "\<forall>y\<in>set rest. before b seg y"
  proof (cases rest)
    case (Cons z zs)
    have "before b x z" using assms(1) Cons by (simp add: ooseq_ok_def sorted_wrt_append)
    then have le: "off b (seg_seqno seg) \<le> off b (seg_seqno z)" using assms(3) by (simp add: before_def)
    have "unat (s_len seg) \<le> off (seg_seqno seg) (seg_seqno z)" using assms(3-5) Cons by (simp add: off_def)
    then have "before b seg z" using off_shift [OF le] le unfolding before_def by linarith
    then show ?thesis using ooseq_head_before [of sb b pre z zs seg] o Cons by simp
  qed simp
  then show ?thesis using ooseq_insert_ok [OF o assms(2)] x by simp
qed

lemma ooseq_walk_ok:
  assumes "ooseq_walk env sq seg pre rest n = (os, n')" and "ooseq_ok sb b (pre @ rest)"
    and "carries sb seg" and "seg_seqno seg = sq" and "0 < off b sq" and "off b sq < 65536"
    and "\<forall>x\<in>set pre. off b (seg_seqno x) < off b sq"
    and "no_overrun seg rest"
  shows "ooseq_ok sb b os"
  using assms
proof (induction env sq seg pre rest n rule: ooseq_walk.induct)
  case (2 env sq seg pre nxt rest n)
  have nxt: "carries sb nxt" "0 < off b (seg_seqno nxt)" "off b (seg_seqno nxt) < 65536"
    using "2.prems"(2) by (simp_all add: ooseq_ok_def)
  consider (same) "seg_seqno nxt = sq" | (here) "off b sq < off b (seg_seqno nxt)"
    | (later) "off b (seg_seqno nxt) < off b sq"
    using off_inj [of b "seg_seqno nxt" sq] by linarith
  then show ?case
  proof cases
    case same
    have "ooseq_ok sb b (pre @ seg # rest)" if "s_len nxt < s_len seg"
      using ooseq_replace_ok [OF "2.prems"(2,3) _ "2.prems"(8) that] same "2.prems"(4) by simp
    moreover have "os = pre @ nxt # rest \<or> s_len nxt < s_len seg \<and> os = pre @ seg # rest"
      using "2.prems"(1) same by (auto simp: tcp_seg_copy_def split: prod.splits if_splits)
    ultimately show ?thesis using "2.prems"(2) by auto
  next
    case here
    then have ne: "seg_seqno nxt \<noteq> sq" by auto
    note t = trim_to_next_ok [OF "2.prems"(3,4) here nxt(3)]
    have tn: "ooseq_ok sb b (vs @ trim_to_next sq seg nxt # nxt # rest)"
      if "ooseq_ok sb b (vs @ nxt # rest)" "\<forall>x\<in>set vs. before b x (trim_to_next sq seg nxt)" for vs
      using ooseq_insert_ok [OF that(1) t(1)] ooseq_head_before [OF that(1) t(3)] that(2) "2.prems"(5,6) t(2)
      by simp
    show ?thesis
    proof (cases "pre = []")
      case True
      have "TCP_SEQ_LT sq (seg_seqno nxt)" using seq_lt [of b sq "seg_seqno nxt"] here "2.prems"(6) nxt(3) by simp
      then have "os = trim_to_next sq seg nxt # nxt # rest \<or> os = nxt # rest"
        using "2.prems"(1) True ne by (auto simp: tcp_seg_copy_def split: option.splits prod.splits if_splits)
      then show ?thesis using tn [of "[]"] "2.prems"(2) True by auto
    next
      case False
      define vs x where "vs = butlast pre" and "x = last pre"
      have pre: "pre = vs @ [x]" using False by (simp add: vs_def x_def)
      have x: "off b (seg_seqno x) < off b sq" using "2.prems"(7) by (simp add: pre)
      have bt: "TCP_SEQ_BETWEEN sq (seg_seqno x + 1) (seg_seqno nxt - 1)"
        using between_neighbours [OF x "2.prems"(6) nxt(3,2)] here by simp
      then have "os = vs @ trim_prev sq x # trim_to_next sq seg nxt # nxt # rest \<or> os = pre @ nxt # rest"
        using "2.prems"(1) False ne
        by (auto simp: tcp_seg_copy_def pre split: option.splits prod.splits if_splits)
      moreover have "ooseq_ok sb b ((vs @ [trim_prev sq x]) @ nxt # rest)"
        using ooseq_trim_ok [of sb b vs x "nxt # rest" sq] x "2.prems"(2,6) by (simp add: pre)
      moreover have "\<forall>y\<in>set (vs @ [trim_prev sq x]). before b y (trim_to_next sq seg nxt)"
        using "2.prems"(2,6) x trim_prev_ok [of sb x b sq] t(2)
        by (auto simp: pre ooseq_ok_def sorted_wrt_append before_def)
      ultimately show ?thesis using tn [of "vs @ [trim_prev sq x]"] "2.prems"(2) by auto
    qed
  next
    case later
    then have ne: "seg_seqno nxt \<noteq> sq" by auto
    have nlt: "\<not> TCP_SEQ_LT sq (seg_seqno nxt)" using seq_lt [of b sq "seg_seqno nxt"] later "2.prems"(6) nxt(3) by simp
    have nb: "\<not> TCP_SEQ_BETWEEN sq (seg_seqno (last pre) + 1) (seg_seqno nxt - 1)" if "pre \<noteq> []"
      using between_neighbours [of b "seg_seqno (last pre)" sq "seg_seqno nxt"] that "2.prems"(6,7) nxt later by simp
    show ?thesis
    proof (cases "rest = []")
      case True
      have "TCP_SEQ_GT sq (seg_seqno nxt)" using seq_gt [of b sq "seg_seqno nxt"] later "2.prems"(6) nxt(3) by simp
      then have "os = pre @ [trim_prev sq nxt, seg] \<or> os = pre @ [nxt]"
        using "2.prems"(1) True ne nlt nb by (auto simp: tcp_seg_copy_def split: option.splits prod.splits if_splits)
      moreover have o: "ooseq_ok sb b ((pre @ [trim_prev sq nxt]) @ [])"
        using ooseq_trim_ok [of sb b pre nxt "[]" sq] later "2.prems"(2,6) True by simp
      moreover have "\<forall>y\<in>set (pre @ [trim_prev sq nxt]). before b y seg"
        using "2.prems"(2,4,6) later trim_prev_ok [OF nxt(1) later "2.prems"(6)]
        by (auto simp: ooseq_ok_def sorted_wrt_append before_def)
      ultimately show ?thesis
        using ooseq_insert_ok [OF o "2.prems"(3)] "2.prems"(2,4,5,6) True by auto
    next
      case False
      then have "ooseq_walk env sq seg (pre @ [nxt]) rest n = (os, n')"
        using "2.prems"(1) ne nlt nb by (auto split: if_splits)
      then show ?thesis
        using "2.IH" [OF _ _ _ _ ] ne nlt nb False "2.prems" later no_overrun_tl [OF "2.prems"(8)] by auto
    qed
  qed
qed simp

section \<open>Delivery\<close>

definition rbytes :: "tcp_in \<Rightarrow> u8 list" where
  "rbytes i = (case recv_data i of None \<Rightarrow> [] | Some d \<Rightarrow> d)"

text \<open>The queue seen from a number \<open>c\<close> further on.\<close>

definition ooseq_from :: "(u32 \<Rightarrow> u8) \<Rightarrow> u32 \<Rightarrow> u32 \<Rightarrow> tcp_seg list \<Rightarrow> bool" where
  "ooseq_from sb b c xs \<longleftrightarrow> sorted_wrt (before b) xs \<and>
    (\<forall>x\<in>set xs. carries sb x \<and> off b c \<le> off b (seg_seqno x) \<and> off b (seg_seqno x) < 65536)"

lemma ooseq_rebase:
  assumes "ooseq_from sb b c xs" and "\<forall>x\<in>set xs. seg_seqno x \<noteq> c"
  shows "ooseq_ok sb c xs"
proof -
  have o: "off c (seg_seqno x) = off b (seg_seqno x) - off b c" if "x \<in> set xs" for x
    using off_shift [of b c] assms(1) that by (simp add: ooseq_from_def)
  have "before c x y" if "x \<in> set xs" "y \<in> set xs" "before b x y" for x y
    using that(3) o [OF that(1)] o [OF that(2)] assms(1) that(1) unfolding before_def ooseq_from_def by fastforce
  then have "sorted_wrt (before c) xs"
    using assms(1) sorted_wrt_mono_rel [of xs "before b" "before c"] unfolding ooseq_from_def by blast
  moreover have "\<forall>x\<in>set xs. 0 < off c (seg_seqno x)" using assms(2) by (auto intro!: gr0I)
  moreover have "carries sb x \<and> off c (seg_seqno x) < 65536" if "x \<in> set xs" for x
    using assms(1) o [OF that] that unfolding ooseq_from_def by (auto intro: le_less_trans [OF diff_le_self])
  ultimately show ?thesis unfolding ooseq_ok_def by blast
qed

lemma ooseq_deliver_ok:
  assumes "ooseq_deliver xs p i = (p', i')" and "ooseq_from sb b (rcv_nxt p) xs"
  shows "\<exists>k. rcv_nxt p' = rcv_nxt p + of_nat k \<and> rbytes i' = rbytes i @ slice sb (rcv_nxt p) k \<and>
    ooseq_ok sb (rcv_nxt p') (ooseq p')"
  using assms
proof (induction xs p i rule: ooseq_deliver.induct)
  case (1 p i)
  then show ?case by (auto simp: ooseq_ok_def intro: exI [of _ 0])
next
  case (2 x xs p i)
  have x: "carries sb x" "off b (rcv_nxt p) \<le> off b (seg_seqno x)" "off b (seg_seqno x) < 65536"
    using "2.prems"(2) by (auto simp: ooseq_from_def)
  show ?case
  proof (cases "seg_seqno x = rcv_nxt p")
    case True
    define l where "l = unat (s_len x)"
    define p1 where "p1 = p \<lparr> rcv_nxt := rcv_nxt p + TCP_TCPLEN x, rcv_wnd := wnd_sub (rcv_wnd p) (TCP_TCPLEN x) \<rparr>"
    define i1 where "i1 = (let i = i \<lparr> in_seqno := seg_seqno x \<rparr>;
        i = (if s_data x \<noteq> []
                 then i \<lparr> recv_data := Some (case recv_data i of None \<Rightarrow> s_data x | Some d \<Rightarrow> d @ s_data x) \<rparr>
                 else i)
        in if TCPH_FLAGS (s_tcphdr x) AND TCP_FIN \<noteq> 0 then i \<lparr> recv_flags := TF_GOT_FIN \<rparr> else i)"
    have r1: "rcv_nxt p1 = rcv_nxt p + of_nat l" using carries_tcplen [OF x(1)] by (simp add: p1_def l_def)
    have b1: "rbytes i1 = rbytes i @ slice sb (rcv_nxt p) l"
      using x(1) True by (auto simp: i1_def rbytes_def carries_def l_def Let_def split: option.splits)
    have "off b (rcv_nxt p1) = off b (rcv_nxt p) + l"
      using off_add_nat [of b "rcv_nxt p" l] unat_less_pow [of "s_len x"] x(3) True by (simp add: r1 l_def)
    then have "ooseq_from sb b (rcv_nxt p1) xs"
      using "2.prems"(2) True by (auto simp: ooseq_from_def before_def l_def)
    moreover have "ooseq_deliver xs p1 i1 = (p', i')"
      using "2.prems"(1) True by (simp add: p1_def i1_def Let_def)
    ultimately obtain k where "rcv_nxt p' = rcv_nxt p1 + of_nat k" "rbytes i' = rbytes i1 @ slice sb (rcv_nxt p1) k"
      "ooseq_ok sb (rcv_nxt p') (ooseq p')"
      using "2.IH" [OF True refl refl refl refl] unfolding p1_def i1_def Let_def by blast
    then show ?thesis using r1 b1 slice_append [of sb "rcv_nxt p" l k]
      by (intro exI [of _ "l + k"]) (simp add: add.assoc)
  next
    case False
    have "\<forall>y\<in>set (x # xs). seg_seqno y \<noteq> rcv_nxt p"
    proof
      fix y assume y: "y \<in> set (x # xs)"
      have "off b (rcv_nxt p) < off b (seg_seqno x)" 
        using x(2) False off_inj [of b "rcv_nxt p" "seg_seqno x"] by (auto simp: le_less)
      moreover have "y = x \<or> before b x y" using y "2.prems"(2) by (auto simp: ooseq_from_def)
      ultimately show "seg_seqno y \<noteq> rcv_nxt p" by (auto simp: before_def)
    qed
    then show ?thesis using ooseq_rebase [OF "2.prems"(2)] "2.prems"(1) False
      by (auto intro!: exI [of _ 0])
  qed
qed

section \<open>The receive path\<close>

text \<open>Processing the acknowledgement leaves the receiving side alone: \<open>snd_erase\<close> removes from a
  control block all that belongs to sending.\<close>

definition snd_erase :: "tcp_pcb \<Rightarrow> tcp_pcb" where
  "snd_erase p = (out_erase p) \<lparr> nrtx := 0, ssthresh := 0, cwnd := 0, dupacks := 0, acked := 0, snd_buf := 0,
     snd_queuelen := 0, lastack := 0, snd_wnd := 0, snd_wl1 := 0, snd_wl2 := 0, rto := 0, sa := 0, sv := 0,
     polltmr := 0 \<rparr>"

lemma snd_erase_upd [simp]:
  "snd_erase (p \<lparr> nrtx := v1 \<rparr>) = snd_erase p" "snd_erase (p \<lparr> ssthresh := v2 \<rparr>) = snd_erase p"
  "snd_erase (p \<lparr> cwnd := v3 \<rparr>) = snd_erase p" "snd_erase (p \<lparr> dupacks := v4 \<rparr>) = snd_erase p"
  "snd_erase (p \<lparr> acked := v5 \<rparr>) = snd_erase p" "snd_erase (p \<lparr> snd_buf := v6 \<rparr>) = snd_erase p"
  "snd_erase (p \<lparr> snd_queuelen := v7 \<rparr>) = snd_erase p" "snd_erase (p \<lparr> lastack := v8 \<rparr>) = snd_erase p"
  "snd_erase (p \<lparr> snd_wnd := v9 \<rparr>) = snd_erase p" "snd_erase (p \<lparr> snd_wl1 := v10 \<rparr>) = snd_erase p"
  "snd_erase (p \<lparr> snd_wl2 := v11 \<rparr>) = snd_erase p" "snd_erase (p \<lparr> rto := v12 \<rparr>) = snd_erase p"
  "snd_erase (p \<lparr> sa := v13 \<rparr>) = snd_erase p" "snd_erase (p \<lparr> sv := v14 \<rparr>) = snd_erase p"
  "snd_erase (p \<lparr> polltmr := v15 \<rparr>) = snd_erase p" "snd_erase (p \<lparr> flags := v16 \<rparr>) = snd_erase p"
  "snd_erase (p \<lparr> unsent := v17 \<rparr>) = snd_erase p" "snd_erase (p \<lparr> unacked := v18 \<rparr>) = snd_erase p"
  "snd_erase (p \<lparr> snd_nxt := v19 \<rparr>) = snd_erase p" "snd_erase (p \<lparr> rttest := v20 \<rparr>) = snd_erase p"
  by (simp_all add: snd_erase_def out_erase_def)

lemma snd_erase_output [simp]: "snd_erase (fst (snd (tcp_output env a p n))) = snd_erase p"
  using tcp_output_frame [of env a p n] unfolding snd_erase_def by (metis prod.collapse)

lemma snd_erase_acks [simp]:
  "snd_erase (fst (tcp_ack_now env a p n)) = snd_erase p" "snd_erase (fst (tcp_ack env a p n)) = snd_erase p"
  by (simp_all add: tcp_ack_now_def tcp_ack_def)

lemma snd_erase_rexmit [simp]: "snd_erase (fst (tcp_rexmit env a p n)) = snd_erase p"
  by (simp add: tcp_rexmit_def split: list.splits)

lemma snd_erase_dupack: "snd_erase (fst (rx_dupack env a e p n)) = snd_erase p"
  by (simp add: rx_dupack_def Let_def case_prod_beta)

lemma snd_erase_newack: "rx_newack i p = Some p' \<Longrightarrow> snd_erase p' = snd_erase p"
  by (auto simp: rx_newack_def Let_def bind_eq_Some_conv case_prod_beta dest!: rx_cwnd_frame)

lemma snd_erase_ack:
  assumes "rx_ack env a i p n = Some (p', n')"
  shows "snd_erase p' = snd_erase p"
proof -
  have w: "snd_erase (rx_window i q) = snd_erase q" "snd_erase (rx_unsent i q) = snd_erase q"
    "snd_erase (rx_rtt t i q) = snd_erase q" for q t
    by (simp_all add: rx_window_def rx_unsent_def rx_rtt_def Let_def case_prod_beta)
  show ?thesis using assms unfolding rx_ack_def Let_def
    by (auto simp: bind_eq_Some_conv w dest!: snd_erase_newack split: if_splits)
      (metis fst_conv snd_erase_dupack w(1))
qed

lemma snd_erase_fields:
  assumes "snd_erase p' = snd_erase p"
  shows "rcv_nxt p' = rcv_nxt p" "rcv_wnd p' = rcv_wnd p" "ooseq p' = ooseq p" "state p' = state p"
    "local_port p' = local_port p" "remote_port p' = remote_port p" "remote_ip p' = remote_ip p" "mss p' = mss p"
  using arg_cong [OF assms, of rcv_nxt] arg_cong [OF assms, of rcv_wnd] arg_cong [OF assms, of ooseq]
    arg_cong [OF assms, of state] arg_cong [OF assms, of local_port] arg_cong [OF assms, of remote_port]
    arg_cong [OF assms, of remote_ip] arg_cong [OF assms, of mss]
  by (simp_all add: snd_erase_def out_erase_def)

text \<open>An in-sequence segment is cut where the queue begins, delivered, and followed by what it makes
  deliverable.\<close>

definition inseq_cut :: "tcp_seg list \<Rightarrow> tcp_in \<Rightarrow> tcp_in" where
  "inseq_cut os i =
    (case os of
       [] \<Rightarrow> i
     | oseg # _ \<Rightarrow>
         if TCP_SEQ_LEQ (seg_seqno oseg) (in_seqno i + ucast (s_len (inseg i)))
         then i \<lparr> inseg := seg_trim (inseg i) (ucast (seg_seqno oseg - in_seqno i)) \<rparr> else i)"

lemma inseq_cut_ok:
  assumes "ooseq_ok sb (in_seqno i) os" and "carries sb (inseg i)" and "seg_seqno (inseg i) = in_seqno i"
  defines "j \<equiv> inseq_cut os i"
  shows "carries sb (inseg j)" "seg_seqno (inseg j) = in_seqno i" "recv_data j = recv_data i"
    "\<forall>x\<in>set os. unat (s_len (inseg j)) \<le> off (in_seqno i) (seg_seqno x)"
proof -
  show "recv_data j = recv_data i" "seg_seqno (inseg j) = in_seqno i"
    using assms(3) by (simp_all add: j_def inseq_cut_def seg_trim_def split: list.split)
  show "carries sb (inseg j)" "\<forall>x\<in>set os. unat (s_len (inseg j)) \<le> off (in_seqno i) (seg_seqno x)"
  proof (atomize (full), cases os)
    case (Cons x xs)
    have x: "0 < off (in_seqno i) (seg_seqno x)" "off (in_seqno i) (seg_seqno x) < 65536"
      and le: "\<forall>y\<in>set os. off (in_seqno i) (seg_seqno x) \<le> off (in_seqno i) (seg_seqno y)"
      using assms(1) Cons by (auto simp: ooseq_ok_def before_def)
    have e: "off (in_seqno i) (in_seqno i + ucast (s_len (inseg i))) = unat (s_len (inseg i))"
      "off (in_seqno i) (in_seqno i + ucast (s_len (inseg i))) < 2 ^ 31"
      using seg_end_off [of "in_seqno i" "in_seqno i" "s_len (inseg i)"] by simp_all
    have c: "TCP_SEQ_LEQ (seg_seqno x) (in_seqno i + ucast (s_len (inseg i)))
        \<longleftrightarrow> off (in_seqno i) (seg_seqno x) \<le> unat (s_len (inseg i))"
      using seq_leq [OF _ e(2), of "seg_seqno x"] x(2) e(1) by simp
    have d: "unat (ucast (seg_seqno x - in_seqno i) :: u16) = off (in_seqno i) (seg_seqno x)"
      using unat_seq_diff [of "in_seqno i" "in_seqno i" "seg_seqno x"] x by simp
    have "carries sb (inseg j) \<and> unat (s_len (inseg j)) \<le> off (in_seqno i) (seg_seqno x)"
      using carries_trim [OF assms(2), of "ucast (seg_seqno x - in_seqno i)"] x(1) assms(2)
      by (auto simp: j_def inseq_cut_def Cons c d) (simp add: seg_trim_def d)
    then show "carries sb (inseg j) \<and> (\<forall>x\<in>set os. unat (s_len (inseg j)) \<le> off (in_seqno i) (seg_seqno x))"
      using le by fastforce
  qed (use assms(2) in \<open>simp add: j_def inseq_cut_def\<close>)
qed

lemma rx_inseq_ok:
  assumes "rx_inseq env a p i n = (p', i', n')" and "ooseq_ok sb (rcv_nxt p) (ooseq p)" and "carries sb (inseg i)"
    and "seg_seqno (inseg i) = in_seqno i" and "in_seqno i = rcv_nxt p"
  shows "\<exists>k > 0. rcv_nxt p' = rcv_nxt p + of_nat k \<and> rbytes i' = slice sb (rcv_nxt p) k \<and>
    ooseq_ok sb (rcv_nxt p') (ooseq p')"
proof -
  define j where "j = inseq_cut (ooseq p) i"
  have c: "carries sb (inseg j)" "seg_seqno (inseg j) = rcv_nxt p"
    "\<forall>x\<in>set (ooseq p). unat (s_len (inseg j)) \<le> off (rcv_nxt p) (seg_seqno x)"
    using inseq_cut_ok [of sb i "ooseq p"] assms(2-5) by (simp_all add: j_def)
  define l where "l = unat (s_len (inseg j))"
  define p1 where "p1 = p \<lparr> rcv_nxt := rcv_nxt p + of_nat l, rcv_wnd := wnd_sub (rcv_wnd p) (of_nat l) \<rparr>"
  define i1 where "i1 = j \<lparr> in_tcplen := of_nat l, recv_data := Some (s_data (inseg j)), inseg_p := False \<rparr>"
  have l: "0 < l" "l < 65536" using c(1) unat_less_pow [of "s_len (inseg j)"] by (simp_all add: l_def carries_def)
  have t: "ucast (TCP_TCPLEN (inseg j)) = (of_nat l :: u16)" "ucast (of_nat l :: u16) = (of_nat l :: u32)"
    using carries_tcplen [OF c(1)] l by (auto simp: l_def intro!: word_unat_eq_iff [THEN iffD2] simp: unat_ucast_mod unat_of_nat)
  have d: "s_data (inseg j) \<noteq> []" and f: "TCPH_FLAGS (s_tcphdr (inseg j)) AND TCP_FIN = 0"
    using c(1) l by (simp_all add: carries_def l_def syn_fin_def and_or_zero)
  obtain p2 i2 where o: "ooseq_deliver (ooseq p) p1 i1 = (p2, i2)" by fastforce
  have "p' = fst (tcp_ack env a p2 n)" "i' = i2"
    using assms(1) o unfolding rx_inseq_def j_def [symmetric, unfolded inseq_cut_def]
    by (simp_all add: t d f p1_def i1_def Let_def case_prod_beta)
  moreover have "ooseq_from sb (rcv_nxt p) (rcv_nxt p1) (ooseq p)"
    using assms(2) c(3) off_plus [of "rcv_nxt p" "of_nat l"] l
    by (auto simp: ooseq_from_def ooseq_ok_def p1_def l_def unat_ucast_up)
  then obtain k where "rcv_nxt p2 = rcv_nxt p1 + of_nat k" "rbytes i2 = rbytes i1 @ slice sb (rcv_nxt p1) k"
    "ooseq_ok sb (rcv_nxt p2) (ooseq p2)"
    using ooseq_deliver_ok [OF o] by blast
  moreover have "rbytes i1 = slice sb (rcv_nxt p) l" using c(1,2) by (simp add: i1_def rbytes_def carries_def l_def)
  ultimately show ?thesis
    using snd_erase_fields(1,3) [OF snd_erase_acks(2), of env a p2 n] l(1) slice_append [of sb "rcv_nxt p" l k]
    by (intro exI [of _ "l + k"]) (simp add: p1_def add.assoc)
qed

text \<open>Cutting off what was received before.\<close>

lemma carries_drop:
  assumes "carries sb x" and "unat d < unat (s_len x)"
  shows "carries sb (x \<lparr> s_data := drop (unat d) (s_data x), s_len := s_len x - ucast (d :: u32),
    s_tcphdr := (s_tcphdr x) \<lparr> h_seqno := seg_seqno x + d \<rparr> \<rparr>)"
proof -
  have u: "unat (ucast d :: u16) = unat d" using assms(2) unat_less_pow [of "s_len x"] by (simp add: unat_ucast_mod)
  then have "unat (s_len x - ucast d) = unat (s_len x) - unat d" using assms(2) by (simp add: unat_sub word_le_nat_alt)
  moreover have "TCPH_FLAGS ((s_tcphdr x) \<lparr> h_seqno := seg_seqno x + d \<rparr>) = TCPH_FLAGS (s_tcphdr x)"
    by (simp add: TCPH_FLAGS_def)
  ultimately show ?thesis
    using assms drop_slice [of "unat d" "unat (s_len x)" sb "seg_seqno x"] by (simp add: carries_def syn_fin_def)
qed

lemma rx_outseq_ok:
  assumes "rx_outseq env a p i n = (p', n')" and "ooseq_ok sb (rcv_nxt p) (ooseq p)" and "carries sb (inseg i)"
    and "seg_seqno (inseg i) = in_seqno i" and "0 < off (rcv_nxt p) (in_seqno i)" and "off (rcv_nxt p) (in_seqno i) < 65536"
    and "no_overrun (inseg i) (ooseq p)"
  shows "rcv_nxt p' = rcv_nxt p \<and> ooseq_ok sb (rcv_nxt p) (ooseq p')"
proof -
  obtain q m where q: "tcp_ack_now env a p n = (q, m)" by fastforce
  have f: "rcv_nxt q = rcv_nxt p" "ooseq q = ooseq p"
    using snd_erase_fields(1,3) [OF snd_erase_acks(1), of env a p n] q by simp_all
  show ?thesis
  proof (cases "ooseq p = []")
    case True
    then have "p' = q \<or> p' = q \<lparr> ooseq := [inseg i] \<rparr>"
      using assms(1) q f by (auto simp: rx_outseq_def tcp_seg_copy_def Let_def split: prod.splits if_splits)
    then show ?thesis using assms(2-6) True f by (auto simp: ooseq_ok_def)
  next
    case False
    obtain os m' where w: "ooseq_walk env (in_seqno i) (inseg i) [] (ooseq p) m = (os, m')" by fastforce
    then have "p' = q \<lparr> ooseq := os \<rparr>" using assms(1) q f False by (simp add: rx_outseq_def)
    then show ?thesis using ooseq_walk_ok [OF w, of sb "rcv_nxt p"] assms(2-7) f by simp
  qed
qed

text \<open>Where a segment lies with respect to \<open>rcv_nxt\<close>.\<close>

lemma covers_iff:
  assumes "0 < unat (l :: u16)" and "off sq r < 2 ^ 31"
  shows "TCP_SEQ_BETWEEN r (sq + 1) (sq + ucast l - 1) \<longleftrightarrow> 0 < off sq r \<and> off sq r < unat l"
proof -
  have l: "unat l < 65536" using unat_less_pow [of l] by simp
  have e1: "off sq (sq + 1) = 1" by simp
  have e2: "off sq (sq + ucast l - 1) = unat l - 1"
  proof -
    have "sq + ucast l - 1 = sq + (ucast l - 1)" by simp
    moreover have "unat (ucast l - 1 :: u32) = unat l - 1"
    proof -
      have "unat (ucast l :: u32) = unat l" by (simp add: unat_ucast_up)
      then show ?thesis using assms(1) unat_minus_one [of "ucast l :: u32"] by force
    qed
    ultimately show ?thesis using off_plus [of sq "ucast l - 1"] by (simp only:)
  qed
  have g: "TCP_SEQ_GEQ r (sq + 1) \<longleftrightarrow> 1 \<le> off sq r" using seq_geq [OF assms(2), of "sq + 1"] e1 by simp
  have "TCP_SEQ_LEQ r (sq + ucast l - 1) \<longleftrightarrow> off sq r \<le> unat l - 1"
    using seq_leq [OF assms(2), of "sq + ucast l - 1"] e2 l by simp
  then show ?thesis using g assms(1) unfolding TCP_SEQ_BETWEEN_def by linarith
qed

text \<open>A data segment whose fields agree with its header, and a segment that the receiving side can handle: it
  is empty, or it is a data segment that is not exactly half the number space away and not a longer copy of a queued
  segment that reaches over the next one.  When the window is closed, the code takes one number for inside of it, the
  last of the half space ahead.\<close>

definition data_seg :: "(u32 \<Rightarrow> u8) \<Rightarrow> tcp_in \<Rightarrow> bool" where
  "data_seg sb i \<longleftrightarrow> carries sb (inseg i) \<and> seg_seqno (inseg i) = in_seqno i \<and> in_tcplen i = s_len (inseg i)"

definition good_seg :: "(u32 \<Rightarrow> u8) \<Rightarrow> tcp_pcb \<Rightarrow> tcp_in \<Rightarrow> bool" where
  "good_seg sb p i \<longleftrightarrow> recv_data i = None \<and>
    (in_tcplen i = 0 \<or>
     data_seg sb i \<and> unat (rcv_nxt p - in_seqno i) \<noteq> 2 ^ 31 \<and>
     (rcv_wnd p = 0 \<longrightarrow> unat (in_seqno i - rcv_nxt p) \<noteq> 2 ^ 31 - 1) \<and> no_overrun (inseg i) (ooseq p))"

definition covers :: "tcp_in \<Rightarrow> u32 \<Rightarrow> bool" where
  "covers i q \<longleftrightarrow> unat (q - in_seqno i) < unat (in_tcplen i)"

definition delivers :: "(u32 \<Rightarrow> u8) \<Rightarrow> tcp_pcb \<Rightarrow> tcp_pcb \<Rightarrow> tcp_in \<Rightarrow> nat \<Rightarrow> bool" where
  "delivers sb p p' i' k \<longleftrightarrow> rcv_nxt p' = rcv_nxt p + of_nat k \<and> rbytes i' = slice sb (rcv_nxt p) k \<and>
    ooseq_ok sb (rcv_nxt p') (ooseq p')"

lemma in_window_iff:
  assumes "0 < rcv_wnd p"
  shows "in_window p i \<longleftrightarrow> off (rcv_nxt p) (in_seqno i) < unat (rcv_wnd p)"
proof -
  have w: "0 < unat (rcv_wnd p)" "unat (rcv_wnd p) < 65536"
    using assms unat_less_pow [of "rcv_wnd p"] by (simp_all add: unat_gt_0 word_neq_0_conv)
  have u: "unat (ucast (rcv_wnd p) :: u32) = unat (rcv_wnd p)" by (simp add: unat_ucast_up)
  have "rcv_nxt p + ucast (rcv_wnd p) - 1 = rcv_nxt p + (ucast (rcv_wnd p) - 1)" by simp
  moreover have "unat (ucast (rcv_wnd p) - 1 :: u32) = unat (rcv_wnd p) - 1"
    using w(1) u unat_minus_one [of "ucast (rcv_wnd p) :: u32"] by force
  ultimately have "off (rcv_nxt p) (rcv_nxt p + ucast (rcv_wnd p) - 1) = unat (rcv_wnd p) - 1"
    using off_plus [of "rcv_nxt p" "ucast (rcv_wnd p) - 1"] by (simp only:)
  then show ?thesis
    using seq_between [of "rcv_nxt p" "rcv_nxt p + ucast (rcv_wnd p) - 1" "in_seqno i"] w
    unfolding in_window_def by auto
qed

lemma delivers_0:
  assumes "snd_erase p' = snd_erase p" and "recv_data i' = None" and "ooseq_ok sb (rcv_nxt p) (ooseq p)"
  shows "delivers sb p p' i' 0"
  using assms snd_erase_fields(1,3) [OF assms(1)] by (simp add: delivers_def rbytes_def)

text \<open>The three places a segment can be at: over \<open>rcv_nxt\<close>, before it, and after it.\<close>

lemma rx_data_covers:
  assumes "rx_data env a p i n = (p', i', n')" and "carries sb (inseg i)" and "seg_seqno (inseg i) = in_seqno i"
    and "in_tcplen i = s_len (inseg i)" and "ooseq_ok sb (rcv_nxt p) (ooseq p)" and "0 < rcv_wnd p"
    and "off (in_seqno i) (rcv_nxt p) < unat (s_len (inseg i))"
  shows "\<exists>k > 0. delivers sb p p' i' k"
proof -
  have t: "0 < in_tcplen i" using assms(4,7) by (simp add: word_less_nat_alt)
  have "off (in_seqno i) (rcv_nxt p) < 2 ^ 31" using assms(7) unat_less_pow [of "s_len (inseg i)"] by simp
  then have bt: "TCP_SEQ_BETWEEN (rcv_nxt p) (in_seqno i + 1) (in_seqno i + ucast (in_tcplen i) - 1)
      \<longleftrightarrow> in_seqno i \<noteq> rcv_nxt p"
    using covers_iff [of "s_len (inseg i)" "in_seqno i" "rcv_nxt p"] assms(4,7) by auto
  have w: "in_window p j" if "in_seqno j = rcv_nxt p" for j
    using in_window_iff [OF assms(6)] that assms(6) by (simp add: unat_gt_0 word_neq_0_conv)
  define j where "j = (if in_seqno i = rcv_nxt p then i else rx_trim_front p i)"
  have j: "in_seqno j = rcv_nxt p" "seg_seqno (inseg j) = in_seqno j"
    using assms(3) by (simp_all add: j_def rx_trim_front_def Let_def)
  have "\<not> TCP_SEQ_LT (rcv_nxt p) (rcv_nxt p)" by (simp add: TCP_SEQ_LT_def)
  then have r: "rx_inseq env a p j n = (p', i', n')"
    using assms(1) t w [of i] w [of "rx_trim_front p i"] j(1) bt unfolding rx_data_def j_def
    by (cases "in_seqno i = rcv_nxt p") simp_all
  have "carries sb (inseg j)"
    using carries_drop [OF assms(2), of "rcv_nxt p - in_seqno i"] assms(2,3,7)
    by (simp add: j_def rx_trim_front_def Let_def off_def)
  then show ?thesis using rx_inseq_ok [OF r assms(5) _ j(2,1)] unfolding delivers_def by blast
qed

lemma rx_data_old:
  assumes "rx_data env a p i n = (p', i', n')" and "recv_data i = None" and "ooseq_ok sb (rcv_nxt p) (ooseq p)"
    and "0 < in_tcplen i" and "unat (in_tcplen i) \<le> off (in_seqno i) (rcv_nxt p)"
    and "off (in_seqno i) (rcv_nxt p) < 2 ^ 31"
  shows "delivers sb p p' i' 0"
proof -
  have pos: "0 < unat (in_tcplen i)" using assms(4) by (simp add: unat_gt_0 word_neq_0_conv)
  have lt: "TCP_SEQ_LT (in_seqno i) (rcv_nxt p)"
    using seq_lt [of "in_seqno i" "in_seqno i" "rcv_nxt p"] assms(5,6) pos by simp
  have nb: "\<not> TCP_SEQ_BETWEEN (rcv_nxt p) (in_seqno i + 1) (in_seqno i + ucast (in_tcplen i) - 1)"
    using covers_iff [OF pos assms(6)] assms(5) by simp
  obtain q m where q: "tcp_ack_now env a p n = (q, m)" by fastforce
  have "rcv_nxt q = rcv_nxt p" using snd_erase_fields(1) [OF snd_erase_acks(1), of env a p n] q by simp
  then have "\<not> in_window q i"
    using lt by (simp add: in_window_def TCP_SEQ_BETWEEN_def TCP_SEQ_GEQ_def TCP_SEQ_LT_def)
  then have e: "p' = fst (tcp_ack_now env a q m)" "i' = i"
    using assms(1,4) nb lt q unfolding rx_data_def by (simp_all add: case_prod_beta)
  have "snd_erase q = snd_erase p" using snd_erase_acks(1) [of env a p n] q by simp
  then show ?thesis using e assms(2,3) by (intro delivers_0) simp_all
qed

lemma rx_data_new:
  assumes "rx_data env a p i n = (p', i', n')" and "data_seg sb i" and "recv_data i = None" and "no_overrun (inseg i) (ooseq p)"
    and "ooseq_ok sb (rcv_nxt p) (ooseq p)"
    and "0 < rcv_wnd p" and "0 < in_tcplen i" and "2 ^ 31 < off (in_seqno i) (rcv_nxt p)"
  shows "delivers sb p p' i' 0"
proof -
  have c: "carries sb (inseg i)" "seg_seqno (inseg i) = in_seqno i" "recv_data i = None"
    using assms(2,3) by (simp_all add: data_seg_def)
  have r: "off (rcv_nxt p) (in_seqno i) < 2 ^ 31" by (rule off_rev [OF assms(8)])
  have ne: "in_seqno i \<noteq> rcv_nxt p" using assms(8) by auto
  have nl: "\<not> TCP_SEQ_LT (in_seqno i) (rcv_nxt p)" using seq_lt [OF r, of "rcv_nxt p"] by simp
  have "2 ^ 31 \<le> off (in_seqno i + 1) (rcv_nxt p)"
    using off_shift [of "in_seqno i" "in_seqno i + 1" "rcv_nxt p"] assms(8) by simp
  then have nb: "\<not> TCP_SEQ_BETWEEN (rcv_nxt p) (in_seqno i + 1) (in_seqno i + ucast (in_tcplen i) - 1)"
    using not_seq_geq by (auto simp: TCP_SEQ_BETWEEN_def)
  show ?thesis
  proof (cases "in_window p i")
    case True
    obtain q m where o: "rx_outseq env a p i n = (q, m)" by fastforce
    have "off (rcv_nxt p) (in_seqno i) < unat (rcv_wnd p)" using True in_window_iff [OF assms(6)] by simp
    then have lt: "off (rcv_nxt p) (in_seqno i) < 65536" using unat_less_pow [of "rcv_wnd p"] by simp
    have "0 < off (rcv_nxt p) (in_seqno i)" using ne by (simp add: zero_less_iff_neq_zero)
    then have "rcv_nxt q = rcv_nxt p \<and> ooseq_ok sb (rcv_nxt p) (ooseq q)"
      by (rule rx_outseq_ok [OF o assms(5) c(1,2) _ lt assms(4)])
    moreover have "p' = q" "i' = i"
      using assms(1,7) nb nl ne True o unfolding rx_data_def by (simp_all add: ne [symmetric])
    ultimately show ?thesis using c(3) by (simp add: delivers_def rbytes_def)
  next
    case False
    then have "p' = fst (tcp_ack_now env a p n)" "i' = i"
      using assms(1,7) nb nl unfolding rx_data_def by (simp_all add: case_prod_beta)
    then show ?thesis using c(3) assms(5) by (intro delivers_0) simp_all
  qed
qed

lemma rx_data_empty:
  assumes "rx_data env a p i n = (p', i', n')" and "in_tcplen i = 0"
  shows "snd_erase p' = snd_erase p" "i' = i"
  using assms snd_erase_acks(1) [of env a p n] by (auto simp: rx_data_def case_prod_beta split: if_splits)

text \<open>A closed window lets no data in.\<close>

lemma closed_window:
  assumes "rcv_wnd p = 0" and "in_window p i"
  shows "unat (in_seqno i - rcv_nxt p) = 2 ^ 31 - 1"
proof -
  let ?d = "in_seqno i - rcv_nxt p"
  have "rcv_nxt p + ucast (rcv_wnd p) - 1 = rcv_nxt p - 1" using assms(1) by simp
  then have g: "TCP_SEQ_GEQ (in_seqno i) (rcv_nxt p)" "TCP_SEQ_LEQ (in_seqno i) (rcv_nxt p - 1)"
    using assms(2) by (simp_all add: in_window_def TCP_SEQ_BETWEEN_def)
  have lt: "off (rcv_nxt p) (in_seqno i) < 2 ^ 31" using g(1) not_seq_geq [of "rcv_nxt p" "in_seqno i"] by linarith
  show ?thesis
  proof (rule ccontr)
    assume "unat ?d \<noteq> 2 ^ 31 - 1"
    then have b: "off (rcv_nxt p) (in_seqno i) + 1 < 2 ^ 31" using lt by (simp add: off_def)
    let ?b = "rcv_nxt p - 1"
    have u: "off ?b (in_seqno i) = off (rcv_nxt p) (in_seqno i) + 1"
    proof -
      have e: "in_seqno i - ?b = ?d + 1" by simp
      have "unat (?d + 1) = unat ?d + 1" using unat_add_exact [of ?d 1] b by (simp add: off_def)
      then show ?thesis unfolding off_def e .
    qed
    have "TCP_SEQ_LEQ (in_seqno i) ?b \<longleftrightarrow> off ?b (in_seqno i) \<le> off ?b ?b"
      using seq_leq [of ?b "in_seqno i" ?b] u b by simp
    then show False using g(2) u by simp
  qed
qed

lemma rx_data_closed:
  assumes "rx_data env a p i n = (p', i', n')" and "recv_data i = None" and "rcv_wnd p = 0"
    and "unat (in_seqno i - rcv_nxt p) \<noteq> 2 ^ 31 - 1"
  shows "snd_erase p' = snd_erase p" "recv_data i' = None"
proof -
  have nw: "\<not> in_window q j" if "snd_erase q = snd_erase p" "in_seqno j = in_seqno i \<or> in_seqno j = rcv_nxt p" for q j
    using closed_window [of q j] snd_erase_fields(1,2) [OF that(1)] that(2) assms(3,4) by auto
  have "snd_erase p' = snd_erase p \<and> recv_data i' = None"
    using assms(1,2) nw [of p i] nw [of p "rx_trim_front p i"] nw [of "fst (tcp_ack_now env a p n)" i]
    unfolding rx_data_def by (auto simp: rx_trim_front_def Let_def case_prod_beta split: if_splits)
  then show "snd_erase p' = snd_erase p" "recv_data i' = None" by simp_all
qed

lemma rx_data_ok:
  assumes "rx_data env a p i n = (p', i', n')" and "good_seg sb p i" and "ooseq_ok sb (rcv_nxt p) (ooseq p)"
  shows "\<exists>k. delivers sb p p' i' k \<and> (covers i (rcv_nxt p) \<and> 0 < rcv_wnd p \<longrightarrow> 0 < k)"
proof -
  have rd: "recv_data i = None" using assms(2) by (simp add: good_seg_def)
  consider (nothing) "in_tcplen i = 0" | (closed) "rcv_wnd p = 0" "unat (in_seqno i - rcv_nxt p) \<noteq> 2 ^ 31 - 1"
    | (data) "0 < in_tcplen i" "0 < rcv_wnd p" "data_seg sb i" "off (in_seqno i) (rcv_nxt p) \<noteq> 2 ^ 31"
      "no_overrun (inseg i) (ooseq p)"
    using assms(2) unfolding good_seg_def off_def by (metis word_neq_0_conv)
  then show ?thesis
  proof cases
    case nothing
    then show ?thesis using rx_data_empty [OF assms(1)] delivers_0 [OF _ _ assms(3)] rd by (auto simp: covers_def)
  next
    case closed
    then show ?thesis using rx_data_closed [OF assms(1) rd] delivers_0 [OF _ _ assms(3)] by auto
  next
    case data
    then have c: "carries sb (inseg i)" "seg_seqno (inseg i) = in_seqno i" "in_tcplen i = s_len (inseg i)"
      by (simp_all add: data_seg_def)
    consider (over) "off (in_seqno i) (rcv_nxt p) < unat (s_len (inseg i))"
      | (old) "unat (s_len (inseg i)) \<le> off (in_seqno i) (rcv_nxt p)" "off (in_seqno i) (rcv_nxt p) < 2 ^ 31"
      | (new) "unat (s_len (inseg i)) \<le> off (in_seqno i) (rcv_nxt p)" "2 ^ 31 < off (in_seqno i) (rcv_nxt p)"
      using data(4) by linarith
    then show ?thesis
    proof cases
      case over
      then show ?thesis using rx_data_covers [OF assms(1) c(1-3) assms(3) data(2)] by blast
    next
      case old
      then show ?thesis using rx_data_old [OF assms(1) rd assms(3) data(1)] c(3)
        unfolding covers_def off_def [symmetric] by auto
    next
      case new
      then show ?thesis using rx_data_new [OF assms(1) data(3) rd data(5) assms(3) data(2,1) new(2)] c(3)
        unfolding covers_def off_def [symmetric] by auto
    qed
  qed
qed

lemma tcp_receive_data:
  assumes "tcp_receive env a p i n = Some r"
  obtains q m where "rx_data env a q i m = r" and "snd_erase q = snd_erase p"
  using assms by (auto simp: tcp_receive_def bind_eq_Some_conv dest: snd_erase_ack split: if_splits)

lemma tcp_receive_ok:
  assumes "tcp_receive env a p i n = Some (p', i', n')" and "good_seg sb p i"
    and "ooseq_ok sb (rcv_nxt p) (ooseq p)"
  shows "\<exists>k. delivers sb p p' i' k \<and> (covers i (rcv_nxt p) \<and> 0 < rcv_wnd p \<longrightarrow> 0 < k)"
proof -
  obtain q m where q: "rx_data env a q i m = (p', i', n')" "snd_erase q = snd_erase p"
    using assms(1) by (rule tcp_receive_data)
  note f = snd_erase_fields [OF q(2)]
  show ?thesis using rx_data_ok [OF q(1), of sb] assms(2,3) f by (simp add: delivers_def good_seg_def)
qed

text \<open>C6: Let the arriving segment be empty, or a data segment without SYN and FIN that carries the bytes that belong to its sequence
  numbers, is not exactly half the number space away from \<open>rcv_nxt\<close> (nor, when the window is closed, one less than that ahead), and is
  not a longer copy of a queued segment that reaches over the next queued one; other longer copies are allowed.  Then \<open>tcp_receive\<close> passes
  to the application exactly the piece of the stream that starts at \<open>rcv_nxt\<close>, advances \<open>rcv_nxt\<close> by
  its length, and leaves the out-of-sequence queue sorted, without overlaps, beyond \<open>rcv_nxt\<close> and made
  of stream bytes.  With an open window, a segment that covers \<open>rcv_nxt\<close> always makes progress.\<close>

theorem tcp_receive_delivers:
  assumes "tcp_receive env a p i n = Some (p', i', n')" and "good_seg sb p i"
    and "ooseq_ok sb (rcv_nxt p) (ooseq p)"
  shows "\<exists>k. rcv_nxt p' = rcv_nxt p + of_nat k \<and> rbytes i' = slice sb (rcv_nxt p) k \<and>
    ooseq_ok sb (rcv_nxt p') (ooseq p') \<and> (covers i (rcv_nxt p) \<and> 0 < rcv_wnd p \<longrightarrow> 0 < k)"
  using tcp_receive_ok [OF assms] unfolding delivers_def by blast

text \<open>An example: 700 is missing when the segment at 702 is queued, and arrives overlapping it.\<close>

definition ex_stream :: "u32 \<Rightarrow> u8" where
  "ex_stream q = ucast q"

definition ex_rcv :: tcp_pcb where
  "ex_rcv = ex_pcb \<lparr> unsent := [], rcv_nxt := 700, rcv_wnd := 1000, ooseq := [ex_seg 702 [190, 191]] \<rparr>"

definition ex_in :: "u32 \<Rightarrow> u8 list \<Rightarrow> tcp_in" where
  "ex_in sq d = \<lparr> inseg = ex_seg sq d, inseg_p = True, in_opts = [], in_src = 0, in_dest = 0, in_seqno = sq,
     in_ackno = 0, in_flags = 0, in_tcplen = of_nat (length d), recv_flags = 0, recv_data = None \<rparr>"

lemma ex_in_simps [simp]:
  "inseg (ex_in sq d) = ex_seg sq d" "in_seqno (ex_in sq d) = sq" "in_tcplen (ex_in sq d) = of_nat (length d)"
  "recv_data (ex_in sq d) = None" "in_flags (ex_in sq d) = 0"
  by (simp_all add: ex_in_def)

lemma ex_rcv_simps [simp]: "rcv_nxt ex_rcv = 700" "rcv_wnd ex_rcv = 1000" "ooseq ex_rcv = [ex_seg 702 [190, 191]]"
  by (simp_all add: ex_rcv_def)

lemma ex_seg_flags: "TCPH_FLAGS (s_tcphdr (ex_seg sq d)) = TCP_ACK"
  by (simp add: ex_seg_def TCPH_FLAGS_def cfg_defs)

lemma ex_seg_cut: "\<not> syn_fin (ex_seg sq d \<lparr> s_len := l, s_data := d' \<rparr>)"
  using ex_seg_simps(5) [of sq d] by (simp add: syn_fin_def)

lemma receive_pure:
  assumes "in_flags i AND TCP_ACK = 0"
  shows "tcp_receive env a p i n = Some (rx_data env a p i n)"
  using assms by (simp add: tcp_receive_def)

lemma slice_upt: "slice sb q n = map (\<lambda>k. sb (q + of_nat k)) [0..<n]"
  by (fact slice_def)

theorem tcp_receive_delivers_witness:
  "\<exists>p' i' n' k. tcp_receive ex_env 0 ex_rcv (ex_in 699 [187, 188, 189, 190]) ex_net = Some (p', i', n') \<and>
     rcv_nxt p' = 700 + of_nat k \<and> rbytes i' = slice ex_stream 700 k \<and>
     ooseq_ok ex_stream (rcv_nxt p') (ooseq p') \<and> 0 < k"
proof -
  let ?i = "ex_in 699 [187, 188, 189, 190]"
  obtain p' i' n' where r: "rx_data ex_env 0 ex_rcv ?i ex_net = (p', i', n')" by (rule prod_cases3)
  then have t: "tcp_receive ex_env 0 ex_rcv ?i ex_net = Some (p', i', n')" by (simp add: receive_pure)
  have g: "good_seg ex_stream ex_rcv ?i"
    by (simp add: good_seg_def data_seg_def carries_def slice_def ex_stream_def upt_rec)
  have o: "ooseq_ok ex_stream (rcv_nxt ex_rcv) (ooseq ex_rcv)"
    by (simp add: ooseq_ok_def carries_def slice_def ex_stream_def upt_rec off_def)
  have "covers ?i (rcv_nxt ex_rcv)" by (simp add: covers_def)
  then show ?thesis using tcp_receive_delivers [OF t g o] t by simp
qed

text \<open>Receiving several segments in a row, with the bytes that are passed on.\<close>

fun receive_all :: "tcp_env \<Rightarrow> addr \<Rightarrow> tcp_in list \<Rightarrow> tcp_pcb \<Rightarrow> 'a net_scheme \<Rightarrow> (tcp_pcb \<times> u8 list) option" where
  "receive_all env a [] p n = Some (p, [])"
| "receive_all env a (i # is) p n =
    (case tcp_receive env a p i n of
       None \<Rightarrow> None
     | Some (p, i, n) \<Rightarrow> (case receive_all env a is p n of None \<Rightarrow> None | Some (p, bs) \<Rightarrow> Some (p, rbytes i @ bs)))"

text \<open>A longer copy of the first queued segment takes its place, whatever is queued behind.\<close>

lemma in_window_off:
  assumes "off (rcv_nxt p) (in_seqno i) < unat (rcv_wnd p)"
  shows "in_window p i"
proof -
  have "0 < rcv_wnd p" using assms by (simp add: word_less_nat_alt)
  from in_window_iff [OF this] show ?thesis using assms by blast
qed

lemma rx_data_replace:
  assumes "rx_data env a p i n = (p', i', n')" and "mem_ok env = (\<lambda>_. True)" and "ooseq p = x # rest"
    and "seg_seqno x = in_seqno i" and "s_len x < s_len (inseg i)" and "in_tcplen i = s_len (inseg i)"
    and "0 < off (rcv_nxt p) (in_seqno i)" and "off (rcv_nxt p) (in_seqno i) < unat (rcv_wnd p)"
  shows "i' = i" "rcv_nxt p' = rcv_nxt p" "rcv_wnd p' = rcv_wnd p" "ooseq p' = inseg i # rest"
proof -
  obtain q m where q: "tcp_ack_now env a p n = (q, m)" by fastforce
  have f: "rcv_nxt q = rcv_nxt p" "ooseq q = ooseq p" "rcv_wnd q = rcv_wnd p"
    using snd_erase_fields(1-3) [OF snd_erase_acks(1), of env a p n] q by simp_all
  have lt: "off (rcv_nxt p) (in_seqno i) < 2 ^ 31" using assms(8) unat_less_pow [of "rcv_wnd p"] by simp
  have t: "0 < in_tcplen i" using assms(5,6) by (simp add: word_less_nat_alt)
  have ge: "\<not> TCP_SEQ_LT (in_seqno i) (rcv_nxt p)" using seq_lt [OF lt, of "rcv_nxt p"] by simp
  have nb: "\<not> TCP_SEQ_BETWEEN (rcv_nxt p) (in_seqno i + 1) c" for c
  proof -
    have "off (rcv_nxt p) (in_seqno i + 1) = off (rcv_nxt p) (in_seqno i) + 1" using off_add_nat [of _ _ 1] lt by simp
    then have "\<not> TCP_SEQ_GEQ (rcv_nxt p) (in_seqno i + 1)"
      using seq_geq [of "rcv_nxt p" "rcv_nxt p" "in_seqno i + 1"] assms(8) unat_less_pow [of "rcv_wnd p"] by simp
    then show ?thesis by (simp add: TCP_SEQ_BETWEEN_def)
  qed
  have ne: "rcv_nxt p \<noteq> in_seqno i" using assms(7) by auto
  have "rx_data env a p i n = (let (p, n) = rx_outseq env a p i n in (p, i, n))"
    using t nb ge ne in_window_off [OF assms(8)] by (simp add: rx_data_def)
  then show "i' = i" "rcv_nxt p' = rcv_nxt p" "rcv_wnd p' = rcv_wnd p" "ooseq p' = inseg i # rest"
    using assms(1-6) q f by (auto simp: rx_outseq_def tcp_seg_copy_def mem_alloc_def Let_def)
qed

text \<open>A segment in sequence that reaches the first queued one is passed on together with it; the next one stays, although
  it begins before the new \<open>rcv_nxt\<close>.\<close>

lemma rx_data_inseq:
  assumes "in_seqno i = rcv_nxt p" and "0 < in_tcplen i" and "0 < rcv_wnd p"
  shows "rx_data env a p i n = rx_inseq env a p i n"
proof -
  have "in_window p i" using in_window_off [of p i] assms(1,3) by (simp add: word_less_nat_alt)
  moreover have "\<not> TCP_SEQ_BETWEEN (rcv_nxt p) (rcv_nxt p + 1) c" "\<not> TCP_SEQ_LT (rcv_nxt p) (rcv_nxt p)" for c
    by (simp_all add: TCP_SEQ_BETWEEN_def TCP_SEQ_GEQ_def TCP_SEQ_LT_def)
  ultimately show ?thesis using assms(1,2) by (simp add: rx_data_def)
qed

lemma rx_inseq_result:
  assumes "rx_inseq env a p i n = (p', i', n')" and "\<not> syn_fin (inseg j)" and "s_data (inseg j) \<noteq> []"
    and "j = inseq_cut (ooseq p) i"
  shows "\<exists>p2. snd_erase p' = snd_erase p2 \<and>
    ooseq_deliver (ooseq p) (p \<lparr> rcv_nxt := rcv_nxt p + ucast (s_len (inseg j)), rcv_wnd := wnd_sub (rcv_wnd p) (ucast (s_len (inseg j))) \<rparr>)
      (j \<lparr> in_tcplen := s_len (inseg j), recv_data := Some (s_data (inseg j)), inseg_p := False \<rparr>) = (p2, i')"
proof -
  have t: "ucast (TCP_TCPLEN (inseg j)) = s_len (inseg j)"
    using assms(2) unat_less_pow [of "s_len (inseg j)"] by (simp add: TCP_TCPLEN_alt word_unat_eq_iff unat_ucast_mod)
  have f: "TCPH_FLAGS (s_tcphdr (inseg j)) AND TCP_FIN = 0" using assms(2) by (simp add: syn_fin_def and_or_zero)
  obtain p2 i2 where o: "ooseq_deliver (ooseq p) (p \<lparr> rcv_nxt := rcv_nxt p + ucast (s_len (inseg j)), rcv_wnd := wnd_sub (rcv_wnd p) (ucast (s_len (inseg j))) \<rparr>)
      (j \<lparr> in_tcplen := s_len (inseg j), recv_data := Some (s_data (inseg j)), inseg_p := False \<rparr>) = (p2, i2)" by fastforce
  have "p' = fst (tcp_ack env a p2 n)" "i' = i2"
    using assms(1,3) o t f unfolding rx_inseq_def assms(4) [symmetric, unfolded inseq_cut_def]
    by (simp_all add: Let_def case_prod_beta)
  then show ?thesis using o by (intro exI [of _ p2]) simp
qed

lemma rx_data_stuck:
  assumes "rx_data env a p j n = (p', j', n')" and "data_seg sb j" and "in_seqno j = rcv_nxt p" and "ooseq p = z # y # rest"
    and "carries sb z" and "0 < off (rcv_nxt p) (seg_seqno z)" and "off (rcv_nxt p) (seg_seqno z) \<le> unat (s_len (inseg j))"
    and "seg_seqno y \<noteq> seg_seqno z + ucast (s_len z)" and "off (rcv_nxt p) (seg_seqno z) + unat (s_len z) < unat (rcv_wnd p)"
  shows "rcv_nxt p' = seg_seqno z + ucast (s_len z)" "0 < rcv_wnd p'" "ooseq p' = y # rest"
    "rbytes j' = slice sb (rcv_nxt p) (off (rcv_nxt p) (seg_seqno z) + unat (s_len z))"
proof -
  let ?k = "off (rcv_nxt p) (seg_seqno z)" and ?l = "ucast (seg_seqno z - in_seqno j) :: u16"
  have c: "carries sb (inseg j)" "seg_seqno (inseg j) = rcv_nxt p" "in_tcplen j = s_len (inseg j)" using assms(2,3) by (simp_all add: data_seg_def)
  have k: "?k < 65536" using assms(9) unat_less_pow [of "rcv_wnd p"] by simp
  have l: "unat ?l = ?k" using unat_seq_diff [of "rcv_nxt p" "rcv_nxt p" "seg_seqno z"] k assms(3) by simp
  note e = seg_end_off [of "rcv_nxt p" "rcv_nxt p" "s_len (inseg j)"]
  have "TCP_SEQ_LEQ (seg_seqno z) (in_seqno j + ucast (s_len (inseg j)))"
    using seq_leq [of "rcv_nxt p" "seg_seqno z" "rcv_nxt p + ucast (s_len (inseg j))"] e k assms(3,7) by simp
  then have cut: "inseq_cut (ooseq p) j = j \<lparr> inseg := seg_trim (inseg j) ?l \<rparr>" by (simp add: inseq_cut_def assms(4))
  have tr: "carries sb (seg_trim (inseg j) ?l)" using carries_trim [OF c(1)] l assms(6,7) by simp
  then have d: "s_data (seg_trim (inseg j) ?l) = slice sb (rcv_nxt p) ?k" "\<not> syn_fin (seg_trim (inseg j) ?l)"
    using l c(2) by (simp add: carries_def seg_trim_def) (use tr in \<open>simp add: carries_def\<close>)
  have len: "s_len (seg_trim (inseg j) ?l) = ?l" "ucast ?l = seg_seqno z - rcv_nxt p"
    using l assms(3) by (simp add: seg_trim_def)
      (rule word_unat_eq_iff [THEN iffD2], use l assms(3) in \<open>auto simp: off_def unat_ucast_up\<close>)
  have r: "rx_inseq env a p j n = (p', j', n')"
    using rx_data_inseq [OF assms(3), of env a n] assms(1,6,7,9) c(3) by (simp add: word_less_nat_alt)
  have zl: "TCP_TCPLEN z = ucast (s_len z)" "s_data z \<noteq> []" "TCPH_FLAGS (s_tcphdr z) AND TCP_FIN = 0"
    using assms(5) by (auto simp: carries_def TCP_TCPLEN_alt syn_fin_def and_or_zero)
  have nn: "\<not> syn_fin (inseg (j \<lparr> inseg := seg_trim (inseg j) ?l \<rparr>))" "s_data (inseg (j \<lparr> inseg := seg_trim (inseg j) ?l \<rparr>)) \<noteq> []"
    using d assms(6) by auto
  from rx_inseq_result [OF r nn cut [symmetric]] d len obtain p2 where
    p2: "snd_erase p' = snd_erase p2" and dl: "ooseq_deliver (z # y # rest)
      (p \<lparr> rcv_nxt := seg_seqno z, rcv_wnd := wnd_sub (rcv_wnd p) (seg_seqno z - rcv_nxt p) \<rparr>)
      (j \<lparr> inseg := seg_trim (inseg j) ?l, in_tcplen := ?l, recv_data := Some (slice sb (rcv_nxt p) ?k), inseg_p := False \<rparr>) = (p2, j')"
    by (auto simp: assms(4) simp del: ooseq_deliver.simps)
  show "rcv_nxt p' = seg_seqno z + ucast (s_len z)" "ooseq p' = y # rest"
    using snd_erase_fields(1,3) [OF p2] dl assms(8) zl by (auto simp: Let_def)
  have "slice sb (rcv_nxt p) ?k @ slice sb (seg_seqno z) (unat (s_len z)) = slice sb (rcv_nxt p) (?k + unat (s_len z))"
    using slice_append [of sb "rcv_nxt p" ?k "unat (s_len z)"] by (simp add: off_def)
  then show "rbytes j' = slice sb (rcv_nxt p) (?k + unat (s_len z))"
    using dl assms(5,8) zl by (auto simp: Let_def rbytes_def carries_def)
  have "rcv_wnd p' = wnd_sub (wnd_sub (rcv_wnd p) (seg_seqno z - rcv_nxt p)) (ucast (s_len z))"
    using snd_erase_fields(2) [OF p2] dl assms(8) zl by (auto simp: Let_def)
  moreover have "unat (wnd_sub w d) = unat w - unat d" if "unat d \<le> unat w" for w d
    using that unat_less_pow [of w] by (auto simp: wnd_sub_def word_less_nat_alt unat_ucast_up unat_sub word_le_nat_alt unat_ucast_mod)
  moreover have "unat (seg_seqno z - rcv_nxt p) = ?k" by (simp add: off_def)
  ultimately show "0 < rcv_wnd p'" using assms(9) by (simp add: word_less_nat_alt unat_ucast_up)
qed

text \<open>A queued segment that begins \<open>d\<close> numbers before \<open>rcv_nxt\<close> makes the length of the next segment in sequence wrap.\<close>

lemma rx_data_jump:
  assumes "rx_data env a p l n = (p', l', n')" and "data_seg sb l" and "in_seqno l = rcv_nxt p" and "0 < rcv_wnd p"
    and "ooseq p = y # rest" and "rcv_nxt p = seg_seqno y + of_nat d" and "0 < d" and "d < 65536"
  shows "rcv_nxt p' = rcv_nxt p + of_nat (65536 - d)" "ooseq p' = y # rest"
    "rbytes l' = slice sb (rcv_nxt p) (min (65536 - d) (unat (s_len (inseg l))))"
proof -
  let ?l = "ucast (seg_seqno y - in_seqno l) :: u16"
  have c: "carries sb (inseg l)" "seg_seqno (inseg l) = rcv_nxt p" "in_tcplen l = s_len (inseg l)" "0 < unat (s_len (inseg l))"
    using assms(2,3) by (auto simp: data_seg_def carries_def)
  have od: "off (seg_seqno y) (rcv_nxt p) = d" using off_add_nat [of "seg_seqno y" "seg_seqno y" d] assms(6,8) by simp
  have l: "unat ?l = 65536 - d"
  proof -
    have "unat (seg_seqno y - in_seqno l) + d = 2 ^ 32"
    proof -
      have "off (rcv_nxt p) (seg_seqno y) \<noteq> 0" using od assms(7) by auto
      then show ?thesis using off_opposite [of "rcv_nxt p" "seg_seqno y"] od assms(3) by (simp add: off_def)
    qed
    then have "unat (seg_seqno y - in_seqno l) = 2 ^ 32 - d" by simp
    then have "unat ?l = (2 ^ 32 - d) mod 65536" by (simp add: unat_ucast_mod)
    also have "2 ^ 32 - d = (65536 - d) + 65535 * 65536" using assms(8) by simp
    also have "\<dots> mod 65536 = (65536 - d) mod 65536" by (rule mod_mult_self1)
    finally show ?thesis using assms(7) by simp
  qed
  have "off (seg_seqno y) (in_seqno l + ucast (s_len (inseg l))) = d + unat (s_len (inseg l))"
    using seg_end_off(1) [of "seg_seqno y" "rcv_nxt p" "s_len (inseg l)"] od assms(3,8) by simp
  then have "TCP_SEQ_LEQ (seg_seqno y) (in_seqno l + ucast (s_len (inseg l)))"
    using seq_leq [of "seg_seqno y" "seg_seqno y" "in_seqno l + ucast (s_len (inseg l))"] assms(8)
      unat_less_pow [of "s_len (inseg l)"] by simp
  then have cut: "inseq_cut (ooseq p) l = l \<lparr> inseg := seg_trim (inseg l) ?l \<rparr>" by (simp add: inseq_cut_def assms(5))
  let ?s = "seg_trim (inseg l) ?l"
  have "s_data (inseg l) = slice sb (rcv_nxt p) (unat (s_len (inseg l)))" using c(1,2) by (simp add: carries_def)
  then have d: "s_data ?s = slice sb (rcv_nxt p) (min (65536 - d) (unat (s_len (inseg l))))" "\<not> syn_fin ?s" "s_len ?s = ?l"
    using l c(1,2) by (simp_all add: seg_trim_def syn_fin_def carries_def take_slice_min)
  have u: "ucast ?l = (of_nat (65536 - d) :: u32)" using l assms(7) by (simp add: word_unat_eq_iff unat_ucast_up unat_of_nat take_bit_nat_eq_self)
  have r: "rx_inseq env a p l n = (p', l', n')" using rx_data_inseq [OF assms(3), of env a n] assms(1,4) c(3,4) by (simp add: word_less_nat_alt)
  have ne: "s_data ?s \<noteq> []" using d(1) assms(8) c(4) by simp
  have nx: "seg_seqno y \<noteq> rcv_nxt p + of_nat (65536 - d)"
  proof
    assume "seg_seqno y = rcv_nxt p + of_nat (65536 - d)"
    then have "off (seg_seqno y) (rcv_nxt p + of_nat (65536 - d)) = 0" by simp
    then show False using off_add_nat [of "seg_seqno y" "rcv_nxt p" "65536 - d"] od assms(8) by simp
  qed
  have nn: "\<not> syn_fin (inseg (l \<lparr> inseg := ?s \<rparr>))" "s_data (inseg (l \<lparr> inseg := ?s \<rparr>)) \<noteq> []" using d(2) ne by simp_all
  from rx_inseq_result [OF r nn cut [symmetric]] d(3) u obtain p2 where
    p2: "snd_erase p' = snd_erase p2" and dl: "ooseq_deliver (y # rest)
      (p \<lparr> rcv_nxt := rcv_nxt p + of_nat (65536 - d), rcv_wnd := wnd_sub (rcv_wnd p) (of_nat (65536 - d)) \<rparr>)
      (l \<lparr> inseg := ?s, in_tcplen := ?l, recv_data := Some (s_data ?s), inseg_p := False \<rparr>) = (p2, l')"
    by (auto simp: assms(5) simp del: ooseq_deliver.simps)
  show "rcv_nxt p' = rcv_nxt p + of_nat (65536 - d)" "ooseq p' = y # rest"
    using snd_erase_fields(1,3) [OF p2] dl nx by auto
  show "rbytes l' = slice sb (rcv_nxt p) (min (65536 - d) (unat (s_len (inseg l))))"
    using dl nx d(1) by (auto simp: rbytes_def)
qed

text \<open>C36: A longer copy of a queued segment breaks the stream when it reaches over the segment queued behind.  Let
  \<open>x\<close> and \<open>y\<close> be the first queued segments, sorted and without overlap, and let three segments arrive that all carry the right bytes: \<open>i\<close>, a
  longer copy of \<open>x\<close> that reaches \<open>d\<close> bytes into \<open>y\<close>; \<open>j\<close>, which fills the gap in front of \<open>x\<close>; and \<open>l\<close>, which follows
  \<open>i\<close>.  Memory suffices and the window is open.  Then the longer copy replaces \<open>x\<close> as it stands, \<open>y\<close> remains queued behind \<open>rcv_nxt\<close>,
  and with \<open>l\<close> the code advances \<open>rcv_nxt\<close> by \<open>65536 - d\<close> while it passes on at most the bytes of \<open>l\<close>: it goes on to acknowledge bytes that
  have never arrived.\<close>

theorem ooseq_replacement_breaks_stream:
  assumes "receive_all env a [i, j, l] p n = Some (p', bs)" and "mem_ok env = (\<lambda>_. True)"
    and "data_seg sb i" and "recv_data i = None" and "data_seg sb j" and "data_seg sb l"
    and "ooseq p = x # y # rest" and "ooseq_ok sb (rcv_nxt p) (ooseq p)"
    and "in_seqno i = seg_seqno x" and "s_len x < s_len (inseg i)"
    and "unat (s_len (inseg i)) = unat (seg_seqno y - seg_seqno x) + d" and "0 < d"
    and "in_seqno j = rcv_nxt p" and "unat (seg_seqno x - rcv_nxt p) \<le> unat (s_len (inseg j))"
    and "in_seqno l = in_seqno i + ucast (s_len (inseg i))"
    and "unat (seg_seqno x - rcv_nxt p) + unat (s_len (inseg i)) < unat (rcv_wnd p)"
  shows "ooseq p' = y # rest \<and> rcv_nxt p' = in_seqno l + of_nat (65536 - d) \<and>
    bs = slice sb (rcv_nxt p) (unat (in_seqno l - rcv_nxt p) + min (65536 - d) (unat (s_len (inseg l))))"
proof -
  let ?k = "off (rcv_nxt p) (seg_seqno x)" and ?z = "inseg i"
  obtain p1 i1 n1 p2 j2 n2 l3 n3 where
    r: "tcp_receive env a p i n = Some (p1, i1, n1)" "tcp_receive env a p1 j n1 = Some (p2, j2, n2)"
      "tcp_receive env a p2 l n2 = Some (p', l3, n3)" "bs = rbytes i1 @ rbytes j2 @ rbytes l3"
    using assms(1) by (auto split: option.splits)
  have x: "0 < ?k" "carries sb ?z" "seg_seqno ?z = seg_seqno x" "in_tcplen i = s_len ?z"
    using assms(3,7-9) by (auto simp: ooseq_ok_def data_seg_def)
  obtain q m where q: "rx_data env a q i m = (p1, i1, n1)" "snd_erase q = snd_erase p" by (rule tcp_receive_data [OF r(1)])
  have "off (rcv_nxt q) (in_seqno i) < unat (rcv_wnd q)" "0 < off (rcv_nxt q) (in_seqno i)"
    using snd_erase_fields(1,2) [OF q(2)] assms(9,16) x(1) by (simp_all add: off_def)
  note one = rx_data_replace [OF q(1) assms(2) _ _ assms(10) x(4) this(2,1)]
  have p1: "i1 = i" "rcv_nxt p1 = rcv_nxt p" "rcv_wnd p1 = rcv_wnd p" "ooseq p1 = ?z # y # rest"
    using one snd_erase_fields(1-3) [OF q(2)] assms(7,9) by simp_all
  obtain q' m' where q': "rx_data env a q' j m' = (p2, j2, n2)" "snd_erase q' = snd_erase p1" by (rule tcp_receive_data [OF r(2)])
  note f' = snd_erase_fields(1-3) [OF q'(2), unfolded p1]
  have "seg_seqno y \<noteq> seg_seqno ?z + ucast (s_len ?z)" using assms(11,12) x(3) by (auto simp: unat_ucast_up)
  note two = rx_data_stuck [OF q'(1) assms(5) _ _ x(2) _ _ this, of rest]
  have p2: "rcv_nxt p2 = in_seqno l" "0 < rcv_wnd p2" "ooseq p2 = y # rest" "rbytes j2 = slice sb (rcv_nxt p) (?k + unat (s_len ?z))"
    using two f' x(1,3) assms(9,13-16) by (simp_all add: off_def)
  obtain q'' m'' where q'': "rx_data env a q'' l m'' = (p', l3, n3)" "snd_erase q'' = snd_erase p2" by (rule tcp_receive_data [OF r(3)])
  note f'' = snd_erase_fields(1-3) [OF q''(2), unfolded p2]
  have len: "unat (s_len ?z) < 65536" using unat_less_pow [of "s_len ?z"] by simp
  have "in_seqno l = seg_seqno y + of_nat d"
  proof -
    have "(ucast (s_len ?z) :: u32) = of_nat (unat (seg_seqno y - seg_seqno x) + d)"
      unfolding assms(11) [symmetric] by simp
    then show ?thesis using assms(9,15) by simp
  qed
  then have p3: "rcv_nxt p' = in_seqno l + of_nat (65536 - d)" "ooseq p' = y # rest"
    "rbytes l3 = slice sb (in_seqno l) (min (65536 - d) (unat (s_len (inseg l))))"
    using rx_data_jump [OF q''(1) assms(6) _ _ f''(3), of d] f'' p2(2) assms(11,12) len by simp_all
  have "off (rcv_nxt p) (in_seqno l) = ?k + unat (s_len ?z)"
    using seg_end_off(1) [of "rcv_nxt p" "seg_seqno x" "s_len ?z"] assms(9,15,16) unat_less_pow [of "rcv_wnd p"] by (simp add: off_def)
  moreover have "in_seqno l = rcv_nxt p + of_nat (off (rcv_nxt p) (in_seqno l))" by (simp add: off_def)
  ultimately have "rbytes j2 @ rbytes l3 = slice sb (rcv_nxt p) (off (rcv_nxt p) (in_seqno l) + min (65536 - d) (unat (s_len (inseg l))))"
    unfolding p2(4) p3(3) by (metis slice_append)
  moreover have "rbytes i1 = []" using p1(1) assms(4) by (simp add: rbytes_def)
  ultimately show ?thesis using p3 r(4) by (simp add: off_def)
qed

text \<open>Two segments are queued at 702 and 704, and then a copy of the first arrives that is four bytes longer: eighteen
  bytes are passed on while \<open>rcv_nxt\<close> advances by 65540.\<close>

definition ex_ooseq :: tcp_pcb where
  "ex_ooseq = ex_rcv \<lparr> ooseq := [ex_seg 702 [190, 191], ex_seg 704 [192, 193]] \<rparr>"

lemma ex_ooseq_simps [simp]:
  "rcv_nxt ex_ooseq = 700" "rcv_wnd ex_ooseq = 1000" "ooseq ex_ooseq = [ex_seg 702 [190, 191], ex_seg 704 [192, 193]]"
  by (simp_all add: ex_ooseq_def)

lemma receive_all_runs: "list_all (\<lambda>i. in_flags i AND TCP_ACK = 0) is \<Longrightarrow> receive_all env a is p n \<noteq> None"
proof (induction "is" arbitrary: p n)
  case (Cons i "is")
  obtain p1 i1 n1 where "rx_data env a p i n = (p1, i1, n1)" by (rule prod_cases3)
  then show ?case using Cons.prems Cons.IH [of p1 n1] by (auto simp: receive_pure)
qed simp

theorem ooseq_replacement_breaks_stream_witness:
  "\<exists>p' bs. receive_all ex_env 0
       [ex_in 702 [190, 191, 192, 193, 194, 195], ex_in 700 [188, 189], ex_in 708 [196, 197, 198, 199, 200, 201, 202, 203, 204, 205]]
       ex_ooseq ex_net = Some (p', bs) \<and> rcv_nxt p' = 700 + 65540 \<and> bs = slice ex_stream 700 18"
proof -
  let ?i = "ex_in 702 [190, 191, 192, 193, 194, 195]" and ?j = "ex_in 700 [188, 189]"
    and ?l = "ex_in 708 [196, 197, 198, 199, 200, 201, 202, 203, 204, 205]"
  obtain p' bs where r: "receive_all ex_env 0 [?i, ?j, ?l] ex_ooseq ex_net = Some (p', bs)"
    using receive_all_runs [of "[?i, ?j, ?l]" ex_env 0 ex_ooseq ex_net] by auto
  have s: "data_seg ex_stream ?i" "data_seg ex_stream ?j" "data_seg ex_stream ?l"
    "ooseq_ok ex_stream (rcv_nxt ex_ooseq) (ooseq ex_ooseq)"
    by (simp_all add: data_seg_def ooseq_ok_def before_def carries_def slice_def ex_stream_def upt_rec off_def)
  have "mem_ok ex_env = (\<lambda>_. True)" by (simp add: ex_env_def)
  from ooseq_replacement_breaks_stream [OF r this s(1) _ s(2,3) ex_ooseq_simps(3) s(4), of 4]
  show ?thesis using r by simp
qed

section \<open>The receiving side as a stream\<close>

text \<open>A component that passes on a stream from a position on.\<close>

locale stream_source =
  fixes step :: "'s \<Rightarrow> u8 list \<Rightarrow> 's \<Rightarrow> bool"
    and ok :: "'s \<Rightarrow> bool"
    and pos :: "'s \<Rightarrow> u32"
    and sb :: "u32 \<Rightarrow> u8"
  assumes step_law: "step s bs s' \<Longrightarrow> ok s \<Longrightarrow>
    ok s' \<and> bs = slice sb (pos s) (length bs) \<and> pos s' = pos s + of_nat (length bs)"
begin

inductive runs :: "'s \<Rightarrow> u8 list \<Rightarrow> 's \<Rightarrow> bool" where
  runs_refl: "runs s [] s"
| runs_step: "step s bs s1 \<Longrightarrow> runs s1 cs s' \<Longrightarrow> runs s (bs @ cs) s'"

lemma runs_stream:
  "runs s bs s' \<Longrightarrow> ok s \<Longrightarrow> ok s' \<and> bs = slice sb (pos s) (length bs) \<and> pos s' = pos s + of_nat (length bs)"
proof (induction rule: runs.induct)
  case (runs_step s bs s1 cs s')
  have "ok s1" "bs = slice sb (pos s) (length bs)" "pos s1 = pos s + of_nat (length bs)"
    using step_law runs_step by blast+
  then show ?case using runs_step.IH slice_append [of sb "pos s" "length bs" "length cs"] by (simp add: add.assoc)
qed simp

end

text \<open>What can happen to the receiving side of a connection: a segment arrives, or the application
  reports that it has taken bytes.\<close>

inductive rcv_step :: "(u32 \<Rightarrow> u8) \<Rightarrow> tcp_pcb \<Rightarrow> u8 list \<Rightarrow> tcp_pcb \<Rightarrow> bool" for sb where
  rcv_seg: "tcp_receive env a p i (n :: net) = Some (p', i', n') \<Longrightarrow> good_seg sb p i \<Longrightarrow>
    rcv_step sb p (rbytes i') p'"
| rcv_taken: "tcp_recved env a l p (n :: net) = (p', n') \<Longrightarrow> rcv_step sb p [] p'"

inductive rcv_run :: "(u32 \<Rightarrow> u8) \<Rightarrow> tcp_pcb \<Rightarrow> u8 list \<Rightarrow> tcp_pcb \<Rightarrow> bool" for sb where
  rcv_done: "rcv_run sb p [] p"
| rcv_more: "rcv_step sb p bs p1 \<Longrightarrow> rcv_run sb p1 cs p' \<Longrightarrow> rcv_run sb p (bs @ cs) p'"

definition rcvq_ok :: "(u32 \<Rightarrow> u8) \<Rightarrow> tcp_pcb \<Rightarrow> bool" where
  "rcvq_ok sb p \<longleftrightarrow> ooseq_ok sb (rcv_nxt p) (ooseq p)"

lemma tcp_recved_frame:
  assumes "tcp_recved env a l p n = (p', n')"
  shows "rcv_nxt p' = rcv_nxt p" "ooseq p' = ooseq p"
proof -
  define w where "w = (if unat (rcv_wnd p) + unat l > unat TCP_WND then TCP_WND else rcv_wnd p + l)"
  have "p' = fst (tcp_recved env a l p n)" using assms by simp
  then have "snd_erase p' = snd_erase (p \<lparr> rcv_wnd := w \<rparr>)"
    by (simp add: tcp_recved_def Let_def w_def)
  from snd_erase_fields(1,3) [OF this] show "rcv_nxt p' = rcv_nxt p" "ooseq p' = ooseq p" by simp_all
qed

lemma rcv_step_law:
  assumes "rcv_step sb p bs p'" and "rcvq_ok sb p"
  shows "rcvq_ok sb p' \<and> bs = slice sb (rcv_nxt p) (length bs) \<and> rcv_nxt p' = rcv_nxt p + of_nat (length bs)"
  using assms
proof cases
  case (rcv_seg env a i n i' n')
  then obtain k where "delivers sb p p' i' k" using tcp_receive_ok [OF rcv_seg(2,3)] assms(2)
    by (auto simp: rcvq_ok_def)
  then show ?thesis using rcv_seg(1) by (auto simp: delivers_def rcvq_ok_def)
next
  case (rcv_taken env a l n n')
  then show ?thesis using assms(2) tcp_recved_frame [OF rcv_taken(2)] by (simp add: rcvq_ok_def)
qed

interpretation rcvq: stream_source "rcv_step sb" "rcvq_ok sb" rcv_nxt sb for sb
  by unfold_locales (rule rcv_step_law)

lemma rcv_run_runs: "rcv_run sb p bs p' \<Longrightarrow> rcvq.runs sb p bs p'"
  by (induction rule: rcv_run.induct) (auto intro: rcvq.runs.intros)

text \<open>C2: Take any sequence of arriving segments, in any order, empty, repeated and overlapping, and of reports from the application
  that it has taken bytes, where no segment has SYN or FIN set, each carries the right bytes, none is exactly half the number space away
  from \<open>rcv_nxt\<close> (nor, when the window is closed, one less than that ahead), and none is a longer copy of a queued segment that reaches over the
  next queued one.  Then the bytes passed to the application are, taken together, the piece of
  the sender's stream that starts at the first expected number and ends at \<open>rcv_nxt\<close>: nothing is lost, repeated or
  reordered.\<close>

theorem tcp_receive_stream:
  assumes "rcv_run sb p bs p'" and "rcvq_ok sb p"
  shows "rcvq_ok sb p' \<and> bs = slice sb (rcv_nxt p) (length bs) \<and> rcv_nxt p' = rcv_nxt p + of_nat (length bs)"
  by (rule rcvq.runs_stream [OF rcv_run_runs [OF assms(1)] assms(2)])

theorem tcp_receive_stream_witness:
  "\<exists>bs p'. rcv_run ex_stream ex_rcv bs p' \<and> bs = slice ex_stream 700 (length bs) \<and>
     rcv_nxt p' = 700 + of_nat (length bs)"
proof -
  let ?i = "ex_in 699 [187, 188, 189, 190]"
  obtain p1 i1 n1 where r: "rx_data ex_env 0 ex_rcv ?i ex_net = (p1, i1, n1)" by (rule prod_cases3)
  obtain p2 n2 where t: "tcp_recved ex_env 0 4 p1 ex_net = (p2, n2)" by fastforce
  have g: "good_seg ex_stream ex_rcv ?i"
    by (simp add: good_seg_def data_seg_def carries_def slice_def ex_stream_def upt_rec)
  have o: "rcvq_ok ex_stream ex_rcv"
    by (simp add: rcvq_ok_def ooseq_ok_def carries_def slice_def ex_stream_def upt_rec off_def)
  have "rcv_step ex_stream ex_rcv (rbytes i1) p1"
    using r g by (intro rcv_seg [of ex_env 0 _ ?i ex_net]) (simp_all add: receive_pure)
  then have "rcv_run ex_stream ex_rcv (rbytes i1 @ [] @ []) p2"
    by (rule rcv_more) (rule rcv_more [OF rcv_taken [OF t] rcv_done])
  then show ?thesis using tcp_receive_stream [OF _ o] by fastforce
qed

end
