(* ===== verification/Tcp_Opt.thy ===== *)
theory Tcp_Opt
  imports Tcp_Recv
begin

text \<open>
  The options of a segment.  The walk of \<open>tcp_parseopt\<close> is compared with a parser over the list of
  option bytes: on well-formed options it ends with the same maximum segment size.  On malformed
  options it may never end, because its position is a byte that wraps around.
\<close>

section \<open>A reference parser\<close>

text \<open>\<open>None\<close> for options that are cut short or have a length below two.\<close>

function opt_mss :: "u8 list \<Rightarrow> u16 \<Rightarrow> u16 option" where
  "opt_mss [] m = Some m"
| "opt_mss (k # os) m =
    (if k = 0 then Some m
     else if k = 1 then opt_mss os m
     else case os of
       [] \<Rightarrow> None
     | l # vs \<Rightarrow>
         if l < 2 \<or> length vs < unat l - 2 then None
         else if k = 2 \<and> l = 4 then Some (min (push_bit 8 (ucast (vs ! 0)) OR ucast (vs ! 1)) TCP_MSS)
         else opt_mss (drop (unat l - 2) vs) m)"
  by pat_completeness auto
termination by (relation "measure (length \<circ> fst)") auto

declare opt_mss.simps [simp del]

lemma parseopt_loop_opt_mss:
  assumes "opt_mss (drop (unat c) (take lim opts)) m = Some v" and "lim \<le> length opts" and "lim \<le> 40"
    and "unat c \<le> lim"
  shows "parseopt_loop opts lim c m = Some v"
  using assms
proof (induction "lim - unat c" arbitrary: c rule: less_induct)
  case less
  let ?os = "drop (unat c) (take lim opts)"
  show ?case
  proof (cases "unat c < lim")
    case True
    define k where "k = opts ! unat c"
    have os: "?os = k # drop (Suc (unat c)) (take lim opts)"
      using True less.prems(2) Cons_nth_drop_Suc [of "unat c" "take lim opts"] by (simp add: k_def)
    have rd0: "rd opts (unat c) = Some k" using True less.prems(2) by (simp add: rd_def k_def)
    have step: "unat (c + d) = unat c + unat d" if "unat c + unat d \<le> lim" for d
      using that less.prems(3) by (intro unat_add_lem [THEN iffD1]) simp
    consider (end0) "k = 0" | (nop) "k = 1" | (other) "k \<noteq> 0" "k \<noteq> 1" by blast
    then show ?thesis
    proof cases
      case end0
      then show ?thesis using less.prems(1) True rd0 unfolding os
        by (subst parseopt_loop.simps) (simp add: opt_mss.simps)
    next
      case nop
      have c1: "unat (c + 1) = Suc (unat c)" using step [of 1] True by simp
      have "opt_mss (drop (unat (c + 1)) (take lim opts)) m = Some v"
        using less.prems(1) nop unfolding os c1 by (simp add: opt_mss.simps)
      then have "parseopt_loop opts lim (c + 1) m = Some v"
        using less.hyps [of "c + 1"] c1 True less.prems(2,3) by simp
      then show ?thesis using True rd0 nop by (subst parseopt_loop.simps) simp
    next
      case other
      obtain l vs where tl: "drop (Suc (unat c)) (take lim opts) = l # vs" and l: "2 \<le> l" "unat l - 2 \<le> length vs"
        using less.prems(1) other unfolding os
        by (cases "drop (Suc (unat c)) (take lim opts)") (auto simp: opt_mss.simps split: if_splits)
      have l2: "2 \<le> unat l" using l(1) by (simp add: word_le_nat_alt)
      have len: "Suc (length vs) = lim - Suc (unat c)" using arg_cong [OF tl, of length] less.prems(2) by simp
      have vs: "vs = drop (unat c + 2) (take lim opts)" using arg_cong [OF tl, of tl] by (simp add: drop_Suc tl_drop)
      have nth: "rd opts (unat c + j) = Some ((l # vs) ! (j - 1))" if "1 \<le> j" "j < length vs + 2" for j
        using that len arg_cong [OF tl, of "\<lambda>xs. xs ! (j - 1)"] less.prems(2) by (simp add: rd_def)
      have rd1: "rd opts (unat c + 1) = Some l" using nth [of 1] by simp
      show ?thesis
      proof (cases "k = 2 \<and> l = 4")
        case True
        then have "rd opts (unat c + 2) = Some (vs ! 0)" "rd opts (unat c + 3) = Some (vs ! 1)"
          using nth [of 2] nth [of 3] l(2) by force+
        then show ?thesis using True rd0 rd1 other \<open>unat c < lim\<close> less.prems(1) l unfolding os tl
          by (subst parseopt_loop.simps) (auto simp: opt_mss.simps min_def Let_def)
      next
        case False
        have c1: "unat (c + l) = unat c + unat l" using step [of l] l(2) l2 len True by simp
        have "drop (unat l - 2) vs = drop (unat (c + l)) (take lim opts)"
          using l2 unfolding vs c1 drop_drop by (intro arg_cong2 [of _ _ _ _ drop]) simp_all
        then have "opt_mss (drop (unat (c + l)) (take lim opts)) m = Some v"
          using less.prems(1) other False l unfolding os tl by (auto simp: opt_mss.simps split: if_splits)
        then have "parseopt_loop opts lim (c + l) m = Some v"
          using less.hyps [of "c + l"] c1 True less.prems(2,3) l(2) l2 len by simp
        then show ?thesis using True rd0 rd1 other False l2 by (subst parseopt_loop.simps) auto
      qed
    qed
  qed (use less.prems in \<open>simp add: parseopt_loop.simps opt_mss.simps\<close>)
qed

section \<open>The walk of the source\<close>

text \<open>The bytes of the options, as the header length gives them.\<close>

definition opt_bytes :: "tcp_in \<Rightarrow> u8 list" where
  "opt_bytes i = take ((unat (TCPH_HDRLEN (in_hdr i)) - 5) * 4) (in_opts i)"

lemma TCPH_HDRLEN_less: "unat (TCPH_HDRLEN h) < 16"
proof -
  have "unat (TCPH_HDRLEN h) = unat (h_word h) div 2 ^ 12" 
    unfolding TCPH_HDRLEN_def unat_drop_bit_eq by (simp add: drop_bit_eq_div)
  then show ?thesis using unat_less_pow [of "h_word h"] by (simp add: less_mult_imp_div_less)
qed

text \<open>C24: On well-formed options that lie inside the packet, \<open>tcp_parseopt\<close> ends, and sets the maximum
  segment size to what a parser over the list of option bytes finds, cut at \<open>TCP_MSS\<close>.\<close>

theorem tcp_parseopt_reference:
  assumes "opt_mss (opt_bytes i) (mss p) = Some v"
    and "(unat (TCPH_HDRLEN (in_hdr i)) - 5) * 4 \<le> length (in_opts i)"
  shows "tcp_parseopt i p = Some (p \<lparr> mss := v \<rparr>)"
proof (cases "TCPH_HDRLEN (in_hdr i) > 5")
  case True
  have "parseopt_loop (in_opts i) ((unat (TCPH_HDRLEN (in_hdr i)) - 5) * 4) 0 (mss p) = Some v"
    using assms TCPH_HDRLEN_less [of "in_hdr i"] by (intro parseopt_loop_opt_mss) (simp_all add: opt_bytes_def)
  then show ?thesis using True by (simp add: tcp_parseopt_def)
next
  case False
  then have "unat (TCPH_HDRLEN (in_hdr i)) \<le> 5" by (simp add: word_less_nat_alt not_less)
  then show ?thesis using assms(1) False by (simp add: tcp_parseopt_def opt_bytes_def opt_mss.simps)
qed

definition ex_opts :: "u8 list \<Rightarrow> tcp_in" where
  "ex_opts os = (ex_in 100 []) \<lparr> in_opts := os,
     inseg := (ex_seg 100 []) \<lparr> s_tcphdr := TCPH_HDRLEN_SET (s_tcphdr (ex_seg 100 [])) (5 + length os div 4) \<rparr> \<rparr>"

theorem tcp_parseopt_reference_witness:
  "tcp_parseopt (ex_opts [1, 3, 3, 7, 2, 4, 2, 24]) ex_pcb = Some (ex_pcb \<lparr> mss := 536 \<rparr>)"
proof -
  have h: "unat (TCPH_HDRLEN (in_hdr (ex_opts [1, 3, 3, 7, 2, 4, 2, 24]))) = 7"
    by (simp add: ex_opts_def TCPH_HDRLEN_SET_def TCPH_HDRLEN_def ex_seg_flags cfg_defs)
  have "opt_mss (opt_bytes (ex_opts [1, 3, 3, 7, 2, 4, 2, 24])) (mss ex_pcb) = Some 536"
    unfolding opt_bytes_def h by (simp add: ex_opts_def opt_mss.simps TCP_MSS_def)
  then show ?thesis by (rule tcp_parseopt_reference) (simp add: h, simp add: ex_opts_def)
qed

text \<open>A walk that never ends: the length of the last option takes the position back to the start.\<close>

lemma parseopt_loop_wraps:
  assumes "parseopt_loop opts lim c m = Some v"
  shows "opts = [1, 1, 3, 254] \<Longrightarrow> lim = 4 \<Longrightarrow> c \<noteq> 0 \<and> c \<noteq> 1 \<and> c \<noteq> 2"
  using assms
proof (induction rule: parseopt_loop.raw_induct [rotated, consumes 1, case_names step])
  case (step loop opts lim c m v)
  have "loop opts lim (c + 1) m = Some v \<Longrightarrow> c + 1 \<noteq> 1 \<and> c + 1 \<noteq> 2"
    "loop opts lim (c + 254) m = Some v \<Longrightarrow> c + 254 \<noteq> 0"
    using step by blast+
  then show ?case using step.hyps step.prems by (auto simp: rd_def)
qed

text \<open>C35: The position of the walk is a byte, so a segment with the option bytes
  01 01 03 FE makes \<open>tcp_parseopt\<close> loop for ever: the length FE takes the position back to zero.\<close>

theorem tcp_parseopt_endless:
  "tcp_parseopt (ex_opts [1, 1, 3, 254]) p = None"
proof -
  have h: "TCPH_HDRLEN (in_hdr (ex_opts [1, 1, 3, 254])) = 6"
    by (simp add: ex_opts_def TCPH_HDRLEN_SET_def TCPH_HDRLEN_def ex_seg_flags cfg_defs)
  have "parseopt_loop [1, 1, 3, 254] 4 0 (mss p) = None"
    using parseopt_loop_wraps [of "[1, 1, 3, 254]" 4 0 "mss p"] by fastforce
  then show ?thesis by (simp add: tcp_parseopt_def h) (simp add: ex_opts_def)
qed

end
