(* ===== verification/Netif.thy ===== *)
theory Netif
  imports Inet
begin

text \<open>
  Network interfaces and the choice of a route
  (\<open>src/nsc-0.5.3/lwip-HEAD/src/core/netif.c\<close>, \<open>ipv4/ip_addr.c\<close>, \<open>ip_route\<close> of
  \<open>ipv4/ip.c\<close>).  The interface structures are supplied by their drivers; the list of interfaces
  is the list of their addresses in the order of the \<open>next\<close> pointers.  Addresses are 32-bit words
  in network order, as the structures hold them.  What \<open>netif_set_ipaddr\<close> does to TCP connections
  is in theory \<open>Netif_Tcp\<close>.
\<close>

definition NETIF_FLAG_UP :: u8 where [cfg_defs]: "NETIF_FLAG_UP = 0x1"
definition NETIF_FLAG_BROADCAST :: u8 where [cfg_defs]: "NETIF_FLAG_BROADCAST = 0x2"

record netif =
  nif_ip_addr :: u32
  nif_netmask :: u32
  nif_gw :: u32
  nif_state :: nat
  nif_mtu :: u16
  nif_flags :: u8
  nif_name :: "u8 \<times> u8"
  nif_num :: u8

record nstate =
  netifs :: "addr \<rightharpoonup> netif"
  netif_list :: "addr list"
  netif_default :: "addr option"
  netifnum :: nat

section \<open>Addresses\<close>

definition ip_addr_any :: u32 where [cfg_defs]: "ip_addr_any = 0"
definition ip_addr_broadcast :: u32 where [cfg_defs]: "ip_addr_broadcast = 0xffffffff"

definition ip_addr_netcmp :: "u32 \<Rightarrow> u32 \<Rightarrow> u32 \<Rightarrow> bool" where
  "ip_addr_netcmp a1 a2 m = (a1 AND m = a2 AND m)"

definition ip_addr_ismulticast :: "u32 \<Rightarrow> bool" where
  "ip_addr_ismulticast a \<longleftrightarrow> a AND ntohl 0xf0000000 = ntohl 0xe0000000"

definition ip_addr_isbroadcast :: "u32 \<Rightarrow> netif \<Rightarrow> bool" where
  "ip_addr_isbroadcast a nif =
    (if a = ip_addr_broadcast \<or> a = ip_addr_any then True
     else if nif_flags nif AND NETIF_FLAG_BROADCAST = 0 then False
     else if a = nif_ip_addr nif then False
     else if ip_addr_netcmp a (nif_ip_addr nif) (nif_netmask nif) \<and>
             a AND NOT (nif_netmask nif) = ip_addr_broadcast AND NOT (nif_netmask nif) then True
     else False)"

section \<open>Interfaces\<close>

definition netif_init :: "nstate \<Rightarrow> nstate" where
  "netif_init s = s \<lparr> netif_list := [], netif_default := None \<rparr>"

definition netif_set_gw :: "u32 \<Rightarrow> netif \<Rightarrow> netif" where
  "netif_set_gw gw nif = nif \<lparr> nif_gw := gw \<rparr>"

definition netif_set_netmask :: "u32 \<Rightarrow> netif \<Rightarrow> netif" where
  "netif_set_netmask m nif = nif \<lparr> nif_netmask := m \<rparr>"

definition netif_set_default :: "addr option \<Rightarrow> nstate \<Rightarrow> nstate" where
  "netif_set_default d s = s \<lparr> netif_default := d \<rparr>"

definition netif_set_up :: "netif \<Rightarrow> netif" where
  "netif_set_up nif = nif \<lparr> nif_flags := nif_flags nif OR NETIF_FLAG_UP \<rparr>"

definition netif_is_up :: "netif \<Rightarrow> bool" where
  "netif_is_up nif \<longleftrightarrow> nif_flags nif AND NETIF_FLAG_UP \<noteq> 0"

definition netif_set_down :: "netif \<Rightarrow> netif" where
  "netif_set_down nif = nif \<lparr> nif_flags := nif_flags nif AND NOT NETIF_FLAG_UP \<rparr>"

definition netif_remove :: "addr option \<Rightarrow> nstate \<Rightarrow> nstate" where
  "netif_remove d s =
    (case d of
       None \<Rightarrow> s
     | Some a \<Rightarrow>
         if a \<in> set (netif_list s)
         then s \<lparr> netif_list := remove1 a (netif_list s),
                  netif_default := (if netif_default s = Some a then None else netif_default s) \<rparr>
         else s)"

fun netif_find_loop :: "u8 \<Rightarrow> u8 \<Rightarrow> u8 \<Rightarrow> (addr \<rightharpoonup> netif) \<Rightarrow> addr list \<Rightarrow> addr option" where
  "netif_find_loop num c0 c1 st [] = None"
| "netif_find_loop num c0 c1 st (a # as) =
    (case st a of
       None \<Rightarrow> None
     | Some nif \<Rightarrow>
         if num = nif_num nif \<and> c0 = fst (nif_name nif) \<and> c1 = snd (nif_name nif) then Some a
         else netif_find_loop num c0 c1 st as)"

definition netif_find :: "(u8 \<times> u8 \<times> u8) option \<Rightarrow> nstate \<Rightarrow> addr option" where
  "netif_find name s =
    (case name of
       None \<Rightarrow> None
     | Some (c0, c1, c2) \<Rightarrow> netif_find_loop (c2 - 48) c0 c1 (netifs s) (netif_list s))"

section \<open>Routing\<close>

fun ip_route_loop :: "u32 \<Rightarrow> (addr \<rightharpoonup> netif) \<Rightarrow> addr list \<Rightarrow> addr option" where
  "ip_route_loop dest st [] = None"
| "ip_route_loop dest st (a # as) =
    (case st a of
       None \<Rightarrow> None
     | Some nif \<Rightarrow>
         if ip_addr_netcmp dest (nif_ip_addr nif) (nif_netmask nif) then Some a
         else ip_route_loop dest st as)"

definition ip_route :: "u32 \<Rightarrow> nstate \<Rightarrow> addr option" where
  "ip_route dest s =
    (case ip_route_loop dest (netifs s) (netif_list s) of Some a \<Rightarrow> Some a | None \<Rightarrow> netif_default s)"


text \<open>The local address TCP takes from a route.\<close>

definition route_addr :: "nstate \<Rightarrow> u32 \<Rightarrow> u32 option" where
  "route_addr s dest =
    (case ip_route dest s of None \<Rightarrow> None | Some a \<Rightarrow> map_option nif_ip_addr (netifs s a))"

end
