(* ===== verification/Tcp_Input.thy ===== *)
theory Tcp_Input
  imports Tcp Tcp_In Netif
begin

text \<open>
  Input processing of TCP (\<open>src/nsc-0.5.3/lwip-HEAD/src/core/tcp_in.c\<close>): checking a segment,
  finding its connection, and the TCP state machine.  \<open>None\<close> stands for the use of a control
  block after its release, a null pointer, a division by zero, or a read outside the packet.
\<close>

section \<open>Callbacks\<close>

definition tcp_accept_null :: err_t where
  "tcp_accept_null = ERR_ABRT"

definition tcp_recv_null :: "tcp_env \<Rightarrow> addr \<Rightarrow> u8 list option \<Rightarrow> err_t \<Rightarrow> tstate \<Rightarrow> (err_t \<times> tstate) option" where
  "tcp_recv_null env a p err s =
    (if p \<noteq> None then Some (ERR_OK, s)
     else if err = ERR_OK then tcp_close env a s
     else Some (ERR_OK, s))"

definition TCP_EVENT_ACCEPT :: "tcp_app \<Rightarrow> addr \<Rightarrow> err_t \<Rightarrow> err_t \<Rightarrow> tstate \<Rightarrow> (err_t \<times> tstate) option" where
  "TCP_EVENT_ACCEPT app a err ret s = do {
     p \<leftarrow> pcbs s a;
     (case accept_cb p of
        None \<Rightarrow> Some (ret, s)
      | Some f \<Rightarrow>
          if f = TCP_ACCEPT_NULL then Some (tcp_accept_null, s)
          else app_accept app f (callback_arg p) a err s)
   }"

definition TCP_EVENT_SENT :: "tcp_app \<Rightarrow> addr \<Rightarrow> u16 \<Rightarrow> err_t \<Rightarrow> tstate \<Rightarrow> (err_t \<times> tstate) option" where
  "TCP_EVENT_SENT app a space ret s = do {
     p \<leftarrow> pcbs s a;
     (case sent_cb p of
        None \<Rightarrow> Some (ret, s)
      | Some f \<Rightarrow> app_sent app f (callback_arg p) a space s)
   }"

definition TCP_EVENT_RECV ::
  "tcp_env \<Rightarrow> tcp_app \<Rightarrow> addr \<Rightarrow> u8 list option \<Rightarrow> err_t \<Rightarrow> err_t \<Rightarrow> tstate \<Rightarrow> (err_t \<times> tstate) option" where
  "TCP_EVENT_RECV env app a d err ret s = do {
     p \<leftarrow> pcbs s a;
     (case recv_cb p of
        None \<Rightarrow> Some (ret, s)
      | Some f \<Rightarrow>
          if f = TCP_RECV_NULL then tcp_recv_null env a d err s
          else app_recv app f (callback_arg p) a d err s)
   }"

definition TCP_EVENT_CONNECTED :: "tcp_app \<Rightarrow> addr \<Rightarrow> err_t \<Rightarrow> err_t \<Rightarrow> tstate \<Rightarrow> (err_t \<times> tstate) option" where
  "TCP_EVENT_CONNECTED app a err ret s = do {
     p \<leftarrow> pcbs s a;
     (case connected_cb p of
        None \<Rightarrow> Some (ret, s)
      | Some f \<Rightarrow> app_connected app f (callback_arg p) a err s)
   }"

section \<open>The state machine\<close>

abbreviation has :: "tcp_in \<Rightarrow> u8 \<Rightarrow> bool" where
  "has i fl \<equiv> in_flags i AND fl \<noteq> 0"

definition rst_reply :: "tcp_env \<Rightarrow> u32 \<Rightarrow> tcp_in \<Rightarrow> 'a net_scheme \<Rightarrow> 'a net_scheme" where
  "rst_reply env ackno i n =
    tcp_rst env ackno (in_seqno i + ucast (in_tcplen i)) (in_dest i) (in_src i)
      (h_dest (in_hdr i)) (h_src (in_hdr i)) n"

definition rst_acceptable :: "tcp_pcb \<Rightarrow> tcp_in \<Rightarrow> bool" where
  "rst_acceptable p i =
    (if state p = SYN_SENT then in_ackno i = snd_nxt p
     else TCP_SEQ_BETWEEN (in_seqno i) (rcv_nxt p) (rcv_nxt p + ucast (rcv_wnd p)))"

definition receive_pcb :: "tcp_env \<Rightarrow> addr \<Rightarrow> tcp_in \<Rightarrow> tstate \<Rightarrow> (tcp_in \<times> tstate) option" where
  "receive_pcb env a i s = do {
     p \<leftarrow> pcbs s a;
     (p, i, s) \<leftarrow> tcp_receive env a p i s;
     Some (i, put_pcb a p s)
   }"

definition set_state :: "tcp_state \<Rightarrow> addr \<Rightarrow> tstate \<Rightarrow> tstate option" where
  "set_state st a s = on_pcb (\<lambda>p s. (p \<lparr> state := st \<rparr>, s)) a s"

definition enter_time_wait :: "tcp_env \<Rightarrow> addr \<Rightarrow> tstate \<Rightarrow> tstate option" where
  "enter_time_wait env a s = do {
     s \<leftarrow> on_pcb (\<lambda>p s. let (p, s) = tcp_ack_now env a p s in (tcp_pcb_purge p, s)) a s;
     s \<leftarrow> set_state TIME_WAIT a (s \<lparr> active_pcbs := remove1 a (active_pcbs s) \<rparr>);
     Some (s \<lparr> tw_pcbs := a # tw_pcbs s \<rparr>)
   }"

definition process_syn_sent ::
  "tcp_env \<Rightarrow> tcp_app \<Rightarrow> addr \<Rightarrow> tcp_in \<Rightarrow> tcp_pcb \<Rightarrow> tstate \<Rightarrow> (err_t \<times> tcp_in \<times> tstate) option" where
  "process_syn_sent env app a i p s = do {
     expected \<leftarrow>
       (if has i TCP_ACK \<and> has i TCP_SYN
        then (case unacked p of [] \<Rightarrow> None | seg # _ \<Rightarrow> Some (in_ackno i = seg_seqno seg + 1))
        else Some False);
     if expected
     then do {
       let p = p \<lparr> snd_buf := snd_buf p + 1, rcv_nxt := in_seqno i + 1, lastack := in_ackno i,
                   snd_wnd := ucast (h_wnd (in_hdr i)), snd_wl1 := in_seqno i - 1,
                   state := ESTABLISHED, cwnd := mss p, snd_queuelen := snd_queuelen p - 1,
                   unacked := tl (unacked p) \<rparr>;
       p \<leftarrow> tcp_parseopt i p;
       (err, s) \<leftarrow> TCP_EVENT_CONNECTED app a ERR_OK ERR_OK (put_pcb a p s);
       s \<leftarrow> on_pcb (tcp_ack env a) a s;
       Some (ERR_OK, i, s)
     }
     else if has i TCP_ACK then Some (ERR_OK, i, rst_reply env (in_ackno i) i (put_pcb a p s))
     else Some (ERR_OK, i, put_pcb a p s)
   }"

definition process_syn_rcvd ::
  "tcp_env \<Rightarrow> tcp_app \<Rightarrow> addr \<Rightarrow> tcp_in \<Rightarrow> tcp_pcb \<Rightarrow> tstate \<Rightarrow> (err_t \<times> tcp_in \<times> tstate) option" where
  "process_syn_rcvd env app a i p s =
    (if has i TCP_ACK \<and> \<not> has i TCP_RST
     then
       (if TCP_SEQ_BETWEEN (in_ackno i) (lastack p + 1) (snd_nxt p)
        then do {
          (err, s) \<leftarrow> TCP_EVENT_ACCEPT app a ERR_OK ERR_OK (put_pcb a (p \<lparr> state := ESTABLISHED \<rparr>) s);
          if err \<noteq> ERR_OK
          then do { s \<leftarrow> tcp_abort env app a s; Some (ERR_ABRT, i, s) }
          else do {
            (i, s) \<leftarrow> receive_pcb env a i s;
            s \<leftarrow> on_pcb (\<lambda>p s. (p \<lparr> cwnd := mss p \<rparr>, s)) a s;
            Some (ERR_OK, i, s)
          }
        }
        else Some (ERR_OK, i, rst_reply env (in_ackno i) i (put_pcb a p s)))
     else Some (ERR_OK, i, put_pcb a p s))"

text \<open>What follows \<open>tcp_receive\<close> in the synchronized states: the acknowledgement of our FIN and
  the FIN of the other side.\<close>

definition process_fin ::
  "tcp_env \<Rightarrow> addr \<Rightarrow> tcp_state \<Rightarrow> tcp_in \<Rightarrow> tstate \<Rightarrow> (tcp_in \<times> tstate) option" where
  "process_fin env a st i s = do {
     p \<leftarrow> pcbs s a;
     let fin_acked = (has i TCP_ACK \<and> in_ackno i = snd_nxt p);
     (case st of
        FIN_WAIT_1 \<Rightarrow>
          if has i TCP_FIN
          then
            (if fin_acked then do { s \<leftarrow> enter_time_wait env a s; Some (i, s) }
             else do {
               s \<leftarrow> on_pcb (tcp_ack_now env a) a s;
               s \<leftarrow> set_state CLOSING a s;
               Some (i, s)
             })
          else if fin_acked then do { s \<leftarrow> set_state FIN_WAIT_2 a s; Some (i, s) }
          else Some (i, s)
      | FIN_WAIT_2 \<Rightarrow>
          if has i TCP_FIN then do { s \<leftarrow> enter_time_wait env a s; Some (i, s) } else Some (i, s)
      | CLOSING \<Rightarrow>
          if fin_acked then do { s \<leftarrow> enter_time_wait env a s; Some (i, s) } else Some (i, s)
      | LAST_ACK \<Rightarrow>
          if fin_acked
          then do { s \<leftarrow> set_state CLOSED a s; Some (i \<lparr> recv_flags := TF_CLOSED \<rparr>, s) }
          else Some (i, s)
      | _ \<Rightarrow>
          if has i TCP_FIN
          then do {
            s \<leftarrow> on_pcb (tcp_ack_now env a) a s;
            s \<leftarrow> set_state CLOSE_WAIT a s;
            Some (i, s)
          }
          else Some (i, s))
   }"

definition tcp_process ::
  "tcp_env \<Rightarrow> tcp_app \<Rightarrow> addr \<Rightarrow> tcp_in \<Rightarrow> tstate \<Rightarrow> (err_t \<times> tcp_in \<times> tstate) option" where
  "tcp_process env app a i s = do {
     p \<leftarrow> pcbs s a;
     if has i TCP_RST
     then
       (if rst_acceptable p i
        then Some (ERR_RST, i \<lparr> recv_flags := TF_RESET \<rparr>,
                   put_pcb a (p \<lparr> flags := flags p AND NOT TF_ACK_DELAY \<rparr>) s)
        else Some (ERR_OK, i, s))
     else do {
       let p = p \<lparr> tmr := tcp_ticks s, keep_cnt := 0 \<rparr>;
       if state p = SYN_SENT then process_syn_sent env app a i p s
       else if state p = SYN_RCVD then process_syn_rcvd env app a i p s
       else if state p \<in> {CLOSE_WAIT, ESTABLISHED, FIN_WAIT_1, FIN_WAIT_2, CLOSING, LAST_ACK}
       then do {
         (i, s) \<leftarrow> receive_pcb env a i (put_pcb a p s);
         (i, s) \<leftarrow> process_fin env a (state p) i s;
         Some (ERR_OK, i, s)
       }
       else Some (ERR_OK, i, put_pcb a p s)
     }
   }"

section \<open>Segments for listening and dying connections\<close>

definition tcp_listen_input ::
  "tcp_env \<Rightarrow> tcp_app \<Rightarrow> tcp_pcb_listen \<Rightarrow> tcp_in \<Rightarrow> tstate \<Rightarrow> (err_t \<times> tstate) option" where
  "tcp_listen_input env app lp i s =
    (if has i TCP_ACK then Some (ERR_OK, rst_reply env (in_ackno i + 1) i s)
     else if has i TCP_SYN
     then do {
       (m, s) \<leftarrow> tcp_alloc env app (l_prio lp) s;
       (case m of
          None \<Rightarrow> Some (ERR_MEM, s)
        | Some b \<Rightarrow> do {
            np \<leftarrow> pcbs s b;
            let np = np \<lparr> local_ip := in_dest i, local_port := l_local_port lp, remote_ip := in_src i,
                          remote_port := h_src (in_hdr i), state := SYN_RCVD, rcv_nxt := in_seqno i + 1,
                          snd_wnd := ucast (h_wnd (in_hdr i)), ssthresh := h_wnd (in_hdr i),
                          snd_wl1 := in_seqno i - 1, callback_arg := l_callback_arg lp,
                          accept_cb := l_accept lp,
                          so_options := l_so_options lp AND
                            (SOF_DEBUG OR SOF_DONTROUTE OR SOF_KEEPALIVE OR SOF_OOBINLINE OR SOF_LINGER) \<rparr>;
            let s = s \<lparr> active_pcbs := b # active_pcbs s \<rparr>;
            np \<leftarrow> tcp_parseopt i np;
            let (e, np, s) = tcp_enqueue env np [] 0 (TCP_SYN OR TCP_ACK) False (Some (mss_option (mss np))) s;
            output_pcb env b (put_pcb b np s)
          })
     }
     else Some (ERR_OK, s))"

definition tcp_timewait_input :: "tcp_env \<Rightarrow> addr \<Rightarrow> tcp_in \<Rightarrow> tstate \<Rightarrow> (err_t \<times> tstate) option" where
  "tcp_timewait_input env a i s = do {
     s \<leftarrow> on_pcb (\<lambda>p s.
            let e = in_seqno i + ucast (in_tcplen i);
                p = (if TCP_SEQ_GT e (rcv_nxt p) then p \<lparr> rcv_nxt := e \<rparr> else p)
            in if in_tcplen i > 0 then tcp_ack_now env a p s else (p, s)) a s;
     output_pcb env a s
   }"

section \<open>The entry point\<close>

text \<open>Reading the headers of a packet.\<close>

definition get16 :: "u8 list \<Rightarrow> nat \<Rightarrow> u16" where
  "get16 bs k = push_bit 8 (ucast (bs ! k)) OR ucast (bs ! (k + 1))"

definition get32 :: "u8 list \<Rightarrow> nat \<Rightarrow> u32" where
  "get32 bs k = push_bit 16 (ucast (get16 bs k)) OR ucast (get16 bs (k + 2))"

definition get_hdr :: "u8 list \<Rightarrow> tcp_hdr" where
  "get_hdr bs = \<lparr> h_src = get16 bs 0, h_dest = get16 bs 2, h_seqno = get32 bs 4, h_ackno = get32 bs 8,
    h_word = get16 bs 12, h_wnd = get16 bs 14, h_chksum = get16 bs 16, h_urgp = get16 bs 18 \<rparr>"

definition IPH_HL :: "u8 list \<Rightarrow> nat" where
  "IPH_HL bs = unat (bs ! 0 AND 0x0f)"

definition in_of_packet :: "u32 \<Rightarrow> u32 \<Rightarrow> u8 list \<Rightarrow> tcp_in" where
  "in_of_packet src dest seg =
    (let h = get_hdr seg;
         d = drop (unat (TCPH_HDRLEN h) * 4) seg;
         fl = TCPH_FLAGS h
     in \<lparr> inseg = \<lparr> s_data = d, s_clen = 1, s_len = of_nat (length d), s_tcphdr = h \<rparr>,
          inseg_p = True, in_opts = drop TCP_HLEN seg, in_src = src, in_dest = dest,
          in_seqno = h_seqno h, in_ackno = h_ackno h, in_flags = fl,
          in_tcplen = of_nat (length d) + (if fl AND TCP_FIN \<noteq> 0 \<or> fl AND TCP_SYN \<noteq> 0 then 1 else 0),
          recv_flags = 0, recv_data = None \<rparr>)"

definition pcb_match :: "tcp_in \<Rightarrow> tcp_pcb \<Rightarrow> bool" where
  "pcb_match i p \<longleftrightarrow> remote_port p = h_src (in_hdr i) \<and> local_port p = h_dest (in_hdr i) \<and>
    remote_ip p = in_src i \<and> local_ip p = in_dest i"

definition lpcb_match :: "tcp_in \<Rightarrow> tcp_pcb_listen \<Rightarrow> bool" where
  "lpcb_match i lp \<longleftrightarrow> (ip_addr_isany (l_local_ip lp) \<or> l_local_ip lp = in_dest i) \<and>
    l_local_port lp = h_dest (in_hdr i)"

definition find_pcb :: "('p \<Rightarrow> bool) \<Rightarrow> (addr \<rightharpoonup> 'p) \<Rightarrow> addr list \<Rightarrow> addr option" where
  "find_pcb P st xs = find (\<lambda>a. case st a of None \<Rightarrow> False | Some p \<Rightarrow> P p) xs"

definition to_front :: "addr \<Rightarrow> addr list \<Rightarrow> addr list" where
  "to_front a xs = a # remove1 a xs"

text \<open>After the state machine: tell the application, release a dead connection, send.\<close>

definition input_events ::
  "tcp_env \<Rightarrow> tcp_app \<Rightarrow> addr \<Rightarrow> tcp_in \<Rightarrow> tstate \<Rightarrow> tstate option" where
  "input_events env app a i s = do {
     p \<leftarrow> pcbs s a;
     if recv_flags i AND TF_RESET \<noteq> 0
     then do {
       s \<leftarrow> TCP_EVENT_ERR app (errf_cb p) (callback_arg p) ERR_RST s;
       s \<leftarrow> remove_active env a s;
       Some (memp_free_pcb a s)
     }
     else if recv_flags i AND TF_CLOSED \<noteq> 0
     then do { s \<leftarrow> remove_active env a s; Some (memp_free_pcb a s) }
     else do {
       (err, s) \<leftarrow> (if acked p > 0 then TCP_EVENT_SENT app a (acked p) ERR_OK s else Some (ERR_OK, s));
       (err, s) \<leftarrow> (if recv_data i \<noteq> None then TCP_EVENT_RECV env app a (recv_data i) ERR_OK err s
                    else Some (err, s));
       (err, s) \<leftarrow> (if recv_flags i AND TF_GOT_FIN \<noteq> 0 then TCP_EVENT_RECV env app a None ERR_OK err s
                    else Some (err, s));
       if err = ERR_OK then do { (e, s) \<leftarrow> output_pcb env a s; Some s } else Some s
     }
   }"

definition input_active :: "tcp_env \<Rightarrow> tcp_app \<Rightarrow> addr \<Rightarrow> tcp_in \<Rightarrow> tstate \<Rightarrow> tstate option" where
  "input_active env app a i s = do {
     (err, i, s) \<leftarrow> tcp_process env app a i (s \<lparr> tcp_input_pcb := Some a \<rparr>);
     let s = s \<lparr> tcp_input_pcb := None \<rparr>;
     if err \<noteq> ERR_ABRT then input_events env app a i s else Some s
   }"

definition input_demux :: "tcp_env \<Rightarrow> tcp_app \<Rightarrow> tcp_in \<Rightarrow> tstate \<Rightarrow> tstate option" where
  "input_demux env app i s =
    (case find_pcb (pcb_match i) (pcbs s) (active_pcbs s) of
       Some a \<Rightarrow> input_active env app a i (s \<lparr> active_pcbs := to_front a (active_pcbs s) \<rparr>)
     | None \<Rightarrow>
         (case find_pcb (pcb_match i) (pcbs s) (tw_pcbs s) of
            Some a \<Rightarrow> do { (e, s) \<leftarrow> tcp_timewait_input env a i s; Some s }
          | None \<Rightarrow>
              (case find_pcb (lpcb_match i) (lpcbs s) (listen_pcbs s) of
                 Some l \<Rightarrow> do {
                   lp \<leftarrow> lpcbs s l;
                   (e, s) \<leftarrow> tcp_listen_input env app lp i (s \<lparr> listen_pcbs := to_front l (listen_pcbs s) \<rparr>);
                   Some s
                 }
               | None \<Rightarrow> if has i TCP_RST then Some s else Some (rst_reply env (in_ackno i) i s))))"

text \<open>The packet is the bytes of the datagram from the IP header on; \<open>inp\<close> is the interface it came
  in on.  Header lengths that point past the end of the packet are not checked by the
  source, whose payload length then wraps around.\<close>

definition tcp_input :: "tcp_env \<Rightarrow> tcp_app \<Rightarrow> netif \<Rightarrow> u8 list \<Rightarrow> tstate \<Rightarrow> tstate option" where
  "tcp_input env app inp pkt s =
    (let seg = drop (IPH_HL pkt * 4) pkt;
         src = ntohl (get32 pkt 12); dest = ntohl (get32 pkt 16)
     in if length pkt < IPH_HL pkt * 4 then None
        else if length seg < TCP_HLEN then Some s
        else if ip_addr_isbroadcast dest inp \<or> ip_addr_ismulticast dest then Some s
        else if inet_chksum_pseudo [seg] src dest IP_PROTO_TCP (of_nat (length seg)) \<noteq> 0 then Some s
        else if length seg < unat (TCPH_HDRLEN (get_hdr seg)) * 4 then None
        else input_demux env app (in_of_packet src dest seg) s)"

end
