(* ===== verification/Tcp_Frame.thy ===== *)
theory Tcp_Frame
  imports Tcp_Recv Tcp_Input
begin

text \<open>
  What the operations on one connection leave alone.  Of the globals they change only the count of
  allocations and the trace of datagrams (\<open>net_erase\<close> removes these two), and none of them changes
  the state of the connection.
\<close>

section \<open>Globals\<close>

definition net_erase :: "'a net_scheme \<Rightarrow> 'a net_scheme" where
  "net_erase n = n \<lparr> allocs := 0, wire := [] \<rparr>"

lemma net_erase_mem [simp]: "net_erase (snd (mem_alloc env n)) = net_erase n"
  by (simp add: mem_alloc_def net_erase_def)

lemma net_erase_ip [simp]: "net_erase (ip_output d n) = net_erase n"
  by (simp add: ip_output_def net_erase_def)

lemma net_erase_segment [simp]: "net_erase (snd (snd (tcp_output_segment env seg p n))) = net_erase n"
  by (simp add: tcp_output_segment_def Let_def split: option.splits)

lemma net_erase_one [simp]: "net_erase (snd (out_one env seg rest p n)) = net_erase n"
  by (simp add: out_one_def Let_def case_prod_beta)

lemma net_erase_loop [simp]: "net_erase (snd (out_loop env w segs p n)) = net_erase n"
  by (induction segs arbitrary: p n) (simp_all add: case_prod_beta)

lemma net_erase_output [simp]: "net_erase (snd (snd (tcp_output env a p n))) = net_erase n"
  by (simp add: tcp_output_def Let_def case_prod_beta)

lemma net_erase_acks [simp]:
  "net_erase (snd (tcp_ack_now env a p n)) = net_erase n" "net_erase (snd (tcp_ack env a p n)) = net_erase n"
  by (simp_all add: tcp_ack_now_def tcp_ack_def)

lemma net_erase_rst [simp]: "net_erase (tcp_rst env sq ak lip rip lp rp n) = net_erase n"
  by (simp add: tcp_rst_def Let_def case_prod_beta)

lemma net_erase_keepalive [simp]: "net_erase (tcp_keepalive env p n) = net_erase n"
  by (simp add: tcp_keepalive_def Let_def case_prod_beta)

lemma net_erase_rexmit [simp]:
  "net_erase (snd (tcp_rexmit env a p n)) = net_erase n" "net_erase (snd (tcp_rexmit_rto env a p n)) = net_erase n"
  by (simp_all add: tcp_rexmit_def tcp_rexmit_rto_def split: list.splits)

lemma net_erase_copy [simp]: "net_erase (snd (tcp_seg_copy env seg n)) = net_erase n"
  by (simp add: tcp_seg_copy_def Let_def case_prod_beta)

lemma net_erase_pbuf [simp]: "net_erase (snd (enq_pbuf env od cp bs n)) = net_erase n"
  by (simp add: enq_pbuf_def Let_def case_prod_beta split: option.splits)

lemma net_erase_enq_loop [simp]: "net_erase (snd (enq_loop env p fl cp od ptr left sq ql queue n)) = net_erase n"
proof (induction env p fl cp od ptr left sq ql queue n rule: enq_loop.induct)
  case (1 env p fl cp od ptr left sq ql queue n)
  obtain ok n1 where m: "mem_alloc env n = (ok, n1)" by fastforce
  define sl where "sl = (if left > unat (mss p) then unat (mss p) else left)"
  obtain r n2 where e: "enq_pbuf env od cp (take sl ptr) n1 = (r, n2)" by fastforce
  have n: "net_erase n1 = net_erase n" "net_erase n2 = net_erase n1"
    using net_erase_mem [of env n] net_erase_pbuf [of env od cp "take sl ptr" n1] m e by simp_all
  show ?case
  proof (cases "\<not> (queue \<noteq> [] \<and> left = 0) \<and> ok \<and> (\<exists>bs k. r = Some (bs, k) \<and> \<not> ql + k > TCP_SND_QUEUELEN)")
    case True
    then obtain bs k where r: "r = Some (bs, k)" by blast
    show ?thesis using True "1.IH" [OF _ refl m [symmetric] refl _ _ r refl] m e r n
      by (cases "left > unat (mss p)") (subst enq_loop.simps, simp add: sl_def Let_def)+
  next
    case False
    then show ?thesis using m e n by (subst enq_loop.simps) (auto simp: sl_def Let_def split: option.splits)
  qed
qed

lemma net_erase_enqueue [simp]:
  "net_erase (snd (snd (tcp_enqueue env p d l fl cp od n))) = net_erase n"
  "net_erase (snd (snd (tcp_send_ctrl env p fl n))) = net_erase n"
  "net_erase (snd (snd (tcp_write env p d l cp n))) = net_erase n"
proof -
  show e: "net_erase (snd (snd (tcp_enqueue env p d l fl cp od n))) = net_erase n" for d l fl cp od
    using net_erase_enq_loop [of env p fl cp od d "unat l" "snd_lbb p" "unat (snd_queuelen p)" "[]" n]
    by (auto simp: tcp_enqueue_def Let_def case_prod_beta split: option.splits prod.splits)
  show "net_erase (snd (snd (tcp_send_ctrl env p fl n))) = net_erase n"
    "net_erase (snd (snd (tcp_write env p d l cp n))) = net_erase n"
    by (simp_all add: tcp_send_ctrl_def tcp_write_def e)
qed

lemma net_erase_ooseq_walk [simp]: "net_erase (snd (ooseq_walk env sq seg pre rest n)) = net_erase n"
  by (induction env sq seg pre rest n rule: ooseq_walk.induct)
    (auto simp: tcp_seg_copy_def Let_def case_prod_beta)

lemma net_erase_outseq [simp]: "net_erase (snd (rx_outseq env a p i n)) = net_erase n"
  by (auto simp: rx_outseq_def Let_def case_prod_beta tcp_seg_copy_def)

lemma net_erase_inseq [simp]: "net_erase (snd (snd (rx_inseq env a p i n))) = net_erase n"
  by (simp add: rx_inseq_def Let_def case_prod_beta)

lemma net_erase_data [simp]: "net_erase (snd (snd (rx_data env a p i n))) = net_erase n"
  by (simp add: rx_data_def Let_def case_prod_beta)

lemma net_erase_dupack [simp]: "net_erase (snd (rx_dupack env a e p n)) = net_erase n"
  by (simp add: rx_dupack_def Let_def case_prod_beta)

lemma net_erase_ack: "rx_ack env a i p n = Some (p', n') \<Longrightarrow> net_erase n' = net_erase n"
  unfolding rx_ack_def Let_def
  by (auto simp: bind_eq_Some_conv split: if_splits) (metis net_erase_dupack snd_conv)

lemma net_erase_receive: "tcp_receive env a p i n = Some (p', i', n') \<Longrightarrow> net_erase n' = net_erase n"
  unfolding tcp_receive_def
  by (auto simp: bind_eq_Some_conv dest!: net_erase_ack split: if_splits) (metis net_erase_data snd_conv)+

lemma net_erase_recved [simp]: "net_erase (snd (tcp_recved env a l p n)) = net_erase n"
  by (simp add: tcp_recved_def Let_def)

section \<open>The state of the connection\<close>

lemma state_output [simp]: "state (fst (snd (tcp_output env a p n))) = state p"
  by (rule snd_erase_fields) simp

lemma state_acks [simp]:
  "state (fst (tcp_ack_now env a p n)) = state p" "state (fst (tcp_ack env a p n)) = state p"
  by (rule snd_erase_fields; simp)+

lemma state_enqueue [simp]:
  "state (fst (snd (tcp_enqueue env p d l fl cp od n))) = state p"
  "state (fst (snd (tcp_send_ctrl env p fl n))) = state p"
  by (auto simp: tcp_send_ctrl_def tcp_enqueue_def Let_def case_prod_beta split: option.splits prod.splits)

lemma state_deliver [simp]: "state (fst (ooseq_deliver xs p i)) = state p"
  by (induction xs p i rule: ooseq_deliver.induct) (simp_all add: Let_def)

lemma state_data [simp]: "state (fst (rx_data env a p i n)) = state p"
  by (simp add: rx_data_def rx_inseq_def rx_outseq_def Let_def case_prod_beta split: option.splits prod.splits)

lemma state_receive: "tcp_receive env a p i n = Some (p', i', n') \<Longrightarrow> state p' = state p"
  unfolding tcp_receive_def
  by (auto simp: bind_eq_Some_conv dest!: snd_erase_ack [THEN snd_erase_fields(4)] split: if_splits)
    (metis state_data fst_conv)+

lemma state_parseopt: "tcp_parseopt i p = Some p' \<Longrightarrow> state p' = state p"
  by (auto simp: tcp_parseopt_def bind_eq_Some_conv split: if_splits)

lemma state_recved [simp]: "state (fst (tcp_recved env a l p n)) = state p"
  by (simp add: tcp_recved_def Let_def)

end
