(* ===== verification/Tcp_Ports.thy ===== *)
theory Tcp_Ports
  imports Tcp_Recv
begin

text \<open>
  Local ports and addresses: the search for an unused port, which ends exactly when there is one,
  and the outcomes of \<open>tcp_bind\<close>.
\<close>

section \<open>The search for a port\<close>

definition port_range :: "u16 set" where
  "port_range = {4096..0x7fff}"

lemma port_range_iff: "q \<in> port_range \<longleftrightarrow> 4096 \<le> unat q \<and> unat q \<le> 32767"
  by (simp add: port_range_def word_le_nat_alt)

lemma unat_next_port:
  assumes "q \<in> port_range"
  shows "unat (next_port q) = (if unat q = 32767 then 4096 else Suc (unat q))"
proof -
  have "unat (q + 1) = Suc (unat q)"
    using assms by (subst unat_add_lem [THEN iffD1]) (simp_all add: port_range_iff)
  then show ?thesis using assms by (auto simp: next_port_def word_less_nat_alt port_range_iff)
qed

lemma next_port_range: "q \<in> port_range \<Longrightarrow> next_port q \<in> port_range"
  using unat_next_port [of q] by (auto simp: port_range_iff)

text \<open>How many steps the counter is away from a port.\<close>

definition port_dist :: "u16 \<Rightarrow> u16 \<Rightarrow> nat" where
  "port_dist f q = (if unat q < unat f then unat f - unat q else 28672 + unat f - unat q)"

lemma port_dist_step:
  assumes "q \<in> port_range" and "f \<in> port_range" and "next_port q \<noteq> f"
  shows "port_dist f (next_port q) < port_dist f q"
proof -
  have "unat (next_port q) \<noteq> unat f" using assms(3) by (simp add: word_unat_eq_iff)
  then show ?thesis
    using assms(1,2) unat_next_port [OF assms(1)] unfolding port_dist_def port_range_iff by (auto split: if_splits)
qed

lemma new_port_loop_ends:
  assumes "f \<in> port_range" and "\<not> used f" and "q \<in> port_range"
  shows "\<exists>r. new_port_loop used q = Some r"
  using assms(3)
proof (induction "port_dist f q" arbitrary: q rule: less_induct)
  case less
  show ?case
  proof (cases "used (next_port q)")
    case True
    then have "port_dist f (next_port q) < port_dist f q"
      using assms(1,2) less.prems by (intro port_dist_step) auto
    then have "\<exists>r. new_port_loop used (next_port q) = Some r"
      using less.hyps next_port_range [OF less.prems] by blast
    then show ?thesis using True by (subst new_port_loop.simps) simp
  qed (simp add: new_port_loop.simps)
qed

lemma new_port_loop_free:
  assumes "new_port_loop used q = Some r"
  shows "q \<in> port_range \<Longrightarrow> r \<in> port_range \<and> \<not> used r"
  using assms
proof (induction rule: new_port_loop.raw_induct [rotated, consumes 1, case_names step])
  case (step loop used q r)
  then show ?case using next_port_range [of q] by (auto split: if_splits)
qed

lemma tcp_new_port_cases:
  assumes "port_ctr s \<in> port_range"
  shows "(case tcp_new_port s of
       None \<Rightarrow> \<forall>q\<in>port_range. port_used s q
     | Some (q, s') \<Rightarrow> q \<in> port_range \<and> \<not> port_used s q \<and> s' = s \<lparr> port_ctr := q \<rparr>)"
proof (cases "new_port_loop (port_used s) (port_ctr s)")
  case None
  then show ?thesis using new_port_loop_ends [OF _ _ assms, of _ "port_used s"] by (auto simp: tcp_new_port_def)
next
  case (Some q)
  then show ?thesis using new_port_loop_free [OF Some assms] by (simp add: tcp_new_port_def)
qed

text \<open>C23: While the counter is in the range of ephemeral ports, \<open>tcp_new_port\<close> returns a port of that
  range that no active, waiting or listening connection uses, and does so whenever there is one;
  when all are in use the search never ends.\<close>

theorem tcp_new_port_finds:
  assumes "port_ctr s \<in> port_range"
  shows "(case tcp_new_port s of
       None \<Rightarrow> \<forall>q\<in>port_range. port_used s q
     | Some (q, s') \<Rightarrow> q \<in> port_range \<and> \<not> port_used s q \<and> s' = s \<lparr> port_ctr := q \<rparr>)"
  by (rule tcp_new_port_cases [OF assms])

text \<open>A state with one active connection on port 4097.\<close>

definition ex_state :: tstate where
  "ex_state = \<lparr> tcp_ticks = 7, tcp_input_pcb = None, allocs = 0, wire = [], tcp_timer = 0, active_pcbs = [0],
     tw_pcbs = [], listen_pcbs = [], pcbs = [0 \<mapsto> ex_pcb \<lparr> local_port := 4097 \<rparr>, 1 \<mapsto> zero_pcb], lpcbs = Map.empty,
     port_ctr = 4096, iss_ctr = 6510 \<rparr>"

theorem tcp_new_port_finds_witness:
  "\<exists>q s'. tcp_new_port ex_state = Some (q, s') \<and> q \<in> port_range \<and> \<not> port_used ex_state q"
proof -
  have "\<not> port_used ex_state 4098" by (simp add: port_used_def pcb_ex_def lpcb_ex_def ex_state_def)
  moreover have "port_ctr ex_state \<in> port_range" "(4098 :: u16) \<in> port_range"
    by (simp_all add: ex_state_def port_range_def)
  ultimately show ?thesis using tcp_new_port_finds [of ex_state] by (auto split: option.splits)
qed

section \<open>Binding\<close>

text \<open>A listening or active connection stands in the way of an address and a port.\<close>

definition bind_conflict :: "u32 \<Rightarrow> u16 \<Rightarrow> tstate \<Rightarrow> bool" where
  "bind_conflict ip port s \<longleftrightarrow>
    (\<exists>a\<in>set (listen_pcbs s). \<exists>c. lpcbs s a = Some c \<and> l_local_port c = port \<and> addr_clash (l_local_ip c) ip) \<or>
    (\<exists>a\<in>set (active_pcbs s). \<exists>c. pcbs s a = Some c \<and> local_port c = port \<and> addr_clash (local_ip c) ip)"

lemma pcb_ex_iff: "pcb_ex P xs s \<longleftrightarrow> (\<exists>a\<in>set xs. \<exists>c. pcbs s a = Some c \<and> P c)"
  unfolding pcb_ex_def list_ex_iff by (auto split: option.splits)

lemma lpcb_ex_iff: "lpcb_ex P s \<longleftrightarrow> (\<exists>a\<in>set (listen_pcbs s). \<exists>c. lpcbs s a = Some c \<and> P c)"
  unfolding lpcb_ex_def list_ex_iff by (auto split: option.splits)

definition bound :: "u32 \<Rightarrow> u16 \<Rightarrow> tcp_pcb \<Rightarrow> tcp_pcb" where
  "bound ip port p = (if ip = 0 then p else p \<lparr> local_ip := ip \<rparr>) \<lparr> local_port := port \<rparr>"

text \<open>C25: \<open>tcp_bind\<close> to a given port fails with \<open>ERR_USE\<close>, changing nothing, exactly when an active or
  listening connection has that port and an address that is the same or a wildcard; otherwise it
  sets port and address.  With port zero it takes a port that nobody uses, and never fails.\<close>

theorem tcp_bind_outcome:
  assumes "pcbs s a = Some p" and "port_ctr s \<in> port_range" and "tcp_bind a (Some ip) port s = Some (err, s')"
  shows "if port \<noteq> 0 \<and> bind_conflict ip port s then err = ERR_USE \<and> s' = s
    else err = ERR_OK \<and>
      (\<exists>q. (if port \<noteq> 0 then q = port \<and> port_ctr s' = port_ctr s else \<not> port_used s q \<and> q \<in> port_range \<and> port_ctr s' = q) \<and>
           \<not> bind_conflict ip q s \<and> s' = put_pcb a (bound ip q p) (s \<lparr> port_ctr := port_ctr s' \<rparr>))"
proof -
  have c: "bind_conflict ip q s \<longleftrightarrow> lpcb_ex (\<lambda>c. l_local_port c = q \<and> addr_clash (l_local_ip c) ip) s \<or>
      pcb_ex (\<lambda>c. local_port c = q \<and> addr_clash (local_ip c) ip) (active_pcbs s) s" for q
    by (simp add: bind_conflict_def pcb_ex_iff lpcb_ex_iff)
  have k: "pcb_ex P xs (s \<lparr> port_ctr := q \<rparr>) = pcb_ex P xs s" "lpcb_ex Q (s \<lparr> port_ctr := q \<rparr>) = lpcb_ex Q s" for P Q xs q
    by (simp_all add: pcb_ex_def lpcb_ex_def)
  have u: "bind_conflict ip q s \<Longrightarrow> port_used s q" for q
    by (auto simp: bind_conflict_def port_used_def pcb_ex_iff lpcb_ex_iff)
  have b: "bind_local a ip q (s \<lparr> port_ctr := r \<rparr>) = Some (put_pcb a (bound ip q p) (s \<lparr> port_ctr := r \<rparr>))" for q r
    using assms(1) by (simp add: bind_local_def on_pcb_def bound_def)
  show ?thesis
  proof (cases "port = 0")
    case True
    then obtain q where q: "tcp_new_port s = Some (q, s \<lparr> port_ctr := q \<rparr>)" "q \<in> port_range" "\<not> port_used s q"
      using assms(3) tcp_new_port_cases [OF assms(2)] by (auto simp: tcp_bind_def split: option.splits prod.splits)
    then have "err = ERR_OK" "s' = put_pcb a (bound ip q p) (s \<lparr> port_ctr := q \<rparr>)"
      using assms(3) u [of q] c [of q] True by (auto simp: tcp_bind_def k b split: if_splits)
    then show ?thesis using q u [of q] True by (auto intro!: exI [of _ q] simp: put_pcb_def)
  next
    case False
    then show ?thesis using assms(3) c [of port] b [of port "port_ctr s"]
      by (auto simp: tcp_bind_def put_pcb_def split: if_splits)
  qed
qed

theorem tcp_bind_outcome_witness:
  "\<exists>s'. tcp_bind 1 (Some 0) 4097 ex_state = Some (ERR_USE, s') \<and> s' = ex_state"
proof -
  have e: "tcp_bind 1 (Some 0) 4097 ex_state = Some (ERR_USE, ex_state)"
    by (simp add: tcp_bind_def pcb_ex_def lpcb_ex_def ex_state_def addr_clash_def)
  have "bind_conflict 0 4097 ex_state" by (auto simp: bind_conflict_def ex_state_def addr_clash_def)
  then show ?thesis using tcp_bind_outcome [OF _ _ e, of zero_pcb] e
    by (simp add: ex_state_def port_range_def)
qed

end
