(* ===== verification/Tcp_Timer.thy ===== *)
theory Tcp_Timer
  imports Tcp_Frame Tcp_Ports
begin

text \<open>
  The slow timer: connections in TIME-WAIT disappear after twice the maximum segment lifetime, and
  the branch that gives up an idle keep-alive connection uses its control block after releasing it.
\<close>

section \<open>TIME-WAIT\<close>

definition tw_limit :: nat where
  "tw_limit = 240"

definition expired :: "tstate \<Rightarrow> addr \<Rightarrow> bool" where
  "expired s a \<longleftrightarrow> (case pcbs s a of None \<Rightarrow> False | Some p \<Rightarrow> tw_limit < unat (idle p s))"

lemma tw_loop_spec:
  assumes "distinct as" and "distinct (tw_pcbs s)"
  shows "tw_loop as s = s \<lparr> tw_pcbs := filter (\<lambda>a. \<not> (a \<in> set as \<and> expired s a)) (tw_pcbs s),
    pcbs := (\<lambda>a. if a \<in> set as \<and> expired s a then None else pcbs s a) \<rparr>"
  using assms
proof (induction as arbitrary: s)
  case (Cons a as)
  define s1 where "s1 = (if expired s a then memp_free_pcb a (s \<lparr> tw_pcbs := remove1 a (tw_pcbs s) \<rparr>) else s)"
  have "tw_loop (a # as) s = tw_loop as s1"
    by (simp add: s1_def expired_def tw_limit_def TCP_MSL_def TCP_SLOW_INTERVAL_def word_less_nat_alt split: option.split)
  moreover have "distinct (tw_pcbs s1)" using Cons.prems by (simp add: s1_def memp_free_pcb_def)
  moreover have e: "expired s1 b = expired s b" if "b \<in> set as" for b
    using that Cons.prems(1) by (auto simp: s1_def expired_def memp_free_pcb_def idle_def split: option.split)
  moreover have l: "tw_pcbs s1 = filter (\<lambda>b. \<not> (b = a \<and> expired s a)) (tw_pcbs s)"
    using Cons.prems(2)
    by (auto simp: s1_def memp_free_pcb_def distinct_remove1_removeAll removeAll_filter_not_eq intro!: filter_cong)
  moreover have m: "pcbs s1 = (\<lambda>b. if b = a \<and> expired s a then None else pcbs s b)"
    by (auto simp: s1_def memp_free_pcb_def)
  moreover have u: "s1 \<lparr> tw_pcbs := xs, pcbs := f \<rparr> = s \<lparr> tw_pcbs := xs, pcbs := f \<rparr>" for xs f
    by (simp add: s1_def memp_free_pcb_def)
  moreover have "filter (\<lambda>b. \<not> (b \<in> set as \<and> expired s1 b)) (tw_pcbs s1) =
      filter (\<lambda>b. \<not> (b \<in> set (a # as) \<and> expired s b)) (tw_pcbs s)"
    unfolding l filter_filter using e Cons.prems(1) by (intro filter_cong refl) auto
  moreover have "(\<lambda>b. if b \<in> set as \<and> expired s1 b then None else pcbs s1 b) =
      (\<lambda>b. if b \<in> set (a # as) \<and> expired s b then None else pcbs s b)"
    unfolding m using e Cons.prems(1) by (intro ext) auto
  ultimately show ?case using Cons.IH [of s1] Cons.prems(1) by (simp only: distinct.simps u)
qed simp

text \<open>The TIME-WAIT loop of \<open>tcp_slowtmr\<close> removes from its list, and releases, exactly the
  connections that have been idle for more than 240 ticks, twice the maximum segment lifetime, and
  touches no other control block.\<close>

theorem time_wait_removes_expired:
  assumes "distinct (tw_pcbs s)"
  shows "tw_loop (tw_pcbs s) s = s \<lparr> tw_pcbs := filter (\<lambda>a. \<not> expired s a) (tw_pcbs s),
    pcbs := (\<lambda>a. if a \<in> set (tw_pcbs s) \<and> expired s a then None else pcbs s a) \<rparr>"
  unfolding tw_loop_spec [OF assms assms] by (auto intro!: tstate.equality filter_cong)

section \<open>The end of all waiting\<close>

text \<open>The slow timer repeated.\<close>

fun slow_ticks :: "tcp_env \<Rightarrow> tcp_app \<Rightarrow> nat \<Rightarrow> tstate \<Rightarrow> tstate option" where
  "slow_ticks env app 0 s = Some s"
| "slow_ticks env app (Suc k) s = do { s \<leftarrow> slow_ticks env app k s; tcp_slowtmr env app s }"

lemma slowtmr_no_active:
  assumes "active_pcbs s = []" and "distinct (tw_pcbs s)"
  shows "\<exists>s'. tcp_slowtmr env app s = Some s' \<and> active_pcbs s' = [] \<and> distinct (tw_pcbs s') \<and>
    set (tw_pcbs s') \<subseteq> set (tw_pcbs s) \<and> tcp_ticks s' = tcp_ticks s + 1 \<and>
    (\<forall>a\<in>set (tw_pcbs s'). pcbs s' a = pcbs s a \<and> \<not> expired s' a)"
proof -
  define t where "t = s \<lparr> tcp_ticks := tcp_ticks s + 1 \<rparr>"
  have t: "distinct (tw_pcbs t)" using assms(2) by (simp add: t_def)
  define s' where "s' = tw_loop (tw_pcbs t) t"
  note spec = tw_loop_spec [OF t t]
  have "tcp_slowtmr env app s = Some s'"
    using assms(1) by (simp add: tcp_slowtmr_def Let_def slow_loop.simps s'_def t_def)
  moreover have "active_pcbs s' = []" "distinct (tw_pcbs s')" "set (tw_pcbs s') \<subseteq> set (tw_pcbs s)"
    "tcp_ticks s' = tcp_ticks s + 1"
    using assms by (auto simp: s'_def spec) (auto simp: t_def)
  moreover have "pcbs s' a = pcbs s a \<and> \<not> expired s' a" if a: "a \<in> set (tw_pcbs s')" for a
  proof -
    have n: "\<not> expired t a" "a \<in> set (tw_pcbs t)" using a by (simp_all add: s'_def spec)
    then have p: "pcbs s' a = pcbs t a" "tcp_ticks s' = tcp_ticks t" by (simp_all add: s'_def spec)
    then have "expired s' a = expired t a" by (simp add: expired_def idle_def split: option.split)
    then show ?thesis using n p by (simp add: t_def)
  qed
  ultimately show ?thesis by blast
qed

text \<open>After \<open>k\<close> ticks whatever still waits has been idle for at least \<open>k - 1\<close> of them.\<close>

lemma slow_ticks_idle:
  assumes "active_pcbs s = []" and "distinct (tw_pcbs s)" and "\<forall>a\<in>set (tw_pcbs s). pcbs s a \<noteq> None"
  shows "\<exists>s'. slow_ticks env app k s = Some s' \<and> active_pcbs s' = [] \<and> distinct (tw_pcbs s') \<and>
    (\<forall>a\<in>set (tw_pcbs s'). \<exists>p. pcbs s' a = Some p \<and> k \<le> unat (idle p s') + 1 \<and> (0 < k \<longrightarrow> unat (idle p s') \<le> tw_limit))"
proof (induction k)
  case 0
  then show ?case using assms by auto
next
  case (Suc k)
  then obtain t where t: "slow_ticks env app k s = Some t" "active_pcbs t = []" "distinct (tw_pcbs t)"
    "\<forall>a\<in>set (tw_pcbs t). \<exists>p. pcbs t a = Some p \<and> k \<le> unat (idle p t) + 1 \<and> (0 < k \<longrightarrow> unat (idle p t) \<le> tw_limit)"
    by blast
  obtain s' where s': "tcp_slowtmr env app t = Some s'" "active_pcbs s' = []" "distinct (tw_pcbs s')"
    "set (tw_pcbs s') \<subseteq> set (tw_pcbs t)" "tcp_ticks s' = tcp_ticks t + 1"
    "\<forall>a\<in>set (tw_pcbs s'). pcbs s' a = pcbs t a \<and> \<not> expired s' a"
    using slowtmr_no_active [OF t(2,3)] by blast
  have "\<exists>p. pcbs s' a = Some p \<and> Suc k \<le> unat (idle p s') + 1 \<and> unat (idle p s') \<le> tw_limit"
    if a: "a \<in> set (tw_pcbs s')" for a
  proof -
    obtain p where p: "pcbs t a = Some p" "k \<le> unat (idle p t) + 1" "0 < k \<longrightarrow> unat (idle p t) \<le> tw_limit"
      using t(4) s'(4) a by blast
    have i: "idle p s' = idle p t + 1" by (simp add: idle_def s'(5))
    have "k \<le> unat (idle p s')"
    proof (cases "k = 0")
      case False
      then have "unat (idle p t + 1) = unat (idle p t) + 1"
        using p(3) by (subst unat_add_lem [THEN iffD1]) (simp_all add: tw_limit_def)
      then show ?thesis using i p(2) by simp
    qed simp
    then show ?thesis using p(1) s'(6) a by (auto simp: expired_def)
  qed
  then show ?case using t(1) s'(1-3) by auto
qed

text \<open>C22: With no active connections, 242 runs of the slow timer, two minutes and one second, empty
  the TIME-WAIT list, whatever the state of the clocks was: every waiting connection is released.\<close>

theorem time_wait_ends:
  assumes "active_pcbs s = []" and "distinct (tw_pcbs s)" and "\<forall>a\<in>set (tw_pcbs s). pcbs s a \<noteq> None"
  shows "\<exists>s'. slow_ticks env app 242 s = Some s' \<and> tw_pcbs s' = []"
proof -
  obtain s' where "slow_ticks env app 242 s = Some s'"
    and s': "\<forall>a\<in>set (tw_pcbs s'). \<exists>p. pcbs s' a = Some p \<and> 242 \<le> unat (idle p s') + 1 \<and> unat (idle p s') \<le> tw_limit"
    using slow_ticks_idle [OF assms, of env app 242] by auto
  moreover have "a \<notin> set (tw_pcbs s')" for a using s' by (force simp: tw_limit_def)
  ultimately show ?thesis by fastforce
qed

text \<open>A state with two connections in TIME-WAIT.\<close>

definition ex_tw :: tstate where
  "ex_tw = ex_state \<lparr> active_pcbs := [], tw_pcbs := [0, 1], tcp_ticks := 500,
     pcbs := [0 \<mapsto> zero_pcb \<lparr> state := TIME_WAIT, tmr := 100 \<rparr>, 1 \<mapsto> zero_pcb \<lparr> state := TIME_WAIT, tmr := 499 \<rparr>] \<rparr>"

definition ex_app :: tcp_app where
  "ex_app = \<lparr> app_accept = (\<lambda>_ _ _ _ s. Some (ERR_OK, s)), app_sent = (\<lambda>_ _ _ _ s. Some (ERR_OK, s)),
     app_recv = (\<lambda>_ _ _ _ _ s. Some (ERR_OK, s)), app_connected = (\<lambda>_ _ _ _ s. Some (ERR_OK, s)),
     app_poll = (\<lambda>_ _ _ s. Some (ERR_OK, s)), app_errf = (\<lambda>_ _ _ s. Some s) \<rparr>"

theorem time_wait_removes_expired_witness: "tw_pcbs (tw_loop (tw_pcbs ex_tw) ex_tw) = [1]"
proof -
  have "distinct (tw_pcbs ex_tw)" by (simp add: ex_tw_def)
  from time_wait_removes_expired [OF this] show ?thesis
    by (simp add: ex_tw_def expired_def idle_def tw_limit_def)
qed

theorem time_wait_ends_witness: "\<exists>s'. slow_ticks ex_env ex_app 242 ex_tw = Some s' \<and> tw_pcbs s' = []"
  by (rule time_wait_ends) (simp_all add: ex_tw_def)

section \<open>Keep-alive\<close>

lemma snd_erase_rto [simp]: "snd_erase (fst (tcp_rexmit_rto env a p n)) = snd_erase p"
  by (simp add: tcp_rexmit_rto_def split: list.splits)

lemma snd_erase_rtime [simp]: "snd_erase (p \<lparr> rtime := v \<rparr>) = snd_erase p"
  by (simp add: snd_erase_def out_erase_def)

lemma rexmit_rto_erase:
  "tcp_rexmit_rto env a q n = (p', n') \<Longrightarrow> snd_erase p' = snd_erase q \<and> net_erase n' = net_erase n"
  using snd_erase_rto [of env a q n] net_erase_rexmit(2) [of env a q n] by simp

lemma slow_rexmit_erase:
  assumes "slow_rexmit env a p n = Some (rm, p', n')"
  shows "snd_erase p' = snd_erase p \<and> net_erase n' = net_erase n"
  using assms unfolding slow_rexmit_def Let_def
  by (auto simp: bind_eq_Some_conv dest!: rexmit_rto_erase split: if_splits)

text \<open>The limit is passed: the other side has been silent for the keep-alive time and nine probes.\<close>

definition keepalive_over :: "tcp_pcb \<Rightarrow> 'a net_scheme \<Rightarrow> bool" where
  "keepalive_over p n \<longleftrightarrow> so_options p AND SOF_KEEPALIVE \<noteq> 0 \<and> (state p = ESTABLISHED \<or> state p = CLOSE_WAIT) \<and>
    idle p n > (keepalive p + TCP_MAXIDLE) div TCP_SLOW_INTERVAL"

lemma keepalive_over_erase:
  assumes "snd_erase p' = snd_erase p" and "net_erase n' = net_erase n"
  shows "keepalive_over p' n' = keepalive_over p n"
proof -
  have "so_options p' = so_options p" "state p' = state p" "keepalive p' = keepalive p" "tmr p' = tmr p"
    using arg_cong [OF assms(1), of so_options] arg_cong [OF assms(1), of state]
      arg_cong [OF assms(1), of keepalive] arg_cong [OF assms(1), of tmr]
    by (simp_all add: snd_erase_def out_erase_def)
  moreover have "tcp_ticks n' = tcp_ticks n"
    using arg_cong [OF assms(2), of tcp_ticks] by (simp add: net_erase_def)
  ultimately show ?thesis by (simp add: keepalive_over_def idle_def)
qed

lemma abort_frees:
  assumes "pcbs s a = Some p" and "errf_cb p = None" and "state p \<noteq> TIME_WAIT"
    and "tcp_abort env app a s = Some s'"
  shows "pcbs s' a = None"
proof -
  have r: "pcbs (tcp_rst env sq ak lip rip lp rp t) = pcbs t" for sq ak lip rip lp rp and t :: tstate
    using arg_cong [OF net_erase_rst [of env sq ak lip rip lp rp t], of pcbs] by (simp add: net_erase_def)
  show ?thesis using assms
    by (auto simp: tcp_abort_def TCP_EVENT_ERR_def bind_eq_Some_conv memp_free_pcb_def r)
qed

text \<open>C34: When the keep-alive limit of a connection is passed, \<open>tcp_slowtmr\<close> aborts it and then goes on
  with the control block it has just released: the round never completes in the model, whose
  \<open>None\<close> is the use of released memory.\<close>

theorem keepalive_use_after_free:
  assumes "pcbs s a = Some p" and "keepalive_over p s" and "errf_cb p = None"
  shows "slow_step env app a err s = None"
proof (rule ccontr)
  assume "slow_step env app a err s \<noteq> None"
  then obtain rm q t where r: "slow_rexmit env a p s = Some (rm, q, t)" and
    k: "slow_keepalive env q t \<noteq> None \<or>
      (\<exists>u. tcp_abort env app a (put_pcb a q t) = Some u \<and> pcbs u a \<noteq> None)"
    using assms(1) by (auto simp: slow_step_def bind_eq_Some_conv split: option.splits)
  have e: "snd_erase q = snd_erase p" "net_erase t = net_erase s" using slow_rexmit_erase [OF r] by simp_all
  have over: "keepalive_over q t" using keepalive_over_erase [OF e] assms(2) by simp
  then have "slow_keepalive env q t = None" by (auto simp: slow_keepalive_def keepalive_over_def)
  moreover have "errf_cb q = None"
    using arg_cong [OF e(1), of errf_cb] assms(3) by (simp add: snd_erase_def out_erase_def)
  moreover have "state q \<noteq> TIME_WAIT" using over by (auto simp: keepalive_over_def)
  ultimately show False using k abort_frees [of "put_pcb a q t" a q env app] by (auto simp: put_pcb_def)
qed

theorem keepalive_use_after_free_witness:
  "slow_step ex_env ex_app 0 ERR_OK
     (ex_state \<lparr> tcp_ticks := 20000, pcbs := [0 \<mapsto> ex_pcb \<lparr> so_options := SOF_KEEPALIVE, keepalive := TCP_KEEPDEFAULT \<rparr>] \<rparr>) = None"
  by (rule keepalive_use_after_free [of _ _ "ex_pcb \<lparr> so_options := SOF_KEEPALIVE, keepalive := TCP_KEEPDEFAULT \<rparr>"])
    (simp_all add: keepalive_over_def idle_def ex_pcb_def zero_pcb_def TCP_MAXIDLE_def cfg_defs)

end
