(* ===== verification/Tcp_Lists.thy ===== *)
theory Tcp_Lists
  imports Tcp_Timer
begin

text \<open>
  The invariant of the lists of control blocks.  Every control block on the active list is in one of
  the states between SYN-SENT and LAST-ACK, every one on the TIME-WAIT list is in TIME-WAIT, every
  other one is closed, and the listening ones are exactly those on the listen list; no list has a
  control block twice, and none that has been released.  All operations of the application
  interface, the timers and the input of any packet keep it.

  The proofs work on the shape of a state: the lists and the state of each control block.
\<close>

section \<open>Shapes\<close>

definition live :: "tcp_state \<Rightarrow> bool" where
  "live x \<longleftrightarrow> x \<noteq> CLOSED \<and> x \<noteq> LISTEN \<and> x \<noteq> TIME_WAIT"

record shape =
  act :: "addr list"
  twl :: "addr list"
  lis :: "addr list"
  sts :: "addr \<rightharpoonup> tcp_state"
  lds :: "addr set"

definition shape_of :: "tstate \<Rightarrow> shape" where
  "shape_of s = \<lparr> act = active_pcbs s, twl = tw_pcbs s, lis = listen_pcbs s,
     sts = (\<lambda>a. map_option state (pcbs s a)), lds = dom (lpcbs s) \<rparr>"

definition shape_ok :: "shape \<Rightarrow> bool" where
  "shape_ok v \<longleftrightarrow> distinct (act v @ twl v) \<and> distinct (lis v) \<and>
    (\<forall>a\<in>set (act v). \<exists>x. sts v a = Some x \<and> live x) \<and>
    (\<forall>a\<in>set (twl v). sts v a = Some TIME_WAIT) \<and>
    (\<forall>a x. sts v a = Some x \<longrightarrow> a \<notin> set (act v) \<longrightarrow> a \<notin> set (twl v) \<longrightarrow> x = CLOSED) \<and>
    set (lis v) = lds v \<and> (\<forall>a\<in>lds v. sts v a = None)"

definition lists_ok :: "tstate \<Rightarrow> bool" where
  "lists_ok s \<longleftrightarrow> shape_ok (shape_of s)"

text \<open>The moves of the shape.\<close>

lemma shape_live: "shape_ok v \<Longrightarrow> a \<in> set (act v) \<Longrightarrow> live x \<Longrightarrow> shape_ok (v \<lparr> sts := (sts v)(a \<mapsto> x) \<rparr>)"
  by (force simp: shape_ok_def)

lemma shape_drop:
  "shape_ok (v \<lparr> sts := (sts v)(a \<mapsto> x) \<rparr>) \<Longrightarrow> a \<notin> set (twl v) \<Longrightarrow>
    shape_ok (v \<lparr> act := remove1 a (act v), sts := (sts v)(a \<mapsto> CLOSED) \<rparr>)"
  by (auto simp: shape_ok_def dest: notin_set_remove1) (metis option.inject)+

lemma shape_drop_tw:
  "shape_ok v \<Longrightarrow> sts v a = Some TIME_WAIT \<Longrightarrow>
    shape_ok (v \<lparr> twl := remove1 a (twl v), sts := (sts v)(a \<mapsto> CLOSED) \<rparr>)"
  by (auto simp: shape_ok_def live_def dest: notin_set_remove1)

lemma shape_free:
  "shape_ok v \<Longrightarrow> sts v a = Some CLOSED \<Longrightarrow> shape_ok (v \<lparr> sts := (sts v)(a := None) \<rparr>)"
  by (auto simp: shape_ok_def live_def)

lemma shape_wait:
  "shape_ok v \<Longrightarrow> a \<in> set (act v) \<Longrightarrow>
    shape_ok (v \<lparr> act := remove1 a (act v), twl := a # twl v, sts := (sts v)(a \<mapsto> TIME_WAIT) \<rparr>)"
  by (force simp: shape_ok_def dest: notin_set_remove1)

lemma shape_open:
  "shape_ok v \<Longrightarrow> sts v a = Some CLOSED \<Longrightarrow> live x \<Longrightarrow>
    shape_ok (v \<lparr> act := a # act v, sts := (sts v)(a \<mapsto> x) \<rparr>)"
  by (auto simp: shape_ok_def live_def)

lemma shape_alloc:
  "shape_ok v \<Longrightarrow> sts v a = None \<Longrightarrow> a \<notin> lds v \<Longrightarrow> shape_ok (v \<lparr> sts := (sts v)(a \<mapsto> CLOSED) \<rparr>)"
  by (auto simp: shape_ok_def)

lemma shape_listen:
  "shape_ok v \<Longrightarrow> sts v a = None \<Longrightarrow> a \<notin> lds v \<Longrightarrow> shape_ok (v \<lparr> lis := a # lis v, lds := insert a (lds v) \<rparr>)"
  by (auto simp: shape_ok_def)

lemma shape_unlisten:
  "shape_ok v \<Longrightarrow> shape_ok (v \<lparr> lis := remove1 a (lis v), lds := lds v - {a} \<rparr>)"
  by (auto simp: shape_ok_def dest: notin_set_remove1)

lemma shape_front:
  "shape_ok v \<Longrightarrow> a \<in> set (act v) \<Longrightarrow> shape_ok (v \<lparr> act := to_front a (act v) \<rparr>)"
  "shape_ok v \<Longrightarrow> a \<in> set (lis v) \<Longrightarrow> shape_ok (v \<lparr> lis := to_front a (lis v) \<rparr>)"
  by (auto simp: shape_ok_def to_front_def dest: notin_set_remove1)

section \<open>Operations on one control block\<close>

lemma shape_act: "act (shape_of s) = active_pcbs s"
  by (simp add: shape_of_def)

lemma shape_tw: "twl (shape_of s) = tw_pcbs s"
  by (simp add: shape_of_def)

lemma shape_net: "net_erase s' = net_erase s \<Longrightarrow> shape_of s' = shape_of s"
proof -
  assume "net_erase s' = net_erase s"
  moreover have "shape_of (net_erase t) = shape_of t" for t by (simp add: shape_of_def net_erase_def)
  ultimately show ?thesis by metis
qed

lemma pcbs_net: "net_erase s' = net_erase s \<Longrightarrow> pcbs s' = pcbs s"
  by (drule arg_cong [of _ _ pcbs]) (simp add: net_erase_def)

lemma shape_put [simp]: "shape_of (put_pcb a p s) = (shape_of s) \<lparr> sts := (sts (shape_of s))(a \<mapsto> state p) \<rparr>"
  by (simp add: shape_of_def put_pcb_def fun_eq_iff)

lemma shape_memp_free [simp]: "shape_of (memp_free_pcb a s) = (shape_of s) \<lparr> sts := (sts (shape_of s))(a := None) \<rparr>"
  by (simp add: shape_of_def memp_free_pcb_def fun_eq_iff)

lemma shape_sts: "pcbs s a = Some p \<Longrightarrow> sts (shape_of s) a = Some (state p)"
  by (simp add: shape_of_def)

lemma shape_same: "pcbs s a = Some q \<Longrightarrow> state p = state q \<Longrightarrow> shape_of (put_pcb a p s) = shape_of s"
  by (simp add: shape_sts fun_upd_idem)

text \<open>An operation that keeps the state of the connection and the globals keeps the shape.\<close>

definition quiet :: "(tcp_pcb \<Rightarrow> tstate \<Rightarrow> tcp_pcb \<times> tstate) \<Rightarrow> bool" where
  "quiet f \<longleftrightarrow> (\<forall>p s. state (fst (f p s)) = state p \<and> net_erase (snd (f p s)) = net_erase s)"

lemma shape_on_pcb:
  assumes "on_pcb f a s = Some s'" and "\<And>p s. net_erase (snd (f p s)) = net_erase s"
  obtains p where "pcbs s a = Some p" "pcbs s' = (pcbs s)(a \<mapsto> fst (f p s))"
    "shape_of s' = (shape_of s) \<lparr> sts := (sts (shape_of s))(a \<mapsto> state (fst (f p s))) \<rparr>"
proof -
  obtain p where p: "pcbs s a = Some p" "s' = put_pcb a (fst (f p s)) (snd (f p s))"
    using assms(1) by (auto simp: on_pcb_def bind_eq_Some_conv case_prod_beta)
  show thesis
    using that [OF p(1)] p(2) shape_net [OF assms(2), of p s] pcbs_net [OF assms(2), of p s]
    by (simp add: put_pcb_def [of a "fst (f p s)" "snd (f p s)", THEN arg_cong [of _ _ pcbs]])
qed

lemma shape_quiet:
  assumes "on_pcb f a s = Some s'" and "quiet f"
  shows "shape_of s' = shape_of s" and "dom (pcbs s') = dom (pcbs s)"
proof -
  have q: "net_erase (snd (f p t)) = net_erase t" "state (fst (f p t)) = state p" for p t
    using assms(2) by (auto simp: quiet_def)
  obtain p where p: "pcbs s a = Some p" "pcbs s' = (pcbs s)(a \<mapsto> fst (f p s))"
    "shape_of s' = (shape_of s) \<lparr> sts := (sts (shape_of s))(a \<mapsto> state (fst (f p s))) \<rparr>"
    using shape_on_pcb [OF assms(1) q(1)] .
  then show "shape_of s' = shape_of s" "dom (pcbs s') = dom (pcbs s)"
    by (auto simp: q(2) shape_sts fun_upd_idem)
qed

lemma quiet_simps [simp]:
  "quiet (tcp_ack env a)" "quiet (tcp_ack_now env a)" "quiet (tcp_recved env a l)"
  "quiet (\<lambda>p s. (p \<lparr> cwnd := mss p \<rparr>, s))" "quiet (\<lambda>p s. (tcp_arg x p, s))" "quiet (\<lambda>p s. (tcp_recv f p, s))"
  "quiet (\<lambda>p s. (tcp_sent f p, s))" "quiet (\<lambda>p s. (tcp_err f p, s))" "quiet (\<lambda>p s. (tcp_poll f v p, s))"
  "quiet (\<lambda>p s. (tcp_setprio y p, s))" "quiet (fast_one env a)"
  by (simp_all add: quiet_def tcp_arg_def tcp_recv_def tcp_sent_def tcp_err_def tcp_poll_def tcp_setprio_def
      fast_one_def Let_def case_prod_beta)

lemma shape_output_pcb:
  assumes "output_pcb env a s = Some (e, s')"
  shows "shape_of s' = shape_of s"
proof -
  have "on_pcb (\<lambda>p s. snd (tcp_output env a p s)) a s = Some s'"
    using assms by (auto simp: output_pcb_def on_pcb_def bind_eq_Some_conv case_prod_beta)
  then show ?thesis by (rule shape_quiet) (simp add: quiet_def)
qed

lemma shape_rst [simp]: "shape_of (tcp_rst env sq ak lip rip lp rp s) = shape_of s"
  by (rule shape_net) simp

lemma shape_receive:
  assumes "receive_pcb env a i s = Some (i', s')"
  shows "shape_of s' = shape_of s"
proof -
  obtain p q t where r: "pcbs s a = Some p" "tcp_receive env a p i s = Some (q, i', t)" "s' = put_pcb a q t"
    using assms by (auto simp: receive_pcb_def bind_eq_Some_conv)
  have "shape_of t = shape_of s" "pcbs t = pcbs s"
    using net_erase_receive [OF r(2)] shape_net pcbs_net by blast+
  then show ?thesis using r shape_same [of t a p q] state_receive [OF r(2)] by simp
qed

lemma enqueue_frame:
  assumes "tcp_enqueue env p d l fl cp od s = (e, q, t)"
  shows "shape_of t = shape_of s" "pcbs t = pcbs s" "state q = state p"
proof -
  have "net_erase t = net_erase s" using net_erase_enqueue(1) [of env p d l fl cp od s] assms by simp
  then show "shape_of t = shape_of s" "pcbs t = pcbs s" by (fact shape_net, fact pcbs_net)
  show "state q = state p" using state_enqueue(1) [of env p d l fl cp od s] assms by simp
qed

section \<open>Removal\<close>

lemma net_erase_remove_at [simp]: "net_erase (snd (tcp_pcb_remove_at env a p s)) = net_erase s"
  by (simp add: tcp_pcb_remove_at_def Let_def case_prod_beta)

lemma state_remove_at [simp]: "state (fst (tcp_pcb_remove_at env a p s)) = CLOSED"
  by (simp add: tcp_pcb_remove_at_def Let_def case_prod_beta)

lemma shape_remove_active:
  assumes "remove_active env a s = Some s'"
  shows "shape_of s' = (shape_of s) \<lparr> act := remove1 a (act (shape_of s)), sts := (sts (shape_of s))(a \<mapsto> CLOSED) \<rparr>"
proof -
  have "shape_of (s \<lparr> active_pcbs := xs \<rparr>) = (shape_of s) \<lparr> act := xs \<rparr>" for xs by (simp add: shape_of_def)
  then show ?thesis
    using assms unfolding remove_active_def by (elim shape_on_pcb) (simp_all add: shape_of_def)
qed

lemma shape_remove_tw:
  assumes "remove_tw env a s = Some s'"
  shows "shape_of s' = (shape_of s) \<lparr> twl := remove1 a (twl (shape_of s)), sts := (sts (shape_of s))(a \<mapsto> CLOSED) \<rparr>"
  using assms unfolding remove_tw_def by (elim shape_on_pcb) (simp_all add: shape_of_def)

lemma live_active:
  assumes "lists_ok s" and "pcbs s a = Some p" and "live (state p)"
  shows "a \<in> set (act (shape_of s))"
proof -
  have "sts (shape_of s) a = Some (state p)" by (rule shape_sts [OF assms(2)])
  moreover have "state p \<noteq> CLOSED" "state p \<noteq> TIME_WAIT" using assms(3) by (simp_all add: live_def)
  ultimately show ?thesis using assms(1) unfolding lists_ok_def shape_ok_def by force
qed

lemma not_waiting:
  "lists_ok s \<Longrightarrow> pcbs s a = Some p \<Longrightarrow> state p \<noteq> TIME_WAIT \<Longrightarrow> a \<notin> set (twl (shape_of s))"
  by (auto simp: lists_ok_def shape_ok_def dest!: shape_sts)

text \<open>Removing a control block that is not waiting, and releasing it.\<close>

lemma removed_active_ok:
  assumes "remove_active env a s = Some s'" and "lists_ok s" and "pcbs s a = Some p" and "state p \<noteq> TIME_WAIT"
  shows "lists_ok s'" and "lists_ok (memp_free_pcb a s')"
proof -
  have "shape_ok ((shape_of s) \<lparr> act := remove1 a (act (shape_of s)), sts := (sts (shape_of s))(a \<mapsto> CLOSED) \<rparr>)"
    using assms(2) not_waiting [OF assms(2-4)] shape_sts [OF assms(3)]
    by (intro shape_drop [of _ _ "state p"]) (simp_all add: lists_ok_def fun_upd_idem)
  then show "lists_ok s'" by (simp add: lists_ok_def shape_remove_active [OF assms(1)])
  then show "lists_ok (memp_free_pcb a s')"
    unfolding lists_ok_def shape_memp_free
    by (rule shape_free) (simp add: shape_remove_active [OF assms(1)])
qed

section \<open>What is asked of the application\<close>

text \<open>Callbacks other than the error callback keep the invariant and put nothing into TIME-WAIT.  The
  error callback, which the interface calls for a connection that is no more, leaves the control
  blocks and the lists alone.\<close>

definition cb_ok :: "(tstate \<Rightarrow> (err_t \<times> tstate) option) \<Rightarrow> bool" where
  "cb_ok f \<longleftrightarrow> (\<forall>s r s'. f s = Some (r, s') \<longrightarrow> lists_ok s \<longrightarrow> lists_ok s' \<and> set (tw_pcbs s') \<subseteq> set (tw_pcbs s))"

definition app_ok :: "tcp_app \<Rightarrow> bool" where
  "app_ok app \<longleftrightarrow> (\<forall>f arg.
     (\<forall>a e. cb_ok (app_accept app f arg a e)) \<and> (\<forall>a l. cb_ok (app_sent app f arg a l)) \<and>
     (\<forall>a d e. cb_ok (app_recv app f arg a d e)) \<and> (\<forall>a e. cb_ok (app_connected app f arg a e)) \<and>
     (\<forall>a. cb_ok (app_poll app f arg a)) \<and>
     (\<forall>e s s'. app_errf app f arg e s = Some s' \<longrightarrow>
        pcbs s' = pcbs s \<and> lpcbs s' = lpcbs s \<and> active_pcbs s' = active_pcbs s \<and> tw_pcbs s' = tw_pcbs s \<and>
        listen_pcbs s' = listen_pcbs s))"

text \<open>The allocator hands out unused memory.\<close>

definition malloc_ok :: "tcp_env \<Rightarrow> bool" where
  "malloc_ok env \<longleftrightarrow> (\<forall>k used a. pcb_malloc env k used = Some a \<longrightarrow> \<not> used a)"

lemma event_err:
  assumes "TCP_EVENT_ERR app f arg e s = Some s'" and "app_ok app"
  shows "shape_of s' = shape_of s" "pcbs s' = pcbs s"
proof -
  have "s' = s \<or> (\<exists>g. app_errf app g arg e s = Some s')"
    using assms(1) by (auto simp: TCP_EVENT_ERR_def split: option.splits)
  then show "shape_of s' = shape_of s" "pcbs s' = pcbs s"
    using assms(2) by (auto simp: app_ok_def shape_of_def)
qed

lemma abort_ok:
  assumes "tcp_abort env app a s = Some s'" and "lists_ok s" and "app_ok app"
  shows "lists_ok s' \<and> set (tw_pcbs s') \<subseteq> set (tw_pcbs s)"
proof -
  obtain p where p: "pcbs s a = Some p" using assms(1) by (auto simp: tcp_abort_def bind_eq_Some_conv)
  show ?thesis
  proof (cases "state p = TIME_WAIT")
    case True
    then obtain t where t: "remove_tw env a s = Some t" "s' = memp_free_pcb a t"
      using assms(1) p by (auto simp: tcp_abort_def bind_eq_Some_conv)
    have "shape_ok (shape_of t)"
      using shape_drop_tw [of "shape_of s" a] assms(2) shape_sts [OF p] True
      by (simp add: shape_remove_tw [OF t(1)] lists_ok_def)
    then have "lists_ok s'" unfolding lists_ok_def t(2) shape_memp_free
      by (rule shape_free) (simp add: shape_remove_tw [OF t(1)])
    moreover have "tw_pcbs s' = remove1 a (tw_pcbs s)"
      using arg_cong [OF shape_remove_tw [OF t(1)], of twl] by (simp add: t(2) memp_free_pcb_def shape_of_def)
    ultimately show ?thesis by (simp add: set_remove1_subset)
  next
    case False
    then obtain t u sq ak lip rip lp rp where t: "remove_active env a s = Some t"
      "TCP_EVENT_ERR app (errf_cb p) (callback_arg p) ERR_ABRT (memp_free_pcb a t) = Some u"
      "s' = tcp_rst env sq ak lip rip lp rp u"
      using assms(1) p unfolding tcp_abort_def by (simp add: bind_eq_Some_conv) blast
    have sh: "shape_of s' = shape_of (memp_free_pcb a t)" using event_err(1) [OF t(2) assms(3)] t(3) by simp
    have "lists_ok (memp_free_pcb a t)" by (rule removed_active_ok(2) [OF t(1) assms(2) p False])
    moreover have "tw_pcbs s' = tw_pcbs s"
      using arg_cong [OF sh, of twl] shape_remove_active [OF t(1)] by (simp add: shape_of_def memp_free_pcb_def)
    ultimately show ?thesis by (simp only: lists_ok_def sh) simp
  qed
qed

section \<open>Closing\<close>

lemma close_fin_ok:
  assumes "close_fin env x a s = Some (e, s')" and "lists_ok s" and "pcbs s a = Some p" and "live (state p)" and "live x"
  shows "lists_ok s' \<and> tw_pcbs s' = tw_pcbs s"
proof -
  obtain err q t where c: "tcp_send_ctrl env p TCP_FIN s = (err, q, t)" by (rule prod_cases3)
  note n = enqueue_frame [OF c [unfolded tcp_send_ctrl_def]]
  have "a \<in> set (act (shape_of s))" by (rule live_active [OF assms(2-4)])
  then have l: "shape_ok ((shape_of s) \<lparr> sts := (sts (shape_of s))(a \<mapsto> x) \<rparr>)"
    using assms(2,5) by (intro shape_live) (simp_all add: lists_ok_def)
  show ?thesis
  proof (cases "err = ERR_OK")
    case True
    then have "output_pcb env a (put_pcb a (q \<lparr> state := x \<rparr>) t) = Some (e, s')"
      using assms(1,3) c by (simp add: close_fin_def)
    from shape_output_pcb [OF this] have sh: "shape_of s' = (shape_of s) \<lparr> sts := (sts (shape_of s))(a \<mapsto> x) \<rparr>"
      by (simp add: n)
    then show ?thesis using l unfolding lists_ok_def shape_tw [symmetric] sh by simp
  next
    case False
    then have "s' = put_pcb a q t" using assms(1,3) c by (simp add: close_fin_def)
    then have sh: "shape_of s' = shape_of s" using shape_same [of t a p q] n assms(3) by simp
    then show ?thesis using assms(2) unfolding lists_ok_def shape_tw [symmetric] sh by simp
  qed
qed

text \<open>A closed control block is released.\<close>

lemma free_closed:
  assumes "lists_ok s" and "pcbs s a = Some p" and "state p = CLOSED"
  shows "lists_ok (memp_free_pcb a s)"
  using assms unfolding lists_ok_def shape_memp_free by (intro shape_free) (simp_all add: shape_sts)

lemma not_listening: "lists_ok s \<Longrightarrow> pcbs s a = Some p \<Longrightarrow> state p \<noteq> LISTEN"
proof
  assume l: "lists_ok s" "pcbs s a = Some p" "state p = LISTEN"
  then have "sts (shape_of s) a = Some LISTEN" by (simp add: shape_sts)
  then show False using l(1) unfolding lists_ok_def shape_ok_def live_def by fastforce
qed

lemma close_ok:
  assumes "tcp_close env a s = Some (e, s')" and "lists_ok s"
  shows "lists_ok s' \<and> set (tw_pcbs s') \<subseteq> set (tw_pcbs s)"
proof (cases "lpcbs s a")
  case (Some lp)
  then have s': "s' = s \<lparr> listen_pcbs := remove1 a (listen_pcbs s), lpcbs := (lpcbs s)(a := None) \<rparr>"
    using assms(1) by (simp add: tcp_close_def)
  then have "shape_of s' = (shape_of s) \<lparr> lis := remove1 a (lis (shape_of s)), lds := lds (shape_of s) - {a} \<rparr>"
    by (simp add: shape_of_def)
  then show ?thesis using shape_unlisten [of "shape_of s" a] assms(2) s' by (simp add: lists_ok_def)
next
  case None
  then obtain p where p: "pcbs s a = Some p" using assms(1) by (auto simp: tcp_close_def bind_eq_Some_conv)
  note fin = close_fin_ok [OF _ assms(2) p]
  note rm = removed_active_ok(2) [OF _ assms(2) p]
  show ?thesis
  proof (cases "state p")
    case CLOSED
    then show ?thesis using assms(1) None p free_closed [OF assms(2) p] by (auto simp: tcp_close_def memp_free_pcb_def)
  next
    case SYN_SENT
    then obtain t where t: "remove_active env a s = Some t" "s' = memp_free_pcb a t"
      using assms(1) None p by (auto simp: tcp_close_def bind_eq_Some_conv)
    have "tw_pcbs t = tw_pcbs s" unfolding shape_tw [symmetric] shape_remove_active [OF t(1)] by simp
    then show ?thesis using rm [OF t(1)] SYN_SENT t(2) by (simp add: memp_free_pcb_def)
  next
    case SYN_RCVD
    then show ?thesis using assms(1) None p fin [of env FIN_WAIT_1 e s'] by (simp add: tcp_close_def live_def)
  next
    case ESTABLISHED
    then show ?thesis using assms(1) None p fin [of env FIN_WAIT_1 e s'] by (simp add: tcp_close_def live_def)
  next
    case CLOSE_WAIT
    then show ?thesis using assms(1) None p fin [of env LAST_ACK e s'] by (simp add: tcp_close_def live_def)
  qed (use assms None p not_listening [OF assms(2) p] in \<open>auto simp: tcp_close_def\<close>)
qed

section \<open>Events\<close>

lemma cb_okD: "cb_ok f \<Longrightarrow> f s = Some (r, s') \<Longrightarrow> lists_ok s \<Longrightarrow> lists_ok s' \<and> set (tw_pcbs s') \<subseteq> set (tw_pcbs s)"
  by (simp add: cb_ok_def)

lemma app_okD:
  assumes "app_ok app"
  shows "cb_ok (app_accept app f arg a e)" "cb_ok (app_sent app f arg a l)" "cb_ok (app_recv app f arg a d e)"
    "cb_ok (app_connected app f arg a e)" "cb_ok (app_poll app f arg a)"
  using assms unfolding app_ok_def by blast+

lemma events_ok:
  assumes "app_ok app"
  shows "cb_ok (TCP_EVENT_ACCEPT app a e r)" "cb_ok (TCP_EVENT_SENT app a l r)" "cb_ok (TCP_EVENT_RECV env app a d e r)"
    "cb_ok (TCP_EVENT_CONNECTED app a e r)" "cb_ok (TCP_EVENT_POLL app a r)"
proof -
  note ok = app_okD [OF assms, THEN cb_okD]
  have "cb_ok (tcp_recv_null env a d e)"
    by (auto simp: cb_ok_def tcp_recv_null_def dest: close_ok split: if_splits)
  note null = cb_okD [OF this]
  show "cb_ok (TCP_EVENT_ACCEPT app a e r)"
    by (auto simp: cb_ok_def TCP_EVENT_ACCEPT_def bind_eq_Some_conv dest: ok(1) split: option.splits if_splits)
  show "cb_ok (TCP_EVENT_SENT app a l r)"
    by (auto simp: cb_ok_def TCP_EVENT_SENT_def bind_eq_Some_conv dest: ok(2) split: option.splits)
  show "cb_ok (TCP_EVENT_RECV env app a d e r)"
    by (auto simp: cb_ok_def TCP_EVENT_RECV_def bind_eq_Some_conv dest: ok(3) null split: option.splits if_splits)
  show "cb_ok (TCP_EVENT_CONNECTED app a e r)"
    by (auto simp: cb_ok_def TCP_EVENT_CONNECTED_def bind_eq_Some_conv dest: ok(4) split: option.splits)
  show "cb_ok (TCP_EVENT_POLL app a r)"
    by (auto simp: cb_ok_def TCP_EVENT_POLL_def bind_eq_Some_conv dest: ok(5) split: option.splits)
qed

section \<open>Opening\<close>

text \<open>Updates that the shape does not see.\<close>

lemma shape_upd [simp]:
  "shape_of (s \<lparr> allocs := k \<rparr>) = shape_of s" "shape_of (s \<lparr> port_ctr := q \<rparr>) = shape_of s"
  "shape_of (s \<lparr> iss_ctr := v \<rparr>) = shape_of s" "shape_of (s \<lparr> tcp_ticks := w \<rparr>) = shape_of s"
  "shape_of (s \<lparr> tcp_timer := t \<rparr>) = shape_of s" "shape_of (s \<lparr> tcp_input_pcb := x \<rparr>) = shape_of s"
  "shape_of (s \<lparr> active_pcbs := as \<rparr>) = (shape_of s) \<lparr> act := as \<rparr>"
  "shape_of (s \<lparr> listen_pcbs := ls \<rparr>) = (shape_of s) \<lparr> lis := ls \<rparr>"
  by (simp_all add: shape_of_def)

lemma lists_ok_upd [simp]:
  "lists_ok (s \<lparr> allocs := k \<rparr>) = lists_ok s" "lists_ok (s \<lparr> port_ctr := q \<rparr>) = lists_ok s"
  "lists_ok (s \<lparr> iss_ctr := v \<rparr>) = lists_ok s" "lists_ok (s \<lparr> tcp_ticks := w \<rparr>) = lists_ok s"
  "lists_ok (s \<lparr> tcp_timer := t \<rparr>) = lists_ok s" "lists_ok (s \<lparr> tcp_input_pcb := x \<rparr>) = lists_ok s"
  by (simp_all add: lists_ok_def)

definition fresh :: "addr option \<Rightarrow> tstate \<Rightarrow> bool" where
  "fresh m s \<longleftrightarrow> (\<forall>a. m = Some a \<longrightarrow> pcbs s a = None \<and> lpcbs s a = None)"

lemma malloc_fresh:
  assumes "memp_malloc_pcb env s = (m, s')" and "malloc_ok env" and "lists_ok s"
  shows "lists_ok s' \<and> tw_pcbs s' = tw_pcbs s \<and> fresh m s'"
proof -
  have s': "s' = s \<lparr> allocs := Suc (allocs s) \<rparr>"
    and m: "m = pcb_malloc env (allocs s) (\<lambda>a. pcbs s a \<noteq> None \<or> lpcbs s a \<noteq> None)"
    using assms(1) unfolding memp_malloc_pcb_def by (simp_all only: prod.inject)
  have "\<not> (pcbs s a \<noteq> None \<or> lpcbs s a \<noteq> None)" if "m = Some a" for a
    using assms(2) [unfolded malloc_ok_def, rule_format, OF that [unfolded m]] .
  then have "fresh m s'" unfolding fresh_def s' by simp
  then show ?thesis using assms(3) by (simp add: s')
qed

lemma kill_ok:
  assumes "app_ok app" and "lists_ok s"
  shows "tcp_kill_timewait env app s = Some s' \<Longrightarrow> lists_ok s' \<and> set (tw_pcbs s') \<subseteq> set (tw_pcbs s)"
    and "tcp_kill_prio env app pr s = Some s' \<Longrightarrow> lists_ok s' \<and> set (tw_pcbs s') \<subseteq> set (tw_pcbs s)"
  using abort_ok [OF _ assms(2,1)] assms(2)
  by (auto simp: tcp_kill_timewait_def tcp_kill_prio_def split: option.splits)

lemma alloc_retry_ok:
  assumes "alloc_retry env kill (m, s) = Some (m', s')" and "malloc_ok env" and "lists_ok s" and "fresh m s"
    and "\<And>t. kill s = Some t \<Longrightarrow> lists_ok t \<and> set (tw_pcbs t) \<subseteq> set (tw_pcbs s)"
  shows "lists_ok s' \<and> set (tw_pcbs s') \<subseteq> set (tw_pcbs s) \<and> fresh m' s'"
proof (cases m)
  case None
  then obtain t where t: "kill s = Some t" "memp_malloc_pcb env t = (m', s')"
    using assms(1) by (auto simp: alloc_retry_def bind_eq_Some_conv)
  then show ?thesis using assms(5) [OF t(1)] malloc_fresh [OF t(2) assms(2)] by auto
qed (use assms in \<open>auto simp: alloc_retry_def\<close>)

lemma alloc_ok:
  assumes "tcp_alloc env app pr s = Some (m, s')" and "app_ok app" and "malloc_ok env" and "lists_ok s"
  shows "lists_ok s' \<and> set (tw_pcbs s') \<subseteq> set (tw_pcbs s) \<and>
    (\<forall>b. m = Some b \<longrightarrow> (\<exists>p. pcbs s' b = Some p \<and> state p = CLOSED))"
proof -
  obtain m0 s0 where m0: "memp_malloc_pcb env s = (m0, s0)" by fastforce
  note a0 = malloc_fresh [OF m0 assms(3,4)]
  obtain m1 s1 where m1: "alloc_retry env (tcp_kill_timewait env app) (m0, s0) = Some (m1, s1)"
    using assms(1) m0 by (auto simp: tcp_alloc_def bind_eq_Some_conv)
  have a1: "lists_ok s1" "set (tw_pcbs s1) \<subseteq> set (tw_pcbs s)" "fresh m1 s1"
    using alloc_retry_ok [OF m1 assms(3) _ _ kill_ok(1) [OF assms(2)]] a0 by simp_all
  obtain m2 s2 where m2: "alloc_retry env (tcp_kill_prio env app pr) (m1, s1) = Some (m2, s2)"
    using assms(1) m0 m1 by (auto simp: tcp_alloc_def bind_eq_Some_conv)
  have "lists_ok s2 \<and> set (tw_pcbs s2) \<subseteq> set (tw_pcbs s1) \<and> fresh m2 s2"
    by (rule alloc_retry_ok [OF m2 assms(3) a1(1,3)]) (rule kill_ok(2) [OF assms(2) a1(1)])
  then have a2: "lists_ok s2" "set (tw_pcbs s2) \<subseteq> set (tw_pcbs s)" "fresh m2 s2" using a1(2) by auto
  show ?thesis
  proof (cases m2)
    case None
    then show ?thesis using assms(1) m0 m1 m2 a2 by (auto simp: tcp_alloc_def)
  next
    case (Some a)
    define p where "p = fresh_pcb (iss_ctr s2 + tcp_ticks s2) (tcp_ticks s2)"
    have s': "m = Some a" "s' = put_pcb a p (s2 \<lparr> iss_ctr := iss_ctr s2 + tcp_ticks s2 \<rparr>)"
      using assms(1) m0 m1 m2 Some by (auto simp: tcp_alloc_def tcp_next_iss_def Let_def p_def)
    have st: "state p = CLOSED" by (simp add: p_def fresh_pcb_def zero_pcb_def)
    have "shape_ok ((shape_of s2) \<lparr> sts := (sts (shape_of s2))(a \<mapsto> CLOSED) \<rparr>)"
      using a2(1,3) Some by (intro shape_alloc) (auto simp: lists_ok_def fresh_def shape_of_def)
    then have "lists_ok s'" by (simp add: lists_ok_def s' st)
    moreover have "pcbs s' a = Some p" "tw_pcbs s' = tw_pcbs s2" by (simp_all add: s' put_pcb_def)
    ultimately show ?thesis using s'(1) st a2(2) by simp
  qed
qed

lemma new_port_ok: "tcp_new_port s = Some (q, s') \<Longrightarrow> shape_of s' = shape_of s \<and> pcbs s' = pcbs s"
  by (auto simp: tcp_new_port_def bind_eq_Some_conv)

lemma bind_ok:
  assumes "tcp_bind a ip port s = Some (e, s')"
  shows "shape_of s' = shape_of s"
proof -
  obtain q t where t: "(if port = 0 then tcp_new_port s else Some (port, s)) = Some (q, t)"
    and b: "s' = t \<or> (\<exists>ip. bind_local a ip q t = Some s')"
    using assms unfolding tcp_bind_def by (auto simp: Let_def bind_eq_Some_conv split: if_splits)
  have "shape_of t = shape_of s" using t new_port_ok by (auto split: if_splits)
  moreover have "shape_of s' = shape_of t" if "bind_local a ip q t = Some s'" for ip
    using that unfolding bind_local_def by (rule shape_quiet) (simp add: quiet_def)
  ultimately show ?thesis using b by auto
qed

lemma listen_ok:
  assumes "tcp_listen env a s = Some (m, s')" and "malloc_ok env" and "lists_ok s" and "lpcbs s a = None"
    and "pcbs s a = Some p" and "state p = CLOSED"
  shows "lists_ok s'"
proof -
  obtain m0 s0 where m0: "memp_malloc_pcb env s = (m0, s0)" by fastforce
  note a0 = malloc_fresh [OF m0 assms(2,3)]
  have s0: "pcbs s0 = pcbs s" using m0 by (auto simp: memp_malloc_pcb_def)
  show ?thesis
  proof (cases m0)
    case None
    then show ?thesis using assms m0 a0 by (auto simp: tcp_listen_def)
  next
    case (Some l)
    have f: "lists_ok (memp_free_pcb a s0)" using free_closed [of s0 a p] a0 s0 assms(5,6) by simp
    have "shape_ok ((shape_of (memp_free_pcb a s0)) \<lparr> lis := l # lis (shape_of (memp_free_pcb a s0)),
        lds := insert l (lds (shape_of (memp_free_pcb a s0))) \<rparr>)"
      using f a0 Some by (intro shape_listen) (auto simp: lists_ok_def fresh_def shape_of_def memp_free_pcb_def)
    then show ?thesis using assms(1,4-6) m0 Some
      by (auto simp: tcp_listen_def Let_def lists_ok_def shape_of_def memp_free_pcb_def)
  qed
qed

lemma connect_ok:
  assumes "tcp_connect env a ip port cb s = Some (e, s')" and "lists_ok s" and "pcbs s a = Some p" and "state p = CLOSED"
  shows "lists_ok s'"
proof (cases ip)
  case None
  then show ?thesis using assms by (simp add: tcp_connect_def)
next
  case (Some x)
  obtain lport t where t: "(if local_port p = 0 then tcp_new_port s else Some (local_port p, s)) = Some (lport, t)"
    using assms(1,3) Some by (auto simp: tcp_connect_def bind_eq_Some_conv)
  have sh: "shape_of t = shape_of s" using t new_port_ok by (auto split: if_splits)
  obtain iss u where u: "tcp_next_iss t = (iss, u)" by fastforce
  then have su: "shape_of u = shape_of s" using sh by (auto simp: tcp_next_iss_def Let_def)
  define q where "q = p \<lparr> remote_ip := x, remote_port := port, local_port := lport,
     rcv_nxt := 0, snd_nxt := iss, lastack := iss - 1, snd_lbb := iss - 1, rcv_wnd := TCP_WND,
     snd_wnd := ucast TCP_WND, mss := TCP_MSS, cwnd := 1, ssthresh := TCP_MSS * 10, state := SYN_SENT,
     connected_cb := cb \<rparr>"
  define v where "v = u \<lparr> active_pcbs := a # active_pcbs u \<rparr>"
  obtain ret r w where e: "tcp_enqueue env q [] 0 TCP_SYN False (Some (mss_option (mss q))) v = (ret, r, w)"
    by (rule prod_cases3)
  have w: "shape_of w = shape_of v" "state r = SYN_SENT"
    using enqueue_frame [OF e] by (simp_all add: q_def)
  have "shape_of s' = shape_of (put_pcb a r w)"
    using assms(1,3) Some t u e shape_output_pcb [of env a "put_pcb a r w"]
    by (auto simp: tcp_connect_def Let_def q_def v_def bind_eq_Some_conv split: if_splits)
  also have "\<dots> = (shape_of s) \<lparr> act := a # act (shape_of s), sts := (sts (shape_of s))(a \<mapsto> SYN_SENT) \<rparr>"
    using su arg_cong [OF su, of act] by (simp add: w v_def) (simp add: shape_of_def)
  also have "shape_ok \<dots>"
    using assms(2) shape_sts [OF assms(3)] assms(4) by (intro shape_open) (simp_all add: lists_ok_def live_def)
  finally show ?thesis by (simp add: lists_ok_def)
qed

end
