(* ===== verification/Tcp_Step.thy ===== *)
theory Tcp_Step
  imports Tcp_Lists
begin

text \<open>
  The timers, the input of packets, and whole runs of the TCP module: every operation keeps the
  invariant of the lists of control blocks.
\<close>

section \<open>Timers\<close>

lemma tw_loop_ok:
  assumes "lists_ok s"
  shows "lists_ok (tw_loop (tw_pcbs s) s)"
proof -
  have d: "distinct (tw_pcbs s)" using assms by (simp add: lists_ok_def shape_ok_def shape_of_def)
  let ?E = "\<lambda>a. a \<in> set (tw_pcbs s) \<and> expired s a"
  have "shape_of (tw_loop (tw_pcbs s) s) = (shape_of s)
      \<lparr> twl := filter (\<lambda>a. \<not> ?E a) (twl (shape_of s)), sts := (\<lambda>a. if ?E a then None else sts (shape_of s) a) \<rparr>"
    unfolding tw_loop_spec [OF d d] by (simp add: shape_of_def fun_eq_iff)
  moreover have "shape_ok \<dots>"
    using assms unfolding lists_ok_def shape_ok_def shape_tw by (auto split: if_splits)
  ultimately show ?thesis by (simp only: lists_ok_def)
qed

lemma fast_loop_shape: "fast_loop env as s = Some s' \<Longrightarrow> shape_of s' = shape_of s"
proof (induction as arbitrary: s)
  case (Cons a as)
  then obtain t where t: "on_pcb (fast_one env a) a s = Some t" "fast_loop env as t = Some s'"
    by (auto simp: bind_eq_Some_conv)
  then show ?case using Cons.IH [OF t(2)] shape_quiet(1) [OF t(1)] by simp
qed simp

text \<open>The next connection of the loop is never one that waits.\<close>

definition cursor_ok :: "addr option \<Rightarrow> tstate \<Rightarrow> bool" where
  "cursor_ok c s \<longleftrightarrow> (\<forall>a. c = Some a \<longrightarrow> a \<notin> set (tw_pcbs s))"

lemma succ_in_mem: "succ_in a xs = Some b \<Longrightarrow> a \<in> set xs \<and> b \<in> set xs"
  by (induction xs) (auto split: if_splits list.splits)

lemma next_cursor:
  assumes "lists_ok s" and "a \<notin> set (tw_pcbs s)"
  shows "cursor_ok (pcb_next a s) s"
proof -
  have "set (active_pcbs s) \<inter> set (tw_pcbs s) = {}" using assms(1) by (simp add: lists_ok_def shape_ok_def shape_of_def)
  then show ?thesis using assms(2) by (auto simp: cursor_ok_def pcb_next_def dest!: succ_in_mem split: if_splits)
qed

lemma slow_remove_ok:
  assumes "slow_remove app a p s = Some (nxt, s')" and "app_ok app" and "lists_ok s" and "a \<notin> set (tw_pcbs s)"
    and "pcbs s a = Some q"
  shows "lists_ok s' \<and> tw_pcbs s' = tw_pcbs s \<and> cursor_ok nxt s'"
proof -
  define t where "t = put_pcb a (tcp_pcb_purge p) (s \<lparr> active_pcbs := remove1 a (active_pcbs s) \<rparr>)"
  obtain u where u: "TCP_EVENT_ERR app (errf_cb p) (callback_arg p) ERR_ABRT t = Some u"
    and s': "s' = memp_free_pcb a u" "nxt = pcb_next a s"
    using assms(1) by (auto simp: slow_remove_def Let_def bind_eq_Some_conv t_def)
  have "shape_ok ((shape_of s) \<lparr> act := remove1 a (act (shape_of s)), sts := (sts (shape_of s))(a \<mapsto> CLOSED) \<rparr>)"
    using assms(3,4) shape_sts [OF assms(5)]
    by (intro shape_drop [of _ _ "state q"]) (simp_all add: lists_ok_def fun_upd_idem shape_tw)
  from shape_free [OF this, of a] have f:
    "shape_ok ((shape_of s) \<lparr> act := remove1 a (act (shape_of s)), sts := (sts (shape_of s))(a := None) \<rparr>)" by simp
  have sh: "shape_of s' = (shape_of s) \<lparr> act := remove1 a (act (shape_of s)), sts := (sts (shape_of s))(a := None) \<rparr>"
    using event_err(1) [OF u assms(2)] by (simp add: s' t_def) (simp add: shape_of_def)
  have tw: "tw_pcbs s' = tw_pcbs s" unfolding shape_tw [symmetric] sh by simp
  show ?thesis using f tw next_cursor [OF assms(3,4)] by (simp add: lists_ok_def sh cursor_ok_def s'(2))
qed

lemma slow_poll_ok:
  assumes "slow_poll env app a p err s = Some (nxt, err', s')" and "app_ok app" and "lists_ok s"
    and "a \<notin> set (tw_pcbs s)" and "pcbs s a = Some q" and "state p = state q"
  shows "lists_ok s' \<and> set (tw_pcbs s') \<subseteq> set (tw_pcbs s) \<and> cursor_ok nxt s'"
proof -
  define p1 where "p1 = p \<lparr> polltmr := polltmr p + 1 \<rparr>"
  have put: "shape_of (put_pcb a r s) = shape_of s" if "state r = state p" for r
    using shape_same [OF assms(5)] assms(6) that by simp
  have nx: "nxt = pcb_next a s'" using assms(1) by (auto simp: slow_poll_def Let_def bind_eq_Some_conv)
  have "lists_ok s' \<and> set (tw_pcbs s') \<subseteq> set (tw_pcbs s)"
  proof (cases "polltmr p1 \<ge> pollinterval p1")
    case True
    define s1 where "s1 = put_pcb a (p1 \<lparr> polltmr := 0 \<rparr>) s"
    have l1: "lists_ok s1" "tw_pcbs s1 = tw_pcbs s"
      using assms(3) put [of "p1 \<lparr> polltmr := 0 \<rparr>"] by (simp_all add: lists_ok_def s1_def p1_def put_pcb_def)
    obtain r t where t: "TCP_EVENT_POLL app a err s1 = Some (r, t)" "t = s' \<or> (\<exists>e. output_pcb env a t = Some (e, s'))"
      using assms(1) True unfolding slow_poll_def p1_def s1_def
      by (auto simp: Let_def bind_eq_Some_conv split: if_splits)
    have "lists_ok t \<and> set (tw_pcbs t) \<subseteq> set (tw_pcbs s)"
      using cb_okD [OF events_ok(5) [OF assms(2)] t(1) l1(1)] l1(2) by simp
    moreover have "shape_of s' = shape_of t" using t(2) shape_output_pcb by auto
    ultimately show ?thesis unfolding lists_ok_def shape_tw [symmetric] by simp
  next
    case False
    then have "s' = put_pcb a p1 s"
      using assms(1) unfolding slow_poll_def p1_def by (auto simp: Let_def bind_eq_Some_conv)
    then show ?thesis using assms(3) put [of p1] by (simp add: lists_ok_def p1_def put_pcb_def)
  qed
  then show ?thesis using next_cursor [of s' a] assms(4) nx by auto
qed

lemma slow_keepalive_frame:
  assumes "slow_keepalive env p s = Some (q, t)"
  shows "state q = state p \<and> net_erase t = net_erase s"
  using assms by (auto simp: slow_keepalive_def split: if_splits)

lemma slow_step_ok:
  assumes "slow_step env app a err s = Some (nxt, err', s')" and "app_ok app" and "lists_ok s"
    and "a \<notin> set (tw_pcbs s)"
  shows "lists_ok s' \<and> cursor_ok nxt s'"
proof -
  obtain p rm q t where p: "pcbs s a = Some p" and r: "slow_rexmit env a p s = Some (rm, q, t)"
    using assms(1) by (auto simp: slow_step_def bind_eq_Some_conv)
  have e: "shape_of t = shape_of s" "pcbs t = pcbs s" "state q = state p"
    using slow_rexmit_erase [OF r] shape_net pcbs_net snd_erase_fields(4) by blast+
  have t: "lists_ok t" "a \<notin> set (tw_pcbs t)"
    using assms(3,4) unfolding lists_ok_def shape_tw [symmetric] e(1) by simp_all
  obtain p2 s2 where k: "(case slow_keepalive env q t of Some r \<Rightarrow> Some r
      | None \<Rightarrow> do { s \<leftarrow> tcp_abort env app a (put_pcb a q t); p \<leftarrow> pcbs s a; Some (p, s) }) = Some (p2, s2)"
    and rest: "(if rm \<or> slow_stuck (slow_ooseq p2 s2) s2
      then do { (nxt, s) \<leftarrow> slow_remove app a (slow_ooseq p2 s2) s2; Some (nxt, err, s) }
      else slow_poll env app a (slow_ooseq p2 s2) err s2) = Some (nxt, err', s')"
    using assms(1) p r by (auto simp: slow_step_def Let_def bind_eq_Some_conv)
  have s2: "lists_ok s2" "a \<notin> set (tw_pcbs s2)" "\<exists>x. pcbs s2 a = Some x \<and> state x = state p2"
  proof (atomize (full), cases "slow_keepalive env q t")
    case None
    have sh: "shape_of (put_pcb a q t) = shape_of t" using shape_same [of t a p q] p e by simp
    then have l: "lists_ok (put_pcb a q t)" using t(1) by (simp add: lists_ok_def)
    obtain ab: "tcp_abort env app a (put_pcb a q t) = Some s2" and x: "pcbs s2 a = Some p2"
      using k None by (auto simp: bind_eq_Some_conv)
    show "lists_ok s2 \<and> a \<notin> set (tw_pcbs s2) \<and> (\<exists>x. pcbs s2 a = Some x \<and> state x = state p2)"
      using abort_ok [OF ab l assms(2)] t(2) x by (auto simp: put_pcb_def)
  next
    case (Some z)
    then have f: "state p2 = state q" "net_erase s2 = net_erase t" using k slow_keepalive_frame [of env q t p2 s2] by auto
    have "shape_of s2 = shape_of t" "pcbs s2 = pcbs t" using shape_net [OF f(2)] pcbs_net [OF f(2)] .
    then show "lists_ok s2 \<and> a \<notin> set (tw_pcbs s2) \<and> (\<exists>x. pcbs s2 a = Some x \<and> state x = state p2)"
      using t f(1) e p unfolding lists_ok_def shape_tw [symmetric] by simp
  qed
  have o: "state (slow_ooseq p2 s2) = state p2" by (simp add: slow_ooseq_def)
  obtain x where x: "pcbs s2 a = Some x" "state x = state p2" using s2(3) by blast
  show ?thesis
  proof (cases "rm \<or> slow_stuck (slow_ooseq p2 s2) s2")
    case True
    then have "slow_remove app a (slow_ooseq p2 s2) s2 = Some (nxt, s')" using rest by (auto simp: bind_eq_Some_conv)
    from slow_remove_ok [OF this assms(2) s2(1,2) x(1)] show ?thesis by simp
  next
    case False
    then have "slow_poll env app a (slow_ooseq p2 s2) err s2 = Some (nxt, err', s')" using rest by simp
    from slow_poll_ok [OF this assms(2) s2(1,2) x(1)] o x(2) show ?thesis by simp
  qed
qed

lemma slow_loop_ok:
  assumes "slow_loop env app c err s = Some s'"
  shows "app_ok app \<Longrightarrow> lists_ok s \<Longrightarrow> cursor_ok c s \<Longrightarrow> lists_ok s'"
  using assms
proof (induction rule: slow_loop.raw_induct [rotated, consumes 1, case_names step])
  case (step loop env app c err s s')
  show ?case
  proof (cases c)
    case (Some a)
    then obtain nxt err' t where t: "slow_step env app a err s = Some (nxt, err', t)" "loop env app nxt err' t = Some s'"
      using step.hyps by (auto simp: bind_eq_Some_conv)
    have "lists_ok t" "cursor_ok nxt t"
      using slow_step_ok [OF t(1) step.prems(1,2)] step.prems(3) Some by (simp_all add: cursor_ok_def)
    then show ?thesis using step.IH [OF t(2)] step.prems(1) by blast
  qed (use step in simp)
qed

lemma slowtmr_ok:
  assumes "tcp_slowtmr env app s = Some s'" and "app_ok app" and "lists_ok s"
  shows "lists_ok s'"
proof -
  define t where "t = s \<lparr> tcp_ticks := tcp_ticks s + 1 \<rparr>"
  obtain u where u: "slow_loop env app (case active_pcbs t of [] \<Rightarrow> None | a # _ \<Rightarrow> Some a) ERR_OK t = Some u"
    "s' = tw_loop (tw_pcbs u) u"
    using assms(1) by (auto simp: tcp_slowtmr_def Let_def bind_eq_Some_conv t_def)
  have t: "lists_ok t" using assms(3) by (simp add: t_def)
  then have "set (active_pcbs t) \<inter> set (tw_pcbs t) = {}" by (simp add: lists_ok_def shape_ok_def shape_of_def)
  then have "cursor_ok (case active_pcbs t of [] \<Rightarrow> None | a # _ \<Rightarrow> Some a) t"
    by (auto simp: cursor_ok_def split: list.splits)
  then show ?thesis using slow_loop_ok [OF u(1) assms(2) t] tw_loop_ok u(2) by simp
qed

lemma tmr_ok:
  assumes "tcp_tmr env app s = Some s'" and "app_ok app" and "lists_ok s"
  shows "lists_ok s'"
proof -
  obtain t where t: "fast_loop env (active_pcbs s) s = Some t"
    and r: "s' = t \<lparr> tcp_timer := tcp_timer t + 1 \<rparr> \<or> tcp_slowtmr env app (t \<lparr> tcp_timer := tcp_timer t + 1 \<rparr>) = Some s'"
    using assms(1) by (auto simp: tcp_tmr_def tcp_fasttmr_def Let_def bind_eq_Some_conv split: if_splits)
  have "lists_ok t" using fast_loop_shape [OF t] assms(3) by (simp add: lists_ok_def)
  then show ?thesis using r slowtmr_ok [OF _ assms(2)] by auto
qed

section \<open>The state machine\<close>

text \<open>\<open>recv_flags\<close> after \<open>tcp_receive\<close>.\<close>

definition plain :: "tcp_in \<Rightarrow> bool" where
  "plain i \<longleftrightarrow> recv_flags i = 0 \<or> recv_flags i = TF_GOT_FIN"

lemma plain_upd [simp]:
  "plain (i \<lparr> in_seqno := q \<rparr>) = plain i" "plain (i \<lparr> recv_data := d \<rparr>) = plain i" "plain (i \<lparr> inseg := x \<rparr>) = plain i"
  "plain (i \<lparr> in_tcplen := l \<rparr>) = plain i" "plain (i \<lparr> inseg_p := b \<rparr>) = plain i" "plain (i \<lparr> recv_flags := TF_GOT_FIN \<rparr>)"
  by (simp_all add: plain_def)

lemma plain_deliver: "plain i \<Longrightarrow> plain (snd (ooseq_deliver xs p i))"
  by (induction xs arbitrary: p i) (simp_all add: Let_def)

lemma plain_inseq: "plain i \<Longrightarrow> plain (fst (snd (rx_inseq env a p i n)))"
  unfolding rx_inseq_def Let_def case_prod_beta fst_conv snd_conv
  by (intro plain_deliver) (simp split: list.split)

lemma plain_trim: "plain i \<Longrightarrow> plain (rx_trim_front p i)"
  by (simp add: rx_trim_front_def Let_def)

lemma plain_data: "plain i \<Longrightarrow> plain (fst (snd (rx_data env a p i n)))"
  by (simp add: rx_data_def case_prod_beta Let_def plain_inseq plain_trim)

lemma plain_receive:
  assumes "receive_pcb env a i s = Some (i', s')" and "plain i"
  shows "plain i'"
proof -
  obtain p q m and n :: tstate where "rx_data env a q i n = (p, i', m)"
    using assms(1) by (auto simp: receive_pcb_def tcp_receive_def bind_eq_Some_conv split: if_splits)
  then show ?thesis using plain_data [OF assms(2), of env a q n] by simp
qed

text \<open>What \<open>tcp_process\<close> leaves behind: the connection is reset, or it has just been closed, or all is
  as it should be.\<close>

definition closing :: "addr \<Rightarrow> tstate \<Rightarrow> bool" where
  "closing a s \<longleftrightarrow> a \<in> set (active_pcbs s) \<and> (\<exists>x. shape_ok ((shape_of s) \<lparr> sts := (sts (shape_of s))(a \<mapsto> x) \<rparr>))"

definition processed :: "addr \<Rightarrow> tcp_in \<Rightarrow> tstate \<Rightarrow> bool" where
  "processed a i s \<longleftrightarrow> plain i \<and> lists_ok s \<or> recv_flags i = TF_RESET \<and> lists_ok s \<and> a \<in> set (active_pcbs s) \<or>
    recv_flags i = TF_CLOSED \<and> closing a s"

lemma set_state_shape:
  assumes "set_state x a s = Some s'"
  shows "shape_of s' = (shape_of s) \<lparr> sts := (sts (shape_of s))(a \<mapsto> x) \<rparr>"
  using assms unfolding set_state_def by (elim shape_on_pcb) simp_all

lemma set_state_ok:
  assumes "set_state x a s = Some s'" and "lists_ok s" and "a \<in> set (active_pcbs s)" and "live x"
  shows "lists_ok s'"
  using shape_live [of "shape_of s" a x] assms(2-4) unfolding lists_ok_def set_state_shape [OF assms(1)]
  by (simp add: shape_of_def)

lemma enter_time_wait_ok:
  assumes "enter_time_wait env a s = Some s'" and "lists_ok s" and "a \<in> set (active_pcbs s)"
  shows "lists_ok s'"
proof -
  let ?f = "\<lambda>p s. let (p, s) = tcp_ack_now env a p s in (tcp_pcb_purge p, s)"
  obtain t u where t: "on_pcb ?f a s = Some t"
    and u: "set_state TIME_WAIT a (t \<lparr> active_pcbs := remove1 a (active_pcbs t) \<rparr>) = Some u"
    and s': "s' = u \<lparr> tw_pcbs := a # tw_pcbs u \<rparr>"
    using assms(1) by (auto simp: enter_time_wait_def bind_eq_Some_conv)
  have "quiet ?f" by (simp add: quiet_def tcp_pcb_purge_def case_prod_beta)
  note ts = shape_quiet(1) [OF t this]
  have "shape_of s' = (shape_of s) \<lparr> act := remove1 a (act (shape_of s)), twl := a # twl (shape_of s),
      sts := (sts (shape_of s))(a \<mapsto> TIME_WAIT) \<rparr>"
    using set_state_shape [OF u] ts by (simp add: s' shape_of_def)
  then show ?thesis using shape_wait [of "shape_of s" a] assms(2,3) by (simp add: lists_ok_def shape_of_def)
qed

lemma process_fin_ok:
  assumes "process_fin env a x i s = Some (i', s')" and "lists_ok s" and "a \<in> set (active_pcbs s)" and "plain i"
  shows "processed a i' s'"
proof -
  have ack: "lists_ok t \<and> a \<in> set (active_pcbs t)" if "on_pcb (tcp_ack_now env a) a s = Some t" for t
  proof -
    have "shape_of t = shape_of s" by (rule shape_quiet(1) [OF that]) simp
    from arg_cong [OF this, of act] this show ?thesis using assms(2,3) by (simp add: lists_ok_def shape_of_def)
  qed
  have tw: "lists_ok t" if "enter_time_wait env a s = Some t" for t
    by (rule enter_time_wait_ok [OF that assms(2,3)])
  have mv: "lists_ok u" if "on_pcb (tcp_ack_now env a) a s = Some t" "set_state y a t = Some u" "live y" for t u y
    using set_state_ok [OF that(2)] ack [OF that(1)] that(3) by blast
  have fw2: "lists_ok u" if "set_state FIN_WAIT_2 a s = Some u" for u
    using set_state_ok [OF that assms(2,3)] by (simp add: live_def)
  have cl: "processed a (j \<lparr> recv_flags := TF_CLOSED \<rparr>) u" if u: "set_state CLOSED a s = Some u" for u j
  proof -
    have x: "sts (shape_of s) a \<noteq> None" using assms(2,3) by (auto simp: lists_ok_def shape_ok_def shape_of_def)
    then obtain y where "sts (shape_of s) a = Some y" by blast
    then have "shape_ok ((shape_of u) \<lparr> sts := (sts (shape_of u))(a \<mapsto> y) \<rparr>)"
      using assms(2) by (simp add: set_state_shape [OF u] lists_ok_def fun_upd_idem)
    moreover have "active_pcbs u = active_pcbs s"
      using arg_cong [OF set_state_shape [OF u], of act] by (simp add: shape_of_def)
    ultimately show ?thesis using assms(3) by (auto simp: processed_def closing_def)
  qed
  have "i' = i \<and> lists_ok s' \<or> processed a i' s'"
    using assms(1,2)
    by (cases x) (auto simp: process_fin_def Let_def bind_eq_Some_conv live_def intro: tw fw2 cl dest: mv split: if_splits)
  then show ?thesis using assms(4) by (auto simp: processed_def)
qed

lemma syn_sent_ok:
  assumes "process_syn_sent env app a i p s = Some (e, i', s')" and "app_ok app" and "lists_ok s" and "plain i"
    and "pcbs s a = Some q" and "state p = state q" and "state q = SYN_SENT"
  shows "lists_ok s' \<and> plain i'"
proof -
  have same: "lists_ok (put_pcb a p s)" using shape_same [OF assms(5,6)] assms(3) by (simp add: lists_ok_def)
  have act: "a \<in> set (act (shape_of s))" using live_active [OF assms(3,5)] assms(7) by (simp add: live_def)
  have est: "lists_ok (put_pcb a r s)" if "state r = ESTABLISHED" for r
    using shape_live [OF _ act, of ESTABLISHED] assms(3) that by (simp add: lists_ok_def live_def)
  have conn: "lists_ok t" if "TCP_EVENT_CONNECTED app a ERR_OK ERR_OK (put_pcb a r s) = Some (f, u)"
    "state r = ESTABLISHED" "on_pcb (tcp_ack env a) a u = Some t" for r f u t
    using cb_okD [OF events_ok(4) [OF assms(2)] that(1) est [OF that(2)]] shape_quiet(1) [OF that(3)]
    by (simp add: lists_ok_def)
  have rst: "lists_ok (rst_reply env k j t) = lists_ok t" for k j t by (simp add: lists_ok_def rst_reply_def)
  show ?thesis
    using assms(1,4) same
    by (auto simp: process_syn_sent_def Let_def bind_eq_Some_conv rst dest!: state_parseopt intro: conn split: if_splits)
qed

lemma syn_rcvd_ok:
  assumes "process_syn_rcvd env app a i p s = Some (e, i', s')" and "app_ok app" and "lists_ok s" and "plain i"
    and "pcbs s a = Some q" and "state p = state q" and "state q = SYN_RCVD"
  shows "lists_ok s' \<and> plain i'"
proof -
  have same: "lists_ok (put_pcb a p s)" using shape_same [OF assms(5,6)] assms(3) by (simp add: lists_ok_def)
  have act: "a \<in> set (act (shape_of s))" using live_active [OF assms(3,5)] assms(7) by (simp add: live_def)
  have est: "lists_ok (put_pcb a (p \<lparr> state := ESTABLISHED \<rparr>) s)"
    using shape_live [OF _ act, of ESTABLISHED] assms(3) by (simp add: lists_ok_def live_def)
  have acc: "lists_ok t" if "TCP_EVENT_ACCEPT app a ERR_OK ERR_OK (put_pcb a (p \<lparr> state := ESTABLISHED \<rparr>) s) = Some (f, t)" for f t
    using cb_okD [OF events_ok(1) [OF assms(2)] that est] by simp
  have rcv: "lists_ok v \<and> plain j" if "lists_ok t" "receive_pcb env a i t = Some (j, u)"
    "on_pcb (\<lambda>p s. (p \<lparr> cwnd := mss p \<rparr>, s)) a u = Some v" for t j u v
    using that(1) shape_receive [OF that(2)] shape_quiet(1) [OF that(3)] plain_receive [OF that(2) assms(4)]
    by (simp add: lists_ok_def)
  have rst: "lists_ok (rst_reply env k j t) = lists_ok t" for k j t by (simp add: lists_ok_def rst_reply_def)
  show ?thesis
    using assms(1,4) same
    by (auto simp: process_syn_rcvd_def Let_def bind_eq_Some_conv rst dest: acc rcv abort_ok [OF _ _ assms(2)] split: if_splits)
qed

lemma process_ok:
  assumes "tcp_process env app a i s = Some (e, i', s')" and "app_ok app" and "lists_ok s"
    and "a \<in> set (active_pcbs s)" and "recv_flags i = 0"
  shows "processed a i' s' \<and> (e = ERR_ABRT \<longrightarrow> lists_ok s')"
proof -
  obtain p where p: "pcbs s a = Some p" using assms(1) by (auto simp: tcp_process_def bind_eq_Some_conv)
  have pl: "plain i" using assms(5) by (simp add: plain_def)
  have put: "shape_of (put_pcb a q s) = shape_of s" if "state q = state p" for q
    by (rule shape_same [OF p that])
  show ?thesis
  proof (cases "has i TCP_RST")
    case True
    have "shape_of (put_pcb a (p \<lparr> flags := flags p AND NOT TF_ACK_DELAY \<rparr>) s) = shape_of s" by (rule put) simp
    then show ?thesis using assms p True pl
      by (auto simp: tcp_process_def processed_def lists_ok_def put_pcb_def split: if_splits)
  next
    case False
    define q where "q = p \<lparr> tmr := tcp_ticks s, keep_cnt := 0 \<rparr>"
    have q: "state q = state p" by (simp add: q_def)
    have l: "lists_ok (put_pcb a q s)" "active_pcbs (put_pcb a q s) = active_pcbs s"
      using assms(3) put [OF q] by (simp_all add: lists_ok_def put_pcb_def)
    consider (sent) "state p = SYN_SENT" | (rcvd) "state p = SYN_RCVD"
      | (sync) "state p \<in> {CLOSE_WAIT, ESTABLISHED, FIN_WAIT_1, FIN_WAIT_2, CLOSING, LAST_ACK}"
      | (other) "state p \<in> {CLOSED, LISTEN, TIME_WAIT}"
      by (cases "state p") auto
    then show ?thesis
    proof cases
      case sent
      then have "process_syn_sent env app a i q s = Some (e, i', s')"
        using assms(1) p False q by (simp add: tcp_process_def q_def)
      from syn_sent_ok [OF this assms(2,3) pl p q sent] show ?thesis by (simp add: processed_def)
    next
      case rcvd
      then have "process_syn_rcvd env app a i q s = Some (e, i', s')"
        using assms(1) p False q by (simp add: tcp_process_def q_def)
      from syn_rcvd_ok [OF this assms(2,3) pl p q rcvd] show ?thesis by (simp add: processed_def)
    next
      case sync
      then obtain j t where r: "receive_pcb env a i (put_pcb a q s) = Some (j, t)"
        and f: "process_fin env a (state p) j t = Some (i', s')" and e: "e = ERR_OK"
        using assms(1) p False by (auto simp: tcp_process_def q_def Let_def bind_eq_Some_conv split: if_splits)
      have "lists_ok t" "a \<in> set (active_pcbs t)"
        using shape_receive [OF r] l arg_cong [OF shape_receive [OF r], of act] assms(4)
        by (simp_all add: lists_ok_def shape_of_def)
      then show ?thesis using process_fin_ok [OF f] plain_receive [OF r pl] e by (simp add: cfg_defs)
    next
      case other
      then have "s' = put_pcb a q s" "i' = i" using assms(1) p False by (auto simp: tcp_process_def q_def Let_def)
      then show ?thesis using l pl by (simp add: processed_def)
    qed
  qed
qed

section \<open>The input of a packet\<close>

lemma input_events_ok:
  assumes "input_events env app a i s = Some s'" and "app_ok app" and "processed a i s"
  shows "lists_ok s'"
proof -
  obtain p where p: "pcbs s a = Some p" using assms(1) by (auto simp: input_events_def bind_eq_Some_conv)
  consider (plain) "plain i" "lists_ok s" | (reset) "recv_flags i = TF_RESET" "lists_ok s" "a \<in> set (active_pcbs s)"
    | (closed) "recv_flags i = TF_CLOSED" "closing a s"
    using assms(3) by (auto simp: processed_def)
  then show ?thesis
  proof cases
    case plain
    then have "recv_flags i AND TF_RESET = 0" "recv_flags i AND TF_CLOSED = 0"
      by (auto simp: plain_def cfg_defs)
    then obtain e1 t1 e2 t2 e3 t3 where
      t1: "(if acked p > 0 then TCP_EVENT_SENT app a (acked p) ERR_OK s else Some (ERR_OK, s)) = Some (e1, t1)" and
      t2: "(if recv_data i \<noteq> None then TCP_EVENT_RECV env app a (recv_data i) ERR_OK e1 t1 else Some (e1, t1)) = Some (e2, t2)" and
      t3: "(if recv_flags i AND TF_GOT_FIN \<noteq> 0 then TCP_EVENT_RECV env app a None ERR_OK e2 t2 else Some (e2, t2)) = Some (e3, t3)" and
      r0: "(if e3 = ERR_OK then do { (e, s) \<leftarrow> output_pcb env a t3; Some s } else Some t3) = Some s'"
      using assms(1) p unfolding input_events_def
      by (auto simp: bind_eq_Some_conv simp del: not_None_eq split del: if_split)
    have r: "s' = t3 \<or> (\<exists>e. output_pcb env a t3 = Some (e, s'))"
      using r0 by (auto simp: bind_eq_Some_conv split: if_splits)
    note ev = events_ok(2,3) [OF assms(2), THEN cb_okD]
    have "lists_ok t1" using t1 ev(1) plain(2) by (auto split: if_splits)
    then have "lists_ok t2" using t2 ev(2) by (auto split: if_splits)
    then have "lists_ok t3" using t3 ev(2) by (auto split: if_splits)
    then show ?thesis using r shape_output_pcb by (auto simp: lists_ok_def)
  next
    case reset
    then obtain t u where t: "TCP_EVENT_ERR app (errf_cb p) (callback_arg p) ERR_RST s = Some t"
      and u: "remove_active env a t = Some u" and s': "s' = memp_free_pcb a u"
      using assms(1) p by (auto simp: input_events_def bind_eq_Some_conv cfg_defs)
    have l: "lists_ok t" "pcbs t a = Some p" using event_err [OF t assms(2)] reset(2) p by (simp_all add: lists_ok_def)
    have "state p \<noteq> TIME_WAIT"
      using reset(2,3) p unfolding lists_ok_def shape_ok_def live_def by (auto simp: shape_of_def)
    then show ?thesis using removed_active_ok(2) [OF u l] s' by simp
  next
    case closed
    then obtain u where u: "remove_active env a s = Some u" and s': "s' = memp_free_pcb a u"
      using assms(1) p by (auto simp: input_events_def bind_eq_Some_conv cfg_defs)
    obtain x where x: "shape_ok ((shape_of s) \<lparr> sts := (sts (shape_of s))(a \<mapsto> x) \<rparr>)" "a \<in> set (act (shape_of s))"
      using closed(2) by (auto simp: closing_def shape_of_def)
    then have "a \<notin> set (twl (shape_of s))" by (auto simp: shape_ok_def)
    from shape_free [OF shape_drop [OF x(1) this], of a] show ?thesis
      by (simp add: s' lists_ok_def shape_remove_active [OF u])
  qed
qed

lemma input_active_ok:
  assumes "input_active env app a i s = Some s'" and "app_ok app" and "lists_ok s"
    and "a \<in> set (active_pcbs s)" and "recv_flags i = 0"
  shows "lists_ok s'"
proof -
  obtain e j t where t: "tcp_process env app a i (s \<lparr> tcp_input_pcb := Some a \<rparr>) = Some (e, j, t)"
    and r: "(if e \<noteq> ERR_ABRT then input_events env app a j (t \<lparr> tcp_input_pcb := None \<rparr>)
      else Some (t \<lparr> tcp_input_pcb := None \<rparr>)) = Some s'"
    using assms(1) unfolding input_active_def Let_def by (auto simp: bind_eq_Some_conv split del: if_split)
  have pr: "processed a j t \<and> (e = ERR_ABRT \<longrightarrow> lists_ok t)"
    by (rule process_ok [OF t assms(2)]) (use assms(3-5) in simp_all)
  then have "processed a j (t \<lparr> tcp_input_pcb := None \<rparr>)"
    by (simp add: processed_def closing_def)
  then show ?thesis using r pr input_events_ok [OF _ assms(2)] by (auto split: if_splits)
qed

lemma listen_input_ok:
  assumes "tcp_listen_input env app lp i s = Some (e, s')" and "app_ok app" and "malloc_ok env" and "lists_ok s"
  shows "lists_ok s'"
proof (cases "in_flags i AND TCP_ACK = 0 \<and> has i TCP_SYN")
  case False
  moreover have "lists_ok (rst_reply env k j t) = lists_ok t" for k j t by (simp add: lists_ok_def rst_reply_def)
  ultimately show ?thesis using assms(1,4) by (auto simp: tcp_listen_input_def split: if_splits)
next
  case True
  then obtain m t where al: "tcp_alloc env app (l_prio lp) s = Some (m, t)"
    using assms(1) by (auto simp: tcp_listen_input_def bind_eq_Some_conv)
  note t = alloc_ok [OF al assms(2-4)]
  show ?thesis
  proof (cases m)
    case None
    then show ?thesis using assms(1) True al t by (simp add: tcp_listen_input_def)
  next
    case (Some b)
    obtain p where p: "pcbs t b = Some p" "state p = CLOSED" using t Some by blast
    obtain np where st: "state np = SYN_RCVD" and o: "(let (x, r, w) = tcp_enqueue env np [] 0 (TCP_SYN OR TCP_ACK) False
        (Some (mss_option (mss np))) (t \<lparr> active_pcbs := b # active_pcbs t \<rparr>)
      in output_pcb env b (put_pcb b r w)) = Some (e, s')"
      using assms(1) True al Some p(1) unfolding tcp_listen_input_def Let_def
      by (auto simp: bind_eq_Some_conv dest!: state_parseopt)
    obtain x r w where en: "tcp_enqueue env np [] 0 (TCP_SYN OR TCP_ACK) False (Some (mss_option (mss np)))
        (t \<lparr> active_pcbs := b # active_pcbs t \<rparr>) = (x, r, w)" by (rule prod_cases3)
    then have out: "output_pcb env b (put_pcb b r w) = Some (e, s')" using o by simp
    have "shape_of s' = (shape_of t) \<lparr> act := b # act (shape_of t), sts := (sts (shape_of t))(b \<mapsto> SYN_RCVD) \<rparr>"
      using shape_output_pcb [OF out] enqueue_frame(1,3) [OF en] st by (simp add: shape_act)
    also have "shape_ok \<dots>"
      using t p(2) shape_sts [OF p(1)] by (intro shape_open) (simp_all add: lists_ok_def live_def)
    finally show ?thesis by (simp add: lists_ok_def)
  qed
qed

lemma find_pcb_mem: "find_pcb P st xs = Some a \<Longrightarrow> a \<in> set xs"
  by (auto simp: find_pcb_def find_Some_iff)

lemma timewait_input_shape:
  assumes "tcp_timewait_input env a i s = Some (e, s')"
  shows "shape_of s' = shape_of s"
proof -
  let ?f = "\<lambda>p s. let q = in_seqno i + ucast (in_tcplen i);
                p = (if TCP_SEQ_GT q (rcv_nxt p) then p \<lparr> rcv_nxt := q \<rparr> else p)
            in if in_tcplen i > 0 then tcp_ack_now env a p s else (p, s)"
  obtain t where t: "on_pcb ?f a s = Some t" "output_pcb env a t = Some (e, s')"
    using assms by (auto simp: tcp_timewait_input_def bind_eq_Some_conv)
  have "quiet ?f" by (simp add: quiet_def Let_def)
  from shape_quiet(1) [OF t(1) this] shape_output_pcb [OF t(2)] show ?thesis by simp
qed

lemma demux_ok:
  assumes "input_demux env app i s = Some s'" and "app_ok app" and "malloc_ok env" and "lists_ok s" and "recv_flags i = 0"
  shows "lists_ok s'"
proof (cases "find_pcb (pcb_match i) (pcbs s) (active_pcbs s)")
  case (Some a)
  then have m: "a \<in> set (active_pcbs s)" by (rule find_pcb_mem)
  have "lists_ok (s \<lparr> active_pcbs := to_front a (active_pcbs s) \<rparr>)"
    using shape_front(1) [of "shape_of s" a] assms(4) m by (simp add: lists_ok_def shape_act)
  then show ?thesis
    using assms(1,5) Some input_active_ok [OF _ assms(2), of env a i "s \<lparr> active_pcbs := to_front a (active_pcbs s) \<rparr>" s']
    by (simp add: input_demux_def to_front_def)
next
  case None
  show ?thesis
  proof (cases "find_pcb (pcb_match i) (pcbs s) (tw_pcbs s)")
    case (Some a)
    then show ?thesis using assms(1,4) None
      by (auto simp: input_demux_def bind_eq_Some_conv lists_ok_def dest!: timewait_input_shape)
  next
    case no: None
    show ?thesis
    proof (cases "find_pcb (lpcb_match i) (lpcbs s) (listen_pcbs s)")
      case (Some l)
      have "lists_ok (s \<lparr> listen_pcbs := to_front l (listen_pcbs s) \<rparr>)"
        using shape_front(2) [of "shape_of s" l] assms(4) find_pcb_mem [OF Some] by (simp add: lists_ok_def shape_of_def)
      then show ?thesis using assms(1) None no Some
        by (auto simp: input_demux_def bind_eq_Some_conv dest: listen_input_ok [OF _ assms(2,3)])
    next
      case nol: None
      then show ?thesis using assms(1,4) None no
        by (auto simp: input_demux_def lists_ok_def rst_reply_def split: if_splits)
    qed
  qed
qed

lemma input_ok:
  assumes "tcp_input env app inp pkt s = Some s'" and "app_ok app" and "malloc_ok env" and "lists_ok s"
  shows "lists_ok s'"
  using assms(1,4) demux_ok [OF _ assms(2-4)]
  by (auto simp: tcp_input_def Let_def in_of_packet_def split: if_splits)

section \<open>Runs\<close>

text \<open>What can happen to the module.  A control block may be made to listen, or connected, only when it
  is closed; this is what the interface asks of its users.\<close>

inductive tcp_step :: "tcp_env \<Rightarrow> tcp_app \<Rightarrow> tstate \<Rightarrow> tstate \<Rightarrow> bool" for env app where
  s_new: "tcp_new env app s = Some (m, s') \<Longrightarrow> tcp_step env app s s'"
| s_bind: "tcp_bind a ip port s = Some (e, s') \<Longrightarrow> tcp_step env app s s'"
| s_listen: "tcp_listen env a s = Some (m, s') \<Longrightarrow> lpcbs s a = None \<Longrightarrow> pcbs s a = Some p \<Longrightarrow> state p = CLOSED \<Longrightarrow>
    tcp_step env app s s'"
| s_connect: "tcp_connect env a ip port cb s = Some (e, s') \<Longrightarrow> pcbs s a = Some p \<Longrightarrow> state p = CLOSED \<Longrightarrow>
    tcp_step env app s s'"
| s_write: "on_pcb (\<lambda>p s. snd (tcp_write env p d l cp s)) a s = Some s' \<Longrightarrow> tcp_step env app s s'"
| s_output: "output_pcb env a s = Some (e, s') \<Longrightarrow> tcp_step env app s s'"
| s_recved: "on_pcb (tcp_recved env a l) a s = Some s' \<Longrightarrow> tcp_step env app s s'"
| s_close: "tcp_close env a s = Some (e, s') \<Longrightarrow> tcp_step env app s s'"
| s_abort: "tcp_abort env app a s = Some s' \<Longrightarrow> tcp_step env app s s'"
| s_arg: "on_pcb (\<lambda>p s. (tcp_arg x p, s)) a s = Some s' \<Longrightarrow> tcp_step env app s s'"
| s_recv: "on_pcb (\<lambda>p s. (tcp_recv f p, s)) a s = Some s' \<Longrightarrow> tcp_step env app s s'"
| s_sent: "on_pcb (\<lambda>p s. (tcp_sent f p, s)) a s = Some s' \<Longrightarrow> tcp_step env app s s'"
| s_err: "on_pcb (\<lambda>p s. (tcp_err f p, s)) a s = Some s' \<Longrightarrow> tcp_step env app s s'"
| s_poll: "on_pcb (\<lambda>p s. (tcp_poll f v p, s)) a s = Some s' \<Longrightarrow> tcp_step env app s s'"
| s_setprio: "on_pcb (\<lambda>p s. (tcp_setprio y p, s)) a s = Some s' \<Longrightarrow> tcp_step env app s s'"
| s_accept: "lpcbs s l = Some lp \<Longrightarrow> tcp_step env app s (s \<lparr> lpcbs := (lpcbs s)(l \<mapsto> tcp_accept f lp) \<rparr>)"
| s_tmr: "tcp_tmr env app s = Some s' \<Longrightarrow> tcp_step env app s s'"
| s_input: "tcp_input env app inp pkt s = Some s' \<Longrightarrow> tcp_step env app s s'"

lemma step_ok:
  assumes "tcp_step env app s s'" and "app_ok app" and "malloc_ok env" and "lists_ok s"
  shows "lists_ok s'"
proof -
  have q: "lists_ok t" if "on_pcb f a s = Some t" "quiet f" for f a t
    using shape_quiet(1) [OF that] assms(4) by (simp add: lists_ok_def)
  have w: "quiet (\<lambda>p s. snd (tcp_write env p d l cp s))" for d l cp
    by (simp add: quiet_def tcp_write_def)
  show ?thesis using assms(1)
  proof cases
    case (s_new m)
    then show ?thesis using alloc_ok [OF _ assms(2-4)] by (auto simp: tcp_new_def)
  next
    case (s_bind a ip port e)
    then show ?thesis using bind_ok assms(4) by (simp add: lists_ok_def)
  next
    case (s_output a e)
    then show ?thesis using shape_output_pcb assms(4) by (simp add: lists_ok_def)
  next
    case (s_accept l lp f)
    then have "shape_of s' = shape_of s" by (auto simp: shape_of_def)
    then show ?thesis using assms(4) by (simp add: lists_ok_def)
  qed (auto intro: q w quiet_simps dest: listen_ok [OF _ assms(3,4)] connect_ok [OF _ assms(4)] close_ok [OF _ assms(4)]
      abort_ok [OF _ assms(4,2)] tmr_ok [OF _ assms(2,4)] input_ok [OF _ assms(2-4)])
qed

interpretation tcp_run: step_invariant "tcp_step env app" "\<lambda>s. app_ok app \<and> malloc_ok env \<and> lists_ok s" for env app
  by unfold_locales (blast intro: step_ok)

text \<open>C3: Whatever the application, the timers and the network do, in any order, the lists of control
  blocks stay as the comments of \<open>tcp.h\<close> ask: active connections are between SYN-SENT and LAST-ACK,
  waiting ones in TIME-WAIT, all others closed, listening ones on the listen list; no control block is
  on a list twice, on two lists, or on a list after its release.  The application must respect the
  interface, and the allocator must hand out unused memory.\<close>

theorem tcp_lists_invariant:
  assumes "(tcp_step env app)\<^sup>*\<^sup>* s s'" and "app_ok app" and "malloc_ok env" and "lists_ok s"
  shows "lists_ok s'"
  using tcp_run.runs_keep [OF assms(1)] assms(2-4) by blast

lemma ex_app_ok: "app_ok ex_app"
  by (auto simp: app_ok_def cb_ok_def ex_app_def)

lemma ex_env_malloc: "malloc_ok ex_env"
  by (simp add: malloc_ok_def ex_env_def)

lemma ex_state_ok: "lists_ok ex_state"
  by (auto simp: lists_ok_def shape_ok_def shape_of_def ex_state_def live_def ex_pcb_def zero_pcb_def split: if_splits)

theorem tcp_lists_invariant_witness:
  "\<exists>s'. (tcp_step ex_env ex_app)\<^sup>*\<^sup>* ex_state s' \<and> lists_ok s' \<and> pcbs s' 1 = None"
proof -
  define t where "t = put_pcb 1 (tcp_arg 5 zero_pcb) ex_state"
  define u where "u = memp_free_pcb 1 t"
  have "tcp_step ex_env ex_app ex_state t"
    by (rule s_arg [of 5 1]) (simp add: on_pcb_def ex_state_def t_def)
  moreover have "tcp_step ex_env ex_app t u"
    by (rule s_close [of ex_env 1 _ ERR_OK]) (simp add: tcp_close_def t_def u_def put_pcb_def ex_state_def tcp_arg_def zero_pcb_def)
  ultimately have "(tcp_step ex_env ex_app)\<^sup>*\<^sup>* ex_state u" by (blast intro: rtranclp.intros)
  moreover from this have "lists_ok u" by (rule tcp_lists_invariant [OF _ ex_app_ok ex_env_malloc ex_state_ok])
  ultimately show ?thesis by (intro exI [of _ u]) (simp add: u_def memp_free_pcb_def)
qed

end
