(* ===== verification/Tcp_States.thy ===== *)
theory Tcp_States
  imports Tcp_Step
begin

text \<open>
  The TCP state machine.  The transitions a segment can cause are an inductive relation, the diagram
  of RFC 793 as far as the source implements it; \<open>tcp_process\<close> makes no other.
\<close>

section \<open>The diagram\<close>

inductive seg_trans :: "tcp_in \<Rightarrow> tcp_state \<Rightarrow> tcp_state \<Rightarrow> bool" for i where
  t_stay: "seg_trans i x x"
| t_syn_ack: "has i TCP_SYN \<Longrightarrow> has i TCP_ACK \<Longrightarrow> \<not> has i TCP_RST \<Longrightarrow> seg_trans i SYN_SENT ESTABLISHED"
| t_ack: "has i TCP_ACK \<Longrightarrow> \<not> has i TCP_RST \<Longrightarrow> seg_trans i SYN_RCVD ESTABLISHED"
| t_fin: "has i TCP_FIN \<Longrightarrow> \<not> has i TCP_RST \<Longrightarrow> seg_trans i ESTABLISHED CLOSE_WAIT"
| t_fin_acked: "has i TCP_ACK \<Longrightarrow> \<not> has i TCP_FIN \<Longrightarrow> \<not> has i TCP_RST \<Longrightarrow> seg_trans i FIN_WAIT_1 FIN_WAIT_2"
| t_both: "has i TCP_FIN \<Longrightarrow> \<not> has i TCP_RST \<Longrightarrow> seg_trans i FIN_WAIT_1 CLOSING"
| t_fin_and_ack: "has i TCP_FIN \<Longrightarrow> has i TCP_ACK \<Longrightarrow> \<not> has i TCP_RST \<Longrightarrow> seg_trans i FIN_WAIT_1 TIME_WAIT"
| t_fin2: "has i TCP_FIN \<Longrightarrow> \<not> has i TCP_RST \<Longrightarrow> seg_trans i FIN_WAIT_2 TIME_WAIT"
| t_closing: "has i TCP_ACK \<Longrightarrow> \<not> has i TCP_RST \<Longrightarrow> seg_trans i CLOSING TIME_WAIT"
| t_last_ack: "has i TCP_ACK \<Longrightarrow> \<not> has i TCP_RST \<Longrightarrow> seg_trans i LAST_ACK CLOSED"

inductive_cases seg_trans_cases: "seg_trans i x y"

text \<open>The callbacks called in the middle of the processing do not change the state of the connection.\<close>

definition keeps_state :: "(tstate \<Rightarrow> (err_t \<times> tstate) option) \<Rightarrow> addr \<Rightarrow> bool" where
  "keeps_state f a \<longleftrightarrow> (\<forall>s r s'. f s = Some (r, s') \<longrightarrow> map_option state (pcbs s' a) = map_option state (pcbs s a))"

definition steady_app :: "tcp_app \<Rightarrow> bool" where
  "steady_app app \<longleftrightarrow> (\<forall>f arg a e. keeps_state (app_accept app f arg a e) a \<and> keeps_state (app_connected app f arg a e) a)"

lemma events_keep_state:
  assumes "steady_app app"
  shows "keeps_state (TCP_EVENT_ACCEPT app a e r) a" "keeps_state (TCP_EVENT_CONNECTED app a e r) a"
  using assms
  by (auto simp: keeps_state_def steady_app_def TCP_EVENT_ACCEPT_def TCP_EVENT_CONNECTED_def bind_eq_Some_conv
      split: option.splits if_splits)

section \<open>The transitions of the source\<close>

lemma abort_gone:
  assumes "tcp_abort env app a s = Some s'" and "app_ok app"
  shows "pcbs s' a = None"
proof -
  have r: "pcbs (tcp_rst env sq ak lip rip lp rp t) = pcbs t" for sq ak lip rip lp rp and t :: tstate
    by (rule pcbs_net) simp
  show ?thesis using assms(1) event_err(2) [OF _ assms(2)] unfolding tcp_abort_def
    by (auto simp: bind_eq_Some_conv memp_free_pcb_def r split: if_splits)
qed

abbreviation st_of :: "tstate \<Rightarrow> addr \<Rightarrow> tcp_state option" where
  "st_of s a \<equiv> sts (shape_of s) a"

lemma ack_now_state: "on_pcb (tcp_ack_now env a) a s = Some t \<Longrightarrow> st_of t a = st_of s a"
  by (drule shape_quiet(1)) simp_all

lemma set_state_state: "set_state x a s = Some t \<Longrightarrow> st_of t a = Some x"
  by (simp add: set_state_shape)

lemma enter_time_wait_state: "enter_time_wait env a s = Some t \<Longrightarrow> st_of t a = Some TIME_WAIT"
  by (auto simp: enter_time_wait_def bind_eq_Some_conv shape_of_def dest!: set_state_state [unfolded shape_of_def])

lemma process_fin_state:
  assumes "process_fin env a x i s = Some (i', s')" and "st_of s a = Some x" and "\<not> has i TCP_RST"
    and "x \<in> {CLOSE_WAIT, ESTABLISHED, FIN_WAIT_1, FIN_WAIT_2, CLOSING, LAST_ACK}"
  shows "\<exists>y. st_of s' a = Some y \<and> seg_trans i x y"
  using assms
  by (cases x) (auto simp: process_fin_def Let_def bind_eq_Some_conv intro: seg_trans.intros
      dest!: set_state_state enter_time_wait_state split: if_splits)

lemma deliver_in_flags: "in_flags (snd (ooseq_deliver xs p i)) = in_flags i"
  by (induction xs arbitrary: p i) (simp_all add: Let_def)

lemma inseq_in_flags: "in_flags (fst (snd (rx_inseq env a p i n))) = in_flags i"
  unfolding rx_inseq_def Let_def case_prod_beta fst_conv snd_conv deliver_in_flags
  by (simp split: list.split)

lemma data_in_flags: "in_flags (fst (snd (rx_data env a p i n))) = in_flags i"
  by (simp add: rx_data_def case_prod_beta Let_def inseq_in_flags rx_trim_front_def)

lemma receive_in_flags:
  assumes "receive_pcb env a i s = Some (j, t)"
  shows "in_flags j = in_flags i"
proof -
  obtain p q m and n :: tstate where "rx_data env a q i n = (p, j, m)"
    using assms by (auto simp: receive_pcb_def tcp_receive_def bind_eq_Some_conv split: if_splits)
  then show ?thesis using data_in_flags [of env a q i n] by simp
qed

lemma seg_trans_flags: "in_flags j = in_flags i \<Longrightarrow> seg_trans j x y \<Longrightarrow> seg_trans i x y"
  by (erule seg_trans_cases) (simp_all add: seg_trans.intros)

lemma keeps_stateD: "keeps_state f a \<Longrightarrow> f s = Some (r, s') \<Longrightarrow> st_of s' a = st_of s a"
  unfolding keeps_state_def shape_of_def by auto

lemma syn_sent_state:
  assumes "process_syn_sent env app a i p s = Some (e, i', s')" and "steady_app app" and "state p = SYN_SENT"
    and "\<not> has i TCP_RST"
  shows "\<exists>y. st_of s' a = Some y \<and> seg_trans i SYN_SENT y"
proof -
  have rst: "st_of (rst_reply env k j t) a = st_of t a" for k j t by (simp add: rst_reply_def)
  have conn: "st_of t a = Some ESTABLISHED" if "TCP_EVENT_CONNECTED app a ERR_OK ERR_OK (put_pcb a r s) = Some (f, u)"
    "state r = ESTABLISHED" "on_pcb (tcp_ack env a) a u = Some t" for r f u t
    using keeps_stateD [OF events_keep_state(2) [OF assms(2)] that(1)] that(2) shape_quiet(1) [OF that(3)] by simp
  have "st_of s' a = Some SYN_SENT \<or> has i TCP_SYN \<and> has i TCP_ACK \<and> st_of s' a = Some ESTABLISHED"
    using assms(1,3)
    by (auto simp: process_syn_sent_def Let_def bind_eq_Some_conv rst dest!: state_parseopt dest: conn split: if_splits)
  then show ?thesis using assms(4) by (auto intro: seg_trans.intros)
qed

lemma syn_rcvd_state:
  assumes "process_syn_rcvd env app a i p s = Some (e, i', s')" and "steady_app app" and "app_ok app"
    and "state p = SYN_RCVD" and "\<not> has i TCP_RST"
  shows "pcbs s' a = None \<or> (\<exists>y. st_of s' a = Some y \<and> seg_trans i SYN_RCVD y)"
proof -
  have rst: "st_of (rst_reply env k j t) a = st_of t a" for k j t by (simp add: rst_reply_def)
  have rcv: "st_of v a = Some ESTABLISHED"
    if "TCP_EVENT_ACCEPT app a ERR_OK ERR_OK (put_pcb a (p \<lparr> state := ESTABLISHED \<rparr>) s) = Some (f, t)"
    "receive_pcb env a i t = Some (j, u)" "on_pcb (\<lambda>p s. (p \<lparr> cwnd := mss p \<rparr>, s)) a u = Some v" for f t j u v
    using keeps_stateD [OF events_keep_state(1) [OF assms(2)] that(1)] shape_receive [OF that(2)]
      shape_quiet(1) [OF that(3)] by simp
  have "pcbs s' a = None \<or> st_of s' a = Some SYN_RCVD \<or> has i TCP_ACK \<and> st_of s' a = Some ESTABLISHED"
    using assms(1,4)
    by (auto simp: process_syn_rcvd_def Let_def bind_eq_Some_conv rst dest: rcv abort_gone [OF _ assms(3)] split: if_splits)
  then show ?thesis using assms(5) by (auto intro: seg_trans.intros)
qed

text \<open>C4: Processing a segment moves a connection only along the transitions of the TCP state diagram,
  and only with the flags that each transition asks for; a reset moves it nowhere by itself.  The
  callbacks called on the way must leave the state of the connection alone.\<close>

theorem tcp_process_transitions:
  assumes "tcp_process env app a i s = Some (e, i', s')" and "steady_app app" and "app_ok app"
    and "pcbs s a = Some p" and "pcbs s' a = Some p'"
  shows "seg_trans i (state p) (state p')"
proof (cases "has i TCP_RST")
  case True
  then show ?thesis using assms(1,4,5) by (auto simp: tcp_process_def put_pcb_def t_stay split: if_splits)
next
  case False
  define q where "q = p \<lparr> tmr := tcp_ticks s, keep_cnt := 0 \<rparr>"
  have q: "state q = state p" by (simp add: q_def)
  have p': "st_of s' a = Some (state p')" by (rule shape_sts [OF assms(5)])
  consider (sent) "state p = SYN_SENT" | (rcvd) "state p = SYN_RCVD"
    | (sync) "state p \<in> {CLOSE_WAIT, ESTABLISHED, FIN_WAIT_1, FIN_WAIT_2, CLOSING, LAST_ACK}"
    | (other) "state p \<in> {CLOSED, LISTEN, TIME_WAIT}"
    by (cases "state p") auto
  then show ?thesis
  proof cases
    case sent
    then have "process_syn_sent env app a i q s = Some (e, i', s')"
      using assms(1,4) False q by (simp add: tcp_process_def q_def)
    from syn_sent_state [OF this assms(2)] show ?thesis using q sent False p' by simp
  next
    case rcvd
    then have "process_syn_rcvd env app a i q s = Some (e, i', s')"
      using assms(1,4) False q by (simp add: tcp_process_def q_def)
    from syn_rcvd_state [OF this assms(2,3)] show ?thesis using q rcvd False p' assms(5) by simp
  next
    case sync
    then obtain j t where r: "receive_pcb env a i (put_pcb a q s) = Some (j, t)"
      and f: "process_fin env a (state p) j t = Some (i', s')"
      using assms(1,4) False by (auto simp: tcp_process_def q_def Let_def bind_eq_Some_conv split: if_splits)
    have "st_of t a = Some (state p)" using shape_receive [OF r] q by simp
    then show ?thesis
      using process_fin_state [OF f _ _ sync] receive_in_flags [OF r] False p' seg_trans_flags [of j i] by auto
  next
    case other
    then have "s' = put_pcb a q s" using assms(1,4) False by (auto simp: tcp_process_def q_def Let_def)
    then show ?thesis using assms(5) q by (simp add: put_pcb_def t_stay)
  qed
qed

text \<open>A connection that has sent its SYN, and the answer to it.\<close>

definition ex_syn_sent :: tcp_pcb where
  "ex_syn_sent = ex_pcb \<lparr> state := SYN_SENT, unsent := [], unacked := [ex_seg 100 []] \<rparr>"

definition ex_syn_ack :: tcp_in where
  "ex_syn_ack = (ex_in 500 []) \<lparr> in_flags := TCP_SYN OR TCP_ACK, in_ackno := 101, in_tcplen := 1 \<rparr>"

theorem tcp_process_transitions_witness:
  "\<exists>e i' s' p'. tcp_process ex_env ex_app 0 ex_syn_ack (ex_state \<lparr> pcbs := [0 \<mapsto> ex_syn_sent] \<rparr>) = Some (e, i', s') \<and>
     pcbs s' 0 = Some p' \<and> seg_trans ex_syn_ack SYN_SENT (state p') \<and> state p' = ESTABLISHED"
proof -
  let ?s = "ex_state \<lparr> pcbs := [0 \<mapsto> ex_syn_sent] \<rparr>"
  have fl: "has ex_syn_ack TCP_ACK" "has ex_syn_ack TCP_SYN" "\<not> has ex_syn_ack TCP_RST"
    "in_ackno ex_syn_ack = 101" "TCPH_HDRLEN (in_hdr ex_syn_ack) = 5"
    by (simp_all add: ex_syn_ack_def ex_in_def ex_seg_def TCPH_HDRLEN_def cfg_defs)
  have p: "state ex_syn_sent = SYN_SENT" "unacked ex_syn_sent = [ex_seg 100 []]" "connected_cb ex_syn_sent = None"
    by (simp_all add: ex_syn_sent_def ex_pcb_def zero_pcb_def)
  have "\<exists>e i' s' p'. tcp_process ex_env ex_app 0 ex_syn_ack ?s = Some (e, i', s') \<and> pcbs s' 0 = Some p' \<and> state p' = ESTABLISHED"
    by (simp add: tcp_process_def process_syn_sent_def fl p tcp_parseopt_def TCP_EVENT_CONNECTED_def put_pcb_def
        on_pcb_def case_prod_beta Let_def)
  then obtain e i' s' p' where t: "tcp_process ex_env ex_app 0 ex_syn_ack ?s = Some (e, i', s')"
    "pcbs s' 0 = Some p'" "state p' = ESTABLISHED" by blast
  have "steady_app ex_app" by (auto simp: steady_app_def keeps_state_def ex_app_def)
  from tcp_process_transitions [OF t(1) this ex_app_ok _ t(2), of ex_syn_sent] show ?thesis using t p(1) by simp
qed

end
