(* ===== verification/Ip_Hdr.thy ===== *)
theory Ip_Hdr
  imports Tcp_Base Netif
begin

text \<open>
  The IPv4 header (\<open>include/ipv4/lwip/ip.h\<close>).  The record has the fields of
  \<open>struct ip_hdr\<close> with the values the little-endian machine loads from them, so the macros convert
  with \<open>ntohs\<close> and \<open>htons\<close> exactly where the source does.  \<open>ip_hdr_bytes\<close> and \<open>ip_hdr_of\<close> are the
  memory image of the structure and the structure read back from memory.
\<close>

definition IP_HLEN :: nat where [cfg_defs]: "IP_HLEN = 20"
definition IP_RF :: u16 where [cfg_defs]: "IP_RF = 0x8000"
definition IP_DF :: u16 where [cfg_defs]: "IP_DF = 0x4000"
definition IP_MF :: u16 where [cfg_defs]: "IP_MF = 0x2000"
definition IP_OFFMASK :: u16 where [cfg_defs]: "IP_OFFMASK = 0x1fff"
definition IP_PROTO_ICMP :: u8 where [cfg_defs]: "IP_PROTO_ICMP = 1"
definition IP_PROTO_UDP :: u8 where [cfg_defs]: "IP_PROTO_UDP = 17"
definition IP_PROTO_UDPLITE :: u8 where [cfg_defs]: "IP_PROTO_UDPLITE = 170"

record ip_hdr =
  ih_v_hl_tos :: u16
  ih_len :: u16
  ih_id :: u16
  ih_offset :: u16
  ih_ttl_proto :: u16
  ih_chksum :: u16
  ih_src :: u32
  ih_dest :: u32

section \<open>The access macros\<close>

definition IPH_V :: "ip_hdr \<Rightarrow> u16" where
  "IPH_V h = drop_bit 12 (ntohs (ih_v_hl_tos h))"

definition IPH_HL :: "ip_hdr \<Rightarrow> u16" where
  "IPH_HL h = drop_bit 8 (ntohs (ih_v_hl_tos h)) AND 0x0f"

definition IPH_TOS :: "ip_hdr \<Rightarrow> u16" where
  "IPH_TOS h = ntohs (ih_v_hl_tos h) AND 0xff"

definition IPH_TTL :: "ip_hdr \<Rightarrow> u16" where
  "IPH_TTL h = drop_bit 8 (ntohs (ih_ttl_proto h))"

definition IPH_PROTO :: "ip_hdr \<Rightarrow> u16" where
  "IPH_PROTO h = ntohs (ih_ttl_proto h) AND 0xff"

definition IPH_VHLTOS_SET :: "u16 \<Rightarrow> u16 \<Rightarrow> u8 \<Rightarrow> ip_hdr \<Rightarrow> ip_hdr" where
  "IPH_VHLTOS_SET v hl t h =
    h \<lparr> ih_v_hl_tos := htons (push_bit 12 v OR push_bit 8 hl OR ucast t) \<rparr>"

definition IPH_TTL_SET :: "u8 \<Rightarrow> ip_hdr \<Rightarrow> ip_hdr" where
  "IPH_TTL_SET t h = h \<lparr> ih_ttl_proto := htons (IPH_PROTO h OR push_bit 8 (ucast t)) \<rparr>"

definition IPH_PROTO_SET :: "u8 \<Rightarrow> ip_hdr \<Rightarrow> ip_hdr" where
  "IPH_PROTO_SET proto h = h \<lparr> ih_ttl_proto := htons (ucast proto OR push_bit 8 (IPH_TTL h)) \<rparr>"

section \<open>The header in memory\<close>

definition ip_hdr_bytes :: "ip_hdr \<Rightarrow> u8 list" where
  "ip_hdr_bytes h = le16 (ih_v_hl_tos h) @ le16 (ih_len h) @ le16 (ih_id h) @ le16 (ih_offset h) @
    le16 (ih_ttl_proto h) @ le16 (ih_chksum h) @ mem32 (ih_src h) @ mem32 (ih_dest h)"

definition load32 :: "u8 \<Rightarrow> u8 \<Rightarrow> u8 \<Rightarrow> u8 \<Rightarrow> u32" where
  "load32 a b c d = ucast a OR push_bit 8 (ucast b) OR push_bit 16 (ucast c) OR push_bit 24 (ucast d)"

definition load16_at :: "u8 list \<Rightarrow> nat \<Rightarrow> u16" where
  "load16_at bs i = load16 (bs ! i) (bs ! (i + 1))"

definition load32_at :: "u8 list \<Rightarrow> nat \<Rightarrow> u32" where
  "load32_at bs i = load32 (bs ! i) (bs ! (i + 1)) (bs ! (i + 2)) (bs ! (i + 3))"

text \<open>Reading the structure at the start of a buffer; \<open>None\<close> when the buffer is too short.\<close>

definition ip_hdr_of :: "u8 list \<Rightarrow> ip_hdr option" where
  "ip_hdr_of bs =
    (if length bs < IP_HLEN then None
     else Some \<lparr> ih_v_hl_tos = load16_at bs 0, ih_len = load16_at bs 2, ih_id = load16_at bs 4,
       ih_offset = load16_at bs 6, ih_ttl_proto = load16_at bs 8, ih_chksum = load16_at bs 10,
       ih_src = load32_at bs 12, ih_dest = load32_at bs 16 \<rparr>)"

text \<open>The last two lines of every function that writes a header: the checksum field is cleared,
  then set to the checksum of the 20 bytes.\<close>

definition set_hdr_chksum :: "ip_hdr \<Rightarrow> ip_hdr" where
  "set_hdr_chksum h =
    (let h = h \<lparr> ih_chksum := 0 \<rparr> in h \<lparr> ih_chksum := inet_chksum (ip_hdr_bytes h) \<rparr>)"

section \<open>Reading back what was written\<close>

lemma length_ip_hdr_bytes [simp]: "length (ip_hdr_bytes h) = 20"
  by (simp add: ip_hdr_bytes_def le16_def mem32_def)

lemma load16_le16 [simp]: "load16 (ucast w) (ucast (drop_bit 8 w)) = (w :: u16)"
  unfolding load16_def by (rule bit_word_eqI) (auto simp: bit_simps)

lemma load32_mem32 [simp]:
  "load32 (ucast w) (ucast (drop_bit 8 w)) (ucast (drop_bit 16 w)) (ucast (drop_bit 24 w)) = (w :: u32)"
proof (rule bit_word_eqI)
  fix n :: nat
  assume "n < LENGTH(32)"
  then consider "n < 8" | "8 \<le> n" "n < 16" | "16 \<le> n" "n < 24" | "24 \<le> n" "n < 32" by fastforce
  then show "bit (load32 (ucast w) (ucast (drop_bit 8 w)) (ucast (drop_bit 16 w)) (ucast (drop_bit 24 w))) n =
      bit w n"
    by cases (auto simp: load32_def bit_simps)
qed

lemma ip_hdr_roundtrip [simp]: "ip_hdr_of (ip_hdr_bytes h @ bs) = Some h"
  by (simp add: ip_hdr_of_def ip_hdr_bytes_def load16_at_def load32_at_def le16_def mem32_def cfg_defs)

lemma ip_hdr_of_append: "IP_HLEN \<le> length bs \<Longrightarrow> ip_hdr_of (bs @ cs) = ip_hdr_of bs"
  by (auto simp: ip_hdr_of_def load16_at_def load32_at_def nth_append cfg_defs)

lemma bit_u8_high [simp]: "8 \<le> n \<Longrightarrow> \<not> bit (a :: u8) n"
  using bit_imp_le_length [of a n] by auto

lemma le16_load16 [simp]: "le16 (load16 a b) = [a, b]"
  by (auto simp: le16_def load16_def intro!: bit_word_eqI simp: bit_simps)

lemma mem32_load32 [simp]: "mem32 (load32 a b c d) = [a, b, c, d]"
  by (auto simp: mem32_def load32_def intro!: bit_word_eqI simp: bit_simps)

lemma ip_hdr_bytes_of:
  assumes "ip_hdr_of bs = Some h"
  shows "ip_hdr_bytes h = take 20 bs"
proof -
  have n: "20 \<le> length bs" using assms by (simp add: ip_hdr_of_def cfg_defs split: if_splits)
  have "take 20 bs = map ((!) bs) [0..<20]"
    using n by (intro nth_equalityI) auto
  then show ?thesis using assms
    by (auto simp: ip_hdr_of_def ip_hdr_bytes_def load16_at_def load32_at_def upt_rec numeral_eq_Suc
        split: if_splits)
qed

end
