(* ===== verification/Ip_Frag.thy ===== *)
theory Ip_Frag
  imports Ip_Hdr Pbuf_Alloc "HOL-Library.Signed_Division"
begin

text \<open>
  Fragmentation and reassembly of IP packets
  (\<open>src/nsc-0.5.3/lwip-HEAD/src/core/ipv4/ip_frag.c\<close>).  A pbuf chain is the list of the payloads of
  its pbufs.  An operation is \<open>None\<close> when it follows a null \<open>next\<close> pointer, reads past a payload
  or indexes outside one of the static arrays, and when the loop of \<open>ip_frag\<close> never ends.

  In this build \<open>sys_timeout\<close> and \<open>sys_untimeout\<close> are empty macros (\<open>NO_SYS\<close>), so the calls
  leave no trace in the model and \<open>ip_reass_timer\<close> is never called by the stack; it is modelled as
  the operation a caller of it would see.
\<close>

section \<open>Copying out of a chain\<close>

text \<open>The loop of \<open>copy_from_pbuf\<close>: the bytes copied, the pbufs left behind, the chain from the
  last pbuf used on, and the number of bytes taken from that pbuf.  The offset is only written
  when the last byte is copied.\<close>

fun copy_loop :: "u8 list \<Rightarrow> u8 list list \<Rightarrow> nat \<Rightarrow> (u8 list \<times> u8 list list \<times> u8 list list \<times> u16) option" where
  "copy_loop q qs len =
    (let l = (if len < length q then len else length q);
         len' = len - l
     in if len' \<noteq> 0
        then (case qs of
                [] \<Rightarrow> None
              | r # rs \<Rightarrow> do {
                  (bs, passed, rest, off) \<leftarrow> copy_loop r rs len';
                  Some (take l q @ bs, q # passed, rest, off) })
        else Some (take l q, [], q # qs, of_nat l))"

text \<open>The first pbuf of the chain is moved forward by the offset, for the caller too.\<close>

definition copy_from_pbuf ::
    "u8 list list \<Rightarrow> u16 \<Rightarrow> u16 \<Rightarrow> (u8 list \<times> u8 list list \<times> u8 list list \<times> u16) option" where
  "copy_from_pbuf p offset len =
    (case p of
       [] \<Rightarrow> None
     | q # qs \<Rightarrow>
         if length q < unat offset then None
         else if len = 0 then Some ([], [], drop (unat offset) q # qs, offset)
         else copy_loop (drop (unat offset) q) qs (unat len))"

section \<open>The reassembly buffer\<close>

definition IP_REASS_BUFSIZE :: nat where [cfg_defs]: "IP_REASS_BUFSIZE = 5760"
definition IP_REASS_MAXAGE :: u8 where [cfg_defs]: "IP_REASS_MAXAGE = 30"
definition IP_REASS_FLAG_LASTFRAG :: u8 where [cfg_defs]: "IP_REASS_FLAG_LASTFRAG = 0x01"

definition bitmap_bits :: "u8 list" where
  "bitmap_bits = [0xff, 0x7f, 0x3f, 0x1f, 0x0f, 0x07, 0x03, 0x01]"

record reass =
  ip_reasshdr :: ip_hdr
  ip_reassbuf :: "u8 list"
  ip_reassbitmap :: "u8 list"
  ip_reasslen :: u16
  ip_reassflags :: u8
  ip_reasstmr :: u8

definition ip_reass_timer :: "reass \<Rightarrow> reass" where
  "ip_reass_timer r =
    (if ip_reasstmr r > 1 then r \<lparr> ip_reasstmr := ip_reasstmr r - 1 \<rparr>
     else if ip_reasstmr r = 1 then r \<lparr> ip_reasstmr := 0 \<rparr>
     else r)"

text \<open>\<open>ip_reassbitmap[i] |= m\<close>, with the bounds of the array.\<close>

definition bm_or :: "nat \<Rightarrow> u8 \<Rightarrow> u8 list \<Rightarrow> u8 list option" where
  "bm_or i m bm = (if i < length bm then Some (bm[i := bm ! i OR m]) else None)"

fun bm_fill :: "nat \<Rightarrow> nat \<Rightarrow> u8 list \<Rightarrow> u8 list option" where
  "bm_fill i 0 bm = Some bm"
| "bm_fill i (Suc n) bm = (if i < length bm then bm_fill (i + 1) n (bm[i := 0xff]) else None)"

definition bm_mark :: "nat \<Rightarrow> nat \<Rightarrow> u8 list \<Rightarrow> u8 list option" where
  "bm_mark offset len bm =
    (let first = offset div 64; fin = (offset + len) div 64;
         head = bitmap_bits ! (offset div 8 mod 8);
         tail = NOT (bitmap_bits ! ((offset + len) div 8 mod 8))
     in if first = fin then bm_or first (head AND tail) bm
        else do {
          bm \<leftarrow> bm_or first head bm;
          bm \<leftarrow> bm_fill (1 + first) (fin - (1 + first)) bm;
          bm_or fin tail bm
        })"

text \<open>The test whether every fragment is there: the loop runs over \<open>i < len / 64 - 1\<close> in signed
  arithmetic, then the last byte is compared.\<close>

definition bm_complete :: "nat \<Rightarrow> u8 list \<Rightarrow> bool option" where
  "bm_complete len bm =
    (if length bm < len div 64 - 1 \<and> list_all (\<lambda>b. b = 0xff) bm then None
     else if \<not> list_all (\<lambda>b. b = 0xff) (take (len div 64 - 1) bm) then Some False
     else if length bm \<le> len div 64 then None
     else Some (bm ! (len div 64) = NOT (bitmap_bits ! (len div 8 mod 8))))"

text \<open>The payloads of a chain of pool pbufs of the given lengths, filled from the buffer.\<close>

fun fill_chain :: "nat list \<Rightarrow> u8 list \<Rightarrow> u8 list list" where
  "fill_chain [] bs = []"
| "fill_chain (l # ls) bs = take l bs # fill_chain ls (drop l bs)"

text \<open>The lengths of the pbufs of a pool packet (\<open>pbuf_alloc\<close> with \<open>PBUF_LINK\<close>).\<close>

function pool_lens :: "nat \<Rightarrow> nat list" where
  "pool_lens n = (if n = 0 then [] else min n 128 # pool_lens (n - min n 128))"
  by auto
termination by (relation "measure id") auto

declare pool_lens.simps [simp del]

definition link_lens :: "nat \<Rightarrow> nat list" where
  "link_lens n = min n (128 - unat PBUF_LINK_HLEN) # pool_lens (n - min n (128 - unat PBUF_LINK_HLEN))"

text \<open>The end of \<open>ip_reass\<close>: the header is completed, the buffer is free again, and the packet
  is copied into pool pbufs when the pool has enough of them.\<close>

definition reass_finish :: "nat \<Rightarrow> reass \<Rightarrow> u8 list list option \<times> reass" where
  "reass_finish avail r =
    (let r = r \<lparr> ip_reasslen := ip_reasslen r + of_nat IP_HLEN \<rparr>;
         h = set_hdr_chksum ((ip_reasshdr r) \<lparr> ih_len := htons (ip_reasslen r), ih_offset := 0 \<rparr>);
         r = r \<lparr> ip_reasshdr := h, ip_reasstmr := 0 \<rparr>
     in if pool_need PBUF_LINK (ip_reasslen r) \<le> avail
        then (Some (fill_chain (link_lens (unat (ip_reasslen r))) (ip_hdr_bytes h @ ip_reassbuf r)), r)
        else (None, r))"

text \<open>A new packet takes over an idle buffer.\<close>

definition reass_begin :: "ip_hdr \<Rightarrow> reass \<Rightarrow> reass" where
  "reass_begin f r =
    (if ip_reasstmr r = 0
     then r \<lparr> ip_reasshdr := f, ip_reasstmr := IP_REASS_MAXAGE, ip_reassflags := 0,
              ip_reassbitmap := replicate (IP_REASS_BUFSIZE div 64) 0 \<rparr>
     else r)"

definition reass_match :: "ip_hdr \<Rightarrow> reass \<Rightarrow> bool" where
  "reass_match f r \<longleftrightarrow> ih_src (ip_reasshdr r) = ih_src f \<and> ih_dest (ip_reasshdr r) = ih_dest f \<and>
    ih_id (ip_reasshdr r) = ih_id f"

text \<open>Where the fragment goes, and what happens once its bytes \<open>bs\<close> and the new bitmap are there:
  they are stored, the length is noted with the last fragment, and the packet is tested for
  completeness.\<close>

definition reass_len :: "ip_hdr \<Rightarrow> u16" where
  "reass_len f = ntohs (ih_len f) - IPH_HL f * 4"

definition reass_offset :: "ip_hdr \<Rightarrow> u16" where
  "reass_offset f = (ntohs (ih_offset f) AND IP_OFFMASK) * 8"

definition reass_store :: "ip_hdr \<Rightarrow> u8 list \<Rightarrow> u8 list \<Rightarrow> reass \<Rightarrow> reass" where
  "reass_store f bs bm r =
    (let offset = unat (reass_offset f);
         r = r \<lparr> ip_reassbuf := take offset (ip_reassbuf r) @ bs @ drop (offset + length bs) (ip_reassbuf r),
                 ip_reassbitmap := bm \<rparr>
     in if ntohs (ih_offset f) AND IP_MF = 0
        then r \<lparr> ip_reassflags := ip_reassflags r OR IP_REASS_FLAG_LASTFRAG,
                 ip_reasslen := reass_offset f + reass_len f \<rparr>
        else r)"

definition reass_test :: "nat \<Rightarrow> reass \<Rightarrow> (u8 list list option \<times> reass) option" where
  "reass_test avail r =
    (if ip_reassflags r AND IP_REASS_FLAG_LASTFRAG = 0 then Some (None, r)
     else do {
       ok \<leftarrow> bm_complete (unat (ip_reasslen r)) (ip_reassbitmap r);
       Some (if ok then reass_finish avail r else (None, r))
     })"

text \<open>\<open>ip_reass\<close> takes the chain of a fragment and the number of free pool pbufs; it returns the
  packet when it is complete.\<close>

definition ip_reass :: "nat \<Rightarrow> u8 list list \<Rightarrow> reass \<Rightarrow> (u8 list list option \<times> reass) option" where
  "ip_reass avail p r = do {
     f \<leftarrow> (case p of [] \<Rightarrow> None | q # _ \<Rightarrow> ip_hdr_of q);
     let r = reass_begin f r;
     if \<not> reass_match f r then Some (None, r)
     else do {
       let len = reass_len f;
       let offset = reass_offset f;
       if unat offset > IP_REASS_BUFSIZE \<or> unat offset + unat len > IP_REASS_BUFSIZE
       then Some (None, r \<lparr> ip_reasstmr := 0 \<rparr>)
       else do {
         (bs, _, _, _) \<leftarrow> copy_from_pbuf p (IPH_HL f * 4) len;
         bm \<leftarrow> bm_mark (unat offset) (unat len) (ip_reassbitmap r);
         reass_test avail (reass_store f bs bm r)
       }
     }
   }"

section \<open>Fragmentation\<close>

definition MAX_MTU :: nat where [cfg_defs]: "MAX_MTU = 1500"

text \<open>The loop of \<open>ip_frag\<close>.  \<open>hdr\<close> and \<open>dat\<close> are the static buffer: the header and the
  \<open>MAX_MTU - IP_HLEN\<close> bytes after it; \<open>k\<close> counts the link header allocations, \<open>sent\<close> are the
  frames handed to the driver and \<open>passed\<close> the pbufs of the caller that were left behind.  The
  length of a frame is the length of the buffer pbuf: the interface's MTU except for the last.\<close>

partial_function (option) frag_loop ::
    "(nat \<Rightarrow> bool) \<Rightarrow> u16 \<Rightarrow> nat \<Rightarrow> ip_hdr \<Rightarrow> u8 list \<Rightarrow> u16 \<Rightarrow> u16 \<Rightarrow> u16 \<Rightarrow> u16 \<Rightarrow> u16 \<Rightarrow>
     u8 list list \<Rightarrow> u8 list list \<Rightarrow> u8 list list \<Rightarrow>
     (ip_hdr \<times> u8 list \<times> u8 list list \<times> u8 list list) option" where
  "frag_loop ok mtu k hdr dat nfb ofo omf left poff p passed sent =
    (if left = 0 then Some (hdr, dat, passed @ p, sent)
     else
       let is_last = (int (unat left) \<le> int (unat mtu) - int IP_HLEN);
           ofo = ofo + nfb;
           tmp = omf OR (IP_OFFMASK AND ofo);
           tmp = (if is_last then tmp else tmp OR IP_MF);
           nfb = of_int ((int (unat mtu) - int IP_HLEN) sdiv 8);
           cop = (if is_last then left else nfb * 8)
       in if MAX_MTU - IP_HLEN < unat cop then None
          else Option.bind (copy_from_pbuf p poff cop) (\<lambda>(bs, ps, p, poff).
            let hdr = set_hdr_chksum (hdr \<lparr> ih_offset := htons tmp, ih_len := htons (cop + of_nat IP_HLEN) \<rparr>);
                dat = bs @ drop (length bs) dat;
                size = (if is_last then unat left + IP_HLEN else unat mtu)
            in if \<not> ok k \<or> MAX_MTU < size then None
               else frag_loop ok mtu (k + 1) hdr dat nfb ofo omf (left - cop) poff p (passed @ ps)
                      (sent @ [take size (ip_hdr_bytes hdr @ dat)])))"

text \<open>The result: the error code, the frames sent in order, the caller's chain as it is afterwards,
  and the static buffer.  The allocation of the buffer pbuf is number 0.\<close>

definition ip_frag ::
    "(nat \<Rightarrow> bool) \<Rightarrow> netif \<Rightarrow> u8 list \<Rightarrow> u8 list list \<Rightarrow>
     (err_t \<times> u8 list list \<times> u8 list list \<times> u8 list) option" where
  "ip_frag ok nif dat p = do {
     hdr \<leftarrow> (if \<not> ok 0 then None else case p of [] \<Rightarrow> None | q # _ \<Rightarrow> ip_hdr_of q);
     let tmp = ntohs (ih_offset hdr);
     (hdr, dat, p, sent) \<leftarrow> frag_loop ok (nif_mtu nif) 1 hdr dat 0 (tmp AND IP_OFFMASK) (tmp AND IP_MF)
        (of_nat (length (concat p)) - of_nat IP_HLEN) (of_nat IP_HLEN) p [] [];
     Some (ERR_OK, sent, p, dat)
   }"

section \<open>Copying is contiguous\<close>

declare copy_loop.simps [simp del]

lemma copy_loop_ok:
  assumes "0 < len" and "len \<le> length (concat (q # qs))" and "\<forall>r\<in>set (q # qs). length r < 65536"
  shows "\<exists>passed rest off. copy_loop q qs len = Some (take len (concat (q # qs)), passed, rest, off) \<and>
    rest \<noteq> [] \<and> unat off \<le> length (hd rest) \<and> set rest \<subseteq> set (q # qs) \<and>
    drop (unat off) (concat rest) = drop len (concat (q # qs))"
  using assms
proof (induction qs arbitrary: q len)
  case Nil
  then show ?case by (subst copy_loop.simps) (auto simp: Let_def unat_of_nat)
next
  case (Cons r rs)
  show ?case
  proof (cases "len \<le> length q")
    case True
    then show ?thesis using Cons.prems by (subst copy_loop.simps) (auto simp: Let_def unat_of_nat)
  next
    case False
    have le: "len - length q \<le> length (concat (r # rs))" using Cons.prems(2) False by simp
    obtain passed rest off where *: "copy_loop r rs (len - length q) =
        Some (take (len - length q) (concat (r # rs)), passed, rest, off)"
      "rest \<noteq> []" "unat off \<le> length (hd rest)" "set rest \<subseteq> set (r # rs)"
      "drop (unat off) (concat rest) = drop (len - length q) (concat (r # rs))"
      using Cons.IH [of "len - length q" r] Cons.prems False le by (auto simp del: concat.simps)
    then show ?thesis using False by (subst copy_loop.simps) (auto simp: Let_def)
  qed
qed

lemma copy_from_pbuf_ok:
  assumes "p \<noteq> []" and "unat offset \<le> length (hd p)" and "0 < unat len"
    and "unat offset + unat len \<le> length (concat p)" and "\<forall>r\<in>set p. length r < 65536"
  shows "\<exists>passed rest off.
    copy_from_pbuf p offset len = Some (take (unat len) (drop (unat offset) (concat p)), passed, rest, off) \<and>
    rest \<noteq> [] \<and> unat off \<le> length (hd rest) \<and> (\<forall>r\<in>set rest. length r < 65536) \<and>
    drop (unat off) (concat rest) = drop (unat offset + unat len) (concat p)"
proof -
  obtain q qs where p: "p = q # qs" using assms(1) by (cases p) auto
  have c: "drop (unat offset) (concat p) = concat (drop (unat offset) q # qs)" using assms(2) p by simp
  have n: "len \<noteq> 0" using assms(3) by auto
  have le: "unat len \<le> length (concat (drop (unat offset) q # qs))"
    using assms(4) unfolding c [symmetric] by simp
  have b: "\<forall>r\<in>set (drop (unat offset) q # qs). length r < 65536" using assms(5) p by auto
  obtain passed rest off where *: "copy_loop (drop (unat offset) q) qs (unat len) =
        Some (take (unat len) (concat (drop (unat offset) q # qs)), passed, rest, off)"
      "rest \<noteq> []" "unat off \<le> length (hd rest)" "set rest \<subseteq> set (drop (unat offset) q # qs)"
      "drop (unat off) (concat rest) = drop (unat len) (concat (drop (unat offset) q # qs))"
    using copy_loop_ok [OF assms(3), of "drop (unat offset) q" qs] le b by blast
  have "\<forall>r\<in>set rest. length r < 65536" using *(4) assms(5) p by fastforce
  moreover have "drop (unat offset + unat len) (concat p) = drop (unat len) (drop (unat offset) (concat p))"
    by (simp add: add.commute)
  ultimately show ?thesis using * assms(2) p n c unfolding copy_from_pbuf_def p by simp
qed

section \<open>The bitmap as a set of eight-byte blocks\<close>

text \<open>The interface the reassembly relies on: an array that records which blocks are present,
  an operation that records the whole blocks of a byte range, and a test.\<close>

locale block_map =
  fixes ok :: "'b \<Rightarrow> bool" and has :: "'b \<Rightarrow> nat \<Rightarrow> bool"
    and mark :: "nat \<Rightarrow> nat \<Rightarrow> 'b \<Rightarrow> 'b option" and size :: nat
  assumes mark_has: "ok b \<Longrightarrow> a + n < size \<Longrightarrow>
    \<exists>b'. mark a n b = Some b' \<and> ok b' \<and> (\<forall>j. has b' j \<longleftrightarrow> has b j \<or> a div 8 \<le> j \<and> j < (a + n) div 8)"
begin

lemma mark_represents:
  assumes "ok b" and "a + n < size" and "\<forall>j. has b j \<longleftrightarrow> j \<in> S"
  shows "\<exists>b'. mark a n b = Some b' \<and> ok b' \<and> (\<forall>j. has b' j \<longleftrightarrow> j \<in> S \<union> {a div 8..<(a + n) div 8})"
  using mark_has [OF assms(1,2)] assms(3) by auto

end

definition bm_has :: "u8 list \<Rightarrow> nat \<Rightarrow> bool" where
  "bm_has bm j \<longleftrightarrow> j div 8 < length bm \<and> bit (bm ! (j div 8)) (7 - j mod 8)"

lemma bitmap_bits_mask: "k < 8 \<Longrightarrow> bitmap_bits ! k = mask (8 - k)"
  by (auto simp: bitmap_bits_def mask_eq_exp_minus_1 less_Suc_eq numeral_eq_Suc)

lemma bit_bitmap_bits: "k < 8 \<Longrightarrow> m < 8 \<Longrightarrow> bit (bitmap_bits ! k) (7 - m) \<longleftrightarrow> k \<le> m"
  by (auto simp: bitmap_bits_mask bit_mask_iff)

lemma bit_bitmap_bits_not: "k < 8 \<Longrightarrow> m < 8 \<Longrightarrow> bit (NOT (bitmap_bits ! k)) (7 - m) \<longleftrightarrow> m < k"
  using bit_bitmap_bits [of k m] by (auto simp: bit_not_iff)

lemma bit_ff: "m < 8 \<Longrightarrow> bit (0xff :: u8) m"
  using bit_mask_iff [of 8 m, where 'a = u8] by (simp add: mask_eq_exp_minus_1)

lemma block_le: "(a :: nat) \<le> j \<longleftrightarrow> a div 8 < j div 8 \<or> a div 8 = j div 8 \<and> a mod 8 \<le> j mod 8"
proof -
  have "a = 8 * (a div 8) + a mod 8" "j = 8 * (j div 8) + j mod 8" "a mod 8 < 8" "j mod 8 < 8" by simp_all
  then show ?thesis by linarith
qed

lemma block_less: "(j :: nat) < b \<longleftrightarrow> j div 8 < b div 8 \<or> j div 8 = b div 8 \<and> j mod 8 < b mod 8"
  using block_le [of b j] by auto

lemma bm_or_has:
  assumes "i < length bm"
  shows "\<exists>bm'. bm_or i m bm = Some bm' \<and> length bm' = length bm \<and>
    (\<forall>j. bm_has bm' j \<longleftrightarrow> bm_has bm j \<or> j div 8 = i \<and> bit m (7 - j mod 8))"
  using assms by (auto simp: bm_or_def bm_has_def nth_list_update bit_or_iff)

lemma bm_fill_has:
  "i + n \<le> length bm \<Longrightarrow> \<exists>bm'. bm_fill i n bm = Some bm' \<and> length bm' = length bm \<and>
    (\<forall>j. bm_has bm' j \<longleftrightarrow> bm_has bm j \<or> i \<le> j div 8 \<and> j div 8 < i + n)"
proof (induction i n bm rule: bm_fill.induct)
  case (2 i n bm)
  have ff: "bit (0xff :: u8) (7 - m)" for m by (rule bit_ff) simp
  obtain bm' where *: "bm_fill (i + 1) n (bm[i := 0xff]) = Some bm'" "length bm' = length bm"
    "\<forall>j. bm_has bm' j \<longleftrightarrow> bm_has (bm[i := 0xff]) j \<or> i + 1 \<le> j div 8 \<and> j div 8 < i + 1 + n"
    using 2 by auto
  have "bm_has (bm[i := 0xff]) j \<longleftrightarrow> bm_has bm j \<or> j div 8 = i" for j
    using "2.prems" ff by (auto simp: bm_has_def nth_list_update)
  then show ?case using * "2.prems" by auto
qed auto

lemma bm_mark_has:
  assumes "length bm = 90" and "a + n < 5760"
  shows "\<exists>bm'. bm_mark a n bm = Some bm' \<and> length bm' = 90 \<and>
    (\<forall>j. bm_has bm' j \<longleftrightarrow> bm_has bm j \<or> a div 8 \<le> j \<and> j < (a + n) div 8)"
proof -
  define A B where "A = a div 8" and "B = (a + n) div 8"
  have d: "a div 64 = A div 8" "(a + n) div 64 = B div 8"
    by (simp_all add: A_def B_def div_mult2_eq [symmetric])
  have AB: "A \<le> B" "B < 720" using assms(2) by (simp_all add: A_def B_def div_le_mono less_mult_imp_div_less)
  define hd where "hd = bitmap_bits ! (A mod 8)"
  define tl where "tl = NOT (bitmap_bits ! (B mod 8))"
  have hd: "bit hd (7 - j mod 8) \<longleftrightarrow> A mod 8 \<le> j mod 8" and tl: "bit tl (7 - j mod 8) \<longleftrightarrow> j mod 8 < B mod 8" for j
    by (simp_all add: hd_def tl_def bit_bitmap_bits bit_bitmap_bits_not)
  show ?thesis
  proof (cases "A div 8 = B div 8")
    case True
    have lt90: "A div 8 < 90" using AB by linarith
    have e: "j div 8 = A div 8 \<and> A mod 8 \<le> j mod 8 \<and> j mod 8 < B mod 8 \<longleftrightarrow> A \<le> j \<and> j < B" for j
      unfolding block_le [of A] block_less [of j B] using True by auto
    obtain bm' where "bm_or (A div 8) (hd AND tl) bm = Some bm'" "length bm' = length bm"
      "\<forall>j. bm_has bm' j \<longleftrightarrow> bm_has bm j \<or> j div 8 = A div 8 \<and> bit (hd AND tl) (7 - j mod 8)"
      using bm_or_has [of "A div 8" bm "hd AND tl"] lt90 assms(1) by auto
    then show ?thesis using True assms(1) e
      unfolding bm_mark_def Let_def d A_def [symmetric] B_def [symmetric] hd_def [symmetric] tl_def [symmetric]
      by (auto simp: bit_and_iff hd tl)
  next
    case False
    have lt: "A div 8 < B div 8" using False div_le_mono [OF AB(1), of 8] by simp
    have e: "(j div 8 = A div 8 \<and> A mod 8 \<le> j mod 8) \<or> (1 + A div 8 \<le> j div 8 \<and> j div 8 < B div 8) \<or>
        (j div 8 = B div 8 \<and> j mod 8 < B mod 8) \<longleftrightarrow> A \<le> j \<and> j < B" for j
      unfolding block_le [of A] block_less [of j B] using lt by auto
    have b: "B div 8 < 90" "A div 8 < 90" using AB(2) lt by auto
    obtain b1 where b1: "bm_or (A div 8) hd bm = Some b1" "length b1 = 90"
      "\<And>j. bm_has b1 j \<longleftrightarrow> bm_has bm j \<or> j div 8 = A div 8 \<and> bit hd (7 - j mod 8)"
      using bm_or_has [of "A div 8" bm hd] b assms(1) by auto
    obtain b2 where b2: "bm_fill (1 + A div 8) (B div 8 - (1 + A div 8)) b1 = Some b2" "length b2 = 90"
      "\<And>j. bm_has b2 j \<longleftrightarrow> bm_has b1 j \<or> 1 + A div 8 \<le> j div 8 \<and> j div 8 < B div 8"
      using bm_fill_has [of "1 + A div 8" "B div 8 - (1 + A div 8)" b1] b lt b1(2) by auto
    obtain b3 where b3: "bm_or (B div 8) tl b2 = Some b3" "length b3 = 90"
      "\<And>j. bm_has b3 j \<longleftrightarrow> bm_has b2 j \<or> j div 8 = B div 8 \<and> bit tl (7 - j mod 8)"
      using bm_or_has [of "B div 8" b2 tl] b b2(2) by auto
    have "bm_mark a n bm = Some b3"
      using False b1(1) b2(1) b3(1)
      unfolding bm_mark_def Let_def d A_def [symmetric] B_def [symmetric] hd_def [symmetric] tl_def [symmetric]
      by simp
    moreover have "bm_has b3 j \<longleftrightarrow> bm_has bm j \<or> A \<le> j \<and> j < B" for j
      using e [of j] unfolding b3(3) b2(3) b1(3) hd tl by blast
    ultimately show ?thesis using b3(2) by (auto simp: A_def B_def)
  qed
qed

interpretation reass_map: block_map "\<lambda>bm. length bm = 90" bm_has bm_mark 5760
  by unfold_locales (rule bm_mark_has)

lemma u8_eq_iff: "(b :: u8) = c \<longleftrightarrow> (\<forall>k<8. bit b (7 - k) = bit c (7 - k))"
proof
  assume *: "\<forall>k<8. bit b (7 - k) = bit c (7 - k)"
  show "b = c"
  proof (rule bit_word_eqI)
    fix n :: nat
    assume "n < LENGTH(8)"
    then show "bit b n = bit c n" using * [rule_format, of "7 - n"] by simp
  qed
qed simp

lemma all_in_byte: "(\<forall>k<8. P (8 * i + k)) \<longleftrightarrow> (\<forall>j. j div 8 = i \<longrightarrow> P (j :: nat))"
proof
  assume *: "\<forall>k<8. P (8 * i + k)"
  show "\<forall>j. j div 8 = i \<longrightarrow> P j"
  proof (intro allI impI)
    fix j :: nat
    assume "j div 8 = i"
    then have "j = 8 * i + j mod 8" by auto
    then show "P j" using * [rule_format, of "j mod 8"] by simp
  qed
qed simp

lemma bm_complete_has:
  assumes "length bm = 90" and "L < 5760"
  shows "bm_complete L bm = Some ((\<forall>j<8 * (L div 64 - 1). bm_has bm j) \<and>
    (\<forall>j. j div 8 = L div 64 \<longrightarrow> (bm_has bm j \<longleftrightarrow> j < L div 8)))"
proof -
  have L: "L div 64 < 90" using assms(2) by (simp add: less_mult_imp_div_less)
  have byte: "bm ! i = c \<longleftrightarrow> (\<forall>j. j div 8 = i \<longrightarrow> (bm_has bm j \<longleftrightarrow> bit c (7 - j mod 8)))" if "i < 90" for i c
    unfolding u8_eq_iff all_in_byte [symmetric] using that assms(1) by (auto simp: bm_has_def)
  have ff: "bit (0xff :: u8) (7 - m)" for m by (rule bit_ff) simp
  have "list_all (\<lambda>b. b = 0xff) (take (L div 64 - 1) bm) \<longleftrightarrow> (\<forall>i<L div 64 - 1. bm ! i = 0xff)"
    using L assms(1) by (auto simp: list_all_length)
  also have "\<dots> \<longleftrightarrow> (\<forall>i<L div 64 - 1. \<forall>j. j div 8 = i \<longrightarrow> bm_has bm j)"
  proof -
    have "bm ! i = 0xff \<longleftrightarrow> (\<forall>j. j div 8 = i \<longrightarrow> bm_has bm j)" if "i < L div 64 - 1" for i
    proof -
      have "i < 90" using that L by linarith
      then show ?thesis by (simp only: byte ff simp_thms)
    qed
    then show ?thesis by blast
  qed
  also have "\<dots> \<longleftrightarrow> (\<forall>j<8 * (L div 64 - 1). bm_has bm j)"
  proof -
    have "j < 8 * n \<longleftrightarrow> j div 8 < n" for j n :: nat
      using div_less_iff_less_mult [of 8 j n] by (simp add: mult.commute)
    then show ?thesis by auto
  qed
  finally have A: "list_all (\<lambda>b. b = 0xff) (take (L div 64 - 1) bm) \<longleftrightarrow> (\<forall>j<8 * (L div 64 - 1). bm_has bm j)" .
  have m: "j mod 8 < L div 8 mod 8 \<longleftrightarrow> j < L div 8" if "j div 8 = L div 64" for j
    using that unfolding block_less [of j "L div 8"] by (simp add: div_mult2_eq [symmetric])
  have B: "bm ! (L div 64) = NOT (bitmap_bits ! (L div 8 mod 8)) \<longleftrightarrow>
      (\<forall>j. j div 8 = L div 64 \<longrightarrow> (bm_has bm j \<longleftrightarrow> j < L div 8))"
    unfolding byte [OF L] using m by (simp add: bit_bitmap_bits_not)
  show ?thesis
    unfolding bm_complete_def A B using L assms(1) by auto
qed

end
