(* ===== verification/Ip_Reass.thy ===== *)
theory Ip_Reass
  imports Ip_Frag
begin

text \<open>
  What \<open>ip_reass\<close> does with the fragments of one datagram.  A fragment is described by where it
  starts in the payload \<open>D\<close>, how many bytes it has and whether it is the last one; the state of
  the buffer is described by the set of eight-byte blocks received so far and by whether the last
  fragment has been seen.
\<close>

section \<open>Fragments and the state of the buffer\<close>

definition frag_hdr :: "ip_hdr \<Rightarrow> nat \<Rightarrow> nat \<Rightarrow> bool \<Rightarrow> ip_hdr" where
  "frag_hdr h a n mf = set_hdr_chksum (h \<lparr> ih_offset := htons (of_nat (a div 8) OR (if mf then IP_MF else 0)),
     ih_len := htons (of_nat n + of_nat IP_HLEN) \<rparr>)"

text \<open>\<open>p\<close> is a chain that carries the bytes \<open>a\<close> to \<open>a + n\<close> of \<open>D\<close> behind a header of 20 bytes.\<close>

definition carries_frag :: "ip_hdr \<Rightarrow> u8 list \<Rightarrow> nat \<times> nat \<times> bool \<Rightarrow> u8 list list \<Rightarrow> bool" where
  "carries_frag h D = (\<lambda>(a, n, mf) p. p \<noteq> [] \<and> 20 \<le> length (hd p) \<and>
     concat p = ip_hdr_bytes (frag_hdr h a n mf) @ take n (drop a D))"

text \<open>A piece of the payload: it starts on a block boundary, and ends on one or at the end.\<close>

definition piece :: "nat \<Rightarrow> nat \<times> nat \<times> bool \<Rightarrow> bool" where
  "piece L = (\<lambda>(a, n, mf). 8 dvd a \<and> 0 < n \<and> (if mf then 8 dvd n \<and> a + n < L else a + n = L))"

definition blocks :: "nat \<times> nat \<times> bool \<Rightarrow> nat set" where
  "blocks = (\<lambda>(a, n, mf). {a div 8..<(a + n) div 8})"

definition reass_inv :: "ip_hdr \<Rightarrow> u8 list \<Rightarrow> (nat \<times> nat \<times> bool) list \<Rightarrow> reass \<Rightarrow> bool" where
  "reass_inv h D fs r \<longleftrightarrow> ip_reasstmr r \<noteq> 0 \<and> reass_match h r \<and>
     (\<forall>x. ip_reasshdr r \<lparr> ih_len := x, ih_offset := 0, ih_chksum := 0 \<rparr> =
          h \<lparr> ih_len := x, ih_offset := 0, ih_chksum := 0 \<rparr>) \<and>
     length (ip_reassbitmap r) = 90 \<and> length (ip_reassbuf r) = 5760 \<and>
     (\<forall>j. bm_has (ip_reassbitmap r) j \<longleftrightarrow> j \<in> \<Union> (blocks ` set fs)) \<and>
     (\<forall>(a, n, mf)\<in>set fs. take n (drop a (ip_reassbuf r)) = take n (drop a D)) \<and>
     (if \<exists>(a, n, mf)\<in>set fs. \<not> mf then ip_reassflags r = 1 \<and> ip_reasslen r = of_nat (length D)
      else ip_reassflags r = 0)"

section \<open>One fragment\<close>

lemma set_hdr_chksum_sel [simp]:
  "ih_src (set_hdr_chksum h) = ih_src h" "ih_dest (set_hdr_chksum h) = ih_dest h"
  "ih_id (set_hdr_chksum h) = ih_id h" "ih_len (set_hdr_chksum h) = ih_len h"
  "ih_offset (set_hdr_chksum h) = ih_offset h" "ih_v_hl_tos (set_hdr_chksum h) = ih_v_hl_tos h"
  "ih_ttl_proto (set_hdr_chksum h) = ih_ttl_proto h"
  by (simp_all add: set_hdr_chksum_def Let_def)

lemma set_hdr_chksum_upd:
  "set_hdr_chksum (h \<lparr> ih_chksum := c \<rparr>) = set_hdr_chksum h"
  by (simp add: set_hdr_chksum_def)

lemma frag_hdr_sel [simp]:
  "ih_src (frag_hdr h a n mf) = ih_src h" "ih_dest (frag_hdr h a n mf) = ih_dest h"
  "ih_id (frag_hdr h a n mf) = ih_id h" "ih_v_hl_tos (frag_hdr h a n mf) = ih_v_hl_tos h"
  "IPH_HL (frag_hdr h a n mf) = IPH_HL h"
  by (simp_all add: frag_hdr_def IPH_HL_def)

lemma frag_offset:
  assumes "a div 8 < 8192"
  shows "ntohs (ih_offset (frag_hdr h a n mf)) AND IP_OFFMASK = of_nat (a div 8)"
    and "ntohs (ih_offset (frag_hdr h a n mf)) AND IP_MF = (if mf then IP_MF else 0)"
proof -
  define w :: u16 where "w = of_nat (a div 8)"
  have t: "w AND IP_OFFMASK = w"
  proof -
    have "take_bit 13 w = w"
      using assms by (simp add: w_def take_bit_of_nat take_bit_nat_eq_self flip: of_nat_take_bit)
    then show ?thesis by (simp add: take_bit_eq_mask mask_eq_exp_minus_1 cfg_defs)
  qed
  have "IP_OFFMASK AND IP_MF = 0" by (simp add: cfg_defs)
  then have z: "w AND IP_MF = 0" by (metis t and.assoc and_zero_eq)
  have o: "ntohs (ih_offset (frag_hdr h a n mf)) = w OR (if mf then IP_MF else 0)"
    by (simp add: frag_hdr_def ntohs_def htons_htons w_def)
  show "ntohs (ih_offset (frag_hdr h a n mf)) AND IP_OFFMASK = of_nat (a div 8)"
    unfolding o w_def [symmetric] by (cases mf) (simp_all add: bit.conj_disj_distrib2 t, simp add: cfg_defs)
  show "ntohs (ih_offset (frag_hdr h a n mf)) AND IP_MF = (if mf then IP_MF else 0)"
    unfolding o by (cases mf) (simp_all add: bit.conj_disj_distrib2 z)
qed

lemma frag_len:
  assumes "IPH_HL h = 5" and "n < 65516"
  shows "unat (reass_len (frag_hdr h a n mf)) = n"
proof -
  have "ntohs (ih_len (frag_hdr h a n mf)) = of_nat n + 20"
    by (simp add: frag_hdr_def ntohs_def htons_htons IP_HLEN_def)
  then show ?thesis using assms by (simp add: unat_of_nat reass_len_def)
qed

lemma frag_off:
  assumes "8 dvd a" and "a < 5760"
  shows "unat (reass_offset (frag_hdr h a n mf)) = a"
proof -
  have "a div 8 < 8192" using assms(2) by linarith
  then have e: "reass_offset (frag_hdr h a n mf) = of_nat (a div 8 * 8)"
    by (simp only: reass_offset_def frag_offset of_nat_mult of_nat_numeral)
  then show ?thesis using assms by (simp add: unat_of_nat)
qed

text \<open>The test of \<open>ip_reass\<close> on the set of received blocks: the bitmap byte before the last one is
  not looked at.\<close>

definition checked :: "nat \<Rightarrow> nat set \<Rightarrow> bool" where
  "checked L S \<longleftrightarrow> (\<forall>j<8 * (L div 64 - 1). j \<in> S) \<and>
    (\<forall>j. j div 8 = L div 64 \<longrightarrow> (j \<in> S \<longleftrightarrow> j < L div 8))"

definition is_last :: "nat \<times> nat \<times> bool \<Rightarrow> bool" where
  "is_last = (\<lambda>(a, n, mf). \<not> mf)"

lemma reass_begin_idle:
  assumes "ip_reasstmr r = 0" and "length (ip_reassbuf r) = 5760"
  shows "reass_inv h D [] (reass_begin (frag_hdr h a n mf) r)"
  using assms
  by (simp add: reass_inv_def reass_begin_def reass_match_def cfg_defs bm_has_def)
    (simp add: frag_hdr_def set_hdr_chksum_def Let_def)

lemma reass_begin_active: "reass_inv h D fs r \<Longrightarrow> reass_begin f r = r"
  by (simp add: reass_inv_def reass_begin_def)

lemma length_concat_mem: "q \<in> set p \<Longrightarrow> length q \<le> length (concat p)"
  by (induction p) auto

lemma carries_fragD:
  assumes "carries_frag h D (a, n, mf) p" and "a + n \<le> length D" and "n < 65516"
  shows "p \<noteq> []" "ip_hdr_of (hd p) = Some (frag_hdr h a n mf)" "20 \<le> length (hd p)"
    "length (concat p) = 20 + n" "drop 20 (concat p) = take n (drop a D)"
    "\<forall>q\<in>set p. length q < 65536"
proof -
  obtain q qs where p: "p = q # qs" "20 \<le> length q"
    using assms(1) by (cases p) (auto simp: carries_frag_def)
  have c: "concat p = ip_hdr_bytes (frag_hdr h a n mf) @ take n (drop a D)"
    using assms(1) by (simp add: carries_frag_def)
  show "p \<noteq> []" "20 \<le> length (hd p)" using p by simp_all
  have "ip_hdr_of q = ip_hdr_of (concat p)" using p ip_hdr_of_append [of q "concat qs"] by (simp add: cfg_defs)
  then show "ip_hdr_of (hd p) = Some (frag_hdr h a n mf)" using p c by simp
  show l: "length (concat p) = 20 + n" and "drop 20 (concat p) = take n (drop a D)"
    unfolding c using assms(2) by simp_all
  show "\<forall>q\<in>set p. length q < 65536"
  proof
    fix q
    assume "q \<in> set p"
    then have "length q \<le> length (concat p)" by (rule length_concat_mem)
    then show "length q < 65536" using l assms(3) by simp
  qed
qed

text \<open>Writing a piece of \<open>D\<close> into the buffer does not disturb the bytes of \<open>D\<close> already there.\<close>

lemma splice_keeps:
  assumes "length buf = 5760" and "a + n \<le> 5760" "a + n \<le> length D"
    and "take m (drop c buf) = take m (drop c D)" "c + m \<le> length D" "length D \<le> 5760"
  defines "buf' \<equiv> take a buf @ take n (drop a D) @ drop (a + n) buf"
  shows "take m (drop c buf') = take m (drop c D)" "take n (drop a buf') = take n (drop a D)"
    "length buf' = 5760"
proof -
  show l: "length buf' = 5760" using assms(1-3) by (simp add: buf'_def)
  show "take n (drop a buf') = take n (drop a D)" using assms(1-3) by (simp add: buf'_def)
  have nth: "buf' ! k = (if a \<le> k \<and> k < a + n then D ! k else buf ! k)" if "k < 5760" for k
  proof -
    have "length (take a buf) = a" "length (take n (drop a D)) = n" using assms(1-3) by simp_all
    then show ?thesis using assms(1-3) that by (simp only: buf'_def nth_append) auto
  qed
  show "take m (drop c buf') = take m (drop c D)"
  proof (rule nth_equalityI)
    fix i
    assume "i < length (take m (drop c buf'))"
    then have i: "i < m" "c + i < 5760" using l by auto
    have "buf ! (c + i) = D ! (c + i)"
      using arg_cong [OF assms(4), of "\<lambda>xs. xs ! i"] i assms(1,5,6) by simp
    then show "take m (drop c buf') ! i = take m (drop c D) ! i"
      using i l nth assms(5,6) by simp
  qed (use l assms(5,6) in simp)
qed

lemma reass_step:
  assumes inv: "reass_inv h D fs (reass_begin (frag_hdr h a n mf) r)" and P: "\<forall>g\<in>set fs. piece (length D) g"
    and f: "piece (length D) (a, n, mf)" and L: "length D < 5760" and hl: "IPH_HL h = 5"
    and p: "carries_frag h D (a, n, mf) p"
  shows "\<exists>r'. reass_inv h D ((a, n, mf) # fs) r' \<and>
    ip_reass avail p r = Some (if (\<exists>g\<in>set ((a, n, mf) # fs). is_last g) \<and>
        checked (length D) (\<Union> (blocks ` set ((a, n, mf) # fs)))
      then reass_finish avail r' else (None, r'))"
proof -
  define fh where "fh = frag_hdr h a n mf"
  define r0 where "r0 = reass_begin fh r"
  define len off where "len = reass_len fh" and "off = reass_offset fh"
  have I: "reass_inv h D fs r0" using inv by (simp add: r0_def fh_def)
  have an: "8 dvd a" "0 < n" "a + n \<le> length D" "a < 5760" "n < 65516"
    using f L by (auto simp: piece_def split: if_splits)
  note pD = carries_fragD [OF p an(3,5)]
  have len: "unat len = n" unfolding len_def fh_def using hl an(5) by (rule frag_len)
  have off: "unat off = a" unfolding off_def fh_def using an(1,4) by (rule frag_off)
  have hl4: "IPH_HL fh * 4 = 20" by (simp add: fh_def hl)
  obtain ps rest o' where cp: "copy_from_pbuf p 20 len = Some (take n (drop a D), ps, rest, o')"
    using copy_from_pbuf_ok [of p 20 len] pD len an(2) by auto
  obtain bm where bm: "bm_mark a n (ip_reassbitmap r0) = Some bm" "length bm = 90"
    "\<forall>j. bm_has bm j \<longleftrightarrow> j \<in> \<Union> (blocks ` set fs) \<union> {a div 8..<(a + n) div 8}"
    using reass_map.mark_represents [of "ip_reassbitmap r0" a n "\<Union> (blocks ` set fs)"] I an(3) L
    by (auto simp: reass_inv_def)
  define buf where "buf = take a (ip_reassbuf r0) @ take n (drop a D) @ drop (a + n) (ip_reassbuf r0)"
  define r1 where "r1 = r0 \<lparr> ip_reassbuf := buf, ip_reassbitmap := bm \<rparr>"
  define r2 where "r2 = (if mf then r1 else r1 \<lparr> ip_reassflags := ip_reassflags r1 OR 1, ip_reasslen := off + len \<rparr>)"
  have bl: "length (ip_reassbuf r0) = 5760" using I by (simp add: reass_inv_def)
  have keep: "take m (drop c buf) = take m (drop c D)" if "(c, m, mf') \<in> set fs" for c m mf'
  proof -
    have "take m (drop c (ip_reassbuf r0)) = take m (drop c D)" using I that by (auto simp: reass_inv_def)
    moreover have "c + m \<le> length D" using P [rule_format, OF that] by (simp add: piece_def split: if_splits)
    ultimately show ?thesis unfolding buf_def using splice_keeps(1) [OF bl] an(3) L by simp
  qed
  have new: "take n (drop a buf) = take n (drop a D)" "length buf = 5760"
    unfolding buf_def using bl an(3) L by simp_all
  have sum: "off + len = of_nat (length D)" if "\<not> mf"
  proof -
    have "a + n = length D" using f that by (simp add: piece_def)
    then show ?thesis using len off by (metis of_nat_add of_nat_unat ucast_id)
  qed
  have inv': "reass_inv h D ((a, n, mf) # fs) r2"
    using I bm(2,3) keep new sum
    by (auto simp: reass_inv_def r2_def r1_def reass_match_def blocks_def)
  have flag: "ip_reassflags r2 AND 1 = 0 \<longleftrightarrow> \<not> (\<exists>g\<in>set ((a, n, mf) # fs). is_last g)"
    using inv' by (auto simp: reass_inv_def is_last_def split: if_splits)
  have comp: "bm_complete (unat (ip_reasslen r2)) (ip_reassbitmap r2) =
      Some (checked (length D) (\<Union> (blocks ` set ((a, n, mf) # fs))))"
    if "\<exists>g\<in>set ((a, n, mf) # fs). is_last g"
  proof -
    have "unat (ip_reasslen r2) = length D"
      using inv' that L by (auto simp: reass_inv_def is_last_def unat_of_nat split: if_splits)
    then show ?thesis using inv' bm_complete_has [of "ip_reassbitmap r2" "length D"] L
      by (simp add: reass_inv_def checked_def)
  qed
  have mfe: "ntohs (ih_offset fh) AND IP_MF = 0 \<longleftrightarrow> \<not> mf"
    using frag_offset(2) [of a h n mf] an(4) by (simp add: fh_def cfg_defs)
  obtain q qs where pq: "p = q # qs" using pD(1) by (cases p) auto
  have hdr: "(case p of [] \<Rightarrow> None | q # _ \<Rightarrow> ip_hdr_of q) = Some fh" using pD(2) pq by (simp add: fh_def)
  have m: "reass_match fh r0" using I by (simp add: reass_inv_def reass_match_def fh_def)
  have st: "reass_store fh (take n (drop a D)) bm r0 = r2"
  proof -
    have "length (take n (drop a D)) = n" using an(3) by simp
    then show ?thesis
      by (simp only: reass_store_def Let_def off_def [symmetric] off mfe r2_def r1_def buf_def len_def
          IP_REASS_FLAG_LASTFRAG_def) simp
  qed
  have "\<not> (unat off > IP_REASS_BUFSIZE \<or> unat off + unat len > IP_REASS_BUFSIZE)"
    using an(3) L by (simp add: off len IP_REASS_BUFSIZE_def)
  then have "ip_reass avail p r = reass_test avail r2"
    unfolding ip_reass_def hdr using m cp bm(1)
    by (simp add: r0_def [symmetric] len_def [symmetric] off_def [symmetric] hl4 off len st)
  then show ?thesis using inv' flag comp
    by (intro exI [of _ r2]) (auto simp: reass_test_def IP_REASS_FLAG_LASTFRAG_def)
qed

section \<open>Completeness of the test\<close>

text \<open>A set of blocks that lacks nine consecutive blocks of the payload does not pass the test: the
  byte that is not looked at covers only eight of them.\<close>

lemma checked_nine:
  assumes "\<forall>j\<in>{b..<b + 9}. j \<notin> S" and "b + 9 \<le> L div 8"
  shows "\<not> checked L S"
proof
  assume c: "checked L S"
  define k where "k = L div 64"
  have no: "j \<notin> S" if "b \<le> j" "j < b + 9" for j using assms(1) that by simp
  have lo: "\<not> b < 8 * (k - 1)" using c no [of b] by (auto simp: checked_def k_def)
  have "b + 8 < L div 8" using assms(2) by simp
  moreover have "8 * k \<le> b + 8" using lo by (cases k) auto
  moreover have "L div 8 div 8 = k" by (simp add: k_def div_mult2_eq [symmetric])
  ultimately have "(b + 8) div 8 = k"
    using div_le_mono [of "b + 8" "L div 8" 8] div_le_mono [of "8 * k" "b + 8" 8] by simp
  then show False using c no [of "b + 8"] \<open>b + 8 < L div 8\<close> by (auto simp: checked_def k_def)
qed

lemma checked_all: "checked L {..<L div 8}"
proof -
  have "j < L div 8" if "j < 8 * (L div 64 - 1)" for j using that by linarith
  then show ?thesis by (auto simp: checked_def)
qed

section \<open>All fragments, in any order\<close>

definition byte_range :: "nat \<times> nat \<times> bool \<Rightarrow> nat set" where
  "byte_range = (\<lambda>(a, n, mf). {a..<a + n})"

text \<open>The pieces cover a payload of \<open>L\<close> bytes without overlap, and every piece but the last has at
  least \<open>m\<close> bytes.\<close>

definition covering :: "nat \<Rightarrow> nat \<Rightarrow> (nat \<times> nat \<times> bool) set \<Rightarrow> bool" where
  "covering m L F \<longleftrightarrow> (\<forall>f\<in>F. piece L f) \<and> (\<forall>(a, n, mf)\<in>F. mf \<longrightarrow> m \<le> n) \<and>
    (\<forall>f\<in>F. \<forall>g\<in>F. f \<noteq> g \<longrightarrow> byte_range f \<inter> byte_range g = {}) \<and> {..<L} \<subseteq> \<Union> (byte_range ` F)"

text \<open>Handing a sequence of packets to \<open>ip_reass\<close>: the results in order, and the final state.\<close>

fun reass_all :: "nat \<Rightarrow> u8 list list list \<Rightarrow> reass \<Rightarrow> (u8 list list option list \<times> reass) option" where
  "reass_all avail [] r = Some ([], r)"
| "reass_all avail (p # ps) r = do {
     (x, r) \<leftarrow> ip_reass avail p r;
     (xs, r) \<leftarrow> reass_all avail ps r;
     Some (x # xs, r)
   }"

lemma coveringD:
  assumes "covering m L F"
  shows "f \<in> F \<Longrightarrow> piece L f" "(a, n, True) \<in> F \<Longrightarrow> m \<le> n"
    "f \<in> F \<Longrightarrow> g \<in> F \<Longrightarrow> f \<noteq> g \<Longrightarrow> byte_range f \<inter> byte_range g = {}"
    "k < L \<Longrightarrow> \<exists>a n mf. (a, n, mf) \<in> F \<and> a \<le> k \<and> k < a + n"
proof -
  show "f \<in> F \<Longrightarrow> piece L f" using assms by (simp add: covering_def)
  show "(a, n, True) \<in> F \<Longrightarrow> m \<le> n" using assms by (auto simp: covering_def)
  show "f \<in> F \<Longrightarrow> g \<in> F \<Longrightarrow> f \<noteq> g \<Longrightarrow> byte_range f \<inter> byte_range g = {}"
    using assms unfolding covering_def by blast
  assume "k < L"
  then have "k \<in> \<Union> (byte_range ` F)" using assms by (auto simp: covering_def)
  then show "\<exists>a n mf. (a, n, mf) \<in> F \<and> a \<le> k \<and> k < a + n"
    unfolding byte_range_def by fastforce
qed

lemma pieceD:
  "piece L (a, n, mf) \<Longrightarrow> a + n \<le> L" "piece L (a, n, mf) \<Longrightarrow> mf \<longleftrightarrow> a + n < L"
  "piece L (a, n, mf) \<Longrightarrow> 0 < n" "piece L (a, n, True) \<Longrightarrow> 8 dvd a + n"
  by (auto simp: piece_def split: if_splits)

lemma blocks_bytes: "j \<in> blocks f \<Longrightarrow> piece L f \<Longrightarrow> 8 * j \<in> byte_range f"
  by (cases f) (auto simp: blocks_def byte_range_def piece_def)

lemma covering_blocks:
  assumes "covering m L F"
  shows "\<Union> (blocks ` F) = {..<L div 8}"
proof (intro equalityI subsetI)
  fix j
  assume "j \<in> \<Union> (blocks ` F)"
  then obtain a n mf where "(a, n, mf) \<in> F" "j < (a + n) div 8" by (auto simp: blocks_def)
  moreover have "a + n \<le> L" using pieceD(1) [OF coveringD(1) [OF assms calculation(1)]] .
  ultimately show "j \<in> {..<L div 8}" using div_le_mono [of "a + n" L 8] by simp
next
  fix j
  assume "j \<in> {..<L div 8}"
  then have j: "8 * j + 8 \<le> L" by auto
  then obtain a n mf where f: "(a, n, mf) \<in> F" "a \<le> 8 * j" "8 * j < a + n"
    using coveringD(4) [OF assms, of "8 * j"] by auto
  have p: "piece L (a, n, mf)" using coveringD(1) [OF assms f(1)] .
  have "8 * j + 8 \<le> a + n"
  proof (cases mf)
    case True
    have "8 dvd a + n" using p True pieceD(4) [of L a n] by simp
    then obtain c where "a + n = 8 * c" by (elim dvdE)
    then show ?thesis using f(3) by simp
  next
    case False
    then show ?thesis using pieceD(1,2) [OF p] j by simp
  qed
  then have "j < (a + n) div 8" by simp
  moreover have "a div 8 \<le> j" using f(2) by simp
  ultimately have "j \<in> blocks (a, n, mf)" by (simp add: blocks_def)
  then show "j \<in> \<Union> (blocks ` F)" using f(1) by blast
qed

lemma covering_last:
  assumes "covering m L F" and "0 < L"
  shows "\<exists>f\<in>F. is_last f"
proof -
  obtain a n mf where f: "(a, n, mf) \<in> F" "L - 1 < a + n"
    using coveringD(4) [OF assms(1), of "L - 1"] assms(2) by auto
  then have "is_last (a, n, mf)"
    using pieceD(2) [OF coveringD(1) [OF assms(1) f(1)]] assms(2) by (simp add: is_last_def)
  then show ?thesis using f(1) by blast
qed

text \<open>As long as a piece is missing, the packet is not taken for complete.\<close>

lemma missing_piece:
  assumes c: "covering 72 L F" and S: "S \<subseteq> F" and f: "f \<in> F" "f \<notin> S"
  shows "\<not> ((\<exists>g\<in>S. is_last g) \<and> checked L (\<Union> (blocks ` S)))"
proof
  assume *: "(\<exists>g\<in>S. is_last g) \<and> checked L (\<Union> (blocks ` S))"
  obtain a n mf where fe: "f = (a, n, mf)" by (cases f)
  have disj: "byte_range f \<inter> byte_range g = {}" if "g \<in> S" for g
    using coveringD(3) [OF c f(1), of g] S f(2) that by blast
  have pf: "piece L f" using coveringD(1) [OF c f(1)] .
  show False
  proof (cases mf)
    case False
    obtain a' n' where g: "(a', n', False) \<in> S" using * by (auto simp: is_last_def)
    then have "piece L (a', n', False)" using coveringD(1) [OF c] S by blast
    then have "L - 1 \<in> byte_range f \<inter> byte_range (a', n', False)"
      using pf False by (auto simp: fe piece_def byte_range_def)
    then show False using disj [OF g] by blast
  next
    case True
    have n: "72 \<le> n" using coveringD(2) [OF c] f(1) True by (simp add: fe)
    have no: "j \<notin> \<Union> (blocks ` S)" if "j \<in> blocks f" for j
      using blocks_bytes [OF that pf] disj blocks_bytes coveringD(1) [OF c] S by blast
    have "{a div 8..<a div 8 + 9} \<subseteq> blocks f"
      using n div_le_mono [of "a + 72" "a + n" 8] by (auto simp: blocks_def fe)
    then have nine: "\<forall>j\<in>{a div 8..<a div 8 + 9}. j \<notin> \<Union> (blocks ` S)" using no by blast
    have "a + 72 \<le> L" using pf n True by (simp add: fe piece_def)
    then have "a div 8 + 9 \<le> L div 8" using div_le_mono [of "a + 72" L 8] by simp
    then show False using checked_nine [OF nine] * by blast
  qed
qed

lemma sum_pool_lens: "sum_list (pool_lens n) = n"
  by (induction n rule: pool_lens.induct) (subst pool_lens.simps, simp)

lemma sum_link_lens: "sum_list (link_lens n) = n"
  by (simp add: link_lens_def sum_pool_lens)

lemma concat_fill_chain: "concat (fill_chain ls bs) = take (sum_list ls) bs"
  by (induction ls bs rule: fill_chain.induct) (simp_all add: take_add)

text \<open>The header of the reassembled datagram.\<close>

definition whole_hdr :: "ip_hdr \<Rightarrow> nat \<Rightarrow> ip_hdr" where
  "whole_hdr h L = set_hdr_chksum (h \<lparr> ih_len := htons (of_nat (L + IP_HLEN)), ih_offset := 0 \<rparr>)"

lemma reass_finish_packet:
  assumes inv: "reass_inv h D fs r" and g: "\<exists>g\<in>set fs. is_last g" and L: "length D < 5760"
  shows "(case fst (reass_finish avail r) of
      None \<Rightarrow> avail < pool_need PBUF_LINK (of_nat (length D + 20))
    | Some p \<Rightarrow> concat p = ip_hdr_bytes (whole_hdr h (length D)) @ take (length D) (ip_reassbuf r)) \<and>
    ip_reasstmr (snd (reass_finish avail r)) = 0 \<and> length (ip_reassbuf (snd (reass_finish avail r))) = 5760"
proof -
  have len: "ip_reasslen r = of_nat (length D)" and b: "length (ip_reassbuf r) = 5760"
    using inv g by (auto simp: reass_inv_def is_last_def split: if_splits)
  define N :: u16 where "N = of_nat (length D) + of_nat IP_HLEN"
  have N1: "N = of_nat (length D + 20)" by (simp only: N_def IP_HLEN_def of_nat_add)
  have N2: "unat N = length D + 20" unfolding N1 using L by (simp only: unat_of_nat) simp
  have hdr: "set_hdr_chksum (ip_reasshdr r \<lparr> ih_len := htons N, ih_offset := 0 \<rparr>) = whole_hdr h (length D)"
  proof -
    have "ip_reasshdr r \<lparr> ih_len := htons N, ih_offset := 0, ih_chksum := 0 \<rparr> =
        h \<lparr> ih_len := htons N, ih_offset := 0, ih_chksum := 0 \<rparr>"
      using inv by (simp add: reass_inv_def)
    then show ?thesis unfolding whole_hdr_def
      by (metis N1 IP_HLEN_def set_hdr_chksum_upd)
  qed
  have "concat (fill_chain (link_lens (unat N)) (ip_hdr_bytes (whole_hdr h (length D)) @ ip_reassbuf r)) =
      ip_hdr_bytes (whole_hdr h (length D)) @ take (length D) (ip_reassbuf r)"
    by (simp add: concat_fill_chain sum_link_lens N2)
  then show ?thesis
    using b by (simp add: reass_finish_def Let_def len N_def [symmetric] hdr not_le N1 [symmetric] del: of_nat_add)
qed

lemma covered_data:
  assumes inv: "reass_inv h D fs r" and c: "covering m (length D) (set fs)" and L: "length D < 5760"
  shows "take (length D) (ip_reassbuf r) = D"
proof (rule nth_equalityI)
  have b: "length (ip_reassbuf r) = 5760" using inv by (simp add: reass_inv_def)
  then show "length (take (length D) (ip_reassbuf r)) = length D" using L by simp
  fix k
  assume "k < length (take (length D) (ip_reassbuf r))"
  then have k: "k < length D" "k < 5760" using b by simp_all
  then obtain a n mf where f: "(a, n, mf) \<in> set fs" "a \<le> k" "k < a + n"
    using coveringD(4) [OF c k(1)] by auto
  then have "take n (drop a (ip_reassbuf r)) = take n (drop a D)" using inv by (auto simp: reass_inv_def)
  from arg_cong [OF this, of "\<lambda>xs. xs ! (k - a)"] show "take (length D) (ip_reassbuf r) ! k = D ! k"
    using f k b by simp
qed

text \<open>The buffer before a fragment of the datagram arrives: idle, or with some fragments of it.\<close>

definition ready :: "ip_hdr \<Rightarrow> u8 list \<Rightarrow> (nat \<times> nat \<times> bool) list \<Rightarrow> reass \<Rightarrow> bool" where
  "ready h D fs r \<longleftrightarrow> (fs = [] \<and> ip_reasstmr r = 0 \<and> length (ip_reassbuf r) = 5760) \<or> reass_inv h D fs r"

lemma ready_begin: "ready h D fs r \<Longrightarrow> reass_inv h D fs (reass_begin (frag_hdr h a n mf) r)"
  unfolding ready_def using reass_begin_idle reass_begin_active by metis

lemma reass_run:
  assumes c: "covering 72 (length D) F" and L: "length D < 5760" and hl: "IPH_HL h = 5"
  shows "gs \<noteq> [] \<Longrightarrow> ready h D had r \<Longrightarrow> distinct (had @ gs) \<Longrightarrow> set (had @ gs) = F \<Longrightarrow>
    list_all2 (carries_frag h D) gs ps \<Longrightarrow>
    \<exists>r'. reass_inv h D (rev gs @ had) r' \<and>
      reass_all avail ps r = Some (replicate (length gs - 1) None @ [fst (reass_finish avail r')],
        snd (reass_finish avail r'))"
proof (induction gs arbitrary: had r ps)
  case (Cons g gs)
  obtain a n mf where g: "g = (a, n, mf)" by (cases g)
  obtain p qs where ps: "ps = p # qs" "carries_frag h D (a, n, mf) p" "list_all2 (carries_frag h D) gs qs"
    using Cons.prems(5) g by (cases ps) auto
  have P: "\<forall>f\<in>set had. piece (length D) f" "piece (length D) (a, n, mf)"
    using coveringD(1) [OF c] Cons.prems(4) g by auto
  obtain r1 where r1: "reass_inv h D ((a, n, mf) # had) r1"
    "ip_reass avail p r = Some (if (\<exists>f\<in>set ((a, n, mf) # had). is_last f) \<and>
        checked (length D) (\<Union> (blocks ` set ((a, n, mf) # had)))
      then reass_finish avail r1 else (None, r1))"
    using reass_step [OF ready_begin [OF Cons.prems(2)] P L hl ps(2)] by blast
  show ?case
  proof (cases "gs = []")
    case True
    have F: "set ((a, n, mf) # had) = F" using Cons.prems(4) True g by auto
    have "0 < length D" using pieceD(1,3) [OF P(2)] by linarith
    then have "\<exists>f\<in>F. is_last f" by (rule covering_last [OF c])
    then have "ip_reass avail p r = Some (reass_finish avail r1)"
      using r1(2) covering_blocks [OF c] checked_all unfolding F by simp
    then show ?thesis using r1(1) True ps g by (cases "reass_finish avail r1") auto
  next
    case False
    then obtain f where f: "f \<in> set gs" by (cases gs) auto
    have sub: "set ((a, n, mf) # had) \<subseteq> F" "f \<in> F" "f \<notin> set ((a, n, mf) # had)"
      using Cons.prems(3,4) f g by auto
    have "ip_reass avail p r = Some (None, r1)" using r1(2) unfolding if_not_P [OF missing_piece [OF c sub]] .
    moreover obtain r2 where "reass_inv h D (rev gs @ (a, n, mf) # had) r2"
      "reass_all avail qs r1 = Some (replicate (length gs - 1) None @ [fst (reass_finish avail r2)],
        snd (reass_finish avail r2))"
      using Cons.IH [OF False, of "(a, n, mf) # had" r1 qs] r1(1) Cons.prems(3,4) ps(3) g
      by (auto simp: ready_def)
    ultimately show ?thesis using False ps(1) g by (cases gs) auto
  qed
qed simp

text \<open>The whole datagram: nothing is delivered before the last of its fragments arrives, whatever
  their order, and then exactly the datagram, with the buffer idle again.\<close>

lemma reass_datagram:
  assumes c: "covering 72 (length D) F" and L: "length D < 5760" and hl: "IPH_HL h = 5"
    and gs: "gs \<noteq> []" "distinct gs" "set gs = F" and ps: "list_all2 (carries_frag h D) gs ps"
    and r: "ip_reasstmr r = 0" "length (ip_reassbuf r) = 5760"
    and pool: "pool_need PBUF_LINK (of_nat (length D + 20)) \<le> avail"
  shows "\<exists>p r'. reass_all avail ps r = Some (replicate (length gs - 1) None @ [Some p], r') \<and>
    concat p = ip_hdr_bytes (whole_hdr h (length D)) @ D \<and>
    ip_reasstmr r' = 0 \<and> length (ip_reassbuf r') = 5760"
proof -
  obtain r1 where r1: "reass_inv h D (rev gs) r1"
    "reass_all avail ps r = Some (replicate (length gs - 1) None @ [fst (reass_finish avail r1)],
        snd (reass_finish avail r1))"
    using reass_run [OF c L hl gs(1), of "[]" r ps avail] gs ps r by (auto simp: ready_def)
  obtain a n mf where "(a, n, mf) \<in> F" using gs(1,3) by (cases gs) auto
  then have "piece (length D) (a, n, mf)" using coveringD(1) [OF c] by blast
  then have "0 < length D" using pieceD(1,3) by fastforce
  then have "\<exists>g\<in>set (rev gs). is_last g" using covering_last [OF c] gs(3) by simp
  moreover have "take (length D) (ip_reassbuf r1) = D" using covered_data [OF r1(1) _ L] c gs(3) by simp
  ultimately show ?thesis
    using reass_finish_packet [OF r1(1) _ L, of avail] r1(2) pool
    by (cases "fst (reass_finish avail r1)") auto
qed

end
