(* ===== verification/Ip_Split.thy ===== *)
theory Ip_Split
  imports Ip_Reass "HOL-Library.Multiset"
begin

text \<open>
  What \<open>ip_frag\<close> sends, and fragmentation followed by reassembly.  The fragments of a payload of
  \<open>L\<close> bytes for a link that carries \<open>M\<close> bytes after the IP header are the pieces of
  \<open>pieces M L 0\<close>.
\<close>

section \<open>The pieces\<close>

function pieces :: "nat \<Rightarrow> nat \<Rightarrow> nat \<Rightarrow> (nat \<times> nat \<times> bool) list" where
  "pieces M L a = (if L - a \<le> M \<or> M < 8 then [(a, L - a, False)]
     else (a, M div 8 * 8, True) # pieces M L (a + M div 8 * 8))"
  by auto
termination
  by (relation "measure (\<lambda>(M, L, a). L - a)") (auto simp: div_greater_zero_iff)

declare pieces.simps [simp del]

lemma pieces_step:
  fixes M a L :: nat
  assumes "8 \<le> M" and "a < L"
  shows "\<not> L - a \<le> M \<Longrightarrow> 8 \<le> M div 8 * 8 \<and> M div 8 * 8 \<le> M \<and> a + M div 8 * 8 < L"
  using assms div_times_less_eq_dividend [of M 8] div_le_mono [of 8 M 8] by auto

lemma pieces_ok:
  "a < L \<Longrightarrow> 8 dvd a \<Longrightarrow>
    (\<forall>f\<in>set (pieces M L a). piece L f \<and> byte_range f \<subseteq> {a..<L}) \<and>
    (\<forall>(b, n, mf)\<in>set (pieces M L a). mf \<longrightarrow> n = M div 8 * 8) \<and>
    {a..<L} \<subseteq> \<Union> (byte_range ` set (pieces M L a)) \<and>
    (\<forall>f\<in>set (pieces M L a). \<forall>g\<in>set (pieces M L a). f \<noteq> g \<longrightarrow> byte_range f \<inter> byte_range g = {}) \<and>
    distinct (pieces M L a)"
proof (induction M L a rule: pieces.induct)
  case (1 M L a)
  show ?case
  proof (cases "L - a \<le> M \<or> M < 8")
    case True
    then have e: "pieces M L a = [(a, L - a, False)]" by (subst pieces.simps) simp
    have "piece L (a, L - a, False)" "byte_range (a, L - a, False) = {a..<L}"
      using "1.prems" by (auto simp: piece_def byte_range_def)
    then show ?thesis unfolding e by simp
  next
    case False
    define F where "F = M div 8 * 8"
    have F: "8 \<le> F" "a + F < L" "8 dvd F" using pieces_step [of M a L] False "1.prems" by (auto simp: F_def)
    have e: "pieces M L a = (a, F, True) # pieces M L (a + F)" using False by (subst pieces.simps) (simp add: F_def)
    define S where "S = set (pieces M L (a + F))"
    have "a + F < L" "8 dvd a + F" using F "1.prems" by auto
    note IH = "1.IH" [OF False, folded F_def, OF this, folded S_def]
    have i1: "piece L f" "byte_range f \<subseteq> {a + F..<L}" if "f \<in> S" for f using IH that by simp_all
    have i2: "{a + F..<L} \<subseteq> \<Union> (byte_range ` S)" using IH by simp
    have i3: "byte_range f \<inter> byte_range g = {}" if "f \<in> S" "g \<in> S" "f \<noteq> g" for f g using IH that by simp
    have hd: "piece L (a, F, True)" "byte_range (a, F, True) = {a..<a + F}"
      using F "1.prems" by (auto simp: piece_def byte_range_def)
    have sub: "{a + F..<L} \<subseteq> {a..<L}" "{a..<a + F} \<subseteq> {a..<L}" "{a..<L} = {a..<a + F} \<union> {a + F..<L}"
      "{a..<a + F} \<inter> {a + F..<L} = {}" "a \<in> {a..<a + F}" using F by auto
    have dis: "byte_range (a, F, True) \<inter> byte_range f = {}" if "f \<in> S" for f
      using i1(2) [OF that] sub(4) unfolding hd(2) by blast
    have new: "(a, F, True) \<notin> S" using dis [of "(a, F, True)"] sub(5) unfolding hd(2) by blast
    have "(\<forall>f\<in>insert (a, F, True) S. piece L f \<and> byte_range f \<subseteq> {a..<L})"
      using i1 hd sub(1,2) by blast
    moreover have "\<forall>(b, n, mf)\<in>insert (a, F, True) S. mf \<longrightarrow> n = F" using IH by blast
    moreover have "{a..<L} \<subseteq> \<Union> (byte_range ` insert (a, F, True) S)"
      using i2 unfolding sub(3) image_insert hd(2) by blast
    moreover have "\<forall>f\<in>insert (a, F, True) S. \<forall>g\<in>insert (a, F, True) S. f \<noteq> g \<longrightarrow> byte_range f \<inter> byte_range g = {}"
    proof (intro ballI impI)
      fix f g
      assume "f \<in> insert (a, F, True) S" "g \<in> insert (a, F, True) S" "f \<noteq> g"
      then consider "f = (a, F, True)" "g \<in> S" | "f \<in> S" "g = (a, F, True)" | "f \<in> S" "g \<in> S" by blast
      then show "byte_range f \<inter> byte_range g = {}"
      proof cases
        case 1
        then show ?thesis using dis by simp
      next
        case 2
        then show ?thesis using dis [of f] by (simp add: Int_commute)
      next
        case 3
        then show ?thesis using i3 \<open>f \<noteq> g\<close> by blast
      qed
    qed
    moreover have "distinct ((a, F, True) # pieces M L (a + F))" using IH new by (simp add: S_def)
    ultimately show ?thesis unfolding e F_def [symmetric] list.set S_def [symmetric] by (intro conjI)
  qed
qed

lemma pieces_covering:
  assumes "0 < L"
  shows "covering (M div 8 * 8) L (set (pieces M L 0))" "distinct (pieces M L 0)"
proof -
  note * = pieces_ok [OF assms dvd_0_right, of M]
  show "distinct (pieces M L 0)" using * by blast
  show "covering (M div 8 * 8) L (set (pieces M L 0))"
    unfolding covering_def lessThan_atLeast0 using * by fastforce
qed

section \<open>What is sent\<close>

text \<open>The frame of a piece: header and payload bytes, and, in a fragment that is not the last, up to
  seven bytes left over in the buffer.\<close>

definition frame_of :: "ip_hdr \<Rightarrow> u8 list \<Rightarrow> nat \<Rightarrow> nat \<times> nat \<times> bool \<Rightarrow> u8 list \<Rightarrow> bool" where
  "frame_of h D mtu = (\<lambda>(a, n, mf) x. length x \<le> mtu \<and>
     take (20 + n) x = ip_hdr_bytes (frag_hdr h a n mf) @ take n (drop a D))"

lemma frag_hdr_idem [simp]: "frag_hdr (frag_hdr h a n mf) a' n' mf' = frag_hdr h a' n' mf'"
  by (simp add: frag_hdr_def set_hdr_chksum_def Let_def)

lemma sdiv_8: "0 \<le> x \<Longrightarrow> (x :: int) sdiv 8 = x div 8"
  by (simp add: signed_divide_int_def sgn_if)

lemma frag_loop_hdr:
  assumes "a div 8 < 8192" and "\<forall>b n mf. frag_hdr hdr b n mf = frag_hdr h b n mf"
  shows "set_hdr_chksum (hdr \<lparr> ih_offset := htons (if l then 0 OR (IP_OFFMASK AND of_nat (a div 8))
        else (0 OR (IP_OFFMASK AND of_nat (a div 8))) OR IP_MF), ih_len := htons (of_nat n + of_nat IP_HLEN) \<rparr>) =
    frag_hdr h a n (\<not> l)"
proof -
  have "take_bit 13 (of_nat (a div 8) :: u16) = of_nat (a div 8)"
    using assms(1) by (simp add: take_bit_of_nat take_bit_nat_eq_self flip: of_nat_take_bit)
  then have "IP_OFFMASK AND of_nat (a div 8) = (of_nat (a div 8) :: u16)"
    by (simp add: take_bit_eq_mask mask_eq_exp_minus_1 cfg_defs and.commute)
  then show ?thesis using assms(2) [rule_format, of a n "\<not> l"] by (cases l) (simp_all add: frag_hdr_def)
qed

lemma frag_loop_ok:
  assumes M: "8 \<le> M" "M \<le> 1480" and mtu: "unat mtu = 20 + M" and ok: "\<forall>k. ok k" and L: "length D < 65516"
  shows "a < length D \<Longrightarrow> 8 dvd a \<Longrightarrow> ofo + nfb = of_nat (a div 8) \<Longrightarrow>
    unat left = length D - a \<Longrightarrow> p \<noteq> [] \<Longrightarrow> unat poff \<le> length (hd p) \<Longrightarrow>
    drop (unat poff) (concat p) = drop a D \<Longrightarrow> \<forall>q\<in>set p. length q < 65536 \<Longrightarrow> length dat = 1480 \<Longrightarrow>
    \<forall>b n mf. frag_hdr hdr b n mf = frag_hdr h b n mf \<Longrightarrow>
    \<exists>hdr' dat' p' fr. frag_loop ok mtu k hdr dat nfb ofo 0 left poff p passed sent =
        Some (hdr', dat', p', sent @ fr) \<and> length dat' = 1480 \<and>
      list_all2 (frame_of h D (20 + M)) (pieces M (length D) a) fr"
proof (induction "length D - a" arbitrary: a ofo nfb left p poff dat hdr k passed sent rule: less_induct)
  case less
  define lst where "lst = (length D - a \<le> M)"
  define F where "F = M div 8 * 8"
  have lst: "(int (unat left) \<le> int (unat mtu) - int IP_HLEN) = lst"
    using less.prems(1,4) mtu by (auto simp: lst_def IP_HLEN_def)
  define n where "n = (if lst then length D - a else F)"
  have F: "8 \<le> F" "F \<le> M" "8 dvd F"
    using M(1) div_times_less_eq_dividend [of M 8] div_le_mono [of 8 M 8] by (auto simp: F_def)
  have n: "0 < n" "n \<le> M" "a + n \<le> length D" "\<not> lst \<Longrightarrow> a + n < length D"
    using less.prems(1) F by (auto simp: n_def lst_def)
  define nfb' :: u16 where "nfb' = of_int ((int (unat mtu) - int IP_HLEN) sdiv 8)"
  have nfb': "nfb' = of_nat (M div 8)"
  proof -
    have "(int (unat mtu) - int IP_HLEN) sdiv 8 = int (M div 8)" by (simp add: mtu IP_HLEN_def sdiv_8 zdiv_int)
    then show ?thesis by (simp only: nfb'_def of_int_of_nat_eq)
  qed
  define cop where "cop = (if lst then left else nfb' * 8)"
  have cop: "unat cop = n" "cop = of_nat n"
  proof -
    have "nfb' * 8 = of_nat F" by (simp add: nfb' F_def)
    moreover have "unat (of_nat F :: u16) = F" using F(2) M(2) by (simp only: unat_of_nat) simp
    ultimately show u: "unat cop = n" using less.prems(4) by (simp add: cop_def n_def)
    show "cop = of_nat n" using u by (metis of_nat_unat ucast_id)
  qed
  obtain ps rest off where cp: "copy_from_pbuf p poff cop = Some (take n (drop a D), ps, rest, off)"
      "rest \<noteq> []" "unat off \<le> length (hd rest)" "\<forall>r\<in>set rest. length r < 65536"
      "drop (unat off) (concat rest) = drop (a + n) D"
  proof -
    have "length (drop (unat poff) (concat p)) = length D - a" using less.prems(7) by simp
    then have "unat poff + n \<le> length (concat p)" using n less.prems(1) by simp
    then obtain ps rest off where
      "copy_from_pbuf p poff cop = Some (take (unat cop) (drop (unat poff) (concat p)), ps, rest, off)"
      "rest \<noteq> []" "unat off \<le> length (hd rest)" "\<forall>r\<in>set rest. length r < 65536"
      "drop (unat off) (concat rest) = drop (unat poff + unat cop) (concat p)"
      using copy_from_pbuf_ok [OF less.prems(5,6), of cop] less.prems(8) cop(1) n(1) by auto
    moreover have "drop (unat poff + n) (concat p) = drop (a + n) D"
      using arg_cong [OF less.prems(7), of "drop n"] by (simp add: add.commute)
    ultimately show thesis using that less.prems(7) cop(1) by simp
  qed
  define hdr1 where "hdr1 = frag_hdr h a n (\<not> lst)"
  have a8: "a div 8 < 8192" using less.prems(1) L by linarith
  note hdr1 = frag_loop_hdr [OF a8 less.prems(10), where l = lst and n = n, folded hdr1_def]
  define dat1 where "dat1 = take n (drop a D) @ drop n dat"
  have lt: "length (take n (drop a D)) = n" using n(3) by simp
  have dat1: "length dat1 = 1480" using less.prems(9) lt n(2) M(2) by (simp add: dat1_def)
  define size where "size = (if lst then unat left + IP_HLEN else unat mtu)"
  have size: "20 + n \<le> size" "size \<le> 20 + M" "size \<le> 1500"
    using less.prems(4) n(2) mtu M(2) by (auto simp: size_def IP_HLEN_def n_def lst_def)
  define x where "x = take size (ip_hdr_bytes hdr1 @ dat1)"
  have x: "frame_of h D (20 + M) (a, n, \<not> lst) x"
  proof -
    have "take (20 + n) x = ip_hdr_bytes hdr1 @ take n dat1"
      unfolding x_def take_take min_absorb1 [OF size(1)] by simp
    moreover have "take n dat1 = take n (drop a D)" unfolding dat1_def using lt by simp
    moreover have "length x \<le> size" by (simp add: x_def)
    ultimately show ?thesis using size(2) by (simp add: frame_of_def hdr1_def)
  qed
  have nz: "left \<noteq> 0" using less.prems(1,4) by auto
  have step: "frag_loop ok mtu k hdr dat nfb ofo 0 left poff p passed sent =
      frag_loop ok mtu (k + 1) hdr1 dat1 nfb' (ofo + nfb) 0 (left - cop) off rest (passed @ ps) (sent @ [x])"
  proof -
    have room: "\<not> MAX_MTU - IP_HLEN < unat cop" "\<not> (\<not> ok k \<or> MAX_MTU < size)"
      using cop(1) n(2) M(2) ok size(3) by (simp_all add: cfg_defs)
    show ?thesis
      by (subst frag_loop.simps, unfold Let_def lst nfb'_def [symmetric] less.prems(3))
        (simp only: cop_def [symmetric] size_def [symmetric] hdr1 [folded cop(2)] nz room if_False
          cp(1) Option.bind.simps prod.case lt dat1_def [symmetric] x_def [symmetric])
  qed
  show ?case
  proof (cases lst)
    case True
    then have "left - cop = 0" "pieces M (length D) a = [(a, n, False)]"
      by (simp add: cop_def, subst pieces.simps) (simp add: lst_def n_def)
    then show ?thesis using x True dat1 unfolding step by (subst frag_loop.simps) auto
  next
    case False
    have e: "pieces M (length D) a = (a, n, True) # pieces M (length D) (a + n)"
      using False M(1) by (subst pieces.simps) (simp add: lst_def n_def F_def)
    have nF: "n = F" using False by (simp add: n_def)
    have dv: "8 dvd a + n" using less.prems(2) F(3) nF by simp
    have left: "unat (left - cop) = length D - (a + n)"
      using less.prems(4) cop(1) n(3) by (simp add: unat_sub word_le_nat_alt)
    have ofo: "ofo + nfb + nfb' = of_nat ((a + n) div 8)"
      using less.prems(2) F(3) by (simp add: less.prems(3) nfb' nF F_def div_plus_div_distrib_dvd_left)
    have hdr2: "\<forall>b n mf. frag_hdr hdr1 b n mf = frag_hdr h b n mf" by (simp add: hdr1_def)
    have less': "length D - (a + n) < length D - a" using n(1) less.prems(1) by simp
    obtain hdr' dat' p' fr where
      "frag_loop ok mtu (k + 1) hdr1 dat1 nfb' (ofo + nfb) 0 (left - cop) off rest (passed @ ps) (sent @ [x]) =
        Some (hdr', dat', p', (sent @ [x]) @ fr)" "length dat' = 1480"
      "list_all2 (frame_of h D (20 + M)) (pieces M (length D) (a + n)) fr"
      using less.hyps [OF less' n(4) [OF False] dv ofo left cp(2,3,5,4) dat1 hdr2] by blast
    then show ?thesis using x False unfolding step e by auto
  qed
qed

text \<open>Fragmentation.  For a packet larger than the MTU (28 to 1500 bytes) that is not itself a
  fragment, and when the allocations succeed, \<open>ip_frag\<close> ends and sends exactly the fragments of the
  payload, in order: each frame fits the MTU, starts with the packet's header changed only in
  length, offset, more-fragments flag and checksum, and carries its slice of the payload.\<close>

lemma frag_sends:
  assumes mtu: "28 \<le> unat (nif_mtu nif)" "unat (nif_mtu nif) \<le> 1500"
    and p: "p \<noteq> []" "20 \<le> length (hd p)" "ip_hdr_of (hd p) = Some h" "D = drop 20 (concat p)"
    and len: "D \<noteq> []" "length D < 65516"
    and off: "ntohs (ih_offset h) AND IP_OFFMASK = 0" "ntohs (ih_offset h) AND IP_MF = 0"
    and ok: "\<forall>k. ok k" and dat: "length dat = 1480"
  shows "\<exists>sent p' dat'. ip_frag ok nif dat p = Some (ERR_OK, sent, p', dat') \<and> length dat' = 1480 \<and>
    list_all2 (frame_of h D (unat (nif_mtu nif))) (pieces (unat (nif_mtu nif) - 20) (length D) 0) sent"
proof -
  define M where "M = unat (nif_mtu nif) - 20"
  have M: "8 \<le> M" "M \<le> 1480" "unat (nif_mtu nif) = 20 + M" using mtu by (auto simp: M_def)
  obtain q qs where pq: "p = q # qs" using p(1) by (cases p) auto
  have l: "length (concat p) = 20 + length D"
    using arg_cong [OF p(4), of length] len(1) by (cases "length (concat p) \<le> 20") auto
  have left: "unat (of_nat (length (concat p)) - of_nat IP_HLEN :: u16) = length D"
    using len(2) by (simp add: l IP_HLEN_def unat_of_nat)
  have small: "\<forall>r\<in>set p. length r < 65536"
  proof
    fix r
    assume "r \<in> set p"
    then show "length r < 65536" using length_concat_mem [of r p] l len(2) by simp
  qed
  have h20: "unat (of_nat IP_HLEN :: u16) = 20" by (simp add: IP_HLEN_def)
  have loop: "\<exists>hdr' dat' p' fr.
    frag_loop ok (nif_mtu nif) 1 h dat 0 0 0 (of_nat (length (concat p)) - of_nat IP_HLEN) (of_nat IP_HLEN) p [] [] =
      Some (hdr', dat', p', [] @ fr) \<and> length dat' = 1480 \<and>
    list_all2 (frame_of h D (20 + M)) (pieces M (length D) 0) fr"
    by (rule frag_loop_ok [OF M ok len(2)])
      (use len(1) left p(1,2) p(4) [symmetric] small dat h20 in simp_all)
  have hdr: "(case p of [] \<Rightarrow> None | q # _ \<Rightarrow> ip_hdr_of q) = Some h" using p(3) pq by simp
  from loop show ?thesis
    unfolding ip_frag_def hdr using off ok M(3) by (auto simp: M_def [symmetric])
qed

text \<open>C10: Fragmentation.  For a packet larger than the MTU (28 to 1500 bytes) that is not itself a
  fragment, and when the allocations succeed, \<open>ip_frag\<close> ends and sends exactly the fragments of the
  payload, in order: each frame fits the MTU, starts with the packet's header changed only in
  length, offset, more-fragments flag and checksum, and carries its slice of the payload.\<close>

theorem ip_frag_fragments:
  assumes "28 \<le> unat (nif_mtu nif)" "unat (nif_mtu nif) \<le> 1500"
    and "p \<noteq> []" "20 \<le> length (hd p)" "ip_hdr_of (hd p) = Some h" "D = drop 20 (concat p)"
    and "D \<noteq> []" "length D < 65516"
    and "ntohs (ih_offset h) AND IP_OFFMASK = 0" "ntohs (ih_offset h) AND IP_MF = 0"
    and "\<forall>k. ok k" "length dat = 1480"
  shows "\<exists>sent p' dat'. ip_frag ok nif dat p = Some (ERR_OK, sent, p', dat') \<and> length dat' = 1480 \<and>
    list_all2 (frame_of h D (unat (nif_mtu nif))) (pieces (unat (nif_mtu nif) - 20) (length D) 0) sent"
  using assms by (rule frag_sends)

definition ex_nif :: netif where
  "ex_nif = \<lparr> nif_ip_addr = 0x0100000a, nif_netmask = 0x00ffffff, nif_gw = 0, nif_state = 0, nif_mtu = 100,
     nif_flags = 3, nif_name = (110, 115), nif_num = 0 \<rparr>"

definition ex_hdr :: ip_hdr where
  "ex_hdr = \<lparr> ih_v_hl_tos = 0x0045, ih_len = 0xdc00, ih_id = 0x0700, ih_offset = 0x0040, ih_ttl_proto = 0x11ff,
     ih_chksum = 0, ih_src = 0x0100000a, ih_dest = 0x0200000a \<rparr>"

definition ex_data :: "u8 list" where
  "ex_data = map of_nat [0..<200]"

lemma ex_hdr_off: "ntohs (ih_offset ex_hdr) AND IP_OFFMASK = 0" "ntohs (ih_offset ex_hdr) AND IP_MF = 0"
    "IPH_HL ex_hdr = 5"
  by (simp_all add: ex_hdr_def ntohs_def htons_def cfg_defs IPH_HL_def)

theorem ip_frag_fragments_witness:
  "\<exists>sent p' dat'. ip_frag (\<lambda>_. True) ex_nif (replicate 1480 0) [ip_hdr_bytes ex_hdr, ex_data] =
      Some (ERR_OK, sent, p', dat') \<and> length dat' = 1480 \<and>
    list_all2 (frame_of ex_hdr ex_data (unat (nif_mtu ex_nif)))
      (pieces (unat (nif_mtu ex_nif) - 20) (length ex_data) 0) sent"
proof (rule ip_frag_fragments)
  show "ex_data \<noteq> []" "length ex_data < 65516" by (simp_all add: ex_data_def)
  show "ip_hdr_of (hd [ip_hdr_bytes ex_hdr, ex_data]) = Some ex_hdr"
    using ip_hdr_roundtrip [of ex_hdr "[]"] by simp
qed (use ex_hdr_off in \<open>simp_all add: ex_nif_def\<close>)

section \<open>Fragmentation followed by reassembly\<close>

text \<open>What \<open>ip_input\<close> cuts a frame to: the length its header states.\<close>

definition ip_trim :: "u8 list \<Rightarrow> u8 list" where
  "ip_trim x = (case ip_hdr_of x of None \<Rightarrow> x | Some h \<Rightarrow> take (unat (ntohs (ih_len h))) x)"

lemma frame_trim:
  assumes "frame_of h D mtu (a, n, mf) x" and "n < 65516"
  shows "ip_trim x = ip_hdr_bytes (frag_hdr h a n mf) @ take n (drop a D)"
proof -
  have t: "take (20 + n) x = ip_hdr_bytes (frag_hdr h a n mf) @ take n (drop a D)"
    using assms(1) by (simp add: frame_of_def)
  have "x = ip_hdr_bytes (frag_hdr h a n mf) @ take n (drop a D) @ drop (20 + n) x"
    using append_take_drop_id [of "20 + n" x] unfolding t by simp
  then have "ip_hdr_of x = Some (frag_hdr h a n mf)" by (metis ip_hdr_roundtrip)
  moreover have "unat (ntohs (ih_len (frag_hdr h a n mf))) = 20 + n"
  proof -
    have "ntohs (ih_len (frag_hdr h a n mf)) = of_nat (20 + n)"
      by (simp add: frag_hdr_def ntohs_def htons_htons IP_HLEN_def add.commute)
    then show ?thesis using assms(2) by (simp only: unat_of_nat) simp
  qed
  ultimately show ?thesis using t by (simp add: ip_trim_def)
qed

lemma mset_eq_map:
  "mset xs = mset (map f ys) \<Longrightarrow> \<exists>zs. mset zs = mset ys \<and> xs = map f zs"
proof (induction xs arbitrary: ys)
  case (Cons x xs)
  then have "x \<in> f ` set ys" by (metis list.set_intros(1) mset_eq_setD set_map)
  then obtain y where y: "y \<in> set ys" "x = f y" by blast
  have "mset (map f ys) = add_mset (f y) (mset (map f (remove1 y ys)))"
    using y(1) by (simp add: image_mset_add_mset [symmetric])
  then have "mset xs = mset (map f (remove1 y ys))" using Cons.prems y(2) by simp
  then obtain zs where "mset zs = mset (remove1 y ys)" "xs = map f zs" using Cons.IH by blast
  then show ?case using y by (intro exI [of _ "y # zs"]) simp
qed simp

text \<open>C9: Round trip, over a link with an MTU from 92 to 1500 and for a datagram that has a header without options, is itself not a
  fragment, and has a payload of at least one and less than 5760 bytes.  When memory suffices, \<open>ip_frag\<close> sends all its frames.  They
  may arrive in any order and split into pbufs in any way that leaves
  the header in one piece: \<open>ip_reass\<close>, starting idle and with enough pool pbufs, delivers nothing before the last of them
  arrives, then exactly the datagram, and is idle again.  With a smaller MTU this fails, since a packet can be taken for complete with a hole, and a
  larger payload does not fit into the reassembly buffer.\<close>

theorem frag_reass_roundtrip:
  assumes mtu: "92 \<le> unat (nif_mtu nif)" "unat (nif_mtu nif) \<le> 1500"
    and p: "p \<noteq> []" "20 \<le> length (hd p)" "ip_hdr_of (hd p) = Some h" "D = drop 20 (concat p)"
    and D: "D \<noteq> []" "length D < 5760"
    and h: "ntohs (ih_offset h) AND IP_OFFMASK = 0" "ntohs (ih_offset h) AND IP_MF = 0" "IPH_HL h = 5"
    and ok: "\<forall>k. ok k" "length dat = 1480"
    and r: "ip_reasstmr r = 0" "length (ip_reassbuf r) = 5760"
    and pool: "pool_need PBUF_LINK (of_nat (length D + 20)) \<le> avail"
  shows "\<exists>sent p' dat'. ip_frag ok nif dat p = Some (ERR_OK, sent, p', dat') \<and>
    (\<forall>ps. (\<forall>c\<in>set ps. c \<noteq> [] \<and> 20 \<le> length (hd c)) \<and> mset (map concat ps) = mset (map ip_trim sent) \<longrightarrow>
      (\<exists>q r'. reass_all avail ps r = Some (replicate (length sent - 1) None @ [Some q], r') \<and>
        concat q = ip_hdr_bytes (whole_hdr h (length D)) @ D \<and>
        ip_reasstmr r' = 0 \<and> length (ip_reassbuf r') = 5760))"
proof -
  define M where "M = unat (nif_mtu nif) - 20"
  define fs where "fs = pieces M (length D) 0"
  define g where "g = (\<lambda>(a, n, mf). ip_hdr_bytes (frag_hdr h a n mf) @ take n (drop a D))"
  have L: "0 < length D" "length D < 65516" using D by auto
  obtain sent p' dat' where s: "ip_frag ok nif dat p = Some (ERR_OK, sent, p', dat')"
    "list_all2 (frame_of h D (unat (nif_mtu nif))) fs sent"
    using frag_sends [OF _ mtu(2) p D(1) L(2) h(1,2) ok] mtu(1) by (auto simp: fs_def M_def)
  have c: "covering (M div 8 * 8) (length D) (set fs)" "distinct fs"
    using pieces_covering [OF L(1), of M] by (simp_all add: fs_def)
  have "72 \<le> M div 8 * 8" using mtu(1) div_le_mono [of 72 M 8] by (simp add: M_def)
  then have c72: "covering 72 (length D) (set fs)" using c(1) unfolding covering_def by force
  have nlt: "n < 65516" if "(a, n, mf) \<in> set fs" for a n mf
    using pieceD(1) [OF coveringD(1) [OF c(1) that]] L(2) by linarith
  have len: "length sent = length fs" using s(2) by (simp add: list_all2_lengthD)
  have trim: "map ip_trim sent = map g fs"
  proof (rule nth_equalityI)
    fix i
    assume "i < length (map ip_trim sent)"
    then have i: "i < length fs" "i < length sent" using len by simp_all
    obtain a n mf where f: "fs ! i = (a, n, mf)" by (cases "fs ! i")
    have "frame_of h D (unat (nif_mtu nif)) (a, n, mf) (sent ! i)"
      using list_all2_nthD [OF s(2) i(1)] f by simp
    then show "map ip_trim sent ! i = map g fs ! i"
      using i f frame_trim nlt [of a n mf] nth_mem [OF i(1)] by (simp add: g_def)
  qed (use len in simp)
  have "\<exists>q r'. reass_all avail ps r = Some (replicate (length sent - 1) None @ [Some q], r') \<and>
      concat q = ip_hdr_bytes (whole_hdr h (length D)) @ D \<and> ip_reasstmr r' = 0 \<and> length (ip_reassbuf r') = 5760"
    if ps: "\<forall>c\<in>set ps. c \<noteq> [] \<and> 20 \<le> length (hd c)" "mset (map concat ps) = mset (map ip_trim sent)" for ps
  proof -
    obtain gs where gs: "mset gs = mset fs" "map concat ps = map g gs"
      using mset_eq_map [of "map concat ps" g fs] ps(2) trim by auto
    have lg: "length gs = length ps" using gs(2) by (metis length_map)
    have car: "list_all2 (carries_frag h D) gs ps"
    proof (rule list_all2_all_nthI)
      fix i
      assume i: "i < length gs"
      have "concat (ps ! i) = g (gs ! i)" using arg_cong [OF gs(2), of "\<lambda>xs. xs ! i"] i lg by simp
      moreover have "ps ! i \<noteq> []" "20 \<le> length (hd (ps ! i))" using ps(1) i lg by simp_all
      ultimately show "carries_frag h D (gs ! i) (ps ! i)"
        by (cases "gs ! i") (simp add: carries_frag_def g_def)
    qed (rule lg)
    have "distinct gs" using gs(1) c(2) mset_eq_imp_distinct_iff by blast
    moreover have "set gs = set fs" using gs(1) by (rule mset_eq_setD)
    moreover have "length gs = length sent" using gs(1) len mset_eq_length by metis
    moreover have "fs \<noteq> []" unfolding fs_def by (subst pieces.simps) simp
    then have "gs \<noteq> []" using gs(1) by auto
    ultimately show ?thesis using reass_datagram [OF c72 D(2) h(3) _ _ _ car r pool] by simp
  qed
  then show ?thesis using s(1) by blast
qed

theorem frag_reass_roundtrip_witness:
  "\<exists>sent p' dat'. ip_frag (\<lambda>_. True) ex_nif (replicate 1480 0) [ip_hdr_bytes ex_hdr, ex_data] =
      Some (ERR_OK, sent, p', dat') \<and>
    (\<forall>ps. (\<forall>c\<in>set ps. c \<noteq> [] \<and> 20 \<le> length (hd c)) \<and> mset (map concat ps) = mset (map ip_trim sent) \<longrightarrow>
      (\<exists>q r'. reass_all 16 ps \<lparr> ip_reasshdr = ex_hdr, ip_reassbuf = replicate 5760 0,
            ip_reassbitmap = [], ip_reasslen = 0, ip_reassflags = 0, ip_reasstmr = 0 \<rparr> =
          Some (replicate (length sent - 1) None @ [Some q], r') \<and>
        concat q = ip_hdr_bytes (whole_hdr ex_hdr (length ex_data)) @ ex_data \<and>
        ip_reasstmr r' = 0 \<and> length (ip_reassbuf r') = 5760))"
proof (rule frag_reass_roundtrip)
  show "ex_data \<noteq> []" "length ex_data < 5760" by (simp_all add: ex_data_def)
  show "pool_need PBUF_LINK (of_nat (length ex_data + 20)) \<le> 16"
    by (simp add: ex_data_def pool_need_def layer_offset_def cfg_defs)
  show "ip_hdr_of (hd [ip_hdr_bytes ex_hdr, ex_data]) = Some ex_hdr"
    using ip_hdr_roundtrip [of ex_hdr "[]"] by simp
qed (use ex_hdr_off in \<open>simp_all add: ex_nif_def\<close>)

section \<open>Where reassembly goes wrong\<close>

text \<open>C32: The bitmap test skips the byte before the last one: a datagram with a hole of 64 bytes
  there is delivered.  The first \<open>64 * k\<close> bytes and the last \<open>n < 64\<close> bytes are enough to
  complete a datagram of \<open>64 * k + 64 + n\<close> bytes, whatever the 64 bytes in between should have
  been.\<close>

theorem ip_reass_hole:
  assumes "carries_frag h D (0, 64 * k, True) p1" "carries_frag h D (64 * k + 64, n, False) p2"
    and "0 < k" "0 < n" "n < 64" "length D = 64 * k + 64 + n" "length D < 5760" and hl: "IPH_HL h = 5"
    and r: "ip_reasstmr r = 0" "length (ip_reassbuf r) = 5760"
    and pool: "pool_need PBUF_LINK (of_nat (length D + 20)) \<le> avail"
  shows "\<exists>q r'. reass_all avail [p1, p2] r = Some ([None, Some q], r') \<and> length (concat q) = 20 + length D"
proof -
  let ?f1 = "(0, 64 * k, True)" and ?f2 = "(64 * k + 64, n, False)"
  have P: "piece (length D) ?f1" "piece (length D) ?f2" using assms(3-6) by (auto simp: piece_def)
  obtain r1 where r1: "reass_inv h D [?f1] r1" "ip_reass avail p1 r = Some (None, r1)"
    using reass_step [OF ready_begin [of h D "[]" r] _ P(1) assms(7) hl assms(1), of avail] r
    by (auto simp: ready_def is_last_def)
  have div: "length D div 64 = k + 1" using assms(5,6) by simp
  have "checked (length D) (\<Union> (blocks ` set [?f2, ?f1]))"
  proof -
    have b: "\<Union> (blocks ` set [?f2, ?f1]) = {..<8 * k} \<union> {8 * k + 8..<length D div 8}"
      using assms(6) by (auto simp: blocks_def)
    have "8 * k + 8 \<le> j" if "j div 8 = k + 1" for j using that by linarith
    then show ?thesis unfolding checked_def b div by auto
  qed
  then obtain r2 where r2: "reass_inv h D [?f2, ?f1] r2" "ip_reass avail p2 r1 = Some (reass_finish avail r2)"
    using reass_step [OF ready_begin [of h D "[?f1]" r1] _ P(2) assms(7) hl assms(2), of avail] r1(1) P(1)
    by (auto simp: ready_def is_last_def)
  have "\<exists>q. fst (reass_finish avail r2) = Some q \<and> length (concat q) = 20 + length D"
    using reass_finish_packet [OF r2(1) _ assms(7), of avail] pool r2(1) assms(7)
    by (cases "fst (reass_finish avail r2)") (auto simp: is_last_def reass_inv_def)
  then show ?thesis using r1(2) r2(2) by (cases "reass_finish avail r2") auto
qed

theorem ip_reass_hole_witness:
  "\<exists>q r'. reass_all 16 [[ip_hdr_bytes (frag_hdr ex_hdr 0 64 True) @ take 64 (take 136 ex_data)],
        [ip_hdr_bytes (frag_hdr ex_hdr 128 8 False), take 8 (drop 128 (take 136 ex_data))]]
      \<lparr> ip_reasshdr = ex_hdr, ip_reassbuf = replicate 5760 0,
            ip_reassbitmap = [], ip_reasslen = 0, ip_reassflags = 0, ip_reasstmr = 0 \<rparr> = Some ([None, Some q], r') \<and>
    length (concat q) = 20 + length (take 136 ex_data)"
proof (rule ip_reass_hole [where h = ex_hdr and k = 1 and n = 8])
  show "pool_need PBUF_LINK (of_nat (length (take 136 ex_data) + 20)) \<le> 16"
    by (simp add: ex_data_def pool_need_def layer_offset_def cfg_defs)
qed (use ex_hdr_off in \<open>simp_all add: carries_frag_def ex_data_def\<close>)

text \<open>The reassembly buffer is never given up.  Once a fragment has been accepted, every packet
  that belongs to another datagram is dropped and leaves the buffer as it is, for however long the
  missing fragments stay away: the timer that should age the buffer is not run in this build.\<close>

theorem ip_reass_blocked:
  assumes "ip_reasstmr r \<noteq> 0"
    and "\<forall>p\<in>set ps. p \<noteq> [] \<and> (\<exists>f. ip_hdr_of (hd p) = Some f \<and> \<not> reass_match f r)"
  shows "reass_all avail ps r = Some (replicate (length ps) None, r)"
  using assms(2)
proof (induction ps)
  case (Cons p ps)
  then obtain q qs f where "p = q # qs" "ip_hdr_of q = Some f" "\<not> reass_match f r" by (cases p) auto
  then have "ip_reass avail p r = Some (None, r)" using assms(1) by (simp add: ip_reass_def reass_begin_def)
  then show ?case using Cons by simp
qed simp

theorem ip_reass_blocked_witness:
  "reass_all 16 [[ip_hdr_bytes ex_hdr], [ip_hdr_bytes ex_hdr, [1, 2]]]
      \<lparr> ip_reasshdr = ex_hdr \<lparr> ih_id := 1 \<rparr>, ip_reassbuf = [], ip_reassbitmap = [], ip_reasslen = 0,
         ip_reassflags = 0, ip_reasstmr = 30 \<rparr> =
    Some ([None, None], \<lparr> ip_reasshdr = ex_hdr \<lparr> ih_id := 1 \<rparr>, ip_reassbuf = [], ip_reassbitmap = [],
         ip_reasslen = 0, ip_reassflags = 0, ip_reasstmr = 30 \<rparr>)"
  using ip_reass_blocked [of "\<lparr> ip_reasshdr = ex_hdr \<lparr> ih_id := 1 \<rparr>, ip_reassbuf = [], ip_reassbitmap = [],
      ip_reasslen = 0, ip_reassflags = 0, ip_reasstmr = 30 \<rparr>"
      "[[ip_hdr_bytes ex_hdr], [ip_hdr_bytes ex_hdr, [1, 2]]]" 16] ip_hdr_roundtrip [of ex_hdr "[]"]
  by (simp add: reass_match_def ex_hdr_def)

text \<open>A fragment that ends exactly at the end of the reassembly buffer makes \<open>ip_reass\<close> index
  the bitmap one past its end.\<close>

theorem ip_reass_overrun:
  assumes "carries_frag h D (a, n, mf) p" "8 dvd a" "0 < n" "a + n = 5760" "length D = 5760" "IPH_HL h = 5"
    and "ip_reasstmr r = 0" "length (ip_reassbuf r) = 5760"
  shows "ip_reass avail p r = None"
proof -
  have an: "a < 5760" "n < 65516" "a + n \<le> length D" using assms(3-5) by auto
  note pD = carries_fragD [OF assms(1) an(3,2)]
  obtain q qs where pq: "p = q # qs" using pD(1) by (cases p) auto
  define fh where "fh = frag_hdr h a n mf"
  have v: "unat (reass_len fh) = n" "unat (reass_offset fh) = a"
    unfolding fh_def using frag_len [OF assms(6) an(2)] frag_off [OF assms(2) an(1)] by simp_all
  have I: "reass_inv h D [] (reass_begin fh r)" using assms(7,8) unfolding fh_def by (rule reass_begin_idle)
  have d: "a div 64 < 90" "(a + n) div 64 = 90" using an(1) assms(4) by auto
  have "bm_mark a n (ip_reassbitmap (reass_begin fh r)) = None"
  proof -
    define bm where "bm = ip_reassbitmap (reass_begin fh r)"
    have l: "length bm = 90" using I by (simp add: reass_inv_def bm_def)
    obtain b1 where b1: "bm_or (a div 64) (bitmap_bits ! (a div 8 mod 8)) bm = Some b1" "length b1 = 90"
      using bm_or_has [of "a div 64" bm] d(1) l by auto
    obtain b2 where "bm_fill (1 + a div 64) (90 - (1 + a div 64)) b1 = Some b2" "length b2 = 90"
      using bm_fill_has [of "1 + a div 64" "90 - (1 + a div 64)" b1] d(1) b1(2) by auto
    then show ?thesis using b1(1) d unfolding bm_def [symmetric] by (simp add: bm_mark_def Let_def bm_or_def [of 90])
  qed
  moreover have "reass_match fh (reass_begin fh r)"
    using I by (simp add: reass_inv_def reass_match_def fh_def)
  moreover have "ip_hdr_of q = Some fh" using pD(2) pq by (simp add: fh_def)
  ultimately show ?thesis
    using pq assms(4) by (cases "copy_from_pbuf p (IPH_HL fh * 4) (reass_len fh)")
      (auto simp: ip_reass_def Let_def v IP_REASS_BUFSIZE_def)
qed

theorem ip_reass_overrun_witness:
  "ip_reass 16 [ip_hdr_bytes (frag_hdr ex_hdr 5752 8 False), take 8 (drop 5752 (replicate 5760 7))]
      \<lparr> ip_reasshdr = ex_hdr, ip_reassbuf = replicate 5760 0,
         ip_reassbitmap = [], ip_reasslen = 0, ip_reassflags = 0, ip_reasstmr = 0 \<rparr> = None"
  by (rule ip_reass_overrun [where h = ex_hdr and D = "replicate 5760 7" and a = 5752 and n = 8 and mf = False])
    (use ex_hdr_off in \<open>simp_all add: carries_frag_def\<close>)

end
