(* ===== verification/Ip_Out.thy ===== *)
theory Ip_Out
  imports Ip_Split
begin

text \<open>
  Sending IP packets (\<open>ip_output_if\<close> and \<open>ip_output\<close> of
  \<open>src/nsc-0.5.3/lwip-HEAD/src/core/ipv4/ip.c\<close>).  A packet to be sent is a chain of payloads
  together with the bytes in front of the first payload inside its buffer, which is what
  \<open>pbuf_header\<close> can claim; a \<open>PBUF_REF\<close> or \<open>PBUF_ROM\<close> pbuf has no such room.  The frames
  handed to the drivers are recorded in order with the interface and the next destination.
\<close>

section \<open>Packets and the state of the layer\<close>

record pkt =
  pk_room :: "u8 list option"
  pk_chain :: "u8 list list"

definition pk_len :: "pkt \<Rightarrow> nat" where
  "pk_len p = length (concat (pk_chain p))"

text \<open>\<open>pbuf_header\<close> with a positive increment; \<open>None\<close> when it reports failure.\<close>

definition pk_header :: "nat \<Rightarrow> pkt \<Rightarrow> pkt option" where
  "pk_header n p =
    (case (pk_room p, pk_chain p) of
       (Some pre, q # qs) \<Rightarrow>
         if length pre < n then None
         else Some (p \<lparr> pk_room := Some (take (length pre - n) pre),
                        pk_chain := (drop (length pre - n) pre @ q) # qs \<rparr>)
     | _ \<Rightarrow> None)"

record ipenv =
  e_ok :: "nat \<Rightarrow> bool"
  e_drv :: "addr \<Rightarrow> u8 list list \<Rightarrow> err_t"

record ipstate =
  i_net :: nstate
  i_frames :: "(addr \<times> u32 \<times> u8 list list) list"
  i_dat :: "u8 list"
  i_allocs :: nat

definition ERR_RTE :: err_t where [cfg_defs]: "ERR_RTE = -9"

text \<open>The allocator of the layer: the outcome of the next allocation.\<close>

definition ip_alloc :: "ipenv \<Rightarrow> 'a ipstate_scheme \<Rightarrow> bool \<times> 'a ipstate_scheme" where
  "ip_alloc env s = (e_ok env (i_allocs s), s \<lparr> i_allocs := i_allocs s + 1 \<rparr>)"

definition send_frame :: "addr \<Rightarrow> u32 \<Rightarrow> u8 list list \<Rightarrow> 'a ipstate_scheme \<Rightarrow> 'a ipstate_scheme" where
  "send_frame a dest c s = s \<lparr> i_frames := i_frames s @ [(a, dest, c)] \<rparr>"

section \<open>The header of a new packet\<close>

text \<open>The assignments of \<open>ip_output_if\<close> in their order, on whatever was in the memory of the
  header before; \<open>ip_id\<close> is a local variable that is 0 when it is used.\<close>

definition ip_build_hdr :: "u16 \<Rightarrow> u32 \<Rightarrow> u32 \<Rightarrow> u8 \<Rightarrow> u8 \<Rightarrow> u8 \<Rightarrow> netif \<Rightarrow> ip_hdr \<Rightarrow> ip_hdr" where
  "ip_build_hdr tot src dest t ts proto nif h =
    (let h = IPH_TTL_SET t h;
         h = IPH_PROTO_SET proto h;
         h = h \<lparr> ih_dest := dest \<rparr>;
         h = IPH_VHLTOS_SET 4 (of_nat (IP_HLEN div 4)) ts h;
         h = h \<lparr> ih_len := htons tot \<rparr>;
         h = h \<lparr> ih_offset := htons IP_DF \<rparr>;
         h = h \<lparr> ih_id := htons 0 \<rparr>;
         h = (if src = 0 then h \<lparr> ih_src := nif_ip_addr nif \<rparr> else h \<lparr> ih_src := src \<rparr>)
     in set_hdr_chksum h)"

text \<open>The second half: too large packets are fragmented, the others go to the driver.\<close>

definition ip_transmit :: "ipenv \<Rightarrow> pkt \<Rightarrow> u32 \<Rightarrow> addr \<Rightarrow> netif \<Rightarrow> 'a ipstate_scheme \<Rightarrow>
    (err_t \<times> pkt \<times> 'a ipstate_scheme) option" where
  "ip_transmit env p dest a nif s =
    (if nif_mtu nif \<noteq> 0 \<and> (of_nat (pk_len p) :: u16) > nif_mtu nif
     then do {
       (err, sent, chain, dat) \<leftarrow> ip_frag (\<lambda>k. e_ok env (i_allocs s + k)) nif (i_dat s) (pk_chain p);
       let s = s \<lparr> i_dat := dat, i_allocs := i_allocs s + 1 + length sent \<rparr>;
       Some (err, p \<lparr> pk_chain := chain \<rparr>, fold (\<lambda>f. send_frame a dest [[], f]) sent s)
     }
     else Some (e_drv env a (pk_chain p), p, send_frame a dest (pk_chain p) s))"

text \<open>A missing destination (\<open>IP_HDRINCL\<close>) means that the packet already has its header.\<close>

definition ip_output_if :: "ipenv \<Rightarrow> pkt \<Rightarrow> u32 \<Rightarrow> u32 option \<Rightarrow> u8 \<Rightarrow> u8 \<Rightarrow> u8 \<Rightarrow> addr \<Rightarrow>
    'a ipstate_scheme \<Rightarrow> (err_t \<times> pkt \<times> 'a ipstate_scheme) option" where
  "ip_output_if env p src dest t ts proto a s = do {
     nif \<leftarrow> netifs (i_net s) a;
     case dest of
       Some d \<Rightarrow>
         (case pk_header IP_HLEN p of
            None \<Rightarrow> Some (ERR_BUF, p, s)
          | Some p \<Rightarrow> do {
              h \<leftarrow> ip_hdr_of (hd (pk_chain p));
              let h = ip_build_hdr (of_nat (pk_len p)) src d t ts proto nif h;
              let p = p \<lparr> pk_chain := (ip_hdr_bytes h @ drop IP_HLEN (hd (pk_chain p))) # tl (pk_chain p) \<rparr>;
              ip_transmit env p d a nif s
            })
     | None \<Rightarrow> do {
         h \<leftarrow> (case pk_chain p of [] \<Rightarrow> None | q # _ \<Rightarrow> ip_hdr_of q);
         ip_transmit env p (ih_dest h) a nif s
       }
   }"

definition ip_output_p :: "ipenv \<Rightarrow> pkt \<Rightarrow> u32 \<Rightarrow> u32 \<Rightarrow> u8 \<Rightarrow> u8 \<Rightarrow> u8 \<Rightarrow>
    'a ipstate_scheme \<Rightarrow> (err_t \<times> pkt \<times> 'a ipstate_scheme) option" where
  "ip_output_p env p src dest t ts proto s =
    (case ip_route dest (i_net s) of
       None \<Rightarrow> Some (ERR_RTE, p, s)
     | Some a \<Rightarrow> ip_output_if env p src (Some dest) t ts proto a s)"

section \<open>The header is well formed\<close>

definition new_hdr :: "u16 \<Rightarrow> u32 \<Rightarrow> u32 \<Rightarrow> u8 \<Rightarrow> u8 \<Rightarrow> u8 \<Rightarrow> ip_hdr" where
  "new_hdr tot src dest t ts proto = set_hdr_chksum
    \<lparr> ih_v_hl_tos = htons (0x4500 OR ucast ts), ih_len = htons tot, ih_id = 0, ih_offset = htons IP_DF,
      ih_ttl_proto = htons (ucast proto OR push_bit 8 (ucast t)), ih_chksum = 0, ih_src = src, ih_dest = dest \<rparr>"

text \<open>Packing two bytes into a 16-bit field and taking them out again.\<close>

lemma bit_u8D: "bit (b :: u8) n \<Longrightarrow> n < 8"
  using bit_u8_high [of n b] by (metis not_less)

lemma pack_bytes:
  fixes a b :: u8 and w :: u16
  shows "drop_bit 8 (ucast a :: u16) = 0" "drop_bit 12 (ucast a :: u16) = 0"
    "drop_bit 8 (push_bit 8 (ucast b)) = (ucast b :: u16)" "take_bit 8 (ucast a) = (ucast a :: u16)"
    "take_bit 8 (push_bit 8 w) = 0" "drop_bit 8 (take_bit 8 w) = 0"
  by (auto intro!: bit_word_eqI simp: bit_simps dest: bit_u8D)

lemma ttl_byte: "IPH_TTL (IPH_TTL_SET t h) = ucast t"
  by (simp add: IPH_TTL_def IPH_TTL_SET_def ntohs_def htons_htons IPH_PROTO_def mask_take pack_bytes drop_bit_or)

text \<open>What was in memory before does not matter.\<close>

lemma ip_build_hdr_new:
  "ip_build_hdr tot src dest t ts proto nif h =
    new_hdr tot (if src = 0 then nif_ip_addr nif else src) dest t ts proto"
proof -
  have z: "htons 0 = 0" by (simp add: htons_def)
  have v: "(16384 OR 1280 OR ucast ts :: u16) = 17664 OR ucast ts"
    unfolding or.assoc [symmetric] by simp
  have "htons (ucast proto OR push_bit 8 (IPH_TTL (IPH_TTL_SET t h))) = htons (ucast proto OR push_bit 8 (ucast t))"
    by (simp only: ttl_byte)
  then show ?thesis
    by (cases h) (simp add: ip_build_hdr_def new_hdr_def Let_def IPH_VHLTOS_SET_def IPH_TTL_SET_def IPH_PROTO_SET_def
        set_hdr_chksum_def IP_HLEN_def z v)
qed

lemma new_hdr_sel:
  "IPH_V (new_hdr tot src dest t ts proto) = 4" "IPH_HL (new_hdr tot src dest t ts proto) = 5"
  "IPH_TOS (new_hdr tot src dest t ts proto) = ucast ts" "IPH_TTL (new_hdr tot src dest t ts proto) = ucast t"
  "IPH_PROTO (new_hdr tot src dest t ts proto) = ucast proto"
  "ntohs (ih_len (new_hdr tot src dest t ts proto)) = tot"
  "ih_src (new_hdr tot src dest t ts proto) = src" "ih_dest (new_hdr tot src dest t ts proto) = dest"
  "ntohs (ih_offset (new_hdr tot src dest t ts proto)) = IP_DF" "ih_id (new_hdr tot src dest t ts proto) = 0"
  by (simp_all add: new_hdr_def IPH_V_def IPH_HL_def IPH_TOS_def IPH_TTL_def IPH_PROTO_def ntohs_def htons_htons
      mask_take drop_bit_or take_bit_or pack_bytes)

lemma set_hdr_chksum_verifies: "inet_chksum (ip_hdr_bytes (set_hdr_chksum h)) = 0"
proof -
  let ?xs = "take 10 (ip_hdr_bytes (h \<lparr> ih_chksum := 0 \<rparr>))" and ?ys = "mem32 (ih_src h) @ mem32 (ih_dest h)"
  have e: "ip_hdr_bytes (h \<lparr> ih_chksum := c \<rparr>) = ?xs @ [ucast c, ucast (drop_bit 8 c)] @ ?ys" for c
    by (simp add: ip_hdr_bytes_def le16_def)
  show ?thesis
    unfolding set_hdr_chksum_def Let_def
    using chksum_verifies [of ?xs ?ys] e [of 0] e [of "inet_chksum (ip_hdr_bytes (h \<lparr> ih_chksum := 0 \<rparr>))"]
    by (simp add: mem32_def)
qed

section \<open>What is handed to the driver\<close>

lemma pk_header_room:
  assumes "pk_room p = Some pre" "n \<le> length pre" "pk_chain p = q # qs"
  shows "\<exists>p' g. pk_header n p = Some p' \<and> pk_chain p' = (g @ q) # qs \<and> length g = n"
  using assms by (intro exI [of _ "p \<lparr> pk_room := Some (take (length pre - n) pre),
      pk_chain := (drop (length pre - n) pre @ q) # qs \<rparr>"] exI [of _ "drop (length pre - n) pre"])
    (simp add: pk_header_def)

lemma transmit_small:
  assumes "nif_mtu nif = 0 \<or> pk_len p \<le> unat (nif_mtu nif)" and "pk_len p < 65536"
  shows "ip_transmit env p d a nif s = Some (e_drv env a (pk_chain p), p, send_frame a d (pk_chain p) s)"
proof -
  have "unat (of_nat (pk_len p) :: u16) = pk_len p" using assms(2) by (simp only: unat_of_nat) simp
  then have "\<not> (nif_mtu nif \<noteq> 0 \<and> (of_nat (pk_len p) :: u16) > nif_mtu nif)"
    using assms(1) by (simp only: word_less_nat_alt) auto
  then show ?thesis by (simp only: ip_transmit_def if_False)
qed

lemma output_if_frame:
  fixes src d :: u32 and t ts proto :: u8
  assumes nif: "netifs (i_net s) a = Some nif" and room: "pk_room p = Some pre" "20 \<le> length pre"
    and p: "pk_chain p = q # qs" and mtu: "nif_mtu nif = 0 \<or> pk_len p + 20 \<le> unat (nif_mtu nif)"
    and len: "pk_len p + 20 < 65536"
  defines "h \<equiv> new_hdr (of_nat (pk_len p + 20)) (if src = 0 then nif_ip_addr nif else src) d t ts proto"
  shows "\<exists>p'. ip_output_if env p src (Some d) t ts proto a s =
      Some (e_drv env a ((ip_hdr_bytes h @ q) # qs), p', send_frame a d ((ip_hdr_bytes h @ q) # qs) s)"
proof -
  obtain p1 g where p1: "pk_header 20 p = Some p1" "pk_chain p1 = (g @ q) # qs" "length g = 20"
    using pk_header_room [OF room p] by blast
  obtain h0 where h0: "ip_hdr_of (g @ q) = Some h0" using p1(3) by (simp add: ip_hdr_of_def IP_HLEN_def)
  have l: "pk_len p1 = pk_len p + 20" using p1(2,3) p by (simp add: pk_len_def)
  define p2 where "p2 = p1 \<lparr> pk_chain := (ip_hdr_bytes h @ q) # qs \<rparr>"
  have l2: "pk_len p2 = pk_len p + 20" using p by (simp add: p2_def pk_len_def)
  have "ip_transmit env p2 d a nif s =
      Some (e_drv env a ((ip_hdr_bytes h @ q) # qs), p2, send_frame a d ((ip_hdr_bytes h @ q) # qs) s)"
    using transmit_small [of nif p2] mtu len by (simp only: l2) (simp add: p2_def)
  moreover have "ip_output_if env p src (Some d) t ts proto a s = ip_transmit env p2 d a nif s"
    by (simp add: ip_output_if_def nif IP_HLEN_def p1 h0 Let_def ip_build_hdr_new l h_def [symmetric] p2_def
        del: of_nat_add)
  ultimately show ?thesis by auto
qed

text \<open>Sending a packet that fits the link: \<open>ip_output_if\<close> hands the driver exactly one frame, the
  payload behind a header of version 4 and 20 bytes with the given addresses, protocol and time to
  live, the right total length, and a checksum that verifies.\<close>

theorem ip_output_if_sends:
  assumes "netifs (i_net s) a = Some nif" "pk_room p = Some pre" "20 \<le> length pre"
    and "pk_chain p = q # qs" "nif_mtu nif = 0 \<or> pk_len p + 20 \<le> unat (nif_mtu nif)" "pk_len p + 20 < 65536"
  shows "\<exists>p' h. ip_output_if env p src (Some d) t ts proto a s =
      Some (e_drv env a ((ip_hdr_bytes h @ q) # qs), p', send_frame a d ((ip_hdr_bytes h @ q) # qs) s) \<and>
    IPH_V h = 4 \<and> IPH_HL h = 5 \<and> IPH_PROTO h = ucast proto \<and> IPH_TTL h = ucast t \<and>
    unat (ntohs (ih_len h)) = 20 + length (concat (q # qs)) \<and> ih_dest h = d \<and>
    ih_src h = (if src = 0 then nif_ip_addr nif else src) \<and> inet_chksum (ip_hdr_bytes h) = 0"
proof -
  have "unat (of_nat (pk_len p + 20) :: u16) = 20 + length (concat (q # qs))"
    using assms(4,6) by (simp only: unat_of_nat) (simp add: pk_len_def)
  moreover have "inet_chksum (ip_hdr_bytes (new_hdr tot sr d t ts proto)) = 0" for tot sr
    unfolding new_hdr_def by (rule set_hdr_chksum_verifies)
  ultimately show ?thesis
    using output_if_frame [OF assms, of env src d t ts proto] by (fastforce simp: new_hdr_sel)
qed

definition ex_ip :: ipstate where
  "ex_ip = \<lparr> i_net = \<lparr> netifs = [7 \<mapsto> ex_nif], netif_list = [7], netif_default = Some 7, netifnum = 1 \<rparr>,
     i_frames = [], i_dat = replicate 1480 0, i_allocs = 0 \<rparr>"

definition ex_ienv :: ipenv where
  "ex_ienv = \<lparr> e_ok = (\<lambda>_. True), e_drv = (\<lambda>_ _. ERR_OK) \<rparr>"

theorem ip_output_if_sends_witness:
  "\<exists>p' h. ip_output_if ex_ienv \<lparr> pk_room = Some (replicate 34 0), pk_chain = [[1, 2], [3]] \<rparr> 0 (Some 0x0200000a) 255 0 17 7 ex_ip =
      Some (e_drv ex_ienv 7 ((ip_hdr_bytes h @ [1, 2]) # [[3]]), p', send_frame 7 0x0200000a ((ip_hdr_bytes h @ [1, 2]) # [[3]]) ex_ip) \<and>
    IPH_V h = 4 \<and> IPH_HL h = 5 \<and> IPH_PROTO h = ucast (17 :: u8) \<and> IPH_TTL h = ucast (255 :: u8) \<and>
    unat (ntohs (ih_len h)) = 20 + length (concat ([1, 2] # [[3 :: u8]])) \<and> ih_dest h = 0x0200000a \<and>
    ih_src h = (if (0 :: u32) = 0 then nif_ip_addr ex_nif else 0) \<and> inet_chksum (ip_hdr_bytes h) = 0"
  by (rule ip_output_if_sends [where pre = "replicate 34 0"]) (simp_all add: ex_ip_def ex_nif_def pk_len_def)

end
