(* ===== verification/Icmp.thy ===== *)
theory Icmp
  imports Ip_Out
begin

text \<open>
  ICMP (\<open>src/nsc-0.5.3/lwip-HEAD/src/core/ipv4/icmp.c\<close>).  A received packet is the chain of its
  payloads, starting with the IP header in the first pbuf; the header and the ICMP message are
  read and changed in place.  \<open>None\<close> stands for an access outside the payload of a pbuf or through
  a null pointer.
\<close>

definition ICMP_ER :: u8 where [cfg_defs]: "ICMP_ER = 0"
definition ICMP_DUR :: u8 where [cfg_defs]: "ICMP_DUR = 3"
definition ICMP_ECHO :: u8 where [cfg_defs]: "ICMP_ECHO = 8"
definition ICMP_TTL :: u8 where [cfg_defs]: "ICMP_TTL = 255"

datatype icmp_dur_type = ICMP_DUR_NET | ICMP_DUR_HOST | ICMP_DUR_PROTO | ICMP_DUR_PORT | ICMP_DUR_FRAG | ICMP_DUR_SR

fun dur_code :: "icmp_dur_type \<Rightarrow> u8" where
  "dur_code ICMP_DUR_NET = 0"
| "dur_code ICMP_DUR_HOST = 1"
| "dur_code ICMP_DUR_PROTO = 2"
| "dur_code ICMP_DUR_PORT = 3"
| "dur_code ICMP_DUR_FRAG = 4"
| "dur_code ICMP_DUR_SR = 5"

text \<open>The length of an IP header in bytes.\<close>

definition hdr_len :: "ip_hdr \<Rightarrow> nat" where
  "hdr_len h = unat (IPH_HL h * 4)"

section \<open>Echo\<close>

text \<open>The adjustment of the checksum when the type goes from 8 to 0.\<close>

definition echo_chksum :: "u16 \<Rightarrow> u16" where
  "echo_chksum c =
    (if c \<ge> htons (0xffff - push_bit 8 (ucast ICMP_ECHO)) then c + (htons (push_bit 8 (ucast ICMP_ECHO)) + 1)
     else c + htons (push_bit 8 (ucast ICMP_ECHO)))"

text \<open>The reply made out of a request: the message starts with type, code and checksum, and the two
  addresses of the IP header change places.\<close>

definition echo_reply :: "u8 list \<Rightarrow> u8 list" where
  "echo_reply m =
    (let c = echo_chksum (load16 (m ! 2) (m ! 3))
     in [ICMP_ER, m ! 1] @ le16 c @ drop 4 m)"

definition icmp_input :: "ipenv \<Rightarrow> u8 list list \<Rightarrow> addr \<Rightarrow> 'a ipstate_scheme \<Rightarrow> 'a ipstate_scheme option" where
  "icmp_input env p inp s = do {
     nif \<leftarrow> netifs (i_net s) inp;
     h \<leftarrow> (case p of [] \<Rightarrow> None | q # _ \<Rightarrow> ip_hdr_of q);
     let hlen = hdr_len h;
     if length (hd p) < hlen then None
     else do {
       let m = drop hlen (hd p);
       let tot = length (concat (m # tl p));
       if tot < 4 then Some s
       else if length m < 2 then None
       else if m ! 0 = ICMP_ECHO then
         (if ip_addr_isbroadcast (ih_dest h) nif \<or> ip_addr_ismulticast (ih_dest h) then Some s
          else if tot < 8 then Some s
          else if inet_chksum_pbuf (m # tl p) \<noteq> 0 then Some s
          else if length m < 4 then None
          else do {
            let h' = h \<lparr> ih_src := ih_dest h, ih_dest := ih_src h \<rparr>;
            let q = ip_hdr_bytes h' @ drop IP_HLEN (hd p);
            let q = take hlen q @ echo_reply (drop hlen q);
            (_, _, s) \<leftarrow> ip_output_if env \<lparr> pk_room = Some [], pk_chain = q # tl p \<rparr> (ih_src h') None
                            (ucast (IPH_TTL h')) 0 IP_PROTO_ICMP inp s;
            Some s
          })
       else Some s
     }
   }"

section \<open>Destination unreachable\<close>

text \<open>The message that quotes the first 28 bytes of the offending packet.  The unused word of the
  message is not initialised; its bytes are what the allocator left there.\<close>

definition unreach_msg :: "u8 list \<Rightarrow> icmp_dur_type \<Rightarrow> u8 list \<Rightarrow> u8 list" where
  "unreach_msg old t quote =
    (let m = [ICMP_DUR, dur_code t];
         c = inet_chksum (m @ [0, 0] @ old @ quote)
     in m @ le16 c @ old @ quote)"

definition icmp_dest_unreach ::
    "ipenv \<Rightarrow> u8 list \<Rightarrow> u8 list list \<Rightarrow> icmp_dur_type \<Rightarrow> 'a ipstate_scheme \<Rightarrow> 'a ipstate_scheme option" where
  "icmp_dest_unreach env old p t s = do {
     let (ok, s) = ip_alloc env s;
     if \<not> ok then None
     else do {
       h \<leftarrow> (case p of [] \<Rightarrow> None | q # _ \<Rightarrow> ip_hdr_of q);
       if length (hd p) < IP_HLEN + 8 then None
       else do {
         let m = unreach_msg (take 4 old) t (take (IP_HLEN + 8) (hd p));
         (_, _, s) \<leftarrow> ip_output_p env \<lparr> pk_room = Some (replicate 34 0), pk_chain = [m] \<rparr> 0 (ih_src h)
                         ICMP_TTL 0 IP_PROTO_ICMP s;
         Some s
       }
     }
   }"

section \<open>The reply to an echo request\<close>

lemma htons_echo: "htons (push_bit 8 (ucast ICMP_ECHO)) = 8" "htons (0xffff - push_bit 8 (ucast ICMP_ECHO)) = 0xfff7"
  by (simp_all add: htons_def cfg_defs)

text \<open>In ones' complement arithmetic the checksum grows by exactly 8.\<close>

lemma unat_echo_chksum: "unat (echo_chksum c) mod 65535 = (unat c + 8) mod 65535"
proof (cases "c \<ge> 0xfff7")
  case True
  have "65527 \<le> unat c" using True by (simp add: word_le_nat_alt)
  moreover have "unat c < 65536" using unat_less_pow [of c] by simp
  moreover have "unat (c + 9) = (unat c + 9) mod 65536" by (simp add: unat_word_ariths)
  moreover have "(unat c + 9) mod 65536 = unat c + 9 - 65536"
    using calculation(1,2) by (simp add: mod_if)
  ultimately have "unat (c + 9) + 65535 = unat c + 8" by linarith
  then have "unat (c + 9) mod 65535 = (unat c + 8) mod 65535" by (metis mod_add_self2)
  then show ?thesis using True by (simp add: echo_chksum_def htons_echo)
next
  case False
  then have "unat c < 65527" by (simp add: word_le_nat_alt)
  then have "unat (c + 8) = unat c + 8" by (simp add: unat_word_ariths)
  then show ?thesis using False by (simp add: echo_chksum_def htons_echo)
qed

lemma echo_msg_sum:
  assumes "4 \<le> length m" and "m ! 0 = 8"
  shows "word_sum (echo_reply m) mod 65535 = word_sum m mod 65535"
proof -
  obtain b x y rest where m: "m = 8 # b # x # y # rest"
    using assms by (auto simp: numeral_eq_Suc Suc_le_length_iff)
  define c where "c = load16 x y"
  have "word_sum m = 8 + 256 * unat b + unat c + word_sum rest" by (simp add: m c_def unat_load16)
  moreover have "word_sum (echo_reply m) = 256 * unat b + unat (echo_chksum c) + word_sum rest"
    using word_sum_le16 [of "echo_chksum c"]
    by (simp add: m echo_reply_def Let_def c_def [symmetric] le16_def ICMP_ER_def)
  moreover have "(256 * unat b + unat (echo_chksum c) + word_sum rest) mod 65535 =
      (256 * unat b + (unat c + 8) + word_sum rest) mod 65535"
    using unat_echo_chksum [of c] by (metis mod_add_cong)
  ultimately show ?thesis by (simp add: ac_simps)
qed

text \<open>When the checksum over a chain verifies: the ones' complement sum is the negative zero.  The
  swapped sum of a single pbuf of odd length does not matter here.\<close>

lemma oc16_full: "oc16 n = 65535 \<longleftrightarrow> n \<noteq> 0 \<and> n mod 65535 = 0"
proof
  assume "oc16 n = 65535"
  then show "n \<noteq> 0 \<and> n mod 65535 = 0" using oc16_mod [of n] oc16_0(1) [of n] by auto
next
  assume "n \<noteq> 0 \<and> n mod 65535 = 0"
  then show "oc16 n = 65535" by (intro oc16_unique [symmetric]) simp_all
qed

lemma chksum_pbuf_zero:
  assumes "(\<forall>q\<in>set p. even (length q)) \<or> (\<exists>q. p = [q])" and "\<forall>q\<in>set p. length q \<le> 65535"
  shows "inet_chksum_pbuf p = 0 \<longleftrightarrow> word_sum (concat p) \<noteq> 0 \<and> word_sum (concat p) mod 65535 = 0"
proof -
  have u: "inet_chksum_pbuf p = 0 \<longleftrightarrow> unat (inet_chksum_pbuf p) = 0" by (simp add: unat_eq_0)
  have z: "65535 \<le> oc16 n \<longleftrightarrow> oc16 n = 65535" for n using oc16_le [of n] by linarith
  show ?thesis
  proof (cases "\<forall>q\<in>set p. even (length q)")
    case True
    then show ?thesis unfolding u using unat_chksum_pbuf_even [of p] assms(2) by (simp add: z oc16_full)
  next
    case False
    then obtain q where q: "p = [q]" "odd (length q)" using assms(1) by auto
    have cop: "coprime (65535 :: nat) 256" by (simp add: coprime_iff_gcd_eq_1 gcd_non_0_nat)
    have "256 * w mod 65535 = 0 \<longleftrightarrow> w mod 65535 = 0" for w :: nat
      using coprime_dvd_mult_right_iff [OF cop, of w] by (simp add: mod_eq_0_iff_dvd)
    then show ?thesis unfolding u
      using unat_chksum_pbuf_odd [OF q(2)] assms(2) q(1) by (simp add: z oc16_full)
  qed
qed

lemma length_echo_reply: "4 \<le> length m \<Longrightarrow> length (echo_reply m) = length m"
  by (simp add: echo_reply_def Let_def le16_def)

lemma echo_reply_verifies:
  assumes "4 \<le> length m" "m ! 0 = 8" "inet_chksum_pbuf (m # qs) = 0"
    and par: "(\<forall>q\<in>set (m # qs). even (length q)) \<or> qs = []" and len: "\<forall>q\<in>set (m # qs). length q \<le> 65535"
    and nz: "\<exists>b\<in>set (concat (echo_reply m # qs)). b \<noteq> 0"
  shows "inet_chksum_pbuf (echo_reply m # qs) = 0"
proof -
  have l: "length (echo_reply m) = length m" using assms(1) by (rule length_echo_reply)
  have "word_sum (concat (echo_reply m # qs)) mod 65535 = word_sum (concat (m # qs)) mod 65535"
  proof (cases "qs = []")
    case True
    then show ?thesis using echo_msg_sum [OF assms(1,2)] by simp
  next
    case False
    then have "even (length m)" using par by simp
    then show ?thesis using echo_msg_sum [OF assms(1,2)] l
      by (simp add: word_sum_append_even) (metis mod_add_cong)
  qed
  moreover have "word_sum (concat (m # qs)) mod 65535 = 0"
    using assms(3) chksum_pbuf_zero [of "m # qs"] par len by auto
  moreover have "word_sum (concat (echo_reply m # qs)) \<noteq> 0" using nz by (simp only: word_sum_eq_0) auto
  ultimately show ?thesis using chksum_pbuf_zero [of "echo_reply m # qs"] par len l by auto
qed

text \<open>Exchanging the addresses keeps the checksum of the IP header.\<close>

lemma swap_addrs_sum:
  "word_sum (ip_hdr_bytes (h \<lparr> ih_src := ih_dest h, ih_dest := ih_src h \<rparr>)) = word_sum (ip_hdr_bytes h)"
proof -
  have e: "even (length (mem32 w))" "even (length (le16 v))" for w v by (simp_all add: mem32_def le16_def)
  show ?thesis by (simp add: ip_hdr_bytes_def word_sum_append_even e)
qed

text \<open>C29: An echo request that verifies is answered, provided that its message is one pbuf or a chain of pbufs of even lengths, and that the
  reply is not all zero (for an all-zero reply the adjusted checksum is wrong).  The request has at least eight bytes of message, the IP header and the first four of
  them in its first pbuf, is not sent to a broadcast or multicast address, and fits the link.  Then the one frame sent goes back to the sender
  with the addresses exchanged and the type cleared, everything else in the packet unchanged, and
  both the adjusted ICMP checksum and the untouched IP header checksum verify.\<close>

theorem icmp_echo_answered:
  assumes nif: "netifs (i_net s) inp = Some nif" and h: "ip_hdr_of q = Some h" and hl: "20 \<le> hdr_len h" "even (hdr_len h)"
    and m: "m = drop (hdr_len h) q" "4 \<le> length m" "m ! 0 = 8" "8 \<le> length (concat (m # qs))"
    and cast: "\<not> ip_addr_isbroadcast (ih_dest h) nif" "\<not> ip_addr_ismulticast (ih_dest h)"
    and ck: "inet_chksum_pbuf (m # qs) = 0" "inet_chksum (take (hdr_len h) q) = 0"
    and par: "(\<forall>r\<in>set (m # qs). even (length r)) \<or> qs = []"
    and nz: "\<exists>b\<in>set (concat (echo_reply m # qs)). b \<noteq> 0"
    and len: "length (concat (q # qs)) < 65536" "nif_mtu nif = 0 \<or> length (concat (q # qs)) \<le> unat (nif_mtu nif)"
  shows "\<exists>q'. icmp_input env (q # qs) inp s = Some (send_frame inp (ih_src h) (q' # qs) s) \<and>
    ip_hdr_of q' = Some (h \<lparr> ih_src := ih_dest h, ih_dest := ih_src h \<rparr>) \<and>
    drop (hdr_len h) q' = [0] @ take 1 (drop 1 m) @ take 2 (drop 2 (echo_reply m)) @ drop 4 m \<and>
    inet_chksum_pbuf (drop (hdr_len h) q' # qs) = 0 \<and> inet_chksum (take (hdr_len h) q') = 0"
proof -
  define k where "k = hdr_len h"
  define h' where "h' = h \<lparr> ih_src := ih_dest h, ih_dest := ih_src h \<rparr>"
  define q' where "q' = ip_hdr_bytes h' @ drop 20 (take k q) @ echo_reply m"
  have k: "20 \<le> k" "even k" "k + 4 \<le> length q" using hl m(1,2) by (simp_all add: k_def)
  have qe: "ip_hdr_bytes (h \<lparr> ih_src := ih_dest h, ih_dest := ih_src h \<rparr>) @ take (k - 20) (drop 20 q) @
      echo_reply (drop k q) = q'"
    by (simp add: q'_def h'_def m(1) k_def drop_take)
  have tk: "take k q' = ip_hdr_bytes h' @ drop 20 (take k q)" "drop k q' = echo_reply m"
    using k by (simp_all add: q'_def)
  have lq: "length (concat (q' # qs)) = length (concat (q # qs))"
    using k m(1) length_echo_reply [OF m(2)] by (simp add: q'_def k_def [symmetric])
  have small: "\<forall>r\<in>set (m # qs). length r \<le> 65535"
  proof
    fix r
    assume "r \<in> set (m # qs)"
    then have "length r \<le> length (concat (m # qs))" by (rule length_concat_mem)
    then show "length r \<le> 65535" using len(1) m(1) by simp
  qed
  have hq': "ip_hdr_of q' = Some h'" by (simp add: q'_def)
  have out: "ip_output_if env \<lparr> pk_room = Some [], pk_chain = q' # qs \<rparr> src None t 0 IP_PROTO_ICMP inp s =
      Some (e_drv env inp (q' # qs), \<lparr> pk_room = Some [], pk_chain = q' # qs \<rparr>, send_frame inp (ih_src h) (q' # qs) s)" for src t
    using nif hq' transmit_small [of nif "\<lparr> pk_room = Some [], pk_chain = q' # qs \<rparr>"] len lq
    by (simp add: ip_output_if_def pk_len_def h'_def)
  have "icmp_input env (q # qs) inp s = Some (send_frame inp (ih_src h) (q' # qs) s)"
    using nif h cast ck(1) m k
    by (simp add: icmp_input_def Let_def k_def [symmetric] qe out ICMP_ECHO_def IP_HLEN_def)
  moreover have "inet_chksum_pbuf (drop k q' # qs) = 0"
    unfolding tk(2) by (rule echo_reply_verifies [OF m(2,3) ck(1) par small nz])
  moreover have "inet_chksum (take k q') = 0"
  proof -
    have "take k q = ip_hdr_bytes h @ drop 20 (take k q)"
      using ip_hdr_bytes_of [OF h] k by (metis append_take_drop_id min.absorb1 take_take)
    then have "word_sum (take k q') = word_sum (take k q)" unfolding tk(1)
      by (metis swap_addrs_sum h'_def length_ip_hdr_bytes word_sum_append_even even_numeral)
    moreover have "length (take k q') \<le> 65535" "length (take k q) \<le> 65535" using len(1) k tk(1) by auto
    ultimately have "unat (inet_chksum (take k q')) = unat (inet_chksum (take k q))"
      by (simp add: unat_inet_chksum)
    then show ?thesis using ck(2) by (simp add: k_def word_unat_eq_iff)
  qed
  moreover have "drop k q' = [0] @ take 1 (drop 1 m) @ take 2 (drop 2 (echo_reply m)) @ drop 4 m"
    unfolding tk(2) using m(2)
    by (simp add: echo_reply_def Let_def le16_def ICMP_ER_def take_Suc_conv_app_nth hd_drop_conv_nth take_Suc)
  ultimately show ?thesis using hq' by (auto simp: k_def h'_def)
qed

definition ex_ping_hdr :: ip_hdr where
  "ex_ping_hdr = new_hdr 28 0x0200000a 0x0100000a 64 0 1"

definition ex_ping :: "u8 list" where
  "ex_ping = [8, 0, 0xf7, 0xfd, 0, 1, 0, 1]"

lemma ex_ping_facts:
  "ip_hdr_of (ip_hdr_bytes ex_ping_hdr @ ex_ping) = Some ex_ping_hdr" "hdr_len ex_ping_hdr = 20"
  "drop 20 (ip_hdr_bytes ex_ping_hdr @ ex_ping) = ex_ping" "inet_chksum_pbuf [ex_ping] = 0"
  "inet_chksum (take 20 (ip_hdr_bytes ex_ping_hdr @ ex_ping)) = 0" "ih_dest ex_ping_hdr = 0x0100000a"
  "ih_src ex_ping_hdr = 0x0200000a" "\<not> ip_addr_isbroadcast 0x0100000a ex_nif" "\<not> ip_addr_ismulticast 0x0100000a"
proof -
  show "hdr_len ex_ping_hdr = 20" by (simp add: hdr_len_def ex_ping_hdr_def new_hdr_sel)
  show "inet_chksum_pbuf [ex_ping] = 0" by (subst chksum_pbuf_zero) (simp_all add: ex_ping_def)
  show "inet_chksum (take 20 (ip_hdr_bytes ex_ping_hdr @ ex_ping)) = 0"
    by (simp add: ex_ping_hdr_def new_hdr_def set_hdr_chksum_verifies)
  show "ih_dest ex_ping_hdr = 0x0100000a" "ih_src ex_ping_hdr = 0x0200000a"
    by (simp_all add: ex_ping_hdr_def new_hdr_sel)
  show "\<not> ip_addr_isbroadcast 0x0100000a ex_nif"
    by (simp add: ip_addr_isbroadcast_def ex_nif_def cfg_defs)
  show "\<not> ip_addr_ismulticast 0x0100000a" by (simp add: ip_addr_ismulticast_def ntohl_def htonl_def)
qed simp_all

theorem icmp_echo_answered_witness:
  "\<exists>q'. icmp_input ex_ienv [ip_hdr_bytes ex_ping_hdr @ ex_ping] 7 ex_ip =
      Some (send_frame 7 (ih_src ex_ping_hdr) (q' # []) ex_ip) \<and>
    ip_hdr_of q' = Some (ex_ping_hdr \<lparr> ih_src := ih_dest ex_ping_hdr, ih_dest := ih_src ex_ping_hdr \<rparr>) \<and>
    drop (hdr_len ex_ping_hdr) q' = [0] @ take 1 (drop 1 ex_ping) @ take 2 (drop 2 (echo_reply ex_ping)) @ drop 4 ex_ping \<and>
    inet_chksum_pbuf (drop (hdr_len ex_ping_hdr) q' # []) = 0 \<and> inet_chksum (take (hdr_len ex_ping_hdr) q') = 0"
proof (rule icmp_echo_answered [where nif = ex_nif])
  show "\<exists>b\<in>set (concat (echo_reply ex_ping # [])). b \<noteq> 0"
    by (simp add: echo_reply_def Let_def ex_ping_def)
  show "4 \<le> length ex_ping" "ex_ping ! 0 = 8" "8 \<le> length (concat (ex_ping # []))" by (simp_all add: ex_ping_def)
  show "length (concat ((ip_hdr_bytes ex_ping_hdr @ ex_ping) # [])) < 65536"
    "nif_mtu ex_nif = 0 \<or> length (concat ((ip_hdr_bytes ex_ping_hdr @ ex_ping) # [])) \<le> unat (nif_mtu ex_nif)"
    by (simp_all add: ex_ping_def ex_nif_def)
qed (use ex_ping_facts in \<open>simp_all add: ex_ip_def\<close>)

text \<open>The comparison in the checksum adjustment admits one value too many: the request whose
  reply is all zero except for the checksum verifies, but the checksum of the reply comes out as
  zero instead of \<open>0xffff\<close> and does not verify.\<close>

theorem icmp_echo_zero_reply:
  "inet_chksum_pbuf [[8, 0, 0xf7, 0xff, 0, 0, 0, 0]] = 0 \<and>
    echo_reply [8, 0, 0xf7, 0xff, 0, 0, 0, 0] = [0, 0, 0, 0, 0, 0, 0, 0] \<and>
    inet_chksum_pbuf [echo_reply [8, 0, 0xf7, 0xff, 0, 0, 0, 0]] \<noteq> 0"
proof -
  have e: "echo_reply [8, 0, 0xf7, 0xff, 0, 0, 0, 0] = [0, 0, 0, 0, 0, 0, 0, 0]"
    by (simp add: echo_reply_def Let_def le16_def ICMP_ER_def echo_chksum_def htons_echo load16_def)
  show ?thesis unfolding e by (subst (1 2) chksum_pbuf_zero) simp_all
qed

section \<open>Destination unreachable messages\<close>

text \<open>A destination-unreachable message goes back to the source of the offending packet with
  the given code, quotes its first 28 bytes, and verifies; without memory for it the code writes
  through a null pointer.\<close>

theorem icmp_dest_unreach_sends:
  assumes h: "ip_hdr_of q = Some h" "28 \<le> length q" and old: "length old = 4"
    and rt: "ip_route (ih_src h) (i_net s) = Some a" "netifs (i_net s) a = Some nif"
    and mtu: "nif_mtu nif = 0 \<or> 56 \<le> unat (nif_mtu nif)"
  shows "if e_ok env (i_allocs s)
    then \<exists>h' m s'. icmp_dest_unreach env old (q # qs) t s = Some s' \<and>
      i_frames s' = i_frames s @ [(a, ih_src h, [ip_hdr_bytes h' @ m])] \<and>
      ih_dest h' = ih_src h \<and> ih_src h' = nif_ip_addr nif \<and> IPH_PROTO h' = 1 \<and>
      inet_chksum (ip_hdr_bytes h') = 0 \<and>
      m ! 0 = 3 \<and> m ! 1 = dur_code t \<and> drop 8 m = take 28 q \<and> inet_chksum m = 0
    else icmp_dest_unreach env old (q # qs) t s = None"
proof (cases "e_ok env (i_allocs s)")
  case True
  define m where "m = unreach_msg old t (take 28 q)"
  define s1 where "s1 = s \<lparr> i_allocs := i_allocs s + 1 \<rparr>"
  define h' where "h' = new_hdr (of_nat (36 + 20)) (nif_ip_addr nif) (ih_src h) ICMP_TTL 0 IP_PROTO_ICMP"
  have lm: "length m = 36" using h(2) old by (simp add: m_def unreach_msg_def Let_def le16_def)
  let ?p = "\<lparr> pk_room = Some (replicate 34 0), pk_chain = [m] \<rparr>"
  have pl: "pk_len ?p = 36" by (simp add: pk_len_def lm)
  obtain p' where out: "ip_output_if env ?p 0 (Some (ih_src h)) ICMP_TTL 0 IP_PROTO_ICMP a s1 =
      Some (e_drv env a [ip_hdr_bytes h' @ m], p', send_frame a (ih_src h) [ip_hdr_bytes h' @ m] s1)"
    using output_if_frame [of s1 a nif ?p "replicate 34 0" m "[]" env 0 "ih_src h" ICMP_TTL 0 IP_PROTO_ICMP]
      rt(2) mtu pl by (auto simp: s1_def h'_def)
  have "icmp_dest_unreach env old (q # qs) t s = Some (send_frame a (ih_src h) [ip_hdr_bytes h' @ m] s1)"
    using True h old out rt(1)
    by (simp add: icmp_dest_unreach_def ip_alloc_def IP_HLEN_def ip_output_p_def s1_def [symmetric] m_def [symmetric])
      (simp add: s1_def ip_output_p_def)
  moreover have "inet_chksum m = 0"
    using chksum_verifies [of "[ICMP_DUR, dur_code t]" "old @ take 28 q"] old h(2)
    by (simp add: m_def unreach_msg_def Let_def le16_def)
  moreover have "m ! 0 = 3" "m ! 1 = dur_code t" "drop 8 m = take 28 q"
    using old by (simp_all add: m_def unreach_msg_def Let_def le16_def ICMP_DUR_def)
  moreover have "inet_chksum (ip_hdr_bytes h') = 0" unfolding h'_def new_hdr_def by (rule set_hdr_chksum_verifies)
  ultimately show ?thesis using True
    by (simp, intro exI [of _ h'] exI [of _ m]) (simp add: send_frame_def s1_def h'_def new_hdr_sel IP_PROTO_ICMP_def)
qed (simp add: icmp_dest_unreach_def ip_alloc_def)

theorem icmp_dest_unreach_sends_witness:
  "if e_ok ex_ienv (i_allocs ex_ip)
    then \<exists>h' m s'. icmp_dest_unreach ex_ienv [0, 0, 0, 0] [ip_hdr_bytes ex_ping_hdr @ ex_ping] ICMP_DUR_PORT ex_ip = Some s' \<and>
      i_frames s' = i_frames ex_ip @ [(7, ih_src ex_ping_hdr, [ip_hdr_bytes h' @ m])] \<and>
      ih_dest h' = ih_src ex_ping_hdr \<and> ih_src h' = nif_ip_addr ex_nif \<and> IPH_PROTO h' = 1 \<and>
      inet_chksum (ip_hdr_bytes h') = 0 \<and>
      m ! 0 = 3 \<and> m ! 1 = dur_code ICMP_DUR_PORT \<and> drop 8 m = take 28 (ip_hdr_bytes ex_ping_hdr @ ex_ping) \<and> inet_chksum m = 0
    else icmp_dest_unreach ex_ienv [0, 0, 0, 0] [ip_hdr_bytes ex_ping_hdr @ ex_ping] ICMP_DUR_PORT ex_ip = None"
  by (rule icmp_dest_unreach_sends)
    (simp_all add: ex_ping_facts ex_ip_def ip_route_def ip_addr_netcmp_def ex_nif_def, simp_all add: ex_ping_def)

end
