(* ===== verification/Udp.thy ===== *)
theory Udp
  imports Icmp
begin

text \<open>
  UDP (\<open>src/nsc-0.5.3/lwip-HEAD/src/core/udp.c\<close>, \<open>include/lwip/udp.h\<close>), in the configuration of
  this build: \<open>SO_REUSE\<close> and \<open>LWIP_UDP_TODO\<close> are off.  The control blocks live in a store by
  address, \<open>udp_pcbs\<close> is the list of their addresses in the order of the \<open>next\<close> pointers.  A call of
  a receive callback is recorded as an event; the input function does nothing after it.  \<open>None\<close> is an
  access to a block that is not allocated, or outside the payload of a pbuf.
\<close>

definition UDP_HLEN :: nat where [cfg_defs]: "UDP_HLEN = 8"
definition UDP_TTL :: u8 where [cfg_defs]: "UDP_TTL = 255"
definition UDP_FLAGS_NOCHKSUM :: u8 where [cfg_defs]: "UDP_FLAGS_NOCHKSUM = 0x01"
definition UDP_FLAGS_UDPLITE :: u8 where [cfg_defs]: "UDP_FLAGS_UDPLITE = 0x02"
definition UDP_FLAGS_CONNECTED :: u8 where [cfg_defs]: "UDP_FLAGS_CONNECTED = 0x04"
definition UDP_LOCAL_PORT_RANGE_START :: u16 where [cfg_defs]: "UDP_LOCAL_PORT_RANGE_START = 4096"
definition UDP_LOCAL_PORT_RANGE_END :: u16 where [cfg_defs]: "UDP_LOCAL_PORT_RANGE_END = 0x7fff"

record udp_hdr =
  uh_src :: u16
  uh_dest :: u16
  uh_len :: u16
  uh_chksum :: u16

definition udp_hdr_bytes :: "udp_hdr \<Rightarrow> u8 list" where
  "udp_hdr_bytes h = le16 (uh_src h) @ le16 (uh_dest h) @ le16 (uh_len h) @ le16 (uh_chksum h)"

definition udp_hdr_of :: "u8 list \<Rightarrow> udp_hdr" where
  "udp_hdr_of bs = \<lparr> uh_src = load16_at bs 0, uh_dest = load16_at bs 2, uh_len = load16_at bs 4,
     uh_chksum = load16_at bs 6 \<rparr>"

record udp_pcb =
  u_local_ip :: u32
  u_remote_ip :: u32
  u_so_options :: u16
  u_tos :: u8
  u_ttl :: u8
  u_flags :: u8
  u_local_port :: u16
  u_remote_port :: u16
  u_chksum_len :: u16
  u_recv :: "fptr option"
  u_recv_arg :: nat

definition zero_udp_pcb :: udp_pcb where
  "zero_udp_pcb = \<lparr> u_local_ip = 0, u_remote_ip = 0, u_so_options = 0, u_tos = 0, u_ttl = 0, u_flags = 0,
     u_local_port = 0, u_remote_port = 0, u_chksum_len = 0, u_recv = None, u_recv_arg = 0 \<rparr>"

text \<open>A received datagram: handed to the application, or kept by nobody when the control block has
  no callback.\<close>

datatype udp_event =
    UdpRecv addr fptr nat "u8 list list" u32 u16
  | UdpLeak addr "u8 list list"

record ustate = ipstate +
  udp_pcbs :: "addr list"
  udp_store :: "addr \<rightharpoonup> udp_pcb"
  udp_events :: "udp_event list"

definition udp_init :: "'a ustate_scheme \<Rightarrow> 'a ustate_scheme" where
  "udp_init s = s \<lparr> udp_pcbs := [] \<rparr>"

definition udp_upd :: "addr \<Rightarrow> (udp_pcb \<Rightarrow> udp_pcb) \<Rightarrow> 'a ustate_scheme \<Rightarrow> 'a ustate_scheme" where
  "udp_upd a f s = s \<lparr> udp_store := (udp_store s)(a := map_option f (udp_store s a)) \<rparr>"

section \<open>Input\<close>

text \<open>The first control block of a list that satisfies a test; \<open>None\<close> outside means that a dangling
  pointer was followed.\<close>

fun udp_find :: "(udp_pcb \<Rightarrow> bool) \<Rightarrow> (addr \<rightharpoonup> udp_pcb) \<Rightarrow> addr list \<Rightarrow> addr option option" where
  "udp_find P st [] = Some None"
| "udp_find P st (a # as) =
    (case st a of
       None \<Rightarrow> None
     | Some pcb \<Rightarrow> if P pcb then Some (Some a) else udp_find P st as)"

definition udp_full_match :: "ip_hdr \<Rightarrow> u16 \<Rightarrow> u16 \<Rightarrow> udp_pcb \<Rightarrow> bool" where
  "udp_full_match h src dest pcb \<longleftrightarrow> u_remote_port pcb = src \<and> u_local_port pcb = dest \<and>
    (u_remote_ip pcb = 0 \<or> u_remote_ip pcb = ih_src h) \<and> (u_local_ip pcb = 0 \<or> u_local_ip pcb = ih_dest h)"

definition udp_local_match :: "ip_hdr \<Rightarrow> u16 \<Rightarrow> udp_pcb \<Rightarrow> bool" where
  "udp_local_match h dest pcb \<longleftrightarrow> u_flags pcb AND UDP_FLAGS_CONNECTED = 0 \<and> u_local_port pcb = dest \<and>
    (u_local_ip pcb = 0 \<or> u_local_ip pcb = ih_dest h)"

definition udp_demux :: "ip_hdr \<Rightarrow> u16 \<Rightarrow> u16 \<Rightarrow> 'a ustate_scheme \<Rightarrow> addr option option" where
  "udp_demux h src dest s = do {
     r \<leftarrow> udp_find (udp_full_match h src dest) (udp_store s) (udp_pcbs s);
     case r of
       Some a \<Rightarrow> Some (Some a)
     | None \<Rightarrow> udp_find (udp_local_match h dest) (udp_store s) (udp_pcbs s)
   }"

text \<open>The checksum test on the chain that starts with the UDP header.\<close>

definition udp_chksum_bad :: "ip_hdr \<Rightarrow> udp_hdr \<Rightarrow> u8 list list \<Rightarrow> bool" where
  "udp_chksum_bad h u c =
    (if IPH_PROTO h = ucast IP_PROTO_UDPLITE
     then inet_chksum_pseudo c (ih_src h) (ih_dest h) IP_PROTO_UDPLITE (ntohs (uh_len u)) \<noteq> 0
     else uh_chksum u \<noteq> 0 \<and>
       inet_chksum_pseudo c (ih_src h) (ih_dest h) IP_PROTO_UDP (of_nat (length (concat c))) \<noteq> 0)"

definition udp_input :: "ipenv \<Rightarrow> u8 list \<Rightarrow> u8 list list \<Rightarrow> addr \<Rightarrow> 'a ustate_scheme \<Rightarrow> 'a ustate_scheme option" where
  "udp_input env old p inp s = do {
     nif \<leftarrow> netifs (i_net s) inp;
     h \<leftarrow> (case p of [] \<Rightarrow> None | q # _ \<Rightarrow> ip_hdr_of q);
     if length (hd p) < UDP_HLEN + hdr_len h then None
     else do {
       let c = drop (hdr_len h) (hd p) # tl p;
       let u = udp_hdr_of (hd c);
       let src = ntohs (uh_src u);
       let dest = ntohs (uh_dest u);
       r \<leftarrow> udp_demux h src dest s;
       if r = None \<and> nif_ip_addr nif \<noteq> ih_dest h then Some s
       else if udp_chksum_bad h u c then Some s
       else
         (case r of
            Some a \<Rightarrow> do {
              pcb \<leftarrow> udp_store s a;
              let d = drop UDP_HLEN (hd c) # tl c;
              Some (s \<lparr> udp_events := udp_events s @
                [case u_recv pcb of
                   Some f \<Rightarrow> UdpRecv a f (u_recv_arg pcb) d (ih_src h) src
                 | None \<Rightarrow> UdpLeak a d] \<rparr>)
            }
          | None \<Rightarrow>
              if \<not> ip_addr_isbroadcast (ih_dest h) nif \<and> \<not> ip_addr_ismulticast (ih_dest h)
              then icmp_dest_unreach env old p ICMP_DUR_PORT s
              else Some s)
     }
   }"

section \<open>Binding\<close>

text \<open>The search for a free port: \<open>as\<close> is what is left of the list in the current round.  The
  result is the port and whether the list was walked to its end.\<close>

function udp_port_search ::
    "(addr \<rightharpoonup> udp_pcb) \<Rightarrow> addr list \<Rightarrow> u16 \<Rightarrow> addr list \<Rightarrow> (u16 \<times> bool) option" where
  "udp_port_search st pcbs port as =
    (case as of
       [] \<Rightarrow> Some (port, True)
     | a # as \<Rightarrow>
         if port = UDP_LOCAL_PORT_RANGE_END then Some (port, False)
         else
           (case st a of
              None \<Rightarrow> None
            | Some pcb \<Rightarrow>
                if u_local_port pcb = port then udp_port_search st pcbs (port + 1) pcbs
                else udp_port_search st pcbs port as))"
  by pat_completeness auto
termination
proof (relation "measures [\<lambda>(st, pcbs, port, as). unat (UDP_LOCAL_PORT_RANGE_END - port), \<lambda>(st, pcbs, port, as). length as]")
  fix st pcbs as x21 x22 x2 and port :: u16
  assume "port \<noteq> UDP_LOCAL_PORT_RANGE_END"
  then have "UDP_LOCAL_PORT_RANGE_END - port \<noteq> 0" by simp
  then have "unat (UDP_LOCAL_PORT_RANGE_END - port - 1) < unat (UDP_LOCAL_PORT_RANGE_END - port)"
    by (rule measure_unat)
  then show "((st, pcbs, port + 1, pcbs), st, pcbs, port, as)
      \<in> measures [\<lambda>(st, pcbs, port, as). unat (UDP_LOCAL_PORT_RANGE_END - port), \<lambda>(st, pcbs, port, as). length as]"
    by (simp add: diff_diff_eq)
qed auto

declare udp_port_search.simps [simp del]

definition udp_bind :: "addr \<Rightarrow> u32 \<Rightarrow> u16 \<Rightarrow> 'a ustate_scheme \<Rightarrow> (err_t \<times> 'a ustate_scheme) option" where
  "udp_bind a ip port s = do {
     _ \<leftarrow> udp_store s a;
     let rebind = (a \<in> set (udp_pcbs s));
     let s = udp_upd a (\<lambda>p. p \<lparr> u_local_ip := ip \<rparr>) s;
     (port, free) \<leftarrow> (if port = 0
        then udp_port_search (udp_store s) (udp_pcbs s) UDP_LOCAL_PORT_RANGE_START (udp_pcbs s)
        else Some (port, True));
     if \<not> free then Some (ERR_USE, s)
     else do {
       let s = udp_upd a (\<lambda>p. p \<lparr> u_local_port := port \<rparr>) s;
       Some (ERR_OK, if rebind then s else s \<lparr> udp_pcbs := a # udp_pcbs s \<rparr>)
     }
   }"

definition udp_connect :: "addr \<Rightarrow> u32 \<Rightarrow> u16 \<Rightarrow> 'a ustate_scheme \<Rightarrow> (err_t \<times> 'a ustate_scheme) option" where
  "udp_connect a ip port s = do {
     pcb \<leftarrow> udp_store s a;
     (err, s) \<leftarrow> (if u_local_port pcb = 0 then udp_bind a (u_local_ip pcb) (u_local_port pcb) s
                   else Some (ERR_OK, s));
     if err \<noteq> ERR_OK then Some (err, s)
     else do {
       let s = udp_upd a (\<lambda>p. p \<lparr> u_remote_ip := ip, u_remote_port := port,
                                   u_flags := u_flags p OR UDP_FLAGS_CONNECTED \<rparr>) s;
       Some (ERR_OK, if a \<in> set (udp_pcbs s) then s else s \<lparr> udp_pcbs := a # udp_pcbs s \<rparr>)
     }
   }"

definition udp_disconnect :: "addr \<Rightarrow> 'a ustate_scheme \<Rightarrow> 'a ustate_scheme option" where
  "udp_disconnect a s = do {
     _ \<leftarrow> udp_store s a;
     Some (udp_upd a (\<lambda>p. p \<lparr> u_remote_ip := ip_addr_any, u_remote_port := 0,
                              u_flags := u_flags p AND NOT UDP_FLAGS_CONNECTED \<rparr>) s)
   }"

definition udp_recv :: "addr \<Rightarrow> fptr option \<Rightarrow> nat \<Rightarrow> 'a ustate_scheme \<Rightarrow> 'a ustate_scheme option" where
  "udp_recv a f arg s = do {
     _ \<leftarrow> udp_store s a;
     Some (udp_upd a (\<lambda>p. p \<lparr> u_recv := f, u_recv_arg := arg \<rparr>) s)
   }"

definition udp_remove :: "addr \<Rightarrow> 'a ustate_scheme \<Rightarrow> 'a ustate_scheme option" where
  "udp_remove a s = do {
     _ \<leftarrow> udp_store s a;
     Some (s \<lparr> udp_pcbs := remove1 a (udp_pcbs s), udp_store := (udp_store s)(a := None) \<rparr>)
   }"

text \<open>The allocator returns the address of the new block, or nothing.\<close>

definition udp_new :: "addr option \<Rightarrow> 'a ustate_scheme \<Rightarrow> addr option \<times> 'a ustate_scheme" where
  "udp_new blk s =
    (case blk of
       None \<Rightarrow> (None, s)
     | Some a \<Rightarrow> (Some a, s \<lparr> udp_store := (udp_store s)(a \<mapsto> zero_udp_pcb \<lparr> u_ttl := UDP_TTL \<rparr>) \<rparr>))"

section \<open>Output\<close>

text \<open>The header of a datagram in a chain whose first 8 bytes are reserved for it.\<close>

definition udp_set_hdr :: "udp_hdr \<Rightarrow> u8 list list \<Rightarrow> u8 list list" where
  "udp_set_hdr u c = (udp_hdr_bytes u @ drop UDP_HLEN (hd c)) # tl c"

definition udp_finish :: "udp_pcb \<Rightarrow> u32 \<Rightarrow> u8 list list \<Rightarrow> u8 list list" where
  "udp_finish pcb src_ip c =
    (let tot = of_nat (length (concat c)) :: u16;
         lite = (u_flags pcb AND UDP_FLAGS_UDPLITE \<noteq> 0);
         u = \<lparr> uh_src = htons (u_local_port pcb), uh_dest = htons (u_remote_port pcb),
               uh_len = htons (if lite then u_chksum_len pcb else tot), uh_chksum = 0 \<rparr>;
         sum = inet_chksum_pseudo (udp_set_hdr u c) src_ip (u_remote_ip pcb) IP_PROTO_UDP
                 (if lite then u_chksum_len pcb else tot);
         sum = (if sum = 0 then 0xffff else sum)
     in if lite \<or> u_flags pcb AND UDP_FLAGS_NOCHKSUM = 0
        then udp_set_hdr (u \<lparr> uh_chksum := sum \<rparr>) c
        else udp_set_hdr u c)"

definition udp_send :: "ipenv \<Rightarrow> addr \<Rightarrow> pkt \<Rightarrow> 'a ustate_scheme \<Rightarrow> (err_t \<times> pkt \<times> 'a ustate_scheme) option" where
  "udp_send env a p s = do {
     pcb \<leftarrow> udp_store s a;
     (err, s) \<leftarrow> (if u_local_port pcb = 0 then udp_bind a (u_local_ip pcb) (u_local_port pcb) s
                   else Some (ERR_OK, s));
     if err \<noteq> ERR_OK then Some (err, p, s)
     else do {
       pcb \<leftarrow> udp_store s a;
       case ip_route (u_remote_ip pcb) (i_net s) of
         None \<Rightarrow> Some (ERR_RTE, p, s)
       | Some n \<Rightarrow> do {
           nif \<leftarrow> netifs (i_net s) n;
           let src_ip = (if u_local_ip pcb = 0 then nif_ip_addr nif else u_local_ip pcb);
           let proto = (if u_flags pcb AND UDP_FLAGS_UDPLITE \<noteq> 0 then IP_PROTO_UDPLITE else IP_PROTO_UDP);
           case pk_header UDP_HLEN p of
             Some p \<Rightarrow>
               ip_output_if env (p \<lparr> pk_chain := udp_finish pcb src_ip (pk_chain p) \<rparr>) src_ip
                 (Some (u_remote_ip pcb)) (u_ttl pcb) (u_tos pcb) proto n s
           | None \<Rightarrow> do {
               let (ok, s) = ip_alloc env s;
               if \<not> ok then Some (ERR_MEM, p, s)
               else do {
                 let q = \<lparr> pk_room = Some (replicate 34 0),
                           pk_chain = udp_finish pcb src_ip (replicate 8 0 # pk_chain p) \<rparr>;
                 (err, q, s) \<leftarrow> ip_output_if env q src_ip (Some (u_remote_ip pcb)) (u_ttl pcb) (u_tos pcb) proto n s;
                 Some (err, p \<lparr> pk_chain := tl (pk_chain q) \<rparr>, s)
               }
             }
         }
     }
   }"

definition udp_sendto :: "ipenv \<Rightarrow> addr \<Rightarrow> pkt \<Rightarrow> u32 \<Rightarrow> u16 \<Rightarrow> 'a ustate_scheme \<Rightarrow>
    (err_t \<times> pkt \<times> 'a ustate_scheme) option" where
  "udp_sendto env a p ip port s = do {
     pcb \<leftarrow> udp_store s a;
     (err, p, s) \<leftarrow> udp_send env a p (udp_upd a (\<lambda>c. c \<lparr> u_remote_ip := ip, u_remote_port := port \<rparr>) s);
     Some (err, p, udp_upd a (\<lambda>c. c \<lparr> u_remote_ip := u_remote_ip pcb, u_remote_port := u_remote_port pcb \<rparr>) s)
   }"

end
