(* ===== verification/Udp_Props.thy ===== *)
theory Udp_Props
  imports Udp
begin

text \<open>
  Properties of UDP: what a sender computes verifies at the receiver, datagrams are delivered to
  the application they are addressed to, ports are chosen free, and the list of control blocks
  stays well formed through every operation.
\<close>

section \<open>The checksum of a datagram\<close>

lemma length_udp_hdr_bytes [simp]: "length (udp_hdr_bytes u) = 8"
  by (simp add: udp_hdr_bytes_def le16_def)

lemma udp_hdr_roundtrip [simp]: "udp_hdr_of (udp_hdr_bytes u @ bs) = u"
  by (simp add: udp_hdr_of_def udp_hdr_bytes_def load16_at_def le16_def)

lemma word_sum_udp_hdr:
  "word_sum (udp_hdr_bytes u @ bs) = word_sum (udp_hdr_bytes (u \<lparr> uh_chksum := 0 \<rparr>) @ bs) + unat (uh_chksum u)"
proof -
  have e: "word_sum (le16 w @ bs) = unat w + word_sum bs" for w bs
    using word_sum_le16 [of w] by (simp add: le16_def)
  show ?thesis by (simp add: udp_hdr_bytes_def e)
qed

text \<open>The sum over pseudo header and chain when the checksum field holds \<open>c\<close>.\<close>

definition udp_sum :: "u8 \<Rightarrow> u32 \<Rightarrow> u32 \<Rightarrow> u16 \<Rightarrow> udp_hdr \<Rightarrow> u8 list list \<Rightarrow> nat" where
  "udp_sum proto src dest len u c = word_sum (pseudo_header src dest proto len @ concat (udp_set_hdr u c))"

lemma udp_sum_chksum:
  "udp_sum proto src dest len u c = udp_sum proto src dest len (u \<lparr> uh_chksum := 0 \<rparr>) c + unat (uh_chksum u)"
  using word_sum_udp_hdr [of u "drop UDP_HLEN (hd c) @ concat (tl c)"]
  by (simp add: udp_sum_def udp_set_hdr_def word_sum_append_even even_pseudo_header)

lemma udp_chksum_value:
  assumes "c \<noteq> []" "8 \<le> length (hd c)" "\<forall>q\<in>set c. length q \<le> 65535"
  shows "unat (inet_chksum_pseudo (udp_set_hdr u c) src dest proto len) = 65535 - oc16 (udp_sum proto src dest len u c)"
proof -
  have "\<forall>q\<in>set (udp_set_hdr u c). length q \<le> 65535"
    using assms by (cases c) (auto simp: udp_set_hdr_def UDP_HLEN_def)
  then show ?thesis unfolding udp_sum_def by (rule unat_inet_chksum_pseudo)
qed

text \<open>The value put into the checksum field makes the whole sum a negative zero.\<close>

lemma udp_field_sum:
  fixes W :: nat and k :: u16
  assumes "unat k = 65535 - oc16 W"
  defines "k' \<equiv> (if k = 0 then 0xffff else k)"
  shows "k' \<noteq> 0" "(W + unat k') mod 65535 = 0" "W + unat k' \<noteq> 0"
proof -
  show z: "k' \<noteq> 0" by (simp add: k'_def)
  then show "W + unat k' \<noteq> 0" by (simp add: unat_eq_0)
  have "(W + unat k) mod 65535 = 0"
    using oc16_complement [of W] oc16_full [of "W + (65535 - oc16 W)"] unfolding assms(1) by simp
  then show "(W + unat k') mod 65535 = 0"
    by (cases "k = 0") (simp_all add: k'_def)
qed

lemma pseudo_header_proto:
  "word_sum (pseudo_header src dest proto len) =
    word_sum (pseudo_header src dest 0 len) + 256 * unat proto"
  by (simp add: pseudo_header_def mem32_def)

lemma udp_sum_proto: "udp_sum proto src dest len u c = udp_sum 0 src dest len u c + 256 * unat proto"
  using pseudo_header_proto [of src dest proto len]
  by (simp add: udp_sum_def word_sum_append_even even_pseudo_header)

text \<open>The header \<open>udp_finish\<close> writes.\<close>

definition udp_out_hdr :: "udp_pcb \<Rightarrow> u32 \<Rightarrow> u8 list list \<Rightarrow> udp_hdr" where
  "udp_out_hdr pcb src c =
    (let len = (if u_flags pcb AND UDP_FLAGS_UDPLITE \<noteq> 0 then u_chksum_len pcb else of_nat (length (concat c)));
         u = \<lparr> uh_src = htons (u_local_port pcb), uh_dest = htons (u_remote_port pcb), uh_len = htons len, uh_chksum = 0 \<rparr>;
         k = inet_chksum_pseudo (udp_set_hdr u c) src (u_remote_ip pcb) IP_PROTO_UDP len
     in if u_flags pcb AND UDP_FLAGS_UDPLITE \<noteq> 0 \<or> u_flags pcb AND UDP_FLAGS_NOCHKSUM = 0
        then u \<lparr> uh_chksum := if k = 0 then 0xffff else k \<rparr> else u)"

lemma udp_finish_hdr: "udp_finish pcb src c = udp_set_hdr (udp_out_hdr pcb src c) c"
  by (simp add: udp_finish_def udp_out_hdr_def Let_def)

lemma udp_out_hdr_sel:
  "ntohs (uh_src (udp_out_hdr pcb src c)) = u_local_port pcb"
  "ntohs (uh_dest (udp_out_hdr pcb src c)) = u_remote_port pcb"
  "ntohs (uh_len (udp_out_hdr pcb src c)) =
    (if u_flags pcb AND UDP_FLAGS_UDPLITE \<noteq> 0 then u_chksum_len pcb else of_nat (length (concat c)))"
  by (simp_all add: udp_out_hdr_def Let_def ntohs_def htons_htons)

lemma udp_out_sum:
  fixes src :: u32
  assumes c: "c \<noteq> []" "8 \<le> length (hd c)" "\<forall>q\<in>set c. length q \<le> 65535"
    and fl: "u_flags pcb AND UDP_FLAGS_UDPLITE \<noteq> 0 \<or> u_flags pcb AND UDP_FLAGS_NOCHKSUM = 0"
  defines "u \<equiv> udp_out_hdr pcb src c"
  defines "S \<equiv> udp_sum IP_PROTO_UDP src (u_remote_ip pcb) (ntohs (uh_len u)) u c"
  shows "uh_chksum u \<noteq> 0" "S mod 65535 = 0" "S \<noteq> 0"
proof -
  define len where "len = ntohs (uh_len u)"
  define u0 where "u0 = u \<lparr> uh_chksum := 0 \<rparr>"
  define k where "k = inet_chksum_pseudo (udp_set_hdr u0 c) src (u_remote_ip pcb) IP_PROTO_UDP len"
  have k: "unat k = 65535 - oc16 (udp_sum IP_PROTO_UDP src (u_remote_ip pcb) len u0 c)"
    unfolding k_def using c by (rule udp_chksum_value)
  have f: "uh_chksum u = (if k = 0 then 0xffff else k)"
    using fl by (auto simp: k_def u0_def len_def u_def udp_out_hdr_sel) (simp_all add: udp_out_hdr_def Let_def)
  have S: "S = udp_sum IP_PROTO_UDP src (u_remote_ip pcb) len u0 c + unat (if k = 0 then 0xffff else k)"
    unfolding S_def len_def [symmetric] u0_def f [symmetric] by (rule udp_sum_chksum)
  show "uh_chksum u \<noteq> 0" "S mod 65535 = 0" "S \<noteq> 0"
    unfolding f S using udp_field_sum [OF k] by simp_all
qed

lemma pseudo_zero:
  assumes "c \<noteq> []" "8 \<le> length (hd c)" "\<forall>q\<in>set c. length q \<le> 65535"
  shows "inet_chksum_pseudo (udp_set_hdr u c) src dest proto len = 0 \<longleftrightarrow>
    udp_sum proto src dest len u c \<noteq> 0 \<and> udp_sum proto src dest len u c mod 65535 = 0"
proof -
  have "inet_chksum_pseudo (udp_set_hdr u c) src dest proto len = 0 \<longleftrightarrow>
      unat (inet_chksum_pseudo (udp_set_hdr u c) src dest proto len) = 0" by (simp add: unat_eq_0)
  also have "\<dots> \<longleftrightarrow> oc16 (udp_sum proto src dest len u c) = 65535"
    unfolding udp_chksum_value [OF assms] using oc16_le [of "udp_sum proto src dest len u c"] by linarith
  finally show ?thesis by (simp only: oc16_full)
qed

text \<open>A UDP datagram passes the test of the receiver, with or without a checksum.\<close>

lemma udp_accepts:
  assumes c: "c \<noteq> []" "8 \<le> length (hd c)" "\<forall>q\<in>set c. length q \<le> 65535"
    and fl: "u_flags pcb AND UDP_FLAGS_UDPLITE = 0"
    and h: "ih_src h = src" "ih_dest h = u_remote_ip pcb" "IPH_PROTO h = ucast IP_PROTO_UDP"
  shows "\<not> udp_chksum_bad h (udp_out_hdr pcb src c) (udp_finish pcb src c)"
proof (cases "u_flags pcb AND UDP_FLAGS_NOCHKSUM = 0")
  case True
  have l: "length (concat (udp_finish pcb src c)) = length (concat c)"
    using c(1,2) by (cases c) (simp_all add: udp_finish_hdr udp_set_hdr_def UDP_HLEN_def)
  have "inet_chksum_pseudo (udp_finish pcb src c) src (u_remote_ip pcb) IP_PROTO_UDP (of_nat (length (concat c))) = 0"
    unfolding udp_finish_hdr pseudo_zero [OF c]
    using udp_out_sum(2,3) [OF c, of pcb src] True fl by (simp add: udp_out_hdr_sel)
  then show ?thesis using h l by (simp add: udp_chksum_bad_def IP_PROTO_UDPLITE_def IP_PROTO_UDP_def)
next
  case False
  then have "uh_chksum (udp_out_hdr pcb src c) = 0" using fl by (simp add: udp_out_hdr_def Let_def)
  then show ?thesis using h by (simp add: udp_chksum_bad_def IP_PROTO_UDPLITE_def IP_PROTO_UDP_def)
qed

text \<open>A UDP-Lite datagram never passes the checksum test of the receiver: \<open>udp_send\<close> sums the
  pseudo header with the protocol number of UDP, \<open>udp_input\<close> with that of UDP-Lite.\<close>

theorem udplite_rejected:
  assumes "c \<noteq> []" "8 \<le> length (hd c)" "\<forall>q\<in>set c. length q \<le> 65535"
    and fl: "u_flags pcb AND UDP_FLAGS_UDPLITE \<noteq> 0"
    and h: "ih_src h = src" "ih_dest h = u_remote_ip pcb" "IPH_PROTO h = ucast IP_PROTO_UDPLITE"
  shows "udp_chksum_bad h (udp_out_hdr pcb src c) (udp_finish pcb src c)"
proof -
  define u where "u = udp_out_hdr pcb src c"
  define S where "S p = udp_sum p src (u_remote_ip pcb) (ntohs (uh_len u)) u c" for p
  have "S IP_PROTO_UDP mod 65535 = 0" unfolding S_def u_def using udp_out_sum(2) [OF assms(1-3)] fl by simp
  moreover have "S IP_PROTO_UDPLITE = S IP_PROTO_UDP + 39168"
    unfolding S_def using udp_sum_proto [of IP_PROTO_UDP] udp_sum_proto [of IP_PROTO_UDPLITE]
    by (simp add: IP_PROTO_UDP_def IP_PROTO_UDPLITE_def)
  ultimately have "S IP_PROTO_UDPLITE mod 65535 = 39168" using mod_add_left_eq [of "S IP_PROTO_UDP" 65535 39168] by simp
  then have "inet_chksum_pseudo (udp_finish pcb src c) src (u_remote_ip pcb) IP_PROTO_UDPLITE (ntohs (uh_len u)) \<noteq> 0"
    unfolding udp_finish_hdr pseudo_zero [OF assms(1-3)] u_def [symmetric] S_def by simp
  then show ?thesis using h by (simp add: udp_chksum_bad_def u_def)
qed

definition ex_upcb :: udp_pcb where
  "ex_upcb = zero_udp_pcb \<lparr> u_local_port := 5000, u_remote_ip := 0x0200000a, u_remote_port := 53, u_ttl := 255,
     u_recv := Some 1 \<rparr>"

theorem udplite_rejected_witness:
  "udp_chksum_bad (new_hdr 30 0x0100000a 0x0200000a 255 0 IP_PROTO_UDPLITE)
    (udp_out_hdr (ex_upcb \<lparr> u_flags := 2, u_chksum_len := 8 \<rparr>) 0x0100000a [[0, 0, 0, 0, 0, 0, 0, 0, 1, 2]])
    (udp_finish (ex_upcb \<lparr> u_flags := 2, u_chksum_len := 8 \<rparr>) 0x0100000a [[0, 0, 0, 0, 0, 0, 0, 0, 1, 2]])"
  by (rule udplite_rejected) (simp_all add: new_hdr_sel ex_upcb_def UDP_FLAGS_UDPLITE_def)

section \<open>From a sender to a receiver\<close>

lemma hdr_len_new [simp]: "hdr_len (new_hdr tot src dest t ts proto) = 20"
  by (simp add: hdr_len_def new_hdr_sel)

text \<open>A UDP datagram that fits the link is sent as one frame, and a receiver that takes that
  frame hands its application exactly the payload, the sender's address and the sender's port.\<close>

lemma send_delivers:
  assumes pcb: "udp_store s a = Some pcb" "u_local_port pcb \<noteq> 0" "u_flags pcb AND UDP_FLAGS_UDPLITE = 0"
    and rt: "ip_route (u_remote_ip pcb) (i_net s) = Some n" "netifs (i_net s) n = Some nif"
    and p: "pk_room p = Some pre" "28 \<le> length pre" "pk_chain p = q # qs"
    and len: "pk_len p + 28 < 65536" "nif_mtu nif = 0 \<or> pk_len p + 28 \<le> unat (nif_mtu nif)"
    and ip: "nif_ip_addr nif \<noteq> 0"
  defines "src \<equiv> (if u_local_ip pcb = 0 then nif_ip_addr nif else u_local_ip pcb)"
  defines "h \<equiv> new_hdr (of_nat (pk_len p + 28)) src (u_remote_ip pcb) (u_ttl pcb) (u_tos pcb) IP_PROTO_UDP"
  shows "\<exists>u err p'. udp_send env a p s =
      Some (err, p', send_frame n (u_remote_ip pcb) ((ip_hdr_bytes h @ udp_hdr_bytes u @ q) # qs) s) \<and>
    (\<forall>env' old inp (t :: 'b ustate_scheme) b rpcb f. netifs (i_net t) inp \<noteq> None \<and>
      udp_demux h (u_local_port pcb) (u_remote_port pcb) t = Some (Some b) \<and>
      udp_store t b = Some rpcb \<and> u_recv rpcb = Some f \<longrightarrow>
      udp_input env' old ((ip_hdr_bytes h @ udp_hdr_bytes u @ q) # qs) inp t =
        Some (t \<lparr> udp_events := udp_events t @ [UdpRecv b f (u_recv_arg rpcb) (q # qs) src (u_local_port pcb)] \<rparr>))"
proof -
  obtain p1 g where p1: "pk_header 8 p = Some p1" "pk_chain p1 = (g @ q) # qs" "length g = 8"
    "pk_room p1 = Some (take (length pre - 8) pre)"
    using p by (auto simp: pk_header_def intro!: that)
  define c where "c = (g @ q) # qs"
  define u where "u = udp_out_hdr pcb src c"
  have fin: "udp_finish pcb src c = (udp_hdr_bytes u @ q) # qs"
    using p1(3) by (simp add: udp_finish_hdr u_def udp_set_hdr_def c_def UDP_HLEN_def)
  define p2 where "p2 = p1 \<lparr> pk_chain := (udp_hdr_bytes u @ q) # qs \<rparr>"
  have l2: "pk_len p2 = pk_len p + 8" using p(3) by (simp add: p2_def pk_len_def)
  have src0: "src \<noteq> 0" using ip by (simp add: src_def)
  obtain p' where out: "ip_output_if env p2 src (Some (u_remote_ip pcb)) (u_ttl pcb) (u_tos pcb) IP_PROTO_UDP n s =
      Some (e_drv env n ((ip_hdr_bytes h @ udp_hdr_bytes u @ q) # qs), p',
        send_frame n (u_remote_ip pcb) ((ip_hdr_bytes h @ udp_hdr_bytes u @ q) # qs) s)"
  proof -
    have r2: "pk_room p2 = Some (take (length pre - 8) pre)" "20 \<le> length (take (length pre - 8) pre)"
      "pk_chain p2 = (udp_hdr_bytes u @ q) # qs" using p1(4) p(2) by (simp_all add: p2_def)
    have m2: "nif_mtu nif = 0 \<or> pk_len p2 + 20 \<le> unat (nif_mtu nif)" "pk_len p2 + 20 < 65536"
      using len by (auto simp: l2)
    have "pk_len p2 + 20 = pk_len p + 28" by (simp add: l2)
    then show thesis
      using output_if_frame [OF rt(2) r2 m2, of env src "u_remote_ip pcb" "u_ttl pcb" "u_tos pcb" IP_PROTO_UDP] src0 that
      by (auto simp only: h_def if_False append_assoc)
  qed
  have send: "udp_send env a p s = Some (e_drv env n ((ip_hdr_bytes h @ udp_hdr_bytes u @ q) # qs), p',
        send_frame n (u_remote_ip pcb) ((ip_hdr_bytes h @ udp_hdr_bytes u @ q) # qs) s)"
    using pcb rt p1(1,2) out
    by (simp add: udp_send_def ERR_OK_def Let_def UDP_HLEN_def src_def [symmetric] c_def [symmetric] fin p2_def)
  have hs: "ih_src h = src" "ih_dest h = u_remote_ip pcb" "IPH_PROTO h = ucast IP_PROTO_UDP" "hdr_len h = 20"
    by (simp_all add: h_def new_hdr_sel)
  have lc: "length (concat c) = pk_len p + 8" using p(3) p1(3) by (simp add: c_def pk_len_def)
  have "\<forall>r\<in>set c. length r \<le> 65535"
  proof
    fix r
    assume "r \<in> set c"
    then show "length r \<le> 65535" using length_concat_mem [of r c] lc len(1) by simp
  qed
  then have good: "\<not> udp_chksum_bad h u ((udp_hdr_bytes u @ q) # qs)"
    using udp_accepts [of c pcb h src] p1(3) pcb(3) hs fin by (simp add: c_def u_def)
  have sel: "ntohs (uh_src u) = u_local_port pcb" "ntohs (uh_dest u) = u_remote_port pcb"
    by (simp_all add: u_def udp_out_hdr_sel)
  have "udp_input env' old ((ip_hdr_bytes h @ udp_hdr_bytes u @ q) # qs) inp t =
        Some (t \<lparr> udp_events := udp_events t @ [UdpRecv b f (u_recv_arg rpcb) (q # qs) src (u_local_port pcb)] \<rparr>)"
    if "netifs (i_net t) inp \<noteq> None" "udp_demux h (u_local_port pcb) (u_remote_port pcb) t = Some (Some b)"
      "udp_store t b = Some rpcb" "u_recv rpcb = Some f"
    for env' old inp t b rpcb f
    using that good by (auto simp: udp_input_def Let_def hs UDP_HLEN_def sel)
  then show ?thesis using send by blast
qed

definition ex_udp :: ustate where
  "ex_udp = \<lparr> i_net = i_net ex_ip, i_frames = [], i_dat = replicate 1480 0, i_allocs = 0, udp_pcbs = [40],
     udp_store = [40 \<mapsto> ex_upcb], udp_events = [] \<rparr>"

end
