(* ===== verification/Udp_Step.thy ===== *)
theory Udp_Step
  imports Udp_Props
begin

text \<open>
  The list of UDP control blocks through every operation of the module, as a step relation, and
  the choice of a local port.
\<close>

section \<open>Choosing a port\<close>

definition udp_port_used :: "(addr \<rightharpoonup> udp_pcb) \<Rightarrow> addr list \<Rightarrow> u16 \<Rightarrow> bool" where
  "udp_port_used st pcbs port \<longleftrightarrow> (\<exists>a\<in>set pcbs. \<exists>p. st a = Some p \<and> u_local_port p = port)"

lemma last_port: "unat (port :: u16) = 0x7fff \<Longrightarrow> port = 0x7fff"
  by (simp add: word_unat_eq_iff)

lemma search_ok:
  "\<forall>a\<in>set pcbs. st a \<noteq> None \<Longrightarrow> set as \<subseteq> set pcbs \<Longrightarrow>
    (\<forall>a\<in>set pcbs - set as. \<forall>p. st a = Some p \<longrightarrow> u_local_port p \<noteq> port) \<Longrightarrow>
    unat port \<le> 0x7fff \<Longrightarrow> (port = 0x7fff \<longrightarrow> as \<noteq> []) \<Longrightarrow>
    \<exists>r free. udp_port_search st pcbs port as = Some (r, free) \<and>
      (\<forall>q. port \<le> q \<and> q < r \<longrightarrow> udp_port_used st pcbs q) \<and> unat port \<le> unat r \<and>
      (if free then \<not> udp_port_used st pcbs r \<and> unat r < 0x7fff else r = 0x7fff)"
proof (induction st pcbs port as rule: udp_port_search.induct)
  case (1 st pcbs port as)
  show ?case
  proof (cases as)
    case Nil
    have "unat port \<noteq> 0x7fff"
    proof
      assume "unat port = 0x7fff"
      then have "port = 0x7fff" by (simp add: word_unat_eq_iff)
      then show False using "1.prems"(5) Nil by simp
    qed
    moreover have "\<not> udp_port_used st pcbs port" using "1.prems"(3) Nil by (auto simp: udp_port_used_def)
    ultimately show ?thesis using "1.prems"(4) Nil
      by (intro exI [of _ port] exI [of _ True]) (subst udp_port_search.simps, auto)
  next
    case (Cons a bs)
    show ?thesis
    proof (cases "port = 0x7fff")
      case True
      then show ?thesis using Cons
        by (intro exI [of _ port] exI [of _ False]) (subst udp_port_search.simps, auto simp: UDP_LOCAL_PORT_RANGE_END_def)
    next
      case False
      have ne: "port \<noteq> UDP_LOCAL_PORT_RANGE_END" using False by (simp add: UDP_LOCAL_PORT_RANGE_END_def)
      have "a \<in> set pcbs" using "1.prems"(2) Cons by simp
      then obtain pcb where pcb: "st a = Some pcb" using "1.prems"(1) by auto
      have lt: "unat port < 0x7fff" using False "1.prems"(4) last_port [of port] by (cases "unat port = 0x7fff") auto
      show ?thesis
      proof (cases "u_local_port pcb = port")
        case True
        have up: "unat (port + 1) = unat port + 1" using lt by (simp add: unat_word_ariths)
        have e: "udp_port_search st pcbs port as = udp_port_search st pcbs (port + 1) pcbs"
          using Cons ne pcb True by (subst udp_port_search.simps) simp
        have used: "udp_port_used st pcbs q" if "port \<le> q" "\<not> port + 1 \<le> q" for q
        proof -
          have "unat q = unat port" using that up by (simp add: word_le_nat_alt)
          then have "q = port" by (simp add: word_unat_eq_iff)
          then show ?thesis using \<open>a \<in> set pcbs\<close> pcb True by (auto simp: udp_port_used_def)
        qed
        have nonempty: "pcbs \<noteq> []" using \<open>a \<in> set pcbs\<close> by auto
        obtain r free where r: "udp_port_search st pcbs (port + 1) pcbs = Some (r, free)"
          "\<forall>q. port + 1 \<le> q \<and> q < r \<longrightarrow> udp_port_used st pcbs q" "unat (port + 1) \<le> unat r"
          "if free then \<not> udp_port_used st pcbs r \<and> unat r < 0x7fff else r = 0x7fff"
          using "1.IH"(1) [OF Cons ne pcb True] "1.prems"(1) lt up nonempty by auto
        then have "\<forall>q. port \<le> q \<and> q < r \<longrightarrow> udp_port_used st pcbs q" using used by blast
        then show ?thesis unfolding e using r up by auto
      next
        case False
        have e: "udp_port_search st pcbs port as = udp_port_search st pcbs port bs"
          using Cons ne pcb False by (subst udp_port_search.simps) simp
        have "\<forall>b\<in>set pcbs - set bs. \<forall>p. st b = Some p \<longrightarrow> u_local_port p \<noteq> port"
          using "1.prems"(3) Cons pcb False by auto
        then show ?thesis unfolding e
          using "1.IH"(2) [OF Cons ne pcb False] "1.prems"(1,2,4) Cons \<open>port \<noteq> 0x7fff\<close> by auto
      qed
    qed
  qed
qed

section \<open>The list of control blocks\<close>

text \<open>Every listed block is allocated and bound, and none is listed twice.\<close>

definition udp_inv :: "'a ustate_scheme \<Rightarrow> bool" where
  "udp_inv s \<longleftrightarrow> distinct (udp_pcbs s) \<and> (\<forall>a\<in>set (udp_pcbs s). \<exists>p. udp_store s a = Some p \<and> u_local_port p \<noteq> 0)"

text \<open>The IP layer below leaves the control blocks alone.\<close>

definition ip_only :: "'a ipstate_scheme \<Rightarrow> 'a ipstate_scheme \<Rightarrow> bool" where
  "ip_only s t \<longleftrightarrow> (\<exists>fr dat al. t = s \<lparr> i_frames := fr, i_dat := dat, i_allocs := al \<rparr>)"

lemma ip_only_refl [simp]: "ip_only s s"
  unfolding ip_only_def by (intro exI [of _ "i_frames s"] exI [of _ "i_dat s"] exI [of _ "i_allocs s"]) simp

lemma ip_only_trans: "ip_only s t \<Longrightarrow> ip_only t u \<Longrightarrow> ip_only s u"
  unfolding ip_only_def by fastforce

lemma ip_only_steps [simp]:
  "ip_only s (send_frame a d c s)" "ip_only s (s \<lparr> i_allocs := al \<rparr>)" "ip_only s (s \<lparr> i_dat := dt, i_allocs := al \<rparr>)"
  unfolding ip_only_def send_frame_def
    by (rule exI [of _ "i_frames s @ [(a, d, c)]"], rule exI [of _ "i_dat s"], rule exI [of _ "i_allocs s"], simp)
      (rule exI [of _ "i_frames s"], rule exI [of _ "i_dat s"], rule exI [of _ al], simp,
        rule exI [of _ "i_frames s"], rule exI [of _ dt], rule exI [of _ al], simp)

lemma ip_only_fold: "ip_only s (fold (\<lambda>f. send_frame a d [[], f]) fs s)"
proof (induction fs arbitrary: s)
  case (Cons f fs)
  then show ?case using ip_only_trans [of s "send_frame a d [[], f] s"] by simp
qed simp

lemma ip_only_transmit: "ip_transmit env p d a nif s = Some (e, p', t) \<Longrightarrow> ip_only s t"
  unfolding ip_transmit_def
  by (auto simp: bind_eq_Some_conv Let_def split: if_splits prod.splits intro: ip_only_trans [OF _ ip_only_fold])

lemma ip_only_output_if: "ip_output_if env p src d t ts proto a s = Some (e, p', s') \<Longrightarrow> ip_only s s'"
  by (cases d; cases "pk_header IP_HLEN p")
    (auto simp: ip_output_if_def bind_eq_Some_conv Let_def dest: ip_only_transmit)

lemma ip_only_unreach: "icmp_dest_unreach env old p t s = Some s' \<Longrightarrow> ip_only s s'"
  unfolding icmp_dest_unreach_def ip_output_p_def ip_alloc_def
  by (auto simp: bind_eq_Some_conv Let_def split: option.splits if_splits prod.splits
      dest!: ip_only_output_if intro: ip_only_trans [OF ip_only_steps(2)])

lemma udp_inv_ip_only: "ip_only s t \<Longrightarrow> udp_inv t = udp_inv s"
  unfolding ip_only_def udp_inv_def by auto

text \<open>The operations of the module as steps.\<close>

inductive udp_step :: "'a ustate_scheme \<Rightarrow> 'a ustate_scheme \<Rightarrow> bool" where
  new: "udp_store s a = None \<Longrightarrow> udp_new (Some a) s = (r, t) \<Longrightarrow> udp_step s t"
| bind: "udp_bind a ip port s = Some (err, t) \<Longrightarrow> udp_step s t"
| connect: "udp_connect a ip port s = Some (err, t) \<Longrightarrow> udp_step s t"
| disconnect: "udp_disconnect a s = Some t \<Longrightarrow> udp_step s t"
| recv: "udp_recv a f arg s = Some t \<Longrightarrow> udp_step s t"
| remove: "udp_remove a s = Some t \<Longrightarrow> udp_step s t"
| send: "udp_send env a p s = Some (err, p', t) \<Longrightarrow> udp_step s t"
| sendto: "udp_sendto env a p ip port s = Some (err, p', t) \<Longrightarrow> udp_step s t"
| input: "udp_input env old c inp s = Some t \<Longrightarrow> udp_step s t"

lemma udp_inv_alloc: "udp_inv s \<Longrightarrow> \<forall>a\<in>set (udp_pcbs s). udp_store s a \<noteq> None"
  by (auto simp: udp_inv_def)

lemma udp_inv_upd:
  assumes "udp_inv s" "\<And>p. u_local_port p \<noteq> 0 \<Longrightarrow> u_local_port (f p) \<noteq> 0"
  shows "udp_inv (udp_upd a f s)"
  using assms by (auto simp: udp_inv_def udp_upd_def)

lemma udp_upd_sel [simp]:
  "udp_pcbs (udp_upd a f s) = udp_pcbs s" "udp_store (udp_upd a f s) a = map_option f (udp_store s a)"
  "i_net (udp_upd a f s) = i_net s"
  by (simp_all add: udp_upd_def)

lemma udp_port_used_upd:
  assumes "\<And>p. u_local_port (f p) = u_local_port p"
  shows "udp_port_used (udp_store (udp_upd a f s)) pcbs q = udp_port_used (udp_store s) pcbs q"
proof -
  have "(\<exists>p. udp_store (udp_upd a f s) b = Some p \<and> u_local_port p = q) \<longleftrightarrow>
      (\<exists>p. udp_store s b = Some p \<and> u_local_port p = q)" for b
    using assms by (auto simp: udp_upd_def)
  then show ?thesis by (simp add: udp_port_used_def)
qed

text \<open>A control block after a successful bind.\<close>

definition udp_bound :: "addr \<Rightarrow> u32 \<Rightarrow> u16 \<Rightarrow> 'a ustate_scheme \<Rightarrow> 'a ustate_scheme" where
  "udp_bound a ip r s =
    (let t = udp_upd a (\<lambda>p. p \<lparr> u_local_port := r \<rparr>) (udp_upd a (\<lambda>p. p \<lparr> u_local_ip := ip \<rparr>) s)
     in if a \<in> set (udp_pcbs s) then t else t \<lparr> udp_pcbs := a # udp_pcbs s \<rparr>)"

lemma udp_bound_inv:
  assumes "udp_inv s" "udp_store s a = Some pcb" "r \<noteq> 0"
  shows "udp_inv (udp_bound a ip r s)" "a \<in> set (udp_pcbs (udp_bound a ip r s))"
    "udp_store (udp_bound a ip r s) a = Some (pcb \<lparr> u_local_ip := ip, u_local_port := r \<rparr>)"
  using assms by (auto simp: udp_bound_def Let_def udp_inv_def udp_upd_def)

lemma bind_port_given:
  "udp_store s a = Some pcb \<Longrightarrow> port \<noteq> 0 \<Longrightarrow> udp_bind a ip port s = Some (ERR_OK, udp_bound a ip port s)"
  by (simp add: udp_bind_def udp_bound_def Let_def)

lemma bind_port_search:
  assumes inv: "udp_inv s" and st: "udp_store s a = Some pcb"
  shows "(\<exists>r. udp_bind a ip 0 s = Some (ERR_OK, udp_bound a ip r s) \<and> 4096 \<le> unat r \<and> unat r < 0x7fff \<and>
      \<not> udp_port_used (udp_store s) (udp_pcbs s) r \<and>
      (\<forall>q. 4096 \<le> q \<and> q < r \<longrightarrow> udp_port_used (udp_store s) (udp_pcbs s) q)) \<or>
    (udp_bind a ip 0 s = Some (ERR_USE, udp_upd a (\<lambda>p. p \<lparr> u_local_ip := ip \<rparr>) s) \<and>
      (\<forall>q. 4096 \<le> q \<and> q < 0x7fff \<longrightarrow> udp_port_used (udp_store s) (udp_pcbs s) q))"
proof -
  define s1 where "s1 = udp_upd a (\<lambda>p. p \<lparr> u_local_ip := ip \<rparr>) s"
  have i1: "udp_inv s1" unfolding s1_def using inv by (rule udp_inv_upd) simp
  have pcbs1: "udp_pcbs s1 = udp_pcbs s" by (simp add: s1_def)
  have used: "udp_port_used (udp_store s1) (udp_pcbs s) q = udp_port_used (udp_store s) (udp_pcbs s) q" for q
    unfolding s1_def by (rule udp_port_used_upd) simp
  obtain r free where r: "udp_port_search (udp_store s1) (udp_pcbs s) 4096 (udp_pcbs s) = Some (r, free)"
    "\<forall>q. 4096 \<le> q \<and> q < r \<longrightarrow> udp_port_used (udp_store s) (udp_pcbs s) q" "4096 \<le> unat r"
    "if free then \<not> udp_port_used (udp_store s) (udp_pcbs s) r \<and> unat r < 0x7fff else r = 0x7fff"
    using search_ok [of "udp_pcbs s" "udp_store s1" "udp_pcbs s" 4096, unfolded used] udp_inv_alloc [OF i1]
    by (auto simp: pcbs1)
  have "udp_bind a ip 0 s = Some (if free then (ERR_OK, udp_bound a ip r s) else (ERR_USE, s1))"
    using st r(1)
    by (simp add: udp_bind_def s1_def [symmetric] UDP_LOCAL_PORT_RANGE_START_def udp_bound_def Let_def pcbs1)
  then show ?thesis using r(2-4) by (cases free) (auto simp: s1_def)
qed

lemma bind_inv:
  assumes "udp_inv s" "udp_bind a ip port s = Some (err, t)"
  shows "udp_inv t \<and> udp_store t a \<noteq> None \<and> (err = ERR_OK \<longrightarrow> a \<in> set (udp_pcbs t))"
proof -
  obtain pcb where st: "udp_store s a = Some pcb" using assms(2) by (auto simp: udp_bind_def bind_eq_Some_conv)
  have use: "udp_inv (udp_upd a (\<lambda>p. p \<lparr> u_local_ip := ip \<rparr>) s)" using assms(1) by (rule udp_inv_upd) simp
  show ?thesis
  proof (cases "port = 0")
    case True
    from bind_port_search [OF assms(1) st, of ip] show ?thesis
    proof
      assume "\<exists>r. udp_bind a ip 0 s = Some (ERR_OK, udp_bound a ip r s) \<and> 4096 \<le> unat r \<and> unat r < 0x7fff \<and>
        \<not> udp_port_used (udp_store s) (udp_pcbs s) r \<and>
        (\<forall>q. 4096 \<le> q \<and> q < r \<longrightarrow> udp_port_used (udp_store s) (udp_pcbs s) q)"
      then obtain r where r: "t = udp_bound a ip r s" "4096 \<le> unat r" using assms(2) True by auto
      then have "r \<noteq> 0" by auto
      then show ?thesis using udp_bound_inv [OF assms(1) st, of r ip] r by simp
    next
      assume "udp_bind a ip 0 s = Some (ERR_USE, udp_upd a (\<lambda>p. p \<lparr> u_local_ip := ip \<rparr>) s) \<and>
        (\<forall>q. 4096 \<le> q \<and> q < 0x7fff \<longrightarrow> udp_port_used (udp_store s) (udp_pcbs s) q)"
      then have "err = ERR_USE" "t = udp_upd a (\<lambda>p. p \<lparr> u_local_ip := ip \<rparr>) s" using assms(2) True by auto
      then show ?thesis using use st by (simp add: ERR_USE_def ERR_OK_def)
    qed
  next
    case False
    then show ?thesis using bind_port_given [OF st, of port ip] udp_bound_inv [OF assms(1) st False, of ip] assms(2) by auto
  qed
qed

text \<open>C31: \<open>udp_bind\<close> without a port takes the least port from 4096 up to 32766 that no listed control
  block uses, and reports \<open>ERR_USE\<close> only when every one of them is taken; the search ends in
  every case.\<close>

theorem udp_bind_port:
  assumes "udp_inv s" "udp_store s a = Some pcb"
  shows "(\<exists>r t. udp_bind a ip 0 s = Some (ERR_OK, t) \<and> udp_inv t \<and> a \<in> set (udp_pcbs t) \<and>
      udp_store t a = Some (pcb \<lparr> u_local_ip := ip, u_local_port := r \<rparr>) \<and> 4096 \<le> unat r \<and> unat r < 0x7fff \<and>
      \<not> udp_port_used (udp_store s) (udp_pcbs s) r \<and>
      (\<forall>q. 4096 \<le> q \<and> q < r \<longrightarrow> udp_port_used (udp_store s) (udp_pcbs s) q)) \<or>
    (\<exists>t. udp_bind a ip 0 s = Some (ERR_USE, t) \<and> udp_pcbs t = udp_pcbs s \<and>
      (\<forall>q. 4096 \<le> q \<and> q < 0x7fff \<longrightarrow> udp_port_used (udp_store s) (udp_pcbs s) q))"
proof (rule disjE [OF bind_port_search [OF assms, of ip]])
  assume "\<exists>r. udp_bind a ip 0 s = Some (ERR_OK, udp_bound a ip r s) \<and> 4096 \<le> unat r \<and> unat r < 0x7fff \<and>
      \<not> udp_port_used (udp_store s) (udp_pcbs s) r \<and>
      (\<forall>q. 4096 \<le> q \<and> q < r \<longrightarrow> udp_port_used (udp_store s) (udp_pcbs s) q)"
  then obtain r where r: "udp_bind a ip 0 s = Some (ERR_OK, udp_bound a ip r s)" "4096 \<le> unat r" "unat r < 0x7fff"
    "\<not> udp_port_used (udp_store s) (udp_pcbs s) r"
    "\<forall>q. 4096 \<le> q \<and> q < r \<longrightarrow> udp_port_used (udp_store s) (udp_pcbs s) q" by blast
  then have "r \<noteq> 0" by auto
  then show ?thesis using r udp_bound_inv [OF assms, of r ip] by blast
qed auto

theorem udp_bind_port_witness:
  "(\<exists>r t. udp_bind 41 5 0 (ex_udp \<lparr> udp_store := (udp_store ex_udp)(41 \<mapsto> zero_udp_pcb) \<rparr>) = Some (ERR_OK, t) \<and>
      udp_inv t \<and> 41 \<in> set (udp_pcbs t) \<and>
      udp_store t 41 = Some (zero_udp_pcb \<lparr> u_local_ip := 5, u_local_port := r \<rparr>) \<and> 4096 \<le> unat r \<and> unat r < 0x7fff \<and>
      \<not> udp_port_used ((udp_store ex_udp)(41 \<mapsto> zero_udp_pcb)) (udp_pcbs ex_udp) r \<and>
      (\<forall>q. 4096 \<le> q \<and> q < r \<longrightarrow> udp_port_used ((udp_store ex_udp)(41 \<mapsto> zero_udp_pcb)) (udp_pcbs ex_udp) q)) \<or>
    (\<exists>t. udp_bind 41 5 0 (ex_udp \<lparr> udp_store := (udp_store ex_udp)(41 \<mapsto> zero_udp_pcb) \<rparr>) = Some (ERR_USE, t) \<and>
      udp_pcbs t = udp_pcbs ex_udp \<and>
      (\<forall>q. 4096 \<le> q \<and> q < 0x7fff \<longrightarrow> udp_port_used ((udp_store ex_udp)(41 \<mapsto> zero_udp_pcb)) (udp_pcbs ex_udp) q))"
  using udp_bind_port [of "ex_udp \<lparr> udp_store := (udp_store ex_udp)(41 \<mapsto> zero_udp_pcb) \<rparr>" 41 zero_udp_pcb 5]
  by (simp add: udp_inv_def ex_udp_def ex_upcb_def)

section \<open>Every operation keeps the list well formed\<close>

lemma bind_if_needed:
  assumes "udp_inv s" "udp_store s a = Some pcb"
    and "(if u_local_port pcb = 0 then udp_bind a ip (u_local_port pcb) s else Some (ERR_OK, s)) = Some (err, t)"
  shows "udp_inv t" "err = ERR_OK \<Longrightarrow> u_local_port pcb = 0 \<Longrightarrow> a \<in> set (udp_pcbs t)" "udp_store t a \<noteq> None"
  using assms bind_inv [OF assms(1), of a ip 0] by (auto split: if_splits)

lemma connect_inv:
  assumes inv: "udp_inv s" and c: "udp_connect a ip port s = Some (err, t)"
  shows "udp_inv t"
proof -
  obtain pcb err' s1 where s: "udp_store s a = Some pcb"
    "(if u_local_port pcb = 0 then udp_bind a (u_local_ip pcb) (u_local_port pcb) s else Some (ERR_OK, s)) = Some (err', s1)"
    "(if err' \<noteq> ERR_OK then Some (err', s1)
      else let s = udp_upd a (\<lambda>p. p \<lparr> u_remote_ip := ip, u_remote_port := port,
                                   u_flags := u_flags p OR UDP_FLAGS_CONNECTED \<rparr>) s1
        in Some (ERR_OK, if a \<in> set (udp_pcbs s) then s else s \<lparr> udp_pcbs := a # udp_pcbs s \<rparr>)) = Some (err, t)"
    using c unfolding udp_connect_def bind_eq_Some_conv by (auto simp only: prod.case)
  define f :: "udp_pcb \<Rightarrow> udp_pcb" where "f = (\<lambda>p. p \<lparr> u_remote_ip := ip, u_remote_port := port, u_flags := u_flags p OR UDP_FLAGS_CONNECTED \<rparr>)"
  have i1: "udp_inv s1" using bind_if_needed(1) [OF inv s(1,2)] .
  have i2: "udp_inv (udp_upd a f s1)" using i1 by (rule udp_inv_upd) (simp add: f_def)
  show ?thesis
  proof (cases "err' \<noteq> ERR_OK \<or> a \<in> set (udp_pcbs s1)")
    case True
    then show ?thesis using s(3) i1 i2 by (auto simp: f_def Let_def split: if_splits)
  next
    case False
    then have "u_local_port pcb \<noteq> 0" "s1 = s" using bind_if_needed(2) [OF inv s(1,2)] s(2) by (auto split: if_splits)
    then have "udp_inv (udp_upd a f s1 \<lparr> udp_pcbs := a # udp_pcbs s1 \<rparr>)"
      using i2 s(1) False by (auto simp: udp_inv_def f_def udp_upd_def)
    then show ?thesis using s(3) False by (simp add: f_def Let_def)
  qed
qed

lemma send_ip_only:
  assumes "udp_send env a p s = Some (err, p', t)" and "udp_store s a = Some pcb"
  shows "\<exists>e s1. (if u_local_port pcb = 0 then udp_bind a (u_local_ip pcb) (u_local_port pcb) s else Some (ERR_OK, s)) =
    Some (e, s1) \<and> ip_only s1 t"
proof -
  obtain e s1 where e: "(if u_local_port pcb = 0 then udp_bind a (u_local_ip pcb) (u_local_port pcb) s
      else Some (ERR_OK, s)) = Some (e, s1)"
    using assms unfolding udp_send_def by (auto simp: bind_eq_Some_conv split: if_splits)
  have "ip_only s1 t"
    using assms(1) unfolding udp_send_def assms(2) Option.bind.simps e prod.case Let_def ip_alloc_def
    by (auto simp: bind_eq_Some_conv split: option.splits if_splits
        dest!: ip_only_output_if intro: ip_only_trans [OF ip_only_steps(2)])
  then show ?thesis using e by blast
qed

lemma send_inv:
  assumes "udp_inv s" "udp_send env a p s = Some (err, p', t)"
  shows "udp_inv t"
proof -
  obtain pcb where st: "udp_store s a = Some pcb" using assms(2) by (auto simp: udp_send_def bind_eq_Some_conv)
  then show ?thesis
    using send_ip_only [OF assms(2) st] bind_if_needed(1) [OF assms(1) st] udp_inv_ip_only by blast
qed

lemma input_inv:
  assumes "udp_inv s" "udp_input env old c inp s = Some t"
  shows "udp_inv t"
proof -
  have "udp_inv (s \<lparr> udp_events := ev \<rparr>)" for ev using assms(1) by (simp add: udp_inv_def)
  then show ?thesis using assms
    by (auto simp: udp_input_def bind_eq_Some_conv Let_def split: if_splits option.splits
        dest!: ip_only_unreach simp: udp_inv_ip_only)
qed

interpretation udp_run: step_invariant udp_step udp_inv
proof
  fix s t :: "'a ustate_scheme"
  assume "udp_step s t" "udp_inv s"
  then show "udp_inv t"
  proof (induction rule: udp_step.induct)
    case (new s a r t)
    then have "a \<notin> set (udp_pcbs s)" by (auto simp: udp_inv_def)
    then show ?case using new by (auto simp: udp_new_def udp_inv_def)
  next
    case (disconnect a s t)
    then show ?case by (auto simp: udp_disconnect_def bind_eq_Some_conv intro!: udp_inv_upd)
  next
    case (recv a f arg s t)
    then show ?case by (auto simp: udp_recv_def bind_eq_Some_conv intro!: udp_inv_upd)
  next
    case (remove a s t)
    then show ?case by (auto simp: udp_remove_def bind_eq_Some_conv udp_inv_def)
  next
    case (sendto env a p ip port s err p' t)
    then show ?case unfolding udp_sendto_def
      by (auto simp: bind_eq_Some_conv intro!: udp_inv_upd dest!: send_inv [rotated])
  next
    case (input env old c inp s t)
    show ?case by (rule input_inv [OF input(2,1)])
  qed (use bind_inv connect_inv send_inv in blast)+
qed

text \<open>C30: Through any sequence of UDP operations, failing ones included, the list of control blocks
  holds only allocated blocks with a local port, each once.\<close>

theorem udp_list_invariant:
  assumes "udp_step\<^sup>*\<^sup>* s t" "udp_inv s"
  shows "udp_inv t"
  using assms by (rule udp_run.runs_keep)

theorem udp_list_invariant_witness: "udp_inv (ex_udp \<lparr> udp_pcbs := [], udp_store := Map.empty \<rparr>)"
proof -
  have "udp_step ex_udp (ex_udp \<lparr> udp_pcbs := [], udp_store := Map.empty \<rparr>)"
    by (rule udp_step.remove [of 40]) (simp add: udp_remove_def ex_udp_def)
  then have "udp_step\<^sup>*\<^sup>* ex_udp (ex_udp \<lparr> udp_pcbs := [], udp_store := Map.empty \<rparr>)" by blast
  then show ?thesis by (rule udp_list_invariant) (simp add: udp_inv_def ex_udp_def ex_upcb_def)
qed

end
