(* ===== verification/Raw.thy ===== *)
theory Raw
  imports Udp_Step
begin

text \<open>
  Raw sockets (\<open>src/nsc-0.5.3/lwip-HEAD/src/core/raw.c\<close>).  The receive callback of a control block
  is part of the application; whether it eats the packet is an argument of \<open>raw_input\<close>, and every
  call is recorded.
\<close>

definition RAW_TTL :: u8 where [cfg_defs]: "RAW_TTL = 255"

record raw_pcb =
  r_local_ip :: u32
  r_remote_ip :: u32
  r_so_options :: u16
  r_tos :: u8
  r_ttl :: u8
  r_protocol :: u16
  r_recv :: "fptr option"
  r_recv_arg :: nat

datatype raw_event = RawRecv addr fptr nat "u8 list list" u32

record rstate = ustate +
  raw_pcbs :: "addr list"
  raw_store :: "addr \<rightharpoonup> raw_pcb"
  raw_events :: "raw_event list"

type_synonym raw_eats = "fptr \<Rightarrow> nat \<Rightarrow> addr \<Rightarrow> u8 list list \<Rightarrow> u32 \<Rightarrow> bool"

definition raw_init :: "'a rstate_scheme \<Rightarrow> 'a rstate_scheme" where
  "raw_init s = s \<lparr> raw_pcbs := [] \<rparr>"

definition raw_upd :: "addr \<Rightarrow> (raw_pcb \<Rightarrow> raw_pcb) \<Rightarrow> 'a rstate_scheme \<Rightarrow> 'a rstate_scheme" where
  "raw_upd a f s = s \<lparr> raw_store := (raw_store s)(a := map_option f (raw_store s a)) \<rparr>"

fun raw_loop :: "raw_eats \<Rightarrow> ip_hdr \<Rightarrow> u8 list list \<Rightarrow> addr list \<Rightarrow> 'a rstate_scheme \<Rightarrow> (bool \<times> 'a rstate_scheme) option" where
  "raw_loop eats h p [] s = Some (False, s)"
| "raw_loop eats h p (a # as) s =
    (case raw_store s a of
       None \<Rightarrow> None
     | Some pcb \<Rightarrow>
         if r_protocol pcb = IPH_PROTO h then
           (case r_recv pcb of
              None \<Rightarrow> raw_loop eats h p as s
            | Some f \<Rightarrow>
                let s = s \<lparr> raw_events := raw_events s @ [RawRecv a f (r_recv_arg pcb) p (ih_src h)] \<rparr>
                in if eats f (r_recv_arg pcb) a p (ih_src h) then Some (True, s) else raw_loop eats h p as s)
         else raw_loop eats h p as s)"

definition raw_input :: "raw_eats \<Rightarrow> u8 list list \<Rightarrow> 'a rstate_scheme \<Rightarrow> (bool \<times> 'a rstate_scheme) option" where
  "raw_input eats p s = do {
     h \<leftarrow> (case p of [] \<Rightarrow> None | q # _ \<Rightarrow> ip_hdr_of q);
     raw_loop eats h p (raw_pcbs s) s
   }"

definition raw_bind :: "addr \<Rightarrow> u32 \<Rightarrow> 'a rstate_scheme \<Rightarrow> (err_t \<times> 'a rstate_scheme) option" where
  "raw_bind a ip s = do {
     _ \<leftarrow> raw_store s a;
     Some (ERR_OK, raw_upd a (\<lambda>p. p \<lparr> r_local_ip := ip \<rparr>) s)
   }"

definition raw_connect :: "addr \<Rightarrow> u32 \<Rightarrow> 'a rstate_scheme \<Rightarrow> (err_t \<times> 'a rstate_scheme) option" where
  "raw_connect a ip s = do {
     _ \<leftarrow> raw_store s a;
     Some (ERR_OK, raw_upd a (\<lambda>p. p \<lparr> r_remote_ip := ip \<rparr>) s)
   }"

definition raw_recv :: "addr \<Rightarrow> fptr option \<Rightarrow> nat \<Rightarrow> 'a rstate_scheme \<Rightarrow> 'a rstate_scheme option" where
  "raw_recv a f arg s = do {
     _ \<leftarrow> raw_store s a;
     Some (raw_upd a (\<lambda>p. p \<lparr> r_recv := f, r_recv_arg := arg \<rparr>) s)
   }"

text \<open>The header room is only tested: when there is none, an empty pbuf with room is put in front.\<close>

definition raw_sendto :: "ipenv \<Rightarrow> addr \<Rightarrow> pkt \<Rightarrow> u32 \<Rightarrow> 'a rstate_scheme \<Rightarrow> (err_t \<times> pkt \<times> 'a rstate_scheme) option" where
  "raw_sendto env a p ip s = do {
     pcb \<leftarrow> raw_store s a;
     let room = (pk_header IP_HLEN p \<noteq> None);
     let (ok, s) = (if room then (True, s) else ip_alloc env s);
     if \<not> ok then Some (ERR_MEM, p, s)
     else do {
       let q = (if room then p else \<lparr> pk_room = Some (replicate 34 0), pk_chain = [] # pk_chain p \<rparr>);
       case ip_route ip (i_net s) of
         None \<Rightarrow> Some (ERR_RTE, p, s)
       | Some n \<Rightarrow> do {
           nif \<leftarrow> netifs (i_net s) n;
           let src_ip = (if r_local_ip pcb = 0 then nif_ip_addr nif else r_local_ip pcb);
           (err, q, s) \<leftarrow> ip_output_if env q src_ip (Some ip) (r_ttl pcb) (r_tos pcb) (ucast (r_protocol pcb)) n s;
           Some (err, if room then q else p \<lparr> pk_chain := tl (pk_chain q) \<rparr>, s)
         }
     }
   }"

definition raw_send :: "ipenv \<Rightarrow> addr \<Rightarrow> pkt \<Rightarrow> 'a rstate_scheme \<Rightarrow> (err_t \<times> pkt \<times> 'a rstate_scheme) option" where
  "raw_send env a p s = do {
     pcb \<leftarrow> raw_store s a;
     raw_sendto env a p (r_remote_ip pcb) s
   }"

definition raw_remove :: "addr \<Rightarrow> 'a rstate_scheme \<Rightarrow> 'a rstate_scheme option" where
  "raw_remove a s = do {
     _ \<leftarrow> raw_store s a;
     Some (s \<lparr> raw_pcbs := remove1 a (raw_pcbs s), raw_store := (raw_store s)(a := None) \<rparr>)
   }"

definition raw_new :: "addr option \<Rightarrow> u16 \<Rightarrow> 'a rstate_scheme \<Rightarrow> addr option \<times> 'a rstate_scheme" where
  "raw_new blk proto s =
    (case blk of
       None \<Rightarrow> (None, s)
     | Some a \<Rightarrow> (Some a, s \<lparr> raw_store := (raw_store s)(a \<mapsto> \<lparr> r_local_ip = 0, r_remote_ip = 0, r_so_options = 0,
          r_tos = 0, r_ttl = RAW_TTL, r_protocol = proto, r_recv = None, r_recv_arg = 0 \<rparr>),
          raw_pcbs := a # raw_pcbs s \<rparr>))"

section \<open>Which sockets see a packet\<close>

text \<open>The listening sockets for the protocol, in list order, up to and including the first that eats
  the packet.\<close>

definition raw_listeners :: "ip_hdr \<Rightarrow> (addr \<rightharpoonup> raw_pcb) \<Rightarrow> addr list \<Rightarrow> (addr \<times> fptr \<times> nat) list" where
  "raw_listeners h st as = concat (map (\<lambda>a. case st a of
      Some pcb \<Rightarrow> (case r_recv pcb of
          Some f \<Rightarrow> if r_protocol pcb = IPH_PROTO h then [(a, f, r_recv_arg pcb)] else [] | None \<Rightarrow> [])
    | None \<Rightarrow> []) as)"

fun upto_first :: "('b \<Rightarrow> bool) \<Rightarrow> 'b list \<Rightarrow> 'b list" where
  "upto_first P [] = []"
| "upto_first P (x # xs) = (if P x then [x] else x # upto_first P xs)"

lemma raw_loop_events:
  "\<forall>a\<in>set as. raw_store s a \<noteq> None \<Longrightarrow>
    raw_loop eats h p as s = Some (\<exists>x\<in>set (raw_listeners h (raw_store s) as). (\<lambda>(a, f, arg). eats f arg a p (ih_src h)) x,
      s \<lparr> raw_events := raw_events s @ map (\<lambda>(a, f, arg). RawRecv a f arg p (ih_src h))
        (upto_first (\<lambda>(a, f, arg). eats f arg a p (ih_src h)) (raw_listeners h (raw_store s) as)) \<rparr>)"
proof (induction as arbitrary: s)
  case (Cons a as)
  then obtain pcb where "raw_store s a = Some pcb" by auto
  then show ?case using Cons.IH [of s] Cons.prems
      Cons.IH [of "s \<lparr> raw_events := raw_events s @ [RawRecv a (the (r_recv pcb)) (r_recv_arg pcb) p (ih_src h)] \<rparr>"]
    by (cases "r_recv pcb") (auto simp: raw_listeners_def Let_def)
qed (simp add: raw_listeners_def)

text \<open>A raw packet is shown to the listening sockets of its protocol in list order until one of
  them eats it, and to no socket after that; nothing else of the state changes.\<close>

theorem raw_input_demux:
  assumes "ip_hdr_of q = Some h" "\<forall>a\<in>set (raw_pcbs s). raw_store s a \<noteq> None"
  shows "raw_input eats (q # qs) s =
    Some (\<exists>x\<in>set (raw_listeners h (raw_store s) (raw_pcbs s)). (\<lambda>(a, f, arg). eats f arg a (q # qs) (ih_src h)) x,
      s \<lparr> raw_events := raw_events s @ map (\<lambda>(a, f, arg). RawRecv a f arg (q # qs) (ih_src h))
        (upto_first (\<lambda>(a, f, arg). eats f arg a (q # qs) (ih_src h)) (raw_listeners h (raw_store s) (raw_pcbs s))) \<rparr>)"
  using assms raw_loop_events by (simp add: raw_input_def)

definition ex_raw :: rstate where
  "ex_raw = \<lparr> i_net = i_net ex_ip, i_frames = [], i_dat = replicate 1480 0, i_allocs = 0, udp_pcbs = [40],
     udp_store = [40 \<mapsto> ex_upcb], udp_events = [], raw_pcbs = [50],
     raw_store = [50 \<mapsto> \<lparr> r_local_ip = 0, r_remote_ip = 0, r_so_options = 0, r_tos = 0, r_ttl = 255, r_protocol = 1,
       r_recv = Some 9, r_recv_arg = 3 \<rparr>], raw_events = [] \<rparr>"

theorem raw_input_demux_witness:
  "raw_input (\<lambda>_ _ _ _ _. True) [ip_hdr_bytes ex_ping_hdr @ ex_ping] ex_raw =
    Some (True, ex_raw \<lparr> raw_events := [RawRecv 50 9 3 [ip_hdr_bytes ex_ping_hdr @ ex_ping] 0x0200000a] \<rparr>)"
proof -
  have "raw_listeners ex_ping_hdr (raw_store ex_raw) (raw_pcbs ex_raw) = [(50, 9, 3)]"
    by (simp add: raw_listeners_def ex_raw_def ex_ping_hdr_def new_hdr_sel)
  then show ?thesis
    using raw_input_demux [OF ex_ping_facts(1), of ex_raw "\<lambda>_ _ _ _ _. True" "[]"] ex_ping_facts(7)
    by (simp add: ex_raw_def)
qed

end
