(* ===== verification/Ip_In.thy ===== *)
theory Ip_In
  imports Raw Tcp_Input
begin

text \<open>
  Receiving IP packets (\<open>ip_input\<close> of \<open>src/nsc-0.5.3/lwip-HEAD/src/core/ipv4/ip.c\<close>, with
  \<open>IP_FORWARD\<close> and \<open>LWIP_DHCP\<close> off and \<open>IP_OPTIONS\<close>, \<open>IP_REASSEMBLY\<close> and \<open>LWIP_RAW\<close> on), and the
  whole stack as one state: the IP layer, the control blocks of UDP and raw sockets, the
  reassembly buffer, and TCP.  The counters of \<open>lwip_stats\<close> are left out.
\<close>

record stack = rstate +
  k_reass :: reass
  k_tcp :: tstate

text \<open>What the stack is run against: the allocator and the drivers, the application's callbacks, the
  bytes left in fresh memory, and the number of free pool pbufs.\<close>

record stkenv =
  k_ip :: ipenv
  k_tenv :: tcp_env
  k_app :: tcp_app
  k_eats :: raw_eats
  k_old :: "u8 list"
  k_avail :: nat

section \<open>Input\<close>

text \<open>\<open>pbuf_realloc\<close> on a chain: cutting it to a length.\<close>

fun trim_walk :: "nat \<Rightarrow> u8 list list \<Rightarrow> u8 list list" where
  "trim_walk n [] = []"
| "trim_walk n (q # qs) = (if n > length q then q # trim_walk (n - length q) qs else [take n q])"

definition chain_realloc :: "nat \<Rightarrow> u8 list list \<Rightarrow> u8 list list" where
  "chain_realloc n p = (if n \<ge> length (concat p) then p else trim_walk n p)"

fun accept_loop :: "u32 \<Rightarrow> (addr \<rightharpoonup> netif) \<Rightarrow> addr list \<Rightarrow> addr option option" where
  "accept_loop dest st [] = Some None"
| "accept_loop dest st (a # as) =
    (case st a of
       None \<Rightarrow> None
     | Some nif \<Rightarrow>
         if netif_is_up nif \<and> nif_ip_addr nif \<noteq> 0 \<and> (dest = nif_ip_addr nif \<or> ip_addr_isbroadcast dest nif)
         then Some (Some a)
         else accept_loop dest st as)"

text \<open>A segment whose header does not lie in the first pbuf is read outside of it.\<close>

definition tcp_hdr_in_first :: "ip_hdr \<Rightarrow> u8 list list \<Rightarrow> bool" where
  "tcp_hdr_in_first h p \<longleftrightarrow>
    (let seg = drop (hdr_len h) (hd p)
     in tl p = [] \<or> 20 \<le> length seg \<and> 4 * unat (seg ! 12 div 16) \<le> length seg)"

text \<open>The switch over the protocol number.\<close>

definition ip_deliver :: "stkenv \<Rightarrow> u8 list list \<Rightarrow> addr \<Rightarrow> netif \<Rightarrow> ip_hdr \<Rightarrow> stack \<Rightarrow> stack option" where
  "ip_deliver env p inp nif h s =
    (if IPH_PROTO h = ucast IP_PROTO_UDP \<or> IPH_PROTO h = ucast IP_PROTO_UDPLITE
     then udp_input (k_ip env) (k_old env) p inp s
     else if IPH_PROTO h = ucast IP_PROTO_TCP
     then (if \<not> tcp_hdr_in_first h p then None
           else do {
             t \<leftarrow> tcp_input (k_tenv env) (k_app env) nif (concat p) (k_tcp s);
             Some (s \<lparr> k_tcp := t \<rparr>)
           })
     else if IPH_PROTO h = ucast IP_PROTO_ICMP
     then icmp_input (k_ip env) p inp s
     else if \<not> ip_addr_isbroadcast (ih_dest h) nif \<and> \<not> ip_addr_ismulticast (ih_dest h)
     then icmp_dest_unreach (k_ip env) (k_old env) p ICMP_DUR_PROTO s
     else Some s)"

definition ip_accepted :: "stkenv \<Rightarrow> u8 list list \<Rightarrow> addr \<Rightarrow> netif \<Rightarrow> stack \<Rightarrow> stack option" where
  "ip_accepted env p inp nif s = do {
     h \<leftarrow> (case p of [] \<Rightarrow> None | q # _ \<Rightarrow> ip_hdr_of q);
     (eaten, s) \<leftarrow> raw_input (k_eats env) p s;
     if eaten then Some s else ip_deliver env p inp nif h s
   }"

definition ip_input :: "stkenv \<Rightarrow> u8 list list \<Rightarrow> addr \<Rightarrow> stack \<Rightarrow> (err_t \<times> stack) option" where
  "ip_input env p inp s = do {
     nif \<leftarrow> netifs (i_net s) inp;
     h \<leftarrow> (case p of [] \<Rightarrow> None | q # _ \<Rightarrow> ip_hdr_of q);
     if IPH_V h \<noteq> 4 then Some (ERR_OK, s)
     else if hdr_len h > length (hd p) then Some (ERR_OK, s)
     else if inet_chksum (take (hdr_len h) (hd p)) \<noteq> 0 then Some (ERR_OK, s)
     else do {
       let p = chain_realloc (unat (ntohs (ih_len h))) p;
       acc \<leftarrow> accept_loop (ih_dest h) (netifs (i_net s)) (netif_list (i_net s));
       if acc = None then Some (ERR_OK, s)
       else if ih_offset h AND htons (IP_OFFMASK OR IP_MF) \<noteq> 0
       then do {
         (r, rs) \<leftarrow> ip_reass (k_avail env) p (k_reass s);
         let s = s \<lparr> k_reass := rs \<rparr>;
         case r of
           None \<Rightarrow> Some (ERR_OK, s)
         | Some p \<Rightarrow> do { s \<leftarrow> ip_accepted env p inp nif s; Some (ERR_OK, s) }
       }
       else do { s \<leftarrow> ip_accepted env p inp nif s; Some (ERR_OK, s) }
     }
   }"

section \<open>Cutting a chain\<close>

lemma concat_trim_walk: "concat (trim_walk n p) = take n (concat p)"
  by (induction n p rule: trim_walk.induct) auto

lemma concat_chain_realloc: "concat (chain_realloc n p) = take n (concat p)"
  by (simp add: chain_realloc_def concat_trim_walk)

lemma chain_realloc_hd: "p \<noteq> [] \<Longrightarrow> m \<le> n \<Longrightarrow> m \<le> length (hd p) \<Longrightarrow>
    chain_realloc n p \<noteq> [] \<and> m \<le> length (hd (chain_realloc n p))"
  by (cases p) (auto simp: chain_realloc_def)

section \<open>Packets that are not for this host\<close>

text \<open>A packet with a wrong version or a bad header checksum, or that no configured interface
  accepts, is dropped: the stack does not change at all.\<close>

lemma ip_input_drops:
  assumes "netifs (i_net s) inp = Some nif" "ip_hdr_of q = Some h"
    and "IPH_V h \<noteq> 4 \<or> length q < hdr_len h \<or> inet_chksum (take (hdr_len h) q) \<noteq> 0 \<or>
      accept_loop (ih_dest h) (netifs (i_net s)) (netif_list (i_net s)) = Some None"
  shows "ip_input env (q # qs) inp s = Some (ERR_OK, s)"
  using assms by (auto simp: ip_input_def Let_def)

section \<open>Damaged headers\<close>

text \<open>One word of a buffer replaced.\<close>

definition set_word :: "nat \<Rightarrow> u8 \<Rightarrow> u8 \<Rightarrow> u8 list \<Rightarrow> u8 list" where
  "set_word k a b q = q[k := a, Suc k := b]"

lemma length_set_word [simp]: "length (set_word k a b q) = length q"
  by (simp add: set_word_def)

lemma set_word_split:
  assumes "Suc k < n" "n \<le> length q"
  shows "take n (set_word k a b q) = take k q @ [a, b] @ drop (k + 2) (take n q)"
    and "take n q = take k q @ [q ! k, q ! Suc k] @ drop (k + 2) (take n q)"
proof -
  have "xs = take k xs @ [xs ! k, xs ! Suc k] @ drop (k + 2) xs" if "Suc k < length xs" for xs :: "u8 list"
    using that by (metis Cons_nth_drop_Suc Suc_lessD add_2_eq_Suc' append_Cons append_Nil append_take_drop_id)
  from this [of "take n q"] this [of "take n (set_word k a b q)"] assms
  show "take n (set_word k a b q) = take k q @ [a, b] @ drop (k + 2) (take n q)"
    and "take n q = take k q @ [q ! k, q ! Suc k] @ drop (k + 2) (take n q)"
    by (simp_all add: set_word_def take_update_swap min_def list_update_beyond)
qed

lemma mod_upto: "m \<le> 65535 \<Longrightarrow> m mod 65535 = (if m = 65535 then 0 else m)" for m :: nat
  by simp

lemma chksum_detects:
  assumes ok: "inet_chksum (take n q) = 0" and n: "n \<le> length q" "n \<le> 65535"
    and k: "even k" "Suc k < n" and ne: "load16 a b \<noteq> load16 (q ! k) (q ! Suc k)"
    and z: "\<not> (load16 a b \<in> {0, 0xffff} \<and> load16 (q ! k) (q ! Suc k) \<in> {0, 0xffff})"
  shows "inet_chksum (take n (set_word k a b q)) \<noteq> 0"
proof
  assume bad: "inet_chksum (take n (set_word k a b q)) = 0"
  define r where "r = word_sum (take k q) + word_sum (drop (k + 2) (take n q))"
  define v w where "v = unat (load16 (q ! k) (q ! Suc k))" and "w = unat (load16 a b)"
  have zero: "m mod 65535 = 0" if "65535 - oc16 m = 0" for m using that oc16_le [of m] oc16_mod [of m] by simp
  have e: "take n q = take k q @ [q ! k, q ! Suc k] @ drop (k + 2) (take n q)" by (rule set_word_split(2) [OF k(2) n(1)])
  have "word_sum (take n q) = r + v"
    by (subst e) (use k n in \<open>simp add: r_def v_def word_sum_append_even unat_load16\<close>)
  moreover have "word_sum (take n (set_word k a b q)) = r + w"
    unfolding set_word_split(1) [OF k(2) n(1)] using k n by (simp add: r_def w_def word_sum_append_even unat_load16)
  moreover have "unat (inet_chksum (take n q)) = 0" "unat (inet_chksum (take n (set_word k a b q))) = 0"
    using ok bad by simp_all
  ultimately have "(r + v) mod 65535 = 0" "(r + w) mod 65535 = 0"
    using n by (auto simp: unat_inet_chksum intro!: zero)
  then have "(r + v) mod 65535 = (r + w) mod 65535" by simp
  then have "v mod 65535 = w mod 65535" unfolding nat_mod_eq_iff by simp
  moreover have "v \<le> 65535" "w \<le> 65535"
    unfolding v_def w_def using unat_less_pow [of "load16 a b"] unat_less_pow [of "load16 (q ! k) (q ! Suc k)"] by simp_all
  moreover have "v \<noteq> w" using ne by (simp add: v_def w_def word_unat_eq_iff)
  ultimately have "v \<in> {0, 65535}" "w \<in> {0, 65535}" using mod_upto [of v] mod_upto [of w] by (auto split: if_splits)
  with z show False by (auto simp: v_def w_def word_unat_eq_iff)
qed

end
