(* ===== verification/Stack.thy ===== *)
theory Stack
  imports Ip_In Tcp_Send
begin

text \<open>
  Two stacks connected by a link: what one sends through IP, the other receives through
  \<open>ip_input\<close>.  The frame a driver gets is the frame the peer's driver passes up.
\<close>

section \<open>A frame with a fresh header\<close>

definition accepts :: "u32 \<Rightarrow> stack \<Rightarrow> bool" where
  "accepts dest t \<longleftrightarrow>
    (case accept_loop dest (netifs (i_net t)) (netif_list (i_net t)) of Some (Some a) \<Rightarrow> True | _ \<Rightarrow> False)"

lemma df_not_fragment: "ih_offset (new_hdr tot src dest lt ts proto) AND htons (IP_OFFMASK OR IP_MF) = 0"
  by (simp add: new_hdr_def htons_def cfg_defs)

lemma ip_input_fresh:
  fixes src dest :: u32 and lt ts proto :: u8
  assumes nif: "netifs (i_net t) inp = Some nif" and acc: "accepts dest t" and raw: "raw_pcbs t = []"
    and len: "20 + length (concat (q # qs)) < 65536"
  defines "h \<equiv> new_hdr (of_nat (length (concat (q # qs)) + 20)) src dest lt ts proto"
  shows "ip_input env ((ip_hdr_bytes h @ q) # qs) inp t =
    map_option (Pair ERR_OK) (ip_deliver env ((ip_hdr_bytes h @ q) # qs) inp nif h t)"
proof -
  have hl: "hdr_len h = 20" by (simp add: h_def)
  have ck: "inet_chksum (ip_hdr_bytes h) = 0" unfolding h_def new_hdr_def by (rule set_hdr_chksum_verifies)
  have tot: "unat (ntohs (ih_len h)) = length (concat ((ip_hdr_bytes h @ q) # qs))"
  proof -
    have "unat (of_nat (length (concat (q # qs)) + 20) :: u16) = length (concat (q # qs)) + 20"
      using len by (simp only: unat_of_nat) simp
    then show ?thesis by (simp add: h_def new_hdr_sel del: of_nat_add)
  qed
  obtain a where a: "accept_loop (ih_dest h) (netifs (i_net t)) (netif_list (i_net t)) = Some (Some a)"
    using acc by (auto simp: accepts_def h_def new_hdr_sel split: option.splits)
  have real: "chain_realloc (unat (ntohs (ih_len h))) ((ip_hdr_bytes h @ q) # qs) = (ip_hdr_bytes h @ q) # qs"
    unfolding tot by (simp add: chain_realloc_def)
  have off: "ih_offset h AND htons (IP_OFFMASK OR IP_MF) = 0" unfolding h_def by (rule df_not_fragment)
  have v: "IPH_V h = 4" by (simp add: h_def new_hdr_sel)
  have "ip_accepted env ((ip_hdr_bytes h @ q) # qs) inp nif t = ip_deliver env ((ip_hdr_bytes h @ q) # qs) inp nif h t"
    by (simp add: ip_accepted_def raw_input_def raw)
  then show ?thesis
    using nif a v hl ck off real by (cases "ip_deliver env ((ip_hdr_bytes h @ q) # qs) inp nif h t")
      (simp_all add: ip_input_def Let_def)
qed

section \<open>UDP from end to end\<close>

text \<open>C8: UDP from end to end.  A datagram that fits the link is sent as one frame; a stack that
  owns the destination address, has no raw sockets and a control block for the ports gives its
  application exactly the payload with the sender's address and port, and changes nothing else.\<close>

theorem udp_end_to_end:
  assumes pcb: "udp_store s a = Some pcb" "u_local_port pcb \<noteq> 0" "u_flags pcb AND UDP_FLAGS_UDPLITE = 0"
    and rt: "ip_route (u_remote_ip pcb) (i_net s) = Some n" "netifs (i_net s) n = Some nif" "nif_ip_addr nif \<noteq> 0"
    and p: "pk_room p = Some pre" "28 \<le> length pre" "pk_chain p = q # qs"
    and len: "pk_len p + 28 < 65536" "nif_mtu nif = 0 \<or> pk_len p + 28 \<le> unat (nif_mtu nif)"
    and t: "netifs (i_net t) inp = Some nif'" "accepts (u_remote_ip pcb) t" "raw_pcbs t = []"
    and b: "\<forall>h. ih_src h = (if u_local_ip pcb = 0 then nif_ip_addr nif else u_local_ip pcb) \<and> ih_dest h = u_remote_ip pcb \<longrightarrow>
        udp_demux h (u_local_port pcb) (u_remote_port pcb) t = Some (Some b)"
      "udp_store t b = Some rpcb" "u_recv rpcb = Some f"
  shows "\<exists>err p' c. udp_send env a p s = Some (err, p', send_frame n (u_remote_ip pcb) c s) \<and>
    ip_input env' c inp t = Some (ERR_OK, t \<lparr> udp_events := udp_events t @
      [UdpRecv b f (u_recv_arg rpcb) (q # qs) (if u_local_ip pcb = 0 then nif_ip_addr nif else u_local_ip pcb)
        (u_local_port pcb)] \<rparr>)"
proof -
  define src where "src = (if u_local_ip pcb = 0 then nif_ip_addr nif else u_local_ip pcb)"
  define h where "h = new_hdr (of_nat (pk_len p + 28)) src (u_remote_ip pcb) (u_ttl pcb) (u_tos pcb) IP_PROTO_UDP"
  obtain u err p' where send: "udp_send env a p s =
      Some (err, p', send_frame n (u_remote_ip pcb) ((ip_hdr_bytes h @ udp_hdr_bytes u @ q) # qs) s)"
    and recv: "\<And>env' old inp (t :: stack) b rpcb f. netifs (i_net t) inp \<noteq> None \<and>
      udp_demux h (u_local_port pcb) (u_remote_port pcb) t = Some (Some b) \<and>
      udp_store t b = Some rpcb \<and> u_recv rpcb = Some f \<longrightarrow>
      udp_input env' old ((ip_hdr_bytes h @ udp_hdr_bytes u @ q) # qs) inp t =
        Some (t \<lparr> udp_events := udp_events t @ [UdpRecv b f (u_recv_arg rpcb) (q # qs) src (u_local_port pcb)] \<rparr>)"
    using send_delivers [OF pcb rt(1,2) p len rt(3), of env] unfolding src_def [symmetric] h_def [symmetric] by blast
  have l: "length (concat ((udp_hdr_bytes u @ q) # qs)) + 20 = pk_len p + 28" using p(3) by (simp add: pk_len_def)
  have "ip_input env' ((ip_hdr_bytes h @ udp_hdr_bytes u @ q) # qs) inp t =
      map_option (Pair ERR_OK) (ip_deliver env' ((ip_hdr_bytes h @ udp_hdr_bytes u @ q) # qs) inp nif' h t)"
    using ip_input_fresh [OF t, of "udp_hdr_bytes u @ q" qs env' src "u_ttl pcb" "u_tos pcb" IP_PROTO_UDP] len(1)
    unfolding l h_def [symmetric] using l by simp
  moreover have "ip_deliver env' ((ip_hdr_bytes h @ udp_hdr_bytes u @ q) # qs) inp nif' h t =
      udp_input (k_ip env') (k_old env') ((ip_hdr_bytes h @ udp_hdr_bytes u @ q) # qs) inp t"
    by (simp add: ip_deliver_def h_def new_hdr_sel)
  moreover have "udp_demux h (u_local_port pcb) (u_remote_port pcb) t = Some (Some b)"
    using b(1) by (simp add: h_def new_hdr_sel src_def)
  ultimately show ?thesis using send recv [of t inp b rpcb f] t(1) b(2,3) by (auto simp: src_def)
qed

definition ex_net2 :: nstate where
  "ex_net2 = \<lparr> netifs = [8 \<mapsto> ex_nif \<lparr> nif_ip_addr := 0x0200000a \<rparr>], netif_list = [8], netif_default = Some 8, netifnum = 1 \<rparr>"

definition ex_reass :: reass where
  "ex_reass = \<lparr> ip_reasshdr = ex_hdr, ip_reassbuf = replicate 5760 0, ip_reassbitmap = [], ip_reasslen = 0,
     ip_reassflags = 0, ip_reasstmr = 0 \<rparr>"

definition ex_tcp :: tstate where
  "ex_tcp = \<lparr> tcp_ticks = 0, tcp_input_pcb = None, allocs = 0, wire = [], tcp_timer = 0, active_pcbs = [], tw_pcbs = [],
     listen_pcbs = [], pcbs = Map.empty, lpcbs = Map.empty, port_ctr = 4096, iss_ctr = 6510 \<rparr>"

text \<open>A host at 10.0.0.2 with a server on port 53.\<close>

definition ex_peer :: stack where
  "ex_peer = \<lparr> i_net = ex_net2, i_frames = [], i_dat = replicate 1480 0, i_allocs = 0, udp_pcbs = [60],
     udp_store = [60 \<mapsto> zero_udp_pcb \<lparr> u_local_port := 53, u_recv := Some 4 \<rparr>], udp_events = [], raw_pcbs = [],
     raw_store = Map.empty, raw_events = [], k_reass = ex_reass, k_tcp = ex_tcp \<rparr>"

lemma ex_peer_accepts: "accepts 0x0200000a ex_peer"
  by (simp add: accepts_def ex_peer_def ex_net2_def ex_nif_def netif_is_up_def NETIF_FLAG_UP_def)

lemma ex_peer_demux:
  "ih_dest h = 0x0200000a \<Longrightarrow> udp_demux h 5000 53 ex_peer = Some (Some 60)"
  by (simp add: udp_demux_def ex_peer_def udp_full_match_def udp_local_match_def zero_udp_pcb_def)

theorem udp_end_to_end_witness:
  "\<forall>env'. \<exists>err p' c. udp_send ex_ienv 40 \<lparr> pk_room = Some (replicate 54 0), pk_chain = [[1, 2], [3]] \<rparr> ex_udp =
      Some (err, p', send_frame 7 (u_remote_ip ex_upcb) c ex_udp) \<and>
    ip_input env' c 8 ex_peer = Some (ERR_OK, ex_peer \<lparr> udp_events := udp_events ex_peer @
      [UdpRecv 60 4 (u_recv_arg (zero_udp_pcb \<lparr> u_local_port := 53, u_recv := Some 4 \<rparr>)) ([1, 2] # [[3]])
        (if u_local_ip ex_upcb = 0 then nif_ip_addr ex_nif else u_local_ip ex_upcb) (u_local_port ex_upcb)] \<rparr>)"
  by (intro allI, rule udp_end_to_end [where nif = ex_nif and pre = "replicate 54 0" and nif' = "ex_nif \<lparr> nif_ip_addr := 0x0200000a \<rparr>"])
    (use ex_peer_accepts ex_peer_demux in \<open>simp_all add: ex_udp_def ex_upcb_def zero_udp_pcb_def ex_ip_def ex_nif_def pk_len_def
      ip_route_def ip_addr_netcmp_def UDP_FLAGS_UDPLITE_def\<close>, simp_all add: ex_peer_def ex_net2_def ex_nif_def zero_udp_pcb_def)

section \<open>TCP segments from end to end\<close>

text \<open>A segment on its way through IP: the bytes TCP hands down, and what the receiver parses.\<close>

definition dgram_bytes :: "ip_dgram \<Rightarrow> u8 list" where
  "dgram_bytes d = tcp_hdr_bytes (d_hdr d) @ d_data d"

lemma be16_get: "push_bit 8 (ucast (ucast (drop_bit 8 w) :: u8)) OR ucast (ucast w :: u8) = (w :: u16)"
  by (rule bit_word_eqI) (auto simp: bit_simps)

lemma be32_get:
  "push_bit 16 (ucast (push_bit 8 (ucast (ucast (drop_bit 24 w) :: u8)) OR ucast (ucast (drop_bit 16 w) :: u8) :: u16)) OR
    ucast (push_bit 8 (ucast (ucast (drop_bit 8 w) :: u8)) OR ucast (ucast w :: u8) :: u16) = (w :: u32)"
proof (rule bit_word_eqI)
  fix n :: nat
  assume "n < LENGTH(32)"
  then consider "n < 8" | "8 \<le> n" "n < 16" | "16 \<le> n" "n < 24" | "24 \<le> n" "n < 32" by fastforce
  then show "bit (push_bit 16 (ucast (push_bit 8 (ucast (ucast (drop_bit 24 w) :: u8)) OR ucast (ucast (drop_bit 16 w) :: u8) :: u16)) OR
    ucast (push_bit 8 (ucast (ucast (drop_bit 8 w) :: u8)) OR ucast (ucast w :: u8) :: u16) :: u32) n = bit w n"
    by cases (auto simp: bit_simps)
qed

lemma le16_get: "push_bit 8 (ucast (ucast w :: u8)) OR ucast (ucast (drop_bit 8 w) :: u8) = htons (w :: u16)"
proof -
  have "unat (push_bit 8 (ucast (ucast w :: u8)) OR ucast (ucast (drop_bit 8 w) :: u8) :: u16) =
      unat (push_bit 8 (ucast (ucast w :: u8)) :: u16) + unat (ucast (ucast (drop_bit 8 w) :: u8) :: u16)"
    by (rule unat_or_disjoint) (auto simp: bit_simps)
  moreover have "unat w div 256 < 256" using unat_less_pow [of w] by (intro less_mult_imp_div_less) simp
  moreover have "unat w mod 256 < 256" by simp
  ultimately show ?thesis
    by (simp add: word_unat_eq_iff unat_htons unat_push_bit unat_ucast_mod unat_drop_bit)
qed

text \<open>The parsed header is the sent one; the checksum field, which nobody reads again, is swapped.\<close>

lemma get_hdr_bytes: "get_hdr (tcp_hdr_bytes h @ bs) = h \<lparr> h_chksum := htons (h_chksum h) \<rparr>"
  by (cases h) (simp add: get_hdr_def get16_def get32_def tcp_hdr_bytes_def be16_def be32_def le16_def be16_get be32_get le16_get)

lemma mem32_get: "ntohl (push_bit 16 (ucast (push_bit 8 (ucast (ucast w :: u8)) OR ucast (ucast (drop_bit 8 w) :: u8) :: u16)) OR
    ucast (push_bit 8 (ucast (ucast (drop_bit 16 w) :: u8)) OR ucast (ucast (drop_bit 24 w) :: u8) :: u16)) = (w :: u32)"
proof -
  define v where "v = htonl w"
  have "mem32 w = rev (mem32 v)" by (simp add: v_def mem32_htonl htonl_htonl)
  then have "ucast w = (ucast (drop_bit 24 v) :: u8)" "ucast (drop_bit 8 w) = (ucast (drop_bit 16 v) :: u8)"
    "ucast (drop_bit 16 w) = (ucast (drop_bit 8 v) :: u8)" "ucast (drop_bit 24 w) = (ucast v :: u8)"
    by (simp_all add: mem32_def)
  then show ?thesis by (simp only: be32_get) (simp add: v_def ntohl_def htonl_htonl)
qed

lemma ip_addrs_get:
  "ntohl (get32 (ip_hdr_bytes h @ bs) 12) = ih_src h" "ntohl (get32 (ip_hdr_bytes h @ bs) 16) = ih_dest h"
  by (simp_all add: get32_def get16_def ip_hdr_bytes_def le16_def mem32_def mem32_get)

lemma htons_low: "(ucast (htons w) :: u8) = ucast (drop_bit 8 w)"
proof -
  have "(256 * (unat w mod 256) + unat w div 256) mod 256 = unat w div 256 mod 256" by simp
  then show ?thesis by (simp add: word_unat_eq_iff unat_ucast_mod unat_htons unat_drop_bit)
qed

lemma new_hdr_first_byte: "Tcp_Input.IPH_HL (ip_hdr_bytes (new_hdr tot src dest lt ts proto) @ bs) = 5"
proof -
  have "(ucast (htons (0x4500 OR ucast ts)) :: u8) = 0x45"
    unfolding htons_low drop_bit_or pack_bytes by simp
  then show ?thesis by (simp add: Tcp_Input.IPH_HL_def ip_hdr_bytes_def new_hdr_def set_hdr_chksum_def Let_def le16_def)
qed

text \<open>C7: TCP over IP.  A segment that TCP hands to IP with a valid checksum travels in one frame, and
  the receiving stack processes exactly that segment: the same header and data, from the same
  addresses, with nothing but its TCP state changed.\<close>

theorem tcp_segment_end_to_end:
  assumes d: "dgram_ok d" "unat (TCPH_HDRLEN (d_hdr d)) * 4 \<le> 20 + length (d_data d)" "d_src d \<noteq> 0"
    and rt: "ip_route (d_dest d) (i_net s) = Some n" "netifs (i_net s) n = Some nif"
    and p: "pk_room p = Some pre" "20 \<le> length pre" "pk_chain p = [dgram_bytes d]"
    and len: "length (d_data d) + 40 < 65536" "nif_mtu nif = 0 \<or> length (d_data d) + 40 \<le> unat (nif_mtu nif)"
    and t: "netifs (i_net t) inp = Some nif'" "accepts (d_dest d) t" "raw_pcbs t = []"
      "\<not> ip_addr_isbroadcast (d_dest d) nif'" "\<not> ip_addr_ismulticast (d_dest d)"
  shows "\<exists>err p' c i. ip_output_p env p (d_src d) (d_dest d) (d_ttl d) (d_tos d) IP_PROTO_TCP s =
      Some (err, p', send_frame n (d_dest d) c s) \<and>
    ip_input env' c inp t =
      map_option (\<lambda>x. (ERR_OK, t \<lparr> k_tcp := x \<rparr>)) (input_demux (k_tenv env') (k_app env') i (k_tcp t)) \<and>
    in_src i = d_src d \<and> in_dest i = d_dest d \<and> in_hdr i = d_hdr d \<lparr> h_chksum := htons (h_chksum (d_hdr d)) \<rparr> \<and>
    s_data (inseg i) = drop (unat (TCPH_HDRLEN (d_hdr d)) * 4) (dgram_bytes d)"
proof -
  define b where "b = dgram_bytes d"
  define i where "i = in_of_packet (d_src d) (d_dest d) b"
  have lb: "length b = 20 + length (d_data d)"
    by (simp add: b_def dgram_bytes_def tcp_hdr_bytes_def be16_def be32_def le16_def)
  have pl: "pk_len p + 20 = length (d_data d) + 40" using p(3) lb by (simp add: pk_len_def b_def)
  define h where "h = new_hdr (of_nat (pk_len p + 20)) (d_src d) (d_dest d) (d_ttl d) (d_tos d) IP_PROTO_TCP"
  define c where "c = [ip_hdr_bytes h @ b]"
  obtain p' where "ip_output_if env p (d_src d) (Some (d_dest d)) (d_ttl d) (d_tos d) IP_PROTO_TCP n s =
      Some (e_drv env n c, p', send_frame n (d_dest d) c s)"
    using output_if_frame [OF rt(2) p(1,2), of b "[]" env "d_src d" "d_dest d" "d_ttl d" "d_tos d" IP_PROTO_TCP]
      p(3) len d(3) unfolding pl [symmetric] by (auto simp: b_def h_def c_def simp del: of_nat_add)
  then have send: "ip_output_p env p (d_src d) (d_dest d) (d_ttl d) (d_tos d) IP_PROTO_TCP s =
      Some (e_drv env n c, p', send_frame n (d_dest d) c s)" using rt(1) by (simp add: ip_output_p_def)
  have hb: "get_hdr b = d_hdr d \<lparr> h_chksum := htons (h_chksum (d_hdr d)) \<rparr>"
    by (simp add: b_def dgram_bytes_def get_hdr_bytes)
  have hl: "TCPH_HDRLEN (get_hdr b) = TCPH_HDRLEN (d_hdr d)" by (simp add: hb TCPH_HDRLEN_def)
  have ck: "inet_chksum_pseudo [b] (d_src d) (d_dest d) IP_PROTO_TCP (of_nat (length b)) = 0"
    using d(1) lb by (simp add: dgram_ok_def b_def dgram_bytes_def TCP_HLEN_def)
  have "tcp_input tenv app nif' (ip_hdr_bytes h @ b) st = input_demux tenv app i st" for tenv app st
    using t(4,5) d(2) ck lb
    by (simp add: tcp_input_def Let_def new_hdr_first_byte ip_addrs_get hl i_def TCP_HLEN_def h_def new_hdr_sel)
  then have "ip_deliver env' c inp nif' h t =
      map_option (\<lambda>x. t \<lparr> k_tcp := x \<rparr>) (input_demux (k_tenv env') (k_app env') i (k_tcp t))"
    by (cases "input_demux (k_tenv env') (k_app env') i (k_tcp t)")
      (simp_all add: ip_deliver_def tcp_hdr_in_first_def c_def h_def new_hdr_sel IP_PROTO_TCP_def IP_PROTO_UDP_def IP_PROTO_UDPLITE_def)
  moreover have "ip_input env' c inp t = map_option (Pair ERR_OK) (ip_deliver env' c inp nif' h t)"
  proof -
    have e: "length (concat [b]) + 20 = pk_len p + 20" using lb pl by simp
    show ?thesis
      using ip_input_fresh [OF t(1-3), of b "[]" env' "d_src d" "d_ttl d" "d_tos d" IP_PROTO_TCP] len(1) lb
      unfolding e h_def [symmetric] c_def by simp
  qed
  moreover have "in_src i = d_src d" "in_dest i = d_dest d" "in_hdr i = d_hdr d \<lparr> h_chksum := htons (h_chksum (d_hdr d)) \<rparr>"
    "s_data (inseg i) = drop (unat (TCPH_HDRLEN (d_hdr d)) * 4) b"
    by (simp_all add: i_def in_of_packet_def Let_def hb TCPH_HDRLEN_def)
  ultimately show ?thesis using send by (auto simp: b_def option.map_comp o_def)
qed

text \<open>A pure acknowledgement.\<close>

definition ex_seg_hdr :: tcp_hdr where
  "ex_seg_hdr = \<lparr> h_src = 4096, h_dest = 80, h_seqno = 1, h_ackno = 7, h_word = 0x5010, h_wnd = 2048, h_chksum = 0, h_urgp = 0 \<rparr>"

definition ex_dgram :: ip_dgram where
  "ex_dgram = \<lparr> d_src = 0x0100000a, d_dest = 0x0200000a, d_ttl = 255, d_tos = 0,
     d_hdr = with_chksum 0x0100000a 0x0200000a ex_seg_hdr [], d_data = [] \<rparr>"

lemma ex_dgram_sel:
  "d_src ex_dgram = 0x0100000a" "d_dest ex_dgram = 0x0200000a" "d_data ex_dgram = []"
  "TCPH_HDRLEN (d_hdr ex_dgram) = 5" "dgram_ok ex_dgram"
  using with_chksum_verifies [of "[]" "0x0100000a" "0x0200000a" ex_seg_hdr]
  by (simp_all add: ex_dgram_def with_chksum_def Let_def ex_seg_hdr_def TCPH_HDRLEN_def dgram_ok_def)

theorem tcp_segment_end_to_end_witness:
  "\<forall>env'. \<exists>err p' c i.
    ip_output_p ex_ienv \<lparr> pk_room = Some (replicate 34 0), pk_chain = [dgram_bytes ex_dgram] \<rparr> (d_src ex_dgram)
      (d_dest ex_dgram) (d_ttl ex_dgram) (d_tos ex_dgram) IP_PROTO_TCP ex_ip = Some (err, p', send_frame 7 (d_dest ex_dgram) c ex_ip) \<and>
    ip_input env' c 8 ex_peer =
      map_option (\<lambda>x. (ERR_OK, ex_peer \<lparr> k_tcp := x \<rparr>)) (input_demux (k_tenv env') (k_app env') i (k_tcp ex_peer)) \<and>
    in_src i = d_src ex_dgram \<and> in_dest i = d_dest ex_dgram \<and>
    in_hdr i = d_hdr ex_dgram \<lparr> h_chksum := htons (h_chksum (d_hdr ex_dgram)) \<rparr> \<and>
    s_data (inseg i) = drop (unat (TCPH_HDRLEN (d_hdr ex_dgram)) * 4) (dgram_bytes ex_dgram)"
  by (intro allI, rule tcp_segment_end_to_end [where nif = ex_nif and pre = "replicate 34 0" and nif' = "ex_nif \<lparr> nif_ip_addr := 0x0200000a \<rparr>"])
    (use ex_peer_accepts in \<open>simp_all add: ex_dgram_sel ex_ip_def ip_route_def ip_addr_netcmp_def\<close>,
     simp_all add: ex_peer_def ex_net2_def ex_nif_def ip_addr_isbroadcast_def ip_addr_ismulticast_def netif_is_up_def
       ip_addr_broadcast_def ip_addr_any_def ntohl_def htonl_def)

section \<open>Damaged headers\<close>

text \<open>C28: Header damage is detected, outside of the first word.  Take any packet with a correct header that lies in the first pbuf, and replace one
  16-bit word of the header, any but the first, by a different one: \<open>ip_input\<close> drops the packet and changes nothing.  A zero and an all-ones word count
  as the same, as one's complement arithmetic has two zeros, so exchanging them is not detected; and the first word holds the header length, which
  decides how many bytes the checksum is taken over.\<close>

theorem ip_input_detects_damage:
  assumes "netifs (i_net s) inp = Some nif" and h: "ip_hdr_of q = Some h" "hdr_len h \<le> length q"
    and ok: "inet_chksum (take (hdr_len h) q) = 0"
    and k: "even k" "2 \<le> k" "Suc k < hdr_len h" and ne: "load16 a b \<noteq> load16_at q k"
    and z: "\<not> (load16 a b \<in> {0, 0xffff} \<and> load16_at q k \<in> {0, 0xffff})"
  shows "ip_input env (set_word k a b q # qs) inp s = Some (ERR_OK, s)"
proof -
  have l: "IP_HLEN \<le> length q" using h(1) by (simp add: ip_hdr_of_def split: if_splits)
  then obtain h' where h': "ip_hdr_of (set_word k a b q) = Some h'" by (simp add: ip_hdr_of_def)
  have "ih_v_hl_tos h' = ih_v_hl_tos h"
    using h(1) h' k(2) by (auto simp: ip_hdr_of_def load16_at_def set_word_def split: if_splits)
  then have hl: "hdr_len h' = hdr_len h" by (simp add: hdr_len_def Ip_Hdr.IPH_HL_def)
  have "hdr_len h \<le> 65535" using unat_less_pow [of "Ip_Hdr.IPH_HL h * 4"] by (simp add: hdr_len_def)
  then have "inet_chksum (take (hdr_len h') (set_word k a b q)) \<noteq> 0"
    unfolding hl using chksum_detects [OF ok h(2) _ k(1,3), of a b] ne z by (simp add: load16_at_def)
  then show ?thesis using ip_input_drops [OF assms(1) h'] by simp
qed


definition ex_sent_hdr :: ip_hdr where
  "ex_sent_hdr = new_hdr 40 0x0100000a 0x0200000a 255 0 17"

theorem ip_input_detects_damage_witness:
  "\<forall>env qs. ip_input env (set_word 12 9 0 (ip_hdr_bytes ex_sent_hdr) # qs) 8 ex_peer = Some (ERR_OK, ex_peer)"
proof (intro allI, rule ip_input_detects_damage)
  have w: "load16_at (ip_hdr_bytes ex_sent_hdr) 12 = 0x000a"
    by (simp add: ex_sent_hdr_def ip_hdr_bytes_def new_hdr_def set_hdr_chksum_def Let_def load16_at_def le16_def mem32_def load16_def)
  show "load16 9 0 \<noteq> load16_at (ip_hdr_bytes ex_sent_hdr) 12"
    "\<not> (load16 9 0 \<in> {0, 0xffff} \<and> load16_at (ip_hdr_bytes ex_sent_hdr) 12 \<in> {0, 0xffff})"
    unfolding w by (simp_all add: load16_def)
  show "ip_hdr_of (ip_hdr_bytes ex_sent_hdr) = Some ex_sent_hdr" using ip_hdr_roundtrip [of ex_sent_hdr "[]"] by simp
  show "inet_chksum (take (hdr_len ex_sent_hdr) (ip_hdr_bytes ex_sent_hdr)) = 0"
  proof -
    have "hdr_len ex_sent_hdr = 20" by (simp add: ex_sent_hdr_def)
    moreover have "inet_chksum (ip_hdr_bytes ex_sent_hdr) = 0"
      unfolding ex_sent_hdr_def new_hdr_def by (rule set_hdr_chksum_verifies)
    ultimately show ?thesis by simp
  qed
  show "netifs (i_net ex_peer) 8 = Some (ex_nif \<lparr> nif_ip_addr := 0x0200000a \<rparr>)" by (simp add: ex_peer_def ex_net2_def)
qed (simp_all add: ex_sent_hdr_def)

end
