(* ===== verification/Mem.thy ===== *)
theory Mem
  imports Ip_Hdr
begin

text \<open>
  The heap of lwIP (\<open>src/nsc-0.5.3/lwip-HEAD/src/core/mem.c\<close>).  The array \<open>ram\<close> is modelled byte by
  byte; a \<open>struct mem\<close> is read from and written to it field by field, with the layout of the 32-bit
  build (two 16-bit offsets, a byte, a byte of padding).  Pointers into the array are offsets from
  its start; the null pointer is \<open>None\<close>.  With \<open>MEM_ALIGNMENT\<close> 1 the alignment code of the
  operations does nothing, \<open>NO_SYS\<close> makes the semaphore calls empty and \<open>LWIP_ASSERT\<close> has no effect,
  so none of these appears.  The result \<open>None\<close> of an operation is an access outside the array, or a
  search that follows \<open>next\<close> for ever.
\<close>

definition MEM_SIZE :: nat where [cfg_defs]: "MEM_SIZE = 1600"
definition MIN_SIZE :: nat where [cfg_defs]: "MIN_SIZE = 12"
definition SIZEOF_STRUCT_MEM :: nat where [cfg_defs]: "SIZEOF_STRUCT_MEM = 6"

text \<open>The size of the array: \<open>MEM_SIZE + sizeof(struct mem) + MEM_ALIGNMENT\<close>.\<close>

definition RAM_BYTES :: nat where [cfg_defs]: "RAM_BYTES = MEM_SIZE + 6 + 1"

record mem =
  m_next :: u16
  m_prev :: u16
  m_used :: u8

record stats_mem =
  st_avail :: u16
  st_used :: u16
  st_max :: u16
  st_err :: u16

record heap =
  ram :: "nat \<Rightarrow> u8"
  lfree :: nat
  mem_stats :: stats_mem

section \<open>Access to the headers\<close>

definition get_mem :: "(nat \<Rightarrow> u8) \<Rightarrow> nat \<Rightarrow> mem" where
  "get_mem r i = \<lparr> m_next = load16 (r i) (r (i + 1)), m_prev = load16 (r (i + 2)) (r (i + 3)), m_used = r (i + 4) \<rparr>"

definition put16 :: "nat \<Rightarrow> u16 \<Rightarrow> (nat \<Rightarrow> u8) \<Rightarrow> nat \<Rightarrow> u8" where
  "put16 i v r = r(i := ucast v, i + 1 := ucast (drop_bit 8 v))"

definition mem_at :: "nat \<Rightarrow> heap \<Rightarrow> mem option" where
  "mem_at i s = (if i + 6 \<le> RAM_BYTES then Some (get_mem (ram s) i) else None)"

definition set_next :: "nat \<Rightarrow> u16 \<Rightarrow> heap \<Rightarrow> heap option" where
  "set_next i v s = (if i + 6 \<le> RAM_BYTES then Some (s \<lparr> ram := put16 i v (ram s) \<rparr>) else None)"

definition set_prev :: "nat \<Rightarrow> u16 \<Rightarrow> heap \<Rightarrow> heap option" where
  "set_prev i v s = (if i + 6 \<le> RAM_BYTES then Some (s \<lparr> ram := put16 (i + 2) v (ram s) \<rparr>) else None)"

definition set_used :: "nat \<Rightarrow> u8 \<Rightarrow> heap \<Rightarrow> heap option" where
  "set_used i v s = (if i + 6 \<le> RAM_BYTES then Some (s \<lparr> ram := (ram s)(i + 4 := v) \<rparr>) else None)"

section \<open>The operations\<close>

definition plug_forward :: "nat \<Rightarrow> heap \<Rightarrow> heap option" where
  "plug_forward mem s = do {
     m \<leftarrow> mem_at mem s;
     let nmem = unat (m_next m);
     n \<leftarrow> mem_at nmem s;
     if mem \<noteq> nmem \<and> m_used n = 0 \<and> nmem \<noteq> MEM_SIZE
     then do {
       let s = (if lfree s = nmem then s \<lparr> lfree := mem \<rparr> else s);
       s \<leftarrow> set_next mem (m_next n) s;
       n \<leftarrow> mem_at nmem s;
       set_prev (unat (m_next n)) (of_nat mem) s
     }
     else Some s
   }"

definition plug_backward :: "nat \<Rightarrow> heap \<Rightarrow> heap option" where
  "plug_backward mem s = do {
     m \<leftarrow> mem_at mem s;
     let pmem = unat (m_prev m);
     p \<leftarrow> mem_at pmem s;
     if pmem \<noteq> mem \<and> m_used p = 0
     then do {
       let s = (if lfree s = mem then s \<lparr> lfree := pmem \<rparr> else s);
       s \<leftarrow> set_next pmem (m_next m) s;
       m \<leftarrow> mem_at mem s;
       set_prev (unat (m_next m)) (of_nat pmem) s
     }
     else Some s
   }"

definition plug_holes :: "nat \<Rightarrow> heap \<Rightarrow> heap option" where
  "plug_holes mem s = do { s \<leftarrow> plug_forward mem s; plug_backward mem s }"

definition mem_init :: "heap \<Rightarrow> heap option" where
  "mem_init s = do {
     let s = s \<lparr> ram := \<lambda>i. if i < MEM_SIZE then 0 else ram s i \<rparr>;
     s \<leftarrow> set_next 0 (of_nat MEM_SIZE) s;
     s \<leftarrow> set_prev 0 0 s;
     s \<leftarrow> set_used 0 0 s;
     s \<leftarrow> set_used MEM_SIZE 1 s;
     s \<leftarrow> set_next MEM_SIZE (of_nat MEM_SIZE) s;
     s \<leftarrow> set_prev MEM_SIZE (of_nat MEM_SIZE) s;
     Some (s \<lparr> lfree := 0, mem_stats := (mem_stats s) \<lparr> st_avail := of_nat MEM_SIZE \<rparr> \<rparr>)
   }"

definition mem_err :: "heap \<Rightarrow> heap" where
  "mem_err s = s \<lparr> mem_stats := (mem_stats s) \<lparr> st_err := st_err (mem_stats s) + 1 \<rparr> \<rparr>"

definition mem_free :: "int option \<Rightarrow> heap \<Rightarrow> heap option" where
  "mem_free rmem s =
    (case rmem of
       None \<Rightarrow> Some s
     | Some r \<Rightarrow>
         if r < 0 \<or> int MEM_SIZE \<le> r then Some (mem_err s)
         else if r < int SIZEOF_STRUCT_MEM then None
         else do {
           let mem = nat r - SIZEOF_STRUCT_MEM;
           s \<leftarrow> set_used mem 0 s;
           let s = (if mem < lfree s then s \<lparr> lfree := mem \<rparr> else s);
           m \<leftarrow> mem_at mem s;
           let s = s \<lparr> mem_stats := (mem_stats s) \<lparr> st_used := st_used (mem_stats s) - (m_next m - of_nat mem) \<rparr> \<rparr>;
           plug_holes mem s
         })"

text \<open>The walk of \<open>lfree\<close> to the next free block.\<close>

partial_function (option) lfree_next :: "(nat \<Rightarrow> u8) \<Rightarrow> nat \<Rightarrow> nat option" where
  "lfree_next r i =
    (if i + 6 > RAM_BYTES then None
     else if m_used (get_mem r i) \<noteq> 0 \<and> i \<noteq> MEM_SIZE then lfree_next r (unat (m_next (get_mem r i)))
     else Some i)"

text \<open>The block at \<open>ptr\<close> is split behind its first \<open>sz\<close> bytes.\<close>

definition malloc_take :: "u16 \<Rightarrow> nat \<Rightarrow> heap \<Rightarrow> (int option \<times> heap) option" where
  "malloc_take sz ptr s = do {
     let ptr2 = (of_nat ptr + of_nat SIZEOF_STRUCT_MEM + sz :: u16);
     m \<leftarrow> mem_at ptr s;
     s \<leftarrow> set_prev (unat ptr2) (of_nat ptr) s;
     s \<leftarrow> set_next (unat ptr2) (m_next m) s;
     s \<leftarrow> set_next ptr ptr2 s;
     m2 \<leftarrow> mem_at (unat ptr2) s;
     s \<leftarrow> (if unat (m_next m2) \<noteq> MEM_SIZE then set_prev (unat (m_next m2)) ptr2 s else Some s);
     s \<leftarrow> set_used (unat ptr2) 0 s;
     s \<leftarrow> set_used ptr 1 s;
     let st = mem_stats s;
     let st = st \<lparr> st_used := st_used st + (sz + of_nat SIZEOF_STRUCT_MEM) \<rparr>;
     let st = (if st_max st < ptr2 then st \<lparr> st_max := ptr2 \<rparr> else st);
     let s = s \<lparr> mem_stats := st \<rparr>;
     s \<leftarrow> (if ptr = lfree s
            then do { l \<leftarrow> lfree_next (ram s) (lfree s); Some (s \<lparr> lfree := l \<rparr>) }
            else Some s);
     Some (Some (int ptr + int SIZEOF_STRUCT_MEM), s)
   }"

text \<open>The search for the first block that fits.  The difference in the test is unsigned, so it is
  large when \<open>next\<close> lies inside the header.\<close>

definition mem_fits :: "u16 \<Rightarrow> nat \<Rightarrow> mem \<Rightarrow> bool" where
  "mem_fits sz ptr m \<longleftrightarrow> m_used m = 0 \<and>
    (unat (m_next m) < ptr + SIZEOF_STRUCT_MEM \<or>
     unat sz + SIZEOF_STRUCT_MEM \<le> unat (m_next m) - (ptr + SIZEOF_STRUCT_MEM))"

partial_function (option) malloc_loop :: "u16 \<Rightarrow> nat \<Rightarrow> heap \<Rightarrow> (int option \<times> heap) option" where
  "malloc_loop sz ptr s =
    (if ptr < MEM_SIZE
     then Option.bind (mem_at ptr s) (\<lambda>m.
       if mem_fits sz ptr m then malloc_take sz ptr s
       else malloc_loop sz (unat (m_next m)) s)
     else Some (None, mem_err s))"

definition mem_malloc :: "u16 \<Rightarrow> heap \<Rightarrow> (int option \<times> heap) option" where
  "mem_malloc sz s =
    (if sz = 0 then Some (None, s)
     else if unat sz > MEM_SIZE then Some (None, s)
     else malloc_loop sz (lfree s) s)"

definition mem_realloc :: "int option \<Rightarrow> u16 \<Rightarrow> heap \<Rightarrow> (int option \<times> heap) option" where
  "mem_realloc rmem newsize s =
    (if unat newsize > MEM_SIZE then Some (None, s)
     else
       (case rmem of
          None \<Rightarrow> Some (None, s)
        | Some r \<Rightarrow>
            if r < 0 \<or> int MEM_SIZE \<le> r then Some (rmem, s)
            else if r < int SIZEOF_STRUCT_MEM then None
            else do {
              let ptr = nat r - SIZEOF_STRUCT_MEM;
              m \<leftarrow> mem_at ptr s;
              let sz = m_next m - of_nat ptr - of_nat SIZEOF_STRUCT_MEM;
              let s = s \<lparr> mem_stats := (mem_stats s) \<lparr> st_used := st_used (mem_stats s) - (sz - newsize) \<rparr> \<rparr>;
              if unat newsize + SIZEOF_STRUCT_MEM + MIN_SIZE < unat sz
              then do {
                let ptr2 = (of_nat ptr + of_nat SIZEOF_STRUCT_MEM + newsize :: u16);
                s \<leftarrow> set_used (unat ptr2) 0 s;
                s \<leftarrow> set_next (unat ptr2) (m_next m) s;
                s \<leftarrow> set_prev (unat ptr2) (of_nat ptr) s;
                s \<leftarrow> set_next ptr ptr2 s;
                m2 \<leftarrow> mem_at (unat ptr2) s;
                s \<leftarrow> (if unat (m_next m2) \<noteq> MEM_SIZE then set_prev (unat (m_next m2)) ptr2 s else Some s);
                s \<leftarrow> plug_holes (unat ptr2) s;
                Some (rmem, s)
              }
              else Some (rmem, s)
            }))"

text \<open>\<open>memcpy\<close> inside the array.\<close>

definition ram_copy :: "nat \<Rightarrow> nat \<Rightarrow> nat \<Rightarrow> (nat \<Rightarrow> u8) \<Rightarrow> nat \<Rightarrow> u8" where
  "ram_copy dst src n r = (\<lambda>i. if dst \<le> i \<and> i < dst + n then r (src + (i - dst)) else r i)"

definition mem_reallocm :: "int option \<Rightarrow> u16 \<Rightarrow> heap \<Rightarrow> (int option \<times> heap) option" where
  "mem_reallocm rmem newsize s = do {
     (nmem, s) \<leftarrow> mem_malloc newsize s;
     case nmem of
       None \<Rightarrow> mem_realloc rmem newsize s
     | Some n \<Rightarrow>
         (case rmem of
            None \<Rightarrow> None
          | Some r \<Rightarrow>
              if r < 0 \<or> int RAM_BYTES < r + int (unat newsize) \<or> int RAM_BYTES < n + int (unat newsize) then None
              else do {
                s \<leftarrow> mem_free rmem (s \<lparr> ram := ram_copy (nat n) (nat r) (unat newsize) (ram s) \<rparr>);
                Some (nmem, s)
              })
   }"

section \<open>Headers in memory\<close>

lemma put16_other: "j \<noteq> i \<Longrightarrow> j \<noteq> i + 1 \<Longrightarrow> put16 i v r j = r j"
  by (simp add: put16_def)

lemma get_put_next: "get_mem (put16 i v r) i = get_mem r i \<lparr> m_next := v \<rparr>"
  by (simp add: get_mem_def put16_def)

lemma get_put_prev: "get_mem (put16 (i + 2) v r) i = get_mem r i \<lparr> m_prev := v \<rparr>"
  by (simp add: get_mem_def put16_def)

lemma get_put_used: "get_mem (r(i + 4 := b)) i = get_mem r i \<lparr> m_used := b \<rparr>"
  by (simp add: get_mem_def)

lemma get_mem_cong: "(\<And>k. i \<le> k \<Longrightarrow> k < i + 6 \<Longrightarrow> r k = r' k) \<Longrightarrow> get_mem r i = get_mem r' i"
  by (simp add: get_mem_def)

text \<open>A write into one header leaves a header that does not overlap it.\<close>

lemma get_put_far:
  assumes "i + 6 \<le> j \<or> j + 6 \<le> i"
  shows "get_mem (put16 j v r) i = get_mem r i" "get_mem (put16 (j + 2) v r) i = get_mem r i"
    "get_mem (r(j + 4 := b)) i = get_mem r i"
  using assms by (auto intro!: get_mem_cong simp: put16_def)

lemmas get_put = get_put_next get_put_prev get_put_used get_put_far

end
