(* ===== verification/Mem_Layout.thy ===== *)
theory Mem_Layout
  imports Mem
begin

text \<open>
  The heap as a list of blocks.  A block is its payload length and whether it is in use; the blocks
  follow each other without gaps, so the offsets are sums of lengths.  The theory relates the list to
  the headers in memory and shows what the two changes of the heap, splitting a block and merging
  two, do to it.
\<close>

section \<open>Blocks and their headers\<close>

type_synonym block = "nat \<times> bool"

fun layout :: "(nat \<Rightarrow> u8) \<Rightarrow> nat \<Rightarrow> nat \<Rightarrow> block list \<Rightarrow> nat \<Rightarrow> bool" where
  "layout r p i [] e \<longleftrightarrow> i = e"
| "layout r p i ((n, u) # bs) e \<longleftrightarrow>
    unat (m_next (get_mem r i)) = i + 6 + n \<and> unat (m_prev (get_mem r i)) = p \<and> (m_used (get_mem r i) \<noteq> 0) = u \<and>
    layout r i (i + 6 + n) bs e"

fun span :: "block list \<Rightarrow> nat" where
  "span [] = 0"
| "span ((n, u) # bs) = 6 + n + span bs"

text \<open>The offset of the last block, or a default.\<close>

fun last_at :: "nat \<Rightarrow> nat \<Rightarrow> block list \<Rightarrow> nat" where
  "last_at p i [] = p"
| "last_at p i ((n, u) # bs) = last_at i (i + 6 + n) bs"

text \<open>The blocks with their offsets.\<close>

fun placed :: "nat \<Rightarrow> block list \<Rightarrow> (nat \<times> nat \<times> bool) list" where
  "placed i [] = []"
| "placed i ((n, u) # bs) = (i, n, u) # placed (i + 6 + n) bs"

lemma span_append [simp]: "span (xs @ ys) = span xs + span ys"
  by (induction xs rule: span.induct) auto

lemma placed_append [simp]: "placed i (xs @ ys) = placed i xs @ placed (i + span xs) ys"
  by (induction i xs rule: placed.induct) (auto simp: add.assoc)

lemma last_at_snoc [simp]: "last_at p i (xs @ [b]) = i + span xs"
  by (induction p i xs rule: last_at.induct) (cases b, auto)

lemma last_at_Nil_or: "last_at p i xs = (if xs = [] then p else i + span (butlast xs))"
  by (cases xs rule: rev_cases) auto

lemma layout_end: "layout r p i bs e \<Longrightarrow> e = i + span bs"
  by (induction r p i bs e rule: layout.induct) auto

lemma layout_append:
  "layout r p i (xs @ ys) e \<longleftrightarrow> layout r p i xs (i + span xs) \<and> layout r (last_at p i xs) (i + span xs) ys e"
  by (induction r p i xs e rule: layout.induct) (auto simp: add.assoc)

lemma placed_bounds: "(a, n, u) \<in> set (placed i bs) \<Longrightarrow> i \<le> a \<and> a + 6 + n \<le> i + span bs"
  by (induction i bs rule: placed.induct) fastforce+

lemma placed_split:
  "(a, n, u) \<in> set (placed i bs) \<Longrightarrow> \<exists>xs ys. bs = xs @ (n, u) # ys \<and> a = i + span xs"
proof (induction i bs rule: placed.induct)
  case (2 i k v bs)
  show ?case
  proof (cases "(a, n, u) = (i, k, v)")
    case True
    then show ?thesis by (intro exI [of _ "[]"] exI [of _ bs]) simp
  next
    case False
    then obtain xs ys where "bs = xs @ (n, u) # ys" "a = i + 6 + k + span xs" using 2 by auto
    then show ?thesis by (intro exI [of _ "(k, v) # xs"] exI [of _ ys]) simp
  qed
qed simp

text \<open>Two different blocks do not overlap.\<close>

lemma placed_disjoint:
  "(a, n, u) \<in> set (placed i bs) \<Longrightarrow> (b, m, v) \<in> set (placed i bs) \<Longrightarrow>
    (a, n, u) = (b, m, v) \<or> a + 6 + n \<le> b \<or> b + 6 + m \<le> a"
proof (induction i bs rule: placed.induct)
  case (2 i k w bs)
  consider "(a, n, u) = (i, k, w)" | "(b, m, v) = (i, k, w)"
    | "(a, n, u) \<in> set (placed (i + 6 + k) bs)" "(b, m, v) \<in> set (placed (i + 6 + k) bs)" using "2.prems" by auto
  then show ?case
  proof cases
    case 3
    then show ?thesis using "2.IH" by blast
  qed (use "2.prems" in \<open>auto dest: placed_bounds\<close>)
qed simp

section \<open>What a change of memory leaves alone\<close>

text \<open>The bytes that hold headers.\<close>

definition hdr_bytes :: "nat \<Rightarrow> block list \<Rightarrow> nat set" where
  "hdr_bytes i bs = (\<Union>(a, n, u)\<in>set (placed i bs). {a..<a + 6})"

lemma hdr_bytes_Cons: "hdr_bytes i ((n, u) # bs) = {i..<i + 6} \<union> hdr_bytes (i + 6 + n) bs"
  by (simp add: hdr_bytes_def)

lemma hdr_bytes_append: "hdr_bytes i (xs @ ys) = hdr_bytes i xs \<union> hdr_bytes (i + span xs) ys"
  by (simp add: hdr_bytes_def)

lemma hdr_bytes_bounds: "hdr_bytes i bs \<subseteq> {i..<i + span bs}"
  by (auto simp: hdr_bytes_def dest!: placed_bounds)

lemma layout_frame:
  assumes "\<And>k. k \<in> hdr_bytes i bs \<Longrightarrow> r' k = r k"
  shows "layout r' p i bs e = layout r p i bs e"
  using assms
proof (induction r p i bs e rule: layout.induct)
  case (2 r p i n u bs e)
  then have "get_mem r' i = get_mem r i" by (intro get_mem_cong) (simp add: hdr_bytes_Cons)
  then show ?case using 2 by (simp add: hdr_bytes_Cons)
qed simp

lemma layout_frame_range:
  "layout r p i bs e \<Longrightarrow> (\<And>k. i \<le> k \<Longrightarrow> k < e \<Longrightarrow> r' k = r k) \<Longrightarrow> layout r' p i bs e"
  using layout_frame [of i bs r' r p e] layout_end [of r p i bs e] hdr_bytes_bounds [of i bs] by fastforce

text \<open>Redirecting the \<open>prev\<close> link of the first block.\<close>

lemma layout_set_prev:
  assumes "layout r p i bs e" "unat (of_nat p' :: u16) = p'"
  shows "layout (put16 (i + 2) (of_nat p') r) p' i bs e"
proof (cases bs)
  case (Cons b bs')
  obtain n u where b: "b = (n, u)" by force
  have "layout (put16 (i + 2) (of_nat p') r) i (i + 6 + n) bs' e"
    using assms(1) unfolding Cons b by (auto intro!: layout_frame_range [of r i "i + 6 + n" bs' e] simp: put16_def)
  then show ?thesis using assms unfolding Cons b by (simp add: get_put del: add_2_eq_Suc')
qed (use assms in simp)

section \<open>Merging and splitting blocks\<close>

lemma layout_merge:
  assumes lay: "layout r p 0 (xs @ (n, False) # (m, u) # ys) 1600" and a: "a = span xs" and e: "e = a + 12 + n + m"
    and v: "v = of_nat e" and w: "w = of_nat a"
  shows "layout (put16 (e + 2) w (put16 a v r)) p 0 (xs @ (n + 6 + m, False) # ys) 1600"
    and "m_used (get_mem (put16 (e + 2) w (put16 a v r)) 1600) = m_used (get_mem r 1600)"
proof -
  let ?r = "put16 (e + 2) w (put16 a v r)"
  have xs: "layout r p 0 xs a" and hd: "unat (m_prev (get_mem r a)) = last_at p 0 xs" "m_used (get_mem r a) = 0"
    and ys: "layout r (a + 6 + n) e ys 1600" using lay by (simp_all add: layout_append a e add_ac)
  have le: "e \<le> 1600" using layout_end [OF ys] by simp
  have ae: "a + 12 \<le> e" using e by simp
  have u16: "unat v = e" "unat w = a" using le ae unfolding v w by (simp_all only: unat_of_nat, simp_all)
  have 1: "layout ?r p 0 xs a" using ae by (intro layout_frame_range [OF xs]) (simp add: put16_def)
  have "layout (put16 a v r) (a + 6 + n) e ys 1600" using ae by (intro layout_frame_range [OF ys]) (simp add: put16_def)
  then have 2: "layout ?r a e ys 1600" unfolding w by (rule layout_set_prev) (use u16(2) w in simp)
  have "get_mem ?r a = get_mem r a \<lparr> m_next := v \<rparr>" using ae by (simp add: get_put)
  then show "layout ?r p 0 (xs @ (n + 6 + m, False) # ys) 1600"
    using 1 2 hd u16 by (simp add: layout_append a e add_ac)
  show "m_used (get_mem ?r 1600) = m_used (get_mem r 1600)" using le ae by (auto simp: get_mem_def put16_def)
qed

lemma layout_split:
  assumes lay: "layout r p 0 (xs @ (n, u) # ys) 1600" and a: "a = span xs" and b: "b = a + 6 + k" and k: "k + 6 \<le> n"
    and hd: "get_mem r' a = get_mem r a \<lparr> m_next := of_nat b, m_used := v \<rparr>"
      "unat (m_next (get_mem r' b)) = a + 6 + n" "unat (m_prev (get_mem r' b)) = a" "m_used (get_mem r' b) = 0"
    and xs: "\<And>i. i < a \<Longrightarrow> r' i = r i" and ys: "layout r' b (a + 6 + n) ys 1600"
  shows "layout r' p 0 (xs @ (k, v \<noteq> 0) # (n - k - 6, False) # ys) 1600"
proof -
  have "a + 6 + n \<le> 1600" using layout_end [OF ys] by simp
  then have "unat (of_nat b :: u16) = b" using b k by (simp only: unat_of_nat, simp)
  moreover have "layout r' p 0 xs a" using lay by (auto simp: layout_append a intro: layout_frame_range xs [unfolded a])
  ultimately show ?thesis using lay hd ys k by (auto simp: layout_append a [symmetric] b add_ac)
qed

lemma layout_set_used:
  assumes "layout r p i (xs @ (n, u) # ys) e" "a = i + span xs"
  shows "layout (r(a + 4 := b)) p i (xs @ (n, b \<noteq> 0) # ys) e"
proof -
  have 1: "layout r p i xs a" "layout r a (a + 6 + n) ys e" using assms by (simp_all add: layout_append)
  have "layout (r(a + 4 := b)) p i xs a" by (rule layout_frame_range [OF 1(1)]) simp
  moreover have "layout (r(a + 4 := b)) a (a + 6 + n) ys e" by (rule layout_frame_range [OF 1(2)]) simp
  ultimately show ?thesis using assms by (simp add: layout_append get_put)
qed

text \<open>The link back from the block behind a split; there is none when the split block was the last.\<close>

lemma layout_split_tail:
  assumes "layout r a e ys 1600" "\<And>i. e \<le> i \<Longrightarrow> r1 i = r i" "unat (of_nat b :: u16) = b"
  shows "layout (if e \<noteq> 1600 then put16 (e + 2) (of_nat b) r1 else r1) b e ys 1600"
proof (cases "e = 1600")
  case True
  then have "ys = []" using layout_end [OF assms(1)] by (cases ys) auto
  then show ?thesis using True by simp
next
  case False
  have "layout r1 a e ys 1600" using assms(2) by (intro layout_frame_range [OF assms(1)]) simp
  then show ?thesis using layout_set_prev assms(3) False by simp
qed

end
