(* ===== verification/Mem_Ops.thy ===== *)
theory Mem_Ops
  imports Mem_Layout
begin

text \<open>
  What the operations of the heap do to the list of blocks.  The invariant \<open>heap_inv\<close> says that the
  blocks fill the array, that no two free blocks are neighbours, that the last block is free, and
  that \<open>lfree\<close> points to a free block.
\<close>

section \<open>The invariant\<close>

definition live :: "block list \<Rightarrow> (nat \<times> nat) set" where
  "live bs = {(a, n). (a, n, True) \<in> set (placed 0 bs)}"

definition free_at :: "block list \<Rightarrow> nat set" where
  "free_at bs = {a. \<exists>n. (a, n, False) \<in> set (placed 0 bs)}"

definition separated :: "block list \<Rightarrow> bool" where
  "separated bs \<longleftrightarrow> successively (\<lambda>b c. snd b \<or> snd c) bs"

definition heap_lay :: "block list \<Rightarrow> heap \<Rightarrow> bool" where
  "heap_lay bs s \<longleftrightarrow> layout (ram s) 0 0 bs 1600 \<and> m_used (get_mem (ram s) 1600) \<noteq> 0"

definition heap_inv :: "block list \<Rightarrow> heap \<Rightarrow> bool" where
  "heap_inv bs s \<longleftrightarrow> heap_lay bs s \<and> separated bs \<and> bs \<noteq> [] \<and> \<not> snd (last bs) \<and> lfree s \<in> free_at bs"

text \<open>\<open>lfree\<close> is the lowest free block.\<close>

definition lfree_lowest :: "block list \<Rightarrow> heap \<Rightarrow> bool" where
  "lfree_lowest bs s \<longleftrightarrow> (\<forall>a\<in>free_at bs. lfree s \<le> a)"

text \<open>The payload of every block in \<open>B\<close> is the same in both states.\<close>

definition same_data :: "(nat \<times> nat) set \<Rightarrow> heap \<Rightarrow> heap \<Rightarrow> bool" where
  "same_data B s s' \<longleftrightarrow> (\<forall>(a, n)\<in>B. \<forall>i. a + 6 \<le> i \<and> i < a + 6 + n \<longrightarrow> ram s' i = ram s i)"

lemma live_append: "live (xs @ ys) = live xs \<union> {(a, n). (a, n, True) \<in> set (placed (span xs) ys)}"
  by (auto simp: live_def)

lemma free_at_append: "free_at (xs @ ys) = free_at xs \<union> {a. \<exists>n. (a, n, False) \<in> set (placed (span xs) ys)}"
  by (auto simp: free_at_def)

lemma same_data_trans: "same_data B s t \<Longrightarrow> same_data B t u \<Longrightarrow> same_data B s u"
  by (fastforce simp: same_data_def)

lemma same_data_mono: "same_data B s t \<Longrightarrow> C \<subseteq> B \<Longrightarrow> same_data C s t"
  by (auto simp: same_data_def)

text \<open>Writing headers only.\<close>

lemma same_data_hdr:
  assumes "\<And>i. i \<notin> hdr_bytes 0 bs \<Longrightarrow> i < span bs \<Longrightarrow> ram t i = ram s i"
  shows "same_data (live bs) s t"
proof -
  have "ram t i = ram s i" if b: "(a, n, True) \<in> set (placed 0 bs)" and i: "a + 6 \<le> i" "i < a + 6 + n" for a n i
  proof (rule assms)
    show "i < span bs" using placed_bounds [OF b] i by simp
    show "i \<notin> hdr_bytes 0 bs"
    proof
      assume "i \<in> hdr_bytes 0 bs"
      then obtain c m v where "(c, m, v) \<in> set (placed 0 bs)" "c \<le> i" "i < c + 6" by (auto simp: hdr_bytes_def)
      then show False using placed_disjoint [OF b, of c m v] i by auto
    qed
  qed
  then show ?thesis by (auto simp: same_data_def live_def)
qed

section \<open>Merging neighbours\<close>

text \<open>One heap obtained from another by merging free blocks.\<close>

definition merged :: "block list \<Rightarrow> heap \<Rightarrow> block list \<Rightarrow> heap \<Rightarrow> bool" where
  "merged bs s cs t \<longleftrightarrow> heap_lay cs t \<and> live cs = live bs \<and> free_at cs \<subseteq> free_at bs \<and>
    (lfree s \<in> free_at bs \<longrightarrow> lfree t \<in> free_at cs) \<and> lfree t \<le> lfree s \<and>
    (lfree s \<in> free_at cs \<longrightarrow> lfree t = lfree s) \<and> mem_stats t = mem_stats s \<and>
    same_data (live bs) s t"

lemma merged_refl: "heap_lay bs s \<Longrightarrow> merged bs s bs s"
  by (simp add: merged_def same_data_def)

lemma merged_trans: "merged bs s cs t \<Longrightarrow> merged cs t ds u \<Longrightarrow> merged bs s ds u"
  unfolding merged_def using same_data_trans [of "live bs" s t u] by auto

lemma merge_step:
  assumes lay: "heap_lay (xs @ (n, False) # (m, False) # ys) s" and a: "a = span xs"
    and t: "t = s \<lparr> lfree := (if lfree s = a + 6 + n then a else lfree s),
      ram := put16 (a + 12 + n + m + 2) (of_nat a) (put16 a (of_nat (a + 12 + n + m)) (ram s)) \<rparr>"
  shows "merged (xs @ (n, False) # (m, False) # ys) s (xs @ (n + 6 + m, False) # ys) t"
proof -
  let ?b = "xs @ (n, False) # (m, False) # ys" and ?c = "xs @ (n + 6 + m, False) # ys"
  have l: "layout (ram s) 0 0 ?b 1600" using lay by (simp add: heap_lay_def)
  have "heap_lay ?c t"
    using layout_merge [OF l a refl refl refl] lay unfolding heap_lay_def t by simp
  moreover have "live ?c = live ?b" by (auto simp: live_append add_ac)
  moreover have "free_at ?c \<subseteq> free_at ?b" by (auto simp: free_at_append add_ac)
  moreover have "lfree t \<in> free_at ?c" if "lfree s \<in> free_at ?b"
    using that by (auto simp: free_at_append a t add_ac)
  moreover have "lfree t \<le> lfree s" by (simp add: t)
  moreover have "lfree t = lfree s" if "lfree s \<in> free_at ?c"
  proof -
    have "lfree s \<noteq> a + 6 + n"
    proof
      assume e: "lfree s = a + 6 + n"
      then have "\<exists>k. (a + 6 + n, k, False) \<in> set (placed 0 ?c)" using that by (simp only: free_at_def mem_Collect_eq)
      then obtain k where "(a + 6 + n, k, False) \<in> set (placed 0 ?c)" ..
      moreover have "(a, n + 6 + m, False) \<in> set (placed 0 ?c)" by (simp add: a)
      ultimately show False using placed_disjoint [of "a + 6 + n" k False 0 ?c a "n + 6 + m" False] by simp
    qed
    then show ?thesis by (simp add: t)
  qed
  moreover have "same_data (live ?b) s t"
  proof (rule same_data_hdr)
    fix i
    assume i: "i \<notin> hdr_bytes 0 ?b" "i < span ?b"
    have "{a..<a + 6} \<subseteq> hdr_bytes 0 ?b" by (auto simp: hdr_bytes_append hdr_bytes_Cons a)
    moreover have "{a + 12 + n + m..<a + 12 + n + m + 6} \<subseteq> hdr_bytes 0 ?b" if "ys \<noteq> []"
      using that by (cases ys) (auto simp: hdr_bytes_append hdr_bytes_Cons a add_ac)
    moreover have "span ?b = a + 12 + n + m" if "ys = []" using that by (simp add: a)
    ultimately have "i \<notin> {a..<a + 6}" "i \<notin> {a + 12 + n + m..<a + 12 + n + m + 6}" using i by (cases "ys = []"; force)+
    then show "ram t i = ram s i" by (auto simp: t put16_def)
  qed
  ultimately show ?thesis by (simp add: merged_def t)
qed

text \<open>The blocks after a free block has been merged with its free neighbours.\<close>

fun join_next :: "nat \<Rightarrow> block list \<Rightarrow> block list" where
  "join_next n ((m, False) # ys) = (n + 6 + m, False) # ys"
| "join_next n ys = (n, False) # ys"

definition join :: "block list \<Rightarrow> block list \<Rightarrow> block list" where
  "join xs zs = (if xs \<noteq> [] \<and> \<not> snd (last xs) then butlast xs @ join_next (fst (last xs)) zs else xs @ zs)"

lemma lay_bound: "heap_lay (xs @ (n, u) # ys) s \<Longrightarrow> span xs + 6 + n \<le> 1600"
  by (auto simp: heap_lay_def dest: layout_end)

lemma lay_head:
  assumes "heap_lay (xs @ (n, u) # ys) s" "a = span xs"
  shows "mem_at a s = Some (get_mem (ram s) a)" "unat (m_next (get_mem (ram s) a)) = a + 6 + n"
    "unat (m_prev (get_mem (ram s) a)) = last_at 0 0 xs" "(m_used (get_mem (ram s) a) \<noteq> 0) = u"
  using assms lay_bound [OF assms(1)] by (simp_all add: heap_lay_def layout_append mem_at_def RAM_BYTES_def MEM_SIZE_def)

lemma u16_of: "unat (w :: u16) = k \<Longrightarrow> of_nat k = w"
  by auto

lemma plug_forward_ok:
  assumes lay: "heap_lay (xs @ (n, False) # ys) s" and a: "a = span xs"
  shows "\<exists>t. plug_forward a s = Some t \<and> merged (xs @ (n, False) # ys) s (xs @ join_next n ys) t"
proof (cases ys)
  case Nil
  have "a + 6 + n = 1600" using lay by (auto simp: heap_lay_def Nil a dest: layout_end)
  then have "plug_forward a s = Some s"
    using lay_head [OF lay a] lay by (simp add: plug_forward_def Let_def mem_at_def cfg_defs)
  then show ?thesis using merged_refl [OF lay] Nil by auto
next
  case (Cons y zs)
  obtain m u where y: "y = (m, u)" by force
  have lay2: "heap_lay ((xs @ [(n, False)]) @ (m, u) # zs) s" using lay by (simp add: Cons y)
  note h = lay_head [OF lay a]
  have b: "a + 12 + n + m \<le> 1600" using lay_bound [OF lay2] by (simp add: a)
  have h2: "mem_at (a + 6 + n) s = Some (get_mem (ram s) (a + 6 + n))" "unat (m_next (get_mem (ram s) (a + 6 + n))) = a + 12 + n + m"
    "(m_used (get_mem (ram s) (a + 6 + n)) \<noteq> 0) = u"
    using lay_head [OF lay2, of "a + 6 + n"] by (simp_all add: a add_ac)
  show ?thesis
  proof (cases u)
    case True
    then have "plug_forward a s = Some s" using h h2 by (simp add: plug_forward_def Let_def)
    then show ?thesis using merged_refl [OF lay] Cons y True by auto
  next
    case False
    let ?t = "s \<lparr> lfree := (if lfree s = a + 6 + n then a else lfree s),
      ram := put16 (a + 12 + n + m + 2) (of_nat a) (put16 a (of_nat (a + 12 + n + m)) (ram s)) \<rparr>"
    have v: "m_next (get_mem (ram s) (a + 6 + n)) = of_nat (a + 12 + n + m)" using h2(2) by (rule u16_of [symmetric])
    have far: "get_mem (put16 a w (ram s)) (a + 6 + n) = get_mem (ram s) (a + 6 + n)" for w
      by (rule get_put_far) simp
    have "plug_forward a s = Some ?t"
      using h h2 b False far v
      by (auto simp: plug_forward_def Let_def mem_at_def set_next_def set_prev_def RAM_BYTES_def MEM_SIZE_def
          simp del: of_nat_add add_2_eq_Suc' split: if_splits)
    moreover have "heap_lay (xs @ (n, False) # (m, False) # zs) s" using lay False by (simp add: Cons y)
    from merge_step [OF this a refl] have "merged (xs @ (n, False) # ys) s (xs @ join_next n ys) ?t"
      using False by (simp add: Cons y)
    ultimately show ?thesis by blast
  qed
qed


lemma plug_backward_ok:
  assumes lay: "heap_lay (xs @ (n, False) # ys) s" and a: "a = span xs"
  shows "\<exists>t. plug_backward a s = Some t \<and> merged (xs @ (n, False) # ys) s (join xs ((n, False) # ys)) t"
proof (cases xs rule: rev_cases)
  case Nil
  then have "plug_backward a s = Some s" using lay_head [OF lay a] a by (simp add: plug_backward_def Let_def)
  then show ?thesis using merged_refl [OF lay] Nil by (auto simp: join_def)
next
  case (snoc ws w)
  obtain k u where w: "w = (k, u)" by force
  have lay2: "heap_lay (ws @ (k, u) # (n, False) # ys) s" using lay by (simp add: snoc w)
  define p where "p = span ws"
  have ap: "a = p + 6 + k" by (simp add: a snoc w p_def)
  have b: "a + 6 + n \<le> 1600" using lay_bound [OF lay] by (simp add: a)
  have last: "last_at 0 0 xs = p" by (simp add: snoc p_def)
  note h = lay_head [OF lay a, unfolded last] and h2 = lay_head [OF lay2 p_def]
  show ?thesis
  proof (cases u)
    case True
    then have "plug_backward a s = Some s" using h h2 by (simp add: plug_backward_def Let_def)
    then show ?thesis using merged_refl [OF lay] snoc w True by (auto simp: join_def)
  next
    case False
    let ?t = "s \<lparr> lfree := (if lfree s = p + 6 + k then p else lfree s),
      ram := put16 (p + 12 + k + n + 2) (of_nat p) (put16 p (of_nat (p + 12 + k + n)) (ram s)) \<rparr>"
    have v: "m_next (get_mem (ram s) a) = of_nat (p + 12 + k + n)" by (rule u16_of [symmetric]) (use h(2) ap in simp)
    have far: "get_mem (put16 p w (ram s)) a = get_mem (ram s) a" for w by (rule get_put_far) (simp add: ap)
    have e: "unat (of_nat (p + 12 + k + n) :: u16) = p + 12 + k + n" using h(2) v ap by simp
    have bp: "p + 12 + k + n \<le> 1600" "p \<noteq> a" using b ap by simp_all
    have "plug_backward a s = Some ?t"
      using h(1,3) h2(1,4) bp False far
      by (auto simp: plug_backward_def Let_def mem_at_def set_next_def set_prev_def RAM_BYTES_def MEM_SIZE_def v e ap [symmetric]
          simp del: of_nat_add add_2_eq_Suc' split: if_splits)
    moreover have "heap_lay (ws @ (k, False) # (n, False) # ys) s" using lay2 False by simp
    from merge_step [OF this p_def refl] have "merged (xs @ (n, False) # ys) s (join xs ((n, False) # ys)) ?t"
      using False by (simp add: snoc w join_def)
    ultimately show ?thesis by blast
  qed
qed

lemma join_next_head: "\<exists>k zs. join_next n ys = (k, False) # zs"
  by (cases "(n, ys)" rule: join_next.cases) auto

lemma plug_holes_ok:
  assumes "heap_lay (xs @ (n, False) # ys) s" "a = span xs"
  shows "\<exists>t. plug_holes a s = Some t \<and> merged (xs @ (n, False) # ys) s (join xs (join_next n ys)) t"
proof -
  obtain t where t: "plug_forward a s = Some t" "merged (xs @ (n, False) # ys) s (xs @ join_next n ys) t"
    using plug_forward_ok [OF assms] by blast
  obtain k zs where k: "join_next n ys = (k, False) # zs" using join_next_head by blast
  obtain u where "plug_backward a t = Some u" "merged (xs @ join_next n ys) t (join xs (join_next n ys)) u"
    using plug_backward_ok [of xs k zs t a] t(2) assms(2) by (auto simp: merged_def k)
  then show ?thesis using t merged_trans by (auto simp: plug_holes_def)
qed

text \<open>Merging restores the separation of free blocks and keeps the last block free.\<close>

lemma separated_append:
  "separated (xs @ ys) \<longleftrightarrow> separated xs \<and> separated ys \<and> (xs = [] \<or> ys = [] \<or> snd (last xs) \<or> snd (hd ys))"
  by (auto simp: separated_def successively_append_iff)

lemma separated_Cons: "separated (b # bs) \<longleftrightarrow> separated bs \<and> (bs = [] \<or> snd b \<or> snd (hd bs))"
  using separated_append [of "[b]" bs] by (simp add: separated_def)

lemma join_next_sep: "separated ys \<Longrightarrow> separated (join_next n ys)"
  by (cases "(n, ys)" rule: join_next.cases) (auto simp: separated_Cons)

lemma join_sep:
  assumes "separated xs" "separated ys"
  shows "separated (join xs (join_next n ys))"
proof (cases xs rule: rev_cases)
  case Nil
  then show ?thesis using join_next_sep [OF assms(2)] by (simp add: join_def)
next
  case (snoc ws w)
  obtain k zs where k: "join_next n ys = (k, False) # zs" using join_next_head by blast
  have s: "separated ((k, False) # zs)" using join_next_sep [OF assms(2)] k by metis
  have "snd (last ws)" if "\<not> snd w" "ws \<noteq> []" using assms(1) that by (auto simp: snoc separated_append separated_Cons)
  then show ?thesis using s assms(1) by (auto simp: snoc join_def k separated_append separated_Cons)
qed

lemma join_last:
  assumes "ys \<noteq> [] \<longrightarrow> \<not> snd (last ys)"
  shows "join xs (join_next n ys) \<noteq> [] \<and> \<not> snd (last (join xs (join_next n ys)))"
proof -
  have 1: "\<not> snd (last (join_next n ys))" using assms by (cases "(n, ys)" rule: join_next.cases) (auto split: if_splits)
  obtain k zs where k: "join_next n ys = (k, False) # zs" using join_next_head by blast
  then show ?thesis using 1 by (auto simp: join_def)
qed


section \<open>Freeing a block\<close>

lemma live_mid: "live (xs @ (n, True) # ys) = insert (span xs, n) (live (xs @ (n, False) # ys))"
  by (auto simp: live_append)

lemma live_mid_notin: "(span xs, k) \<notin> live (xs @ (n, False) # ys)"
proof
  assume "(span xs, k) \<in> live (xs @ (n, False) # ys)"
  then have "(span xs, k, True) \<in> set (placed 0 (xs @ (n, False) # ys))" by (simp add: live_def)
  moreover have "(span xs, n, False) \<in> set (placed 0 (xs @ (n, False) # ys))" by simp
  ultimately show False using placed_disjoint [of "span xs" k True 0 "xs @ (n, False) # ys" "span xs" n False] by simp
qed

lemma free_at_mid: "free_at (xs @ (n, False) # ys) = insert (span xs) (free_at (xs @ (n, True) # ys))"
  by (auto simp: free_at_append)

text \<open>What \<open>mem_free\<close> does with a live block.\<close>

lemma mem_free_ok:
  assumes inv: "heap_inv (xs @ (n, True) # ys) s" and a: "a = span xs"
  shows "\<exists>t. mem_free (Some (int a + 6)) s = Some t \<and> heap_inv (join xs (join_next n ys)) t \<and>
    live (join xs (join_next n ys)) = live (xs @ (n, True) # ys) - {(a, n)} \<and>
    same_data (live (xs @ (n, True) # ys) - {(a, n)}) s t \<and>
    lfree t \<le> lfree s \<and> lfree t \<le> a \<and>
    (min a (lfree s) \<in> free_at (join xs (join_next n ys)) \<longrightarrow> lfree t = min a (lfree s)) \<and> free_at (join xs (join_next n ys)) \<subseteq> insert a (free_at (xs @ (n, True) # ys)) \<and>
    mem_stats t = (mem_stats s) \<lparr> st_used := st_used (mem_stats s) - of_nat (6 + n) \<rparr>"
proof -
  let ?b = "xs @ (n, True) # ys" and ?c = "xs @ (n, False) # ys"
  have lay: "heap_lay ?b s" and sep: "separated xs" "separated ys" and ys: "ys \<noteq> []" "\<not> snd (last ys)"
    using inv by (auto simp: heap_inv_def separated_append separated_Cons split: if_splits)
  have b: "a + 12 + n \<le> 1600"
    using lay ys(1) by (cases ys) (auto simp: heap_lay_def a dest: layout_end)
  define r where "r = (ram s)(a + 4 := 0)"
  define s1 where "s1 = s \<lparr> ram := r, lfree := min a (lfree s), mem_stats := (mem_stats s)
      \<lparr> st_used := st_used (mem_stats s) - of_nat (6 + n) \<rparr> \<rparr>"
  have lay1: "heap_lay ?c s1"
    using layout_set_used [of "ram s" 0 0 xs n True ys 1600 a 0] lay b a
    by (auto simp: heap_lay_def s1_def r_def get_mem_def)
  have h: "unat (m_next (get_mem r a)) = a + 6 + n" using lay_head(2) [OF lay1 a] by (simp add: s1_def)
  have "m_next (get_mem r a) - of_nat a = of_nat (6 + n)" using u16_of [OF h] by (simp add: algebra_simps)
  then have "mem_free (Some (int a + 6)) s = plug_holes a s1"
    using b by (auto simp: mem_free_def set_used_def mem_at_def cfg_defs nat_add_distrib r_def s1_def Let_def min_def)
  moreover obtain t where t: "plug_holes a s1 = Some t" "merged ?c s1 (join xs (join_next n ys)) t"
    using plug_holes_ok [OF lay1 a] by blast
  ultimately have free: "mem_free (Some (int a + 6)) s = Some t" by simp
  have l1: "lfree s1 \<in> free_at ?c" using inv by (auto simp: s1_def heap_inv_def free_at_mid a min_def)
  have inv': "heap_inv (join xs (join_next n ys)) t"
    using t(2) l1 join_sep [OF sep, of n] join_last [of ys xs n] ys by (simp add: merged_def heap_inv_def)
  have lv: "live ?c = live ?b - {(a, n)}" using live_mid_notin [of xs n n ys] by (auto simp: live_mid a)
  have "same_data (live ?c) s s1"
  proof (rule same_data_hdr)
    fix i
    assume "i \<notin> hdr_bytes 0 ?c"
    moreover have "a + 4 \<in> hdr_bytes 0 ?c" by (simp add: hdr_bytes_append hdr_bytes_Cons a)
    ultimately show "ram s1 i = ram s i" by (auto simp: s1_def r_def)
  qed
  then have data: "same_data (live ?b - {(a, n)}) s t" using t(2) unfolding lv [symmetric] merged_def by (blast intro: same_data_trans)
  have "lfree t \<le> lfree s1" "lfree s1 \<in> free_at (join xs (join_next n ys)) \<longrightarrow> lfree t = lfree s1"
    "free_at (join xs (join_next n ys)) \<subseteq> insert a (free_at ?b)" "mem_stats t = mem_stats s1"
    "live (join xs (join_next n ys)) = live ?b - {(a, n)}"
    using t(2) free_at_mid [of xs n ys] lv by (simp_all add: merged_def a)
  then show ?thesis using free inv' data by (auto simp: s1_def)
qed

end
