(* ===== verification/Mem_Alloc.thy ===== *)
theory Mem_Alloc
  imports Mem_Ops
begin

text \<open>
  Allocation: the first-fit search of \<open>mem_malloc\<close>, the splitting of the block it finds, and the
  shrinking of a block by \<open>mem_realloc\<close>.
\<close>

section \<open>The search\<close>

definition too_small :: "u16 \<Rightarrow> block \<Rightarrow> bool" where
  "too_small sz b \<longleftrightarrow> snd b \<or> fst b < unat sz + 6"

lemma malloc_loop_ok:
  assumes "layout (ram s) p i zs 1600"
  shows "(list_all (too_small sz) zs \<and> malloc_loop sz i s = Some (None, mem_err s)) \<or>
    (\<exists>us n vs. zs = us @ (n, False) # vs \<and> list_all (too_small sz) us \<and> unat sz + 6 \<le> n \<and>
      malloc_loop sz i s = malloc_take sz (i + span us) s)"
  using assms
proof (induction zs arbitrary: p i)
  case Nil
  then show ?case by (simp add: malloc_loop.simps MEM_SIZE_def)
next
  case (Cons z zs)
  obtain n u where z: "z = (n, u)" by force
  have h: "unat (m_next (get_mem (ram s) i)) = i + 6 + n" "(m_used (get_mem (ram s) i) \<noteq> 0) = u"
    and tl: "layout (ram s) i (i + 6 + n) zs 1600" using Cons.prems by (simp_all add: z)
  have b: "i + 6 + n \<le> 1600" using layout_end [OF tl] by simp
  have fits: "mem_fits sz i (get_mem (ram s) i) \<longleftrightarrow> \<not> too_small sz z"
    using h by (auto simp: mem_fits_def too_small_def z cfg_defs)
  have step: "malloc_loop sz i s = (if too_small sz z then malloc_loop sz (i + 6 + n) s else malloc_take sz i s)"
    by (subst malloc_loop.simps) (use b h fits in \<open>simp add: mem_at_def cfg_defs\<close>)
  show ?case
  proof (cases "too_small sz z")
    case False
    then show ?thesis using step by (intro disjI2 exI [of _ "[]"] exI [of _ n] exI [of _ zs]) (auto simp: z too_small_def)
  next
    case True
    from Cons.IH [OF tl] show ?thesis
    proof
      assume "list_all (too_small sz) zs \<and> malloc_loop sz (i + 6 + n) s = Some (None, mem_err s)"
      then show ?thesis using True step by simp
    next
      assume "\<exists>us k vs. zs = us @ (k, False) # vs \<and> list_all (too_small sz) us \<and> unat sz + 6 \<le> k \<and>
        malloc_loop sz (i + 6 + n) s = malloc_take sz (i + 6 + n + span us) s"
      then obtain us k vs where "zs = us @ (k, False) # vs" "list_all (too_small sz) us" "unat sz + 6 \<le> k"
        "malloc_loop sz (i + 6 + n) s = malloc_take sz (i + 6 + n + span us) s" by blast
      then show ?thesis using True step z
        by (intro disjI2 exI [of _ "z # us"] exI [of _ k] exI [of _ vs]) (simp add: add_ac)
    qed
  qed
qed

section \<open>Splitting\<close>

text \<open>The bytes written by \<open>mem_malloc\<close>, in their order.\<close>

definition take_ram :: "nat \<Rightarrow> nat \<Rightarrow> nat \<Rightarrow> (nat \<Rightarrow> u8) \<Rightarrow> nat \<Rightarrow> u8" where
  "take_ram a b e r =
    (let r = put16 a (of_nat b) (put16 b (of_nat e) (put16 (b + 2) (of_nat a) r));
         r = (if e \<noteq> 1600 then put16 (e + 2) (of_nat b) r else r)
     in r(b + 4 := 0, a + 4 := 1))"

text \<open>The bytes written by \<open>mem_realloc\<close> before the holes are plugged.\<close>

definition shrink_ram :: "nat \<Rightarrow> nat \<Rightarrow> nat \<Rightarrow> (nat \<Rightarrow> u8) \<Rightarrow> nat \<Rightarrow> u8" where
  "shrink_ram a b e r =
    (let r = put16 a (of_nat b) (put16 (b + 2) (of_nat a) (put16 b (of_nat e) (r(b + 4 := 0))))
     in if e \<noteq> 1600 then put16 (e + 2) (of_nat b) r else r)"

text \<open>Both write the same bytes, except for the flag of the first block.\<close>

lemma take_shrink:
  assumes "a + 6 \<le> b" "b + 6 \<le> e"
  shows "take_ram a b e r = (shrink_ram a b e r)(a + 4 := 1)"
  using assms by (auto simp: take_ram_def shrink_ram_def put16_def Let_def fun_eq_iff)

lemma shrink_frame:
  assumes "i \<notin> {a..<a + 6}" "i \<notin> {b..<b + 6}" "i \<notin> {e..<e + 6} \<or> e = 1600"
  shows "shrink_ram a b e r i = r i"
proof -
  have "i \<noteq> a" "i \<noteq> a + 1" "i \<noteq> b" "i \<noteq> b + 1" "i \<noteq> b + 2" "i \<noteq> b + 3" "i \<noteq> b + 4" using assms(1,2) by auto
  moreover have "i \<noteq> e + 2 \<and> i \<noteq> e + 3 \<or> e = 1600" using assms(3) by auto
  ultimately show ?thesis by (auto simp: shrink_ram_def put16_def Let_def)
qed

lemma shrink_lay:
  assumes lay: "heap_lay (xs @ (n, u) # ys) s" and a: "a = span xs" and b: "b = a + 6 + k" and k: "k + 6 \<le> n"
    and e: "e = a + 6 + n"
  shows "layout (shrink_ram a b e (ram s)) 0 0 (xs @ (k, u) # (n - k - 6, False) # ys) 1600"
    "m_used (get_mem (shrink_ram a b e (ram s)) 1600) = m_used (get_mem (ram s) 1600)"
proof -
  let ?r = "shrink_ram a b e (ram s)" and ?m = "get_mem (ram s) a"
  have le: "e \<le> 1600" using lay_bound [OF lay] by (simp add: a e)
  have u16: "unat (of_nat i :: u16) = i" if "i \<le> 1600" for i using that by (simp only: unat_of_nat, simp)
  have la: "a \<le> 1600" using le e by simp
  define r1 where "r1 = put16 a (of_nat b) (put16 (b + 2) (of_nat a) (put16 b (of_nat e) ((ram s)(b + 4 := 0))))"
  have r: "?r = (if e \<noteq> 1600 then put16 (e + 2) (of_nat b) r1 else r1)" by (simp add: shrink_ram_def r1_def Let_def)
  have m: "get_mem ?r a = ?m \<lparr> m_next := of_nat b \<rparr>" "get_mem ?r b = \<lparr> m_next = of_nat e, m_prev = of_nat a, m_used = 0 \<rparr>"
    unfolding r using k by (simp_all add: r1_def get_mem_def put16_def b e del: of_nat_add)
  have ly: "layout (ram s) 0 0 (xs @ (n, u) # ys) 1600" using lay by (simp add: heap_lay_def)
  then have tl: "layout (ram s) a e ys 1600" by (simp add: layout_append a e)
  have "layout ?r b e ys 1600"
    unfolding r using k le u16 [of b] by (intro layout_split_tail [OF tl]) (auto simp: r1_def put16_def b e simp del: of_nat_add)
  moreover have "?r i = ram s i" if "i < a" for i unfolding r using that by (simp add: r1_def put16_def b e)
  ultimately have "layout ?r 0 0 (xs @ (k, m_used ?m \<noteq> 0) # (n - k - 6, False) # ys) 1600"
    using le k m u16 [of e] u16 [OF la] by (intro layout_split [OF ly a b k]) (simp_all add: e [symmetric])
  then show "layout ?r 0 0 (xs @ (k, u) # (n - k - 6, False) # ys) 1600" using lay_head(4) [OF lay a] by simp
  show "m_used (get_mem ?r 1600) = m_used (get_mem (ram s) 1600)"
    unfolding r using le k by (auto simp: r1_def get_mem_def put16_def b e)
qed


lemma shrink_data:
  assumes "heap_lay (xs @ (n, u) # ys) s" and "a = span xs" and "b = a + 6 + k" and "k + 6 \<le> n" and "e = a + 6 + n"
    and t: "\<And>i. i \<noteq> a + 4 \<Longrightarrow> ram t i = shrink_ram a b e (ram s) i"
  shows "same_data (live (xs @ (k, True) # (n - k - 6, False) # ys)) s t"
proof (rule same_data_hdr)
  let ?c = "xs @ (k, True) # (n - k - 6, False) # ys"
  fix i
  assume i: "i \<notin> hdr_bytes 0 ?c" "i < span ?c"
  have "{a..<a + 6} \<subseteq> hdr_bytes 0 ?c" "{b..<b + 6} \<subseteq> hdr_bytes 0 ?c"
    using assms(2,3) by (auto simp: hdr_bytes_append hdr_bytes_Cons)
  then have 1: "i \<notin> {a..<a + 6}" "i \<notin> {b..<b + 6}" using i by auto
  have 2: "i \<notin> {e..<e + 6}"
  proof (cases ys)
    case Nil
    then show ?thesis using i(2) assms(2,4,5) by auto
  next
    case (Cons y zs)
    then have "{e..<e + 6} \<subseteq> hdr_bytes 0 ?c"
      using assms(2,4,5) by (cases y) (auto simp: hdr_bytes_append hdr_bytes_Cons)
    then show ?thesis using i by auto
  qed
  show "ram t i = ram s i" using 1 2 t [of i] shrink_frame [OF 1] by auto
qed

section \<open>Allocating from a block\<close>

lemma malloc_take_ok:
  assumes lay: "heap_lay (xs @ (n, False) # ys) s" and a: "a = span xs" and k: "unat sz + 6 \<le> n"
  shows "\<exists>t. malloc_take sz a s = Some (Some (int a + 6), t) \<and>
    heap_lay (xs @ (unat sz, True) # (n - unat sz - 6, False) # ys) t \<and>
    lfree t = (if lfree s = a then a + 6 + unat sz else lfree s) \<and>
    same_data (live (xs @ (unat sz, True) # (n - unat sz - 6, False) # ys)) s t \<and>
    mem_stats t = (mem_stats s) \<lparr> st_used := st_used (mem_stats s) + (sz + 6),
      st_max := max (st_max (mem_stats s)) (of_nat (a + 6 + unat sz)) \<rparr>"
proof -
  define b e where "b = a + 6 + unat sz" and "e = a + 6 + n"
  have le: "e \<le> 1600" using lay_bound [OF lay] by (simp add: a e_def)
  have be: "a + 6 \<le> b" "b + 6 \<le> e" using k by (simp_all add: b_def e_def)
  have w: "of_nat a + 6 + sz = (of_nat b :: u16)" by (simp add: b_def)
  have u16: "unat (of_nat i :: u16) = i" if "i \<le> 1600" for i using that by (simp only: unat_of_nat, simp)
  have ub: "unat (of_nat b :: u16) = b" "unat (of_nat e :: u16) = e" using le be by (simp_all only: u16)
  note h = lay_head [OF lay a]
  have nx: "m_next (get_mem (ram s) a) = of_nat e" using u16_of [OF h(2)] by (simp add: e_def)
  define r where "r = take_ram a b e (ram s)"
  define t where "t = s \<lparr> ram := r, lfree := (if lfree s = a then b else lfree s),
    mem_stats := (mem_stats s) \<lparr> st_used := st_used (mem_stats s) + (sz + 6), st_max := max (st_max (mem_stats s)) (of_nat b) \<rparr> \<rparr>"
  have lr: "layout r 0 0 (xs @ (unat sz, True) # (n - unat sz - 6, False) # ys) 1600"
    unfolding r_def take_shrink [OF be] using layout_set_used [OF shrink_lay(1) [OF lay a b_def k e_def], of a 1] a by simp
  have lt: "heap_lay (xs @ (unat sz, True) # (n - unat sz - 6, False) # ys) t"
    using lr shrink_lay(2) [OF lay a b_def k e_def] lay le be
    by (auto simp: heap_lay_def t_def r_def take_shrink get_mem_def)
  have nextr: "m_used (get_mem r a) \<noteq> 0" "unat (m_next (get_mem r a)) = b" "m_used (get_mem r b) = 0"
    using lay_head [OF lt a] lay_head [of "xs @ [(unat sz, True)]" "n - unat sz - 6" False ys t b] lt
    by (simp_all add: t_def b_def a)
  have adv: "lfree_next r a = Some b"
    using nextr le be by (subst lfree_next.simps, subst lfree_next.simps) (simp add: cfg_defs)
  have m2: "m_next (get_mem (put16 a (of_nat b) (put16 b (of_nat e) (put16 (b + 2) (of_nat a) (ram s)))) b) = of_nat e"
    using be by (simp add: get_put)
  have "malloc_take sz a s = Some (Some (int a + 6), t)"
    using h(1) le be adv m2 unfolding malloc_take_def SIZEOF_STRUCT_MEM_def of_nat_numeral w
    by (auto simp: Let_def set_prev_def set_next_def set_used_def mem_at_def RAM_BYTES_def MEM_SIZE_def nx ub t_def r_def
        take_ram_def max_def split: if_splits)
  moreover have "same_data (live (xs @ (unat sz, True) # (n - unat sz - 6, False) # ys)) s t"
    using shrink_data [OF lay a b_def k e_def, of t] be by (simp add: t_def r_def take_shrink)
  ultimately show ?thesis using lt by (intro exI [of _ t]) (simp add: t_def b_def)
qed


text \<open>The blocks from \<open>lfree\<close> on.\<close>

lemma lfree_split:
  assumes "heap_inv bs s"
  obtains ws zs where "bs = ws @ zs" "lfree s = span ws" "layout (ram s) (last_at 0 0 ws) (lfree s) zs 1600" "zs \<noteq> []"
proof -
  obtain n where "(lfree s, n, False) \<in> set (placed 0 bs)" using assms by (auto simp: heap_inv_def free_at_def)
  then obtain ws ys where "bs = ws @ (n, False) # ys" "lfree s = 0 + span ws" using placed_split by blast
  then show ?thesis using assms that [of ws "(n, False) # ys"] by (simp add: heap_inv_def heap_lay_def layout_append)
qed

lemma heap_inv_take:
  assumes inv: "heap_inv (xs @ (n, False) # ys) s" and lay: "heap_lay (xs @ (k, True) # (m, False) # ys) t"
    and l: "lfree t = (if lfree s = span xs then span xs + 6 + k else lfree s)" and e: "n = k + 6 + m"
  shows "heap_inv (xs @ (k, True) # (m, False) # ys) t"
    "free_at (xs @ (k, True) # (m, False) # ys) = insert (span xs + 6 + k) (free_at (xs @ (n, False) # ys) - {span xs})"
proof -
  let ?b = "xs @ (n, False) # ys" and ?c = "xs @ (k, True) # (m, False) # ys"
  have "span xs \<notin> free_at (xs @ (n, True) # ys)"
  proof
    assume "span xs \<in> free_at (xs @ (n, True) # ys)"
    then obtain j where "(span xs, j, False) \<in> set (placed 0 (xs @ (n, True) # ys))" by (auto simp: free_at_def)
    then show False using placed_disjoint [of "span xs" j False 0 "xs @ (n, True) # ys" "span xs" n True] by simp
  qed
  then show f: "free_at ?c = insert (span xs + 6 + k) (free_at ?b - {span xs})"
    by (auto simp: free_at_append e add_ac)
  have "separated ?c" using inv by (auto simp: heap_inv_def separated_append separated_Cons)
  then show "heap_inv ?c t" using inv lay l f by (auto simp: heap_inv_def)
qed

lemma separated_prev: "separated (xs @ (n, False) # ys) \<Longrightarrow> xs = [] \<or> snd (last xs)"
  by (auto simp: separated_append)

lemma live_split: "live (xs @ (k, True) # (m, False) # ys) = insert (span xs, k) (live (xs @ (k + 6 + m, False) # ys))"
  by (auto simp: live_append add_ac)

text \<open>\<open>mem_malloc\<close>: either no free block from \<open>lfree\<close> on has room, or the first that has is split.\<close>

lemma mem_malloc_ok:
  assumes inv: "heap_inv bs s" and sz: "0 < unat sz" "unat sz \<le> 1600"
  shows "(mem_malloc sz s = Some (None, mem_err s) \<and> (\<forall>(a, n, u)\<in>set (placed 0 bs). lfree s \<le> a \<longrightarrow> too_small sz (n, u))) \<or>
    (\<exists>xs n ys t. bs = xs @ (n, False) # ys \<and> unat sz + 6 \<le> n \<and> lfree s \<le> span xs \<and>
      (\<forall>(a, m, u)\<in>set (placed 0 xs). lfree s \<le> a \<longrightarrow> too_small sz (m, u)) \<and>
      mem_malloc sz s = Some (Some (int (span xs) + 6), t) \<and>
      heap_inv (xs @ (unat sz, True) # (n - unat sz - 6, False) # ys) t \<and>
      lfree t = (if lfree s = span xs then span xs + 6 + unat sz else lfree s) \<and>
      same_data (live (xs @ (unat sz, True) # (n - unat sz - 6, False) # ys)) s t \<and>
      mem_stats t = (mem_stats s) \<lparr> st_used := st_used (mem_stats s) + (sz + 6),
        st_max := max (st_max (mem_stats s)) (of_nat (span xs + 6 + unat sz)) \<rparr>)"
proof -
  obtain ws zs where ws: "bs = ws @ zs" "lfree s = span ws" "layout (ram s) (last_at 0 0 ws) (lfree s) zs 1600"
    using lfree_split [OF inv] .
  have low: "a < lfree s" if "(a, m, u) \<in> set (placed 0 ws)" for a m u using placed_bounds [OF that] ws(2) by simp
  have small: "too_small sz (m, u)" if "(a, m, u) \<in> set (placed i us)" "list_all (too_small sz) us" for a m u i us
    using that by (induction i us rule: placed.induct) auto
  have m: "mem_malloc sz s = malloc_loop sz (lfree s) s" using sz by (auto simp: mem_malloc_def MEM_SIZE_def)
  from malloc_loop_ok [OF ws(3), of sz] show ?thesis
  proof
    assume "list_all (too_small sz) zs \<and> malloc_loop sz (lfree s) s = Some (None, mem_err s)"
    then show ?thesis using m low small by (fastforce simp: ws(1))
  next
    assume "\<exists>us n vs. zs = us @ (n, False) # vs \<and> list_all (too_small sz) us \<and> unat sz + 6 \<le> n \<and>
      malloc_loop sz (lfree s) s = malloc_take sz (lfree s + span us) s"
    then obtain us n vs where us: "zs = us @ (n, False) # vs" "list_all (too_small sz) us" "unat sz + 6 \<le> n"
      "malloc_loop sz (lfree s) s = malloc_take sz (lfree s + span us) s" by blast
    define xs where "xs = ws @ us"
    have bs: "bs = xs @ (n, False) # vs" and a: "lfree s + span us = span xs" by (simp_all add: ws us(1) xs_def)
    have lay: "heap_lay (xs @ (n, False) # vs) s" using inv by (simp add: heap_inv_def bs)
    obtain t where t: "malloc_take sz (span xs) s = Some (Some (int (span xs) + 6), t)"
      "heap_lay (xs @ (unat sz, True) # (n - unat sz - 6, False) # vs) t"
      "lfree t = (if lfree s = span xs then span xs + 6 + unat sz else lfree s)"
      "same_data (live (xs @ (unat sz, True) # (n - unat sz - 6, False) # vs)) s t"
      "mem_stats t = (mem_stats s) \<lparr> st_used := st_used (mem_stats s) + (sz + 6),
        st_max := max (st_max (mem_stats s)) (of_nat (span xs + 6 + unat sz)) \<rparr>"
      using malloc_take_ok [OF lay refl us(3)] by blast
    have "heap_inv (xs @ (unat sz, True) # (n - unat sz - 6, False) # vs) t"
      using heap_inv_take(1) [OF inv [unfolded bs] t(2,3)] us(3) by simp
    moreover have "\<forall>(a, m, u)\<in>set (placed 0 xs). lfree s \<le> a \<longrightarrow> too_small sz (m, u)"
      using low small us(2) by (fastforce simp: xs_def)
    moreover have "lfree s \<le> span xs" using a by simp
    ultimately show ?thesis using bs us(3,4) m t a by (intro disjI2 exI [of _ xs] exI [of _ n] exI [of _ vs] exI [of _ t]) simp
  qed
qed

section \<open>Shrinking a block\<close>

lemma heap_inv_cong: "ram t = ram s \<Longrightarrow> lfree t = lfree s \<Longrightarrow> heap_inv bs t = heap_inv bs s"
  by (simp add: heap_inv_def heap_lay_def)

lemma mem_realloc_keeps:
  assumes inv: "heap_inv (xs @ (n, True) # ys) s" and a: "a = span xs" and sz: "unat sz \<le> 1600" "n \<le> unat sz + 18"
  shows "\<exists>t. mem_realloc (Some (int a + 6)) sz s = Some (Some (int a + 6), t) \<and> ram t = ram s \<and> lfree t = lfree s"
proof -
  have lay: "heap_lay (xs @ (n, True) # ys) s" and ys: "ys \<noteq> []" using inv by (auto simp: heap_inv_def)
  have b: "a + 12 + n \<le> 1600" using lay ys by (cases ys) (auto simp: heap_lay_def a dest: layout_end)
  note h = lay_head [OF lay a]
  have n: "m_next (get_mem (ram s) a) - of_nat a - 6 = of_nat n" using u16_of [OF h(2)] by (simp add: algebra_simps)
  have un: "unat (of_nat n :: u16) = n" using b by (simp only: unat_of_nat, simp)
  show ?thesis using sz b h(1) n un
    by (auto simp: mem_realloc_def Let_def cfg_defs nat_add_distrib)
qed

lemma mem_realloc_shrinks:
  assumes inv: "heap_inv (xs @ (n, True) # ys) s" and a: "a = span xs" and sz: "unat sz + 18 < n"
    and cs: "cs = xs @ (unat sz, True) # join_next (n - unat sz - 6) ys"
  shows "\<exists>t. mem_realloc (Some (int a + 6)) sz s = Some (Some (int a + 6), t) \<and> heap_inv cs t \<and>
    same_data (live cs) s t \<and> (lfree s \<in> free_at cs \<longrightarrow> lfree t = lfree s) \<and>
    live cs = insert (a, unat sz) (live (xs @ (n, True) # ys) - {(a, n)})"
proof -
  have lay: "heap_lay (xs @ (n, True) # ys) s" and ys: "ys \<noteq> []" "\<not> snd (last ys)" and sep: "separated xs" "separated ys"
    using inv by (auto simp: heap_inv_def separated_append separated_Cons split: if_splits)
  define b e where "b = a + 6 + unat sz" and "e = a + 6 + n"
  have le: "e + 6 \<le> 1600" using lay ys by (cases ys) (auto simp: heap_lay_def a e_def dest: layout_end)
  have k: "unat sz + 6 \<le> n" using sz by simp
  have be: "a + 6 \<le> b" "b + 6 \<le> e" using k by (simp_all add: b_def e_def)
  have w: "of_nat a + 6 + sz = (of_nat b :: u16)" by (simp add: b_def)
  have u16: "unat (of_nat i :: u16) = i" if "i \<le> 1600" for i using that by (simp only: unat_of_nat, simp)
  have "n \<le> 1600" "b \<le> 1600" "e \<le> 1600" using le be by (simp_all add: e_def)
  then have ub: "unat (of_nat b :: u16) = b" "unat (of_nat e :: u16) = e" "unat (of_nat n :: u16) = n" by (simp_all only: u16)
  note h = lay_head [OF lay a]
  have nx: "m_next (get_mem (ram s) a) = of_nat e" using u16_of [OF h(2)] by (simp add: e_def)
  have n: "of_nat e - of_nat a - 6 = (of_nat n :: u16)" by (simp add: e_def)
  define s1 where "s1 = s \<lparr> mem_stats := (mem_stats s) \<lparr> st_used := st_used (mem_stats s) - (of_nat n - sz) \<rparr>,
      ram := shrink_ram a b e (ram s) \<rparr>"
  let ?c = "xs @ (unat sz, True) # (n - unat sz - 6, False) # ys"
  have lay1: "heap_lay ?c s1" using shrink_lay [OF lay a b_def k e_def] lay by (simp add: heap_lay_def s1_def)
  have m2: "m_next (get_mem (put16 a (of_nat b) (put16 (b + 2) (of_nat a) (put16 b (of_nat e) ((ram s)(b + 4 := 0))))) b) = of_nat e"
    using be by (simp add: get_put del: add_2_eq_Suc')
  have "mem_realloc (Some (int a + 6)) sz s = map_option (Pair (Some (int a + 6))) (plug_holes b s1)"
    using h(1) le be m2 sz \<open>n \<le> 1600\<close> unfolding mem_realloc_def SIZEOF_STRUCT_MEM_def of_nat_numeral
    by (cases "plug_holes b s1")
      (auto simp: Let_def set_prev_def set_next_def set_used_def mem_at_def RAM_BYTES_def MEM_SIZE_def MIN_SIZE_def nx ub n w s1_def
        nat_add_distrib shrink_ram_def split: if_splits)
  moreover obtain t where t: "plug_holes b s1 = Some t" "merged ?c s1 cs t"
    using plug_holes_ok [of "xs @ [(unat sz, True)]" "n - unat sz - 6" ys s1 b] lay1 by (auto simp: b_def a cs join_def)
  moreover have "heap_inv cs t"
  proof -
    obtain m where m: "n = unat sz + 6 + m" using k le_Suc_ex by blast
    have "lfree s \<in> free_at ?c" using inv by (auto simp: heap_inv_def free_at_append add_ac m)
    moreover have "separated cs"
      using sep inv join_next_sep [OF sep(2)] join_next_head
      unfolding cs by (fastforce simp: heap_inv_def separated_append separated_Cons)
    moreover have "\<not> snd (last (join_next (n - unat sz - 6) ys))" using join_last [of ys "[]"] ys by (simp add: join_def)
    ultimately show ?thesis using t(2) join_next_head [of "n - unat sz - 6" ys] by (auto simp: merged_def heap_inv_def cs s1_def)
  qed
  moreover have "same_data (live cs) s t"
    using shrink_data [OF lay a b_def k e_def, of s1] t(2) by (auto simp: merged_def s1_def intro: same_data_trans)
  moreover have "live cs = insert (a, unat sz) (live (xs @ (n, True) # ys) - {(a, n)})"
    using t(2) live_split [of xs "unat sz" "n - unat sz - 6" ys] k live_mid [of xs n ys] live_mid_notin [of xs n n ys]
    by (auto simp: merged_def a)
  ultimately show ?thesis by (auto simp: merged_def s1_def)
qed

end
