(* ===== verification/Mem_Props.thy ===== *)
theory Mem_Props
  imports Mem_Alloc
begin

text \<open>
  The properties of the heap: a client that frees what it was given and stays inside its blocks
  keeps the heap well formed for ever, allocation is complete and returned memory is reused, and the
  one operation that breaks the order of the free list.
\<close>

section \<open>The empty heap\<close>

lemma mem_init_ok: "\<exists>t. mem_init s = Some t \<and> heap_inv [(1594, False)] t \<and> lfree t = 0"
proof -
  let ?r = "\<lambda>i. if i < MEM_SIZE then 0 else ram s i"
  define r where "r = put16 1602 1600 (put16 1600 1600 ((put16 2 0 (put16 0 1600 ?r))(4 := 0, 1604 := 1)))"
  have "mem_init s = Some (s \<lparr> ram := r, lfree := 0, mem_stats := (mem_stats s) \<lparr> st_avail := 1600 \<rparr> \<rparr>)"
    by (simp add: mem_init_def set_next_def set_prev_def set_used_def cfg_defs r_def Let_def numeral_2_eq_2)
  moreover have "get_mem r 0 = \<lparr> m_next = 1600, m_prev = 0, m_used = 0 \<rparr>" "m_used (get_mem r 1600) = 1"
    by (simp_all add: r_def get_mem_def put16_def load16_def)
  ultimately show ?thesis by (simp add: heap_inv_def heap_lay_def separated_def free_at_def)
qed

text \<open>A heap with no block in use is one free block.\<close>

lemma heap_inv_idle:
  assumes "heap_inv bs s" "live bs = {}"
  shows "bs = [(1594, False)]"
proof -
  have free: "\<not> snd b" if mem: "b \<in> set bs" for b
  proof
    obtain n u where b: "b = (n, u)" by force
    assume "snd b"
    then obtain xs ys where "bs = xs @ (n, True) # ys" using mem b split_list [of b bs] by auto
    then show False using assms(2) by (simp add: live_mid)
  qed
  obtain b cs where bs: "bs = b # cs" using assms(1) by (cases bs) (auto simp: heap_inv_def)
  have "cs = []"
  proof (rule ccontr)
    assume "cs \<noteq> []"
    then have "snd b \<or> snd (hd cs)" using assms(1) by (simp add: heap_inv_def bs separated_Cons)
    then show False using free [of b] free [of "hd cs"] \<open>cs \<noteq> []\<close> by (auto simp: bs)
  qed
  moreover obtain n where "b = (n, False)" using free [of b] by (cases b) (auto simp: bs)
  moreover have "span bs = 1600" using assms(1) by (auto simp: heap_inv_def heap_lay_def dest: layout_end)
  ultimately show ?thesis by (simp add: bs)
qed

section \<open>A heap with three blocks\<close>

definition ex_heap :: heap where
  "ex_heap = \<lparr> ram = (\<lambda>i. if i = 0 then 0xee else if i = 1 then 3 else if i = 4 then 1
      else if i = 1006 then 0xe8 else if i = 1007 then 5 else if i = 1010 then 1
      else if i = 1512 then 0x40 else if i = 1513 then 6 else if i = 1514 then 0xee else if i = 1515 then 3
      else if i = 1604 then 1 else 0),
    lfree = 1512, mem_stats = \<lparr> st_avail = 1600, st_used = 1512, st_max = 1512, st_err = 0 \<rparr> \<rparr>"

lemma ex_heap_inv: "heap_inv [(1000, True), (500, True), (82, False)] ex_heap"
  by (simp add: heap_inv_def heap_lay_def ex_heap_def get_mem_def load16_def separated_def free_at_def)

lemma malloc_room:
  assumes "heap_inv (xs @ [(n, False)]) s" "unat sz + 6 \<le> n" "lfree s \<le> span xs" "0 < unat sz" "n \<le> 1594"
  shows "\<exists>p t. mem_malloc sz s = Some (Some p, t)"
proof -
  have "(span xs, n, False) \<in> set (placed 0 (xs @ [(n, False)]))" by simp
  then show ?thesis using mem_malloc_ok [OF assms(1), of sz] assms by (fastforce simp: too_small_def)
qed

section \<open>Allocation\<close>

text \<open>C12: While \<open>lfree\<close> is the lowest free block, \<open>mem_malloc\<close> succeeds exactly when some free block has
  room for the request and one more header.  It then returns a block that was not in use, takes
  nothing from the blocks in use and leaves their contents as they are; otherwise it returns a null
  pointer and only counts the error.\<close>

theorem mem_malloc_complete:
  assumes inv: "heap_inv bs s" and low: "lfree_lowest bs s" and sz: "0 < unat sz" "unat sz \<le> 1600"
  shows "if \<exists>a n. (a, n, False) \<in> set (placed 0 bs) \<and> unat sz + 6 \<le> n
    then \<exists>a cs t. mem_malloc sz s = Some (Some (int a + 6), t) \<and> heap_inv cs t \<and> lfree_lowest cs t \<and>
      a \<in> free_at bs \<and> live cs = insert (a, unat sz) (live bs) \<and> same_data (live bs) s t
    else mem_malloc sz s = Some (None, mem_err s)"
proof -
  from mem_malloc_ok [OF inv sz] show ?thesis
  proof
    assume n: "mem_malloc sz s = Some (None, mem_err s) \<and>
      (\<forall>(a, n, u)\<in>set (placed 0 bs). lfree s \<le> a \<longrightarrow> too_small sz (n, u))"
    have "\<not> (\<exists>a n. (a, n, False) \<in> set (placed 0 bs) \<and> unat sz + 6 \<le> n)"
    proof clarify
      fix a n
      assume a: "(a, n, False) \<in> set (placed 0 bs)" "unat sz + 6 \<le> n"
      then have "lfree s \<le> a" using low by (auto simp: lfree_lowest_def free_at_def)
      then have "too_small sz (n, False)" using n a(1) by blast
      then show False using a(2) by (simp add: too_small_def)
    qed
    then show ?thesis using n by simp
  next
    assume "\<exists>xs n ys t. bs = xs @ (n, False) # ys \<and> unat sz + 6 \<le> n \<and> lfree s \<le> span xs \<and>
      (\<forall>(a, m, u)\<in>set (placed 0 xs). lfree s \<le> a \<longrightarrow> too_small sz (m, u)) \<and>
      mem_malloc sz s = Some (Some (int (span xs) + 6), t) \<and>
      heap_inv (xs @ (unat sz, True) # (n - unat sz - 6, False) # ys) t \<and>
      lfree t = (if lfree s = span xs then span xs + 6 + unat sz else lfree s) \<and>
      same_data (live (xs @ (unat sz, True) # (n - unat sz - 6, False) # ys)) s t \<and>
      mem_stats t = (mem_stats s) \<lparr> st_used := st_used (mem_stats s) + (sz + 6),
        st_max := max (st_max (mem_stats s)) (of_nat (span xs + 6 + unat sz)) \<rparr>"
    then obtain xs n ys t where bs: "bs = xs @ (n, False) # ys" and n: "unat sz + 6 \<le> n"
      and t: "mem_malloc sz s = Some (Some (int (span xs) + 6), t)"
        "heap_inv (xs @ (unat sz, True) # (n - unat sz - 6, False) # ys) t"
        "lfree t = (if lfree s = span xs then span xs + 6 + unat sz else lfree s)"
        "same_data (live (xs @ (unat sz, True) # (n - unat sz - 6, False) # ys)) s t" by blast
    let ?c = "xs @ (unat sz, True) # (n - unat sz - 6, False) # ys"
    have e: "n = unat sz + 6 + (n - unat sz - 6)" using n by simp
    have "heap_lay ?c t" using t(2) by (simp add: heap_inv_def)
    from heap_inv_take(2) [OF inv [unfolded bs] this t(3) e]
    have f: "free_at ?c = insert (span xs + 6 + unat sz) (free_at bs - {span xs})" by (simp add: bs)
    have le: "lfree s \<le> span xs" using low by (simp add: lfree_lowest_def bs free_at_mid)
    have above: "span xs + 6 + unat sz \<le> a" if "a \<in> free_at bs" "a \<noteq> span xs" "span xs \<le> a" for a
      using that n placed_disjoint [of a _ False 0 bs "span xs" n False] by (fastforce simp: free_at_def bs)
    have "lfree t \<le> x" if "x \<in> free_at ?c" for x
      using that low le above [of x] t(3) unfolding f by (cases "lfree s = span xs") (auto simp: lfree_lowest_def)
    then have "lfree_lowest ?c t" by (simp add: lfree_lowest_def)
    moreover have lv: "live ?c = insert (span xs, unat sz) (live bs)" using live_split [of xs "unat sz"] n by (simp add: bs)
    moreover have "span xs \<in> free_at bs" by (simp add: bs free_at_mid)
    moreover have "same_data (live bs) s t" using t(4) lv by (auto intro: same_data_mono)
    moreover have "\<exists>a k. (a, k, False) \<in> set (placed 0 bs) \<and> unat sz + 6 \<le> k"
      using n by (intro exI [of _ "span xs"] exI [of _ n]) (simp add: bs)
    ultimately show ?thesis using t(1,2) by auto
  qed
qed


theorem mem_malloc_complete_witness:
  "\<exists>a cs t. mem_malloc 20 ex_heap = Some (Some (int a + 6), t) \<and> heap_inv cs t \<and> lfree_lowest cs t \<and>
    live cs = insert (a, 20) (live [(1000, True), (500, True), (82, False)])"
proof -
  have "lfree_lowest [(1000, True), (500, True), (82, False)] ex_heap" by (simp add: lfree_lowest_def free_at_def ex_heap_def)
  from mem_malloc_complete [OF ex_heap_inv this, of 20] show ?thesis by (auto split: if_splits)
qed

section \<open>Allocation undone\<close>

lemma live_blocks:
  assumes "(a, n) \<in> live bs"
  obtains xs ys where "bs = xs @ (n, True) # ys" "a = span xs"
  using assms placed_split [of a n True 0 bs] by (auto simp: live_def)

lemma join_undo: "xs = [] \<or> snd (last xs) \<Longrightarrow> k + 6 \<le> n \<Longrightarrow> join xs (join_next k ((n - k - 6, False) # ys)) = xs @ (n, False) # ys"
  by (auto simp: join_def)

text \<open>C13: \<open>mem_free\<close> undoes \<open>mem_malloc\<close>: giving back the block just obtained restores the list of blocks,
  \<open>lfree\<close>, the count of bytes in use and the contents of all other blocks.\<close>

theorem mem_malloc_free:
  assumes inv: "heap_inv bs s" and m: "mem_malloc sz s = Some (Some p, t)"
  shows "\<exists>u. mem_free (Some p) t = Some u \<and> heap_inv bs u \<and> lfree u = lfree s \<and>
    st_used (mem_stats u) = st_used (mem_stats s) \<and> same_data (live bs) s u"
proof -
  have sz: "0 < unat sz" "unat sz \<le> 1600" using m by (auto simp: mem_malloc_def MEM_SIZE_def unat_gt_0 split: if_splits)
  obtain xs n ys where bs: "bs = xs @ (n, False) # ys" and n: "unat sz + 6 \<le> n" and p: "p = int (span xs) + 6"
    and low: "lfree s \<le> span xs"
    and t: "heap_inv (xs @ (unat sz, True) # (n - unat sz - 6, False) # ys) t"
      "lfree t = (if lfree s = span xs then span xs + 6 + unat sz else lfree s)"
      "same_data (live (xs @ (unat sz, True) # (n - unat sz - 6, False) # ys)) s t"
      "mem_stats t = (mem_stats s) \<lparr> st_used := st_used (mem_stats s) + (sz + 6),
        st_max := max (st_max (mem_stats s)) (of_nat (span xs + 6 + unat sz)) \<rparr>"
    using mem_malloc_ok [OF inv sz] m by auto
  let ?c = "xs @ (unat sz, True) # (n - unat sz - 6, False) # ys"
  have undo: "join xs (join_next (unat sz) ((n - unat sz - 6, False) # ys)) = bs"
    using inv separated_prev [of xs n ys] n unfolding bs by (intro join_undo) (auto simp: heap_inv_def)
  obtain u where u: "mem_free (Some (int (span xs) + 6)) t = Some u" "heap_inv bs u"
    "same_data (live ?c - {(span xs, unat sz)}) t u" "min (span xs) (lfree t) \<in> free_at bs \<longrightarrow> lfree u = min (span xs) (lfree t)"
    "mem_stats u = (mem_stats t) \<lparr> st_used := st_used (mem_stats t) - of_nat (6 + unat sz) \<rparr>"
    using mem_free_ok [OF t(1) refl] unfolding undo by blast
  have lv: "live ?c = insert (span xs, unat sz) (live bs)" using live_split [of xs "unat sz"] n by (simp add: bs)
  moreover have "(span xs, unat sz) \<notin> live bs" unfolding bs by (rule live_mid_notin)
  ultimately have data: "same_data (live bs) s u"
    using t(3) u(3) same_data_trans [of "live bs" s t u] same_data_mono [of "live ?c" s t "live bs"] by auto
  have mid: "lfree s \<in> free_at bs" "span xs \<in> free_at bs" using inv by (simp_all add: heap_inv_def bs free_at_mid)
  have "lfree u = lfree s" using low u(4) t(2) mid by (auto simp: min_def split: if_splits)
  moreover have "st_used (mem_stats u) = st_used (mem_stats s)" using u(5) t(4) by simp
  ultimately show ?thesis using u(1,2) data p by blast
qed

theorem mem_malloc_free_witness:
  "\<exists>p t u. mem_malloc 20 ex_heap = Some (Some p, t) \<and> mem_free (Some p) t = Some u \<and>
    heap_inv [(1000, True), (500, True), (82, False)] u \<and> lfree u = lfree ex_heap"
proof -
  obtain p t where m: "mem_malloc 20 ex_heap = Some (Some p, t)"
    using malloc_room [of "[(1000, True), (500, True)]" 82 ex_heap 20] ex_heap_inv by (auto simp: ex_heap_def)
  then show ?thesis using mem_malloc_free [OF ex_heap_inv m] by blast
qed

section \<open>Clients\<close>

lemma heap_inv_write:
  assumes inv: "heap_inv bs s" and b: "(a, n) \<in> live bs" and l: "lfree t = lfree s"
    and w: "\<And>i. \<not> (a + 6 \<le> i \<and> i < a + 6 + n) \<Longrightarrow> ram t i = ram s i"
  shows "heap_inv bs t" "same_data (live bs - {(a, n)}) s t"
proof -
  have p: "(a, n, True) \<in> set (placed 0 bs)" using b by (simp add: live_def)
  have e: "span bs = 1600" using inv by (auto simp: heap_inv_def heap_lay_def dest: layout_end)
  have "ram t i = ram s i" if i: "i \<in> hdr_bytes 0 bs" for i
  proof -
    obtain c m v where c: "(c, m, v) \<in> set (placed 0 bs)" "c \<le> i" "i < c + 6" using i by (auto simp: hdr_bytes_def)
    show ?thesis using placed_disjoint [OF p c(1)] c by (intro w) auto
  qed
  then have "layout (ram t) 0 0 bs 1600 = layout (ram s) 0 0 bs 1600" by (rule layout_frame)
  moreover have "get_mem (ram t) 1600 = get_mem (ram s) 1600"
    using placed_bounds [OF p] e by (intro get_mem_cong w) simp
  ultimately show "heap_inv bs t" using inv l by (simp add: heap_inv_def heap_lay_def)
  show "same_data (live bs - {(a, n)}) s t"
    using placed_disjoint [OF p] by (fastforce simp: same_data_def live_def intro!: w)
qed


text \<open>A client of the heap owns the blocks it was given; \<open>B\<close> is the set of their offsets and lengths, and
  \<open>C\<close> what the client knows to be in them: what it found in a new block, what it wrote, and what moved along with a block.
  After \<open>mem_realloc\<close> or \<open>mem_reallocm\<close> a block is where it was, shorter when there was enough to cut
  off, or it has moved.\<close>

definition after_realloc :: "nat \<Rightarrow> nat \<Rightarrow> u16 \<Rightarrow> int option \<Rightarrow> (nat \<times> nat) set \<Rightarrow> (nat \<times> nat) set" where
  "after_realloc a n sz r B =
    (case r of
       None \<Rightarrow> B
     | Some p \<Rightarrow>
         if p \<noteq> int a + 6 then insert (nat p - 6, unat sz) (B - {(a, n)})
         else if unat sz + 18 < n then insert (a, unat sz) (B - {(a, n)}) else B)"

definition fresh :: "nat \<Rightarrow> nat \<Rightarrow> (nat \<Rightarrow> u8) \<Rightarrow> (nat \<Rightarrow> u8) \<Rightarrow> nat \<Rightarrow> u8" where
  "fresh p n r C = (\<lambda>i. if p \<le> i \<and> i < p + n then r i else C i)"

definition after_contents :: "nat \<Rightarrow> nat \<Rightarrow> u16 \<Rightarrow> int option \<Rightarrow> (nat \<Rightarrow> u8) \<Rightarrow> (nat \<Rightarrow> u8) \<Rightarrow> nat \<Rightarrow> u8" where
  "after_contents a n sz r m C =
    (case r of
       None \<Rightarrow> C
     | Some p \<Rightarrow>
         if p \<noteq> int a + 6 then (\<lambda>i. if nat p \<le> i \<and> i < nat p + min n (unat sz) then C (a + 6 + (i - nat p)) else fresh (nat p) (unat sz) m C i)
         else C)"

inductive mem_step :: "(nat \<times> nat) set \<times> (nat \<Rightarrow> u8) \<times> heap \<Rightarrow> (nat \<times> nat) set \<times> (nat \<Rightarrow> u8) \<times> heap \<Rightarrow> bool" where
  malloc: "mem_malloc sz s = Some (Some p, t) \<Longrightarrow>
    mem_step (B, C, s) (insert (nat p - 6, unat sz) B, fresh (nat p) (unat sz) (ram t) C, t)"
| full: "mem_malloc sz s = Some (None, t) \<Longrightarrow> mem_step (B, C, s) (B, C, t)"
| free: "(a, n) \<in> B \<Longrightarrow> mem_free (Some (int a + 6)) s = Some t \<Longrightarrow> mem_step (B, C, s) (B - {(a, n)}, C, t)"
| free_null: "mem_free None s = Some t \<Longrightarrow> mem_step (B, C, s) (B, C, t)"
| realloc: "(a, n) \<in> B \<Longrightarrow> mem_realloc (Some (int a + 6)) sz s = Some (r, t) \<Longrightarrow>
    mem_step (B, C, s) (after_realloc a n sz r B, after_contents a n sz r (ram t) C, t)"
| reallocm: "(a, n) \<in> B \<Longrightarrow> mem_reallocm (Some (int a + 6)) sz s = Some (r, t) \<Longrightarrow>
    mem_step (B, C, s) (after_realloc a n sz r B, after_contents a n sz r (ram t) C, t)"
| store: "(a, n) \<in> B \<Longrightarrow> a + 6 \<le> i \<Longrightarrow> i < a + 6 + n \<Longrightarrow>
    mem_step (B, C, s) (B, C (i := v), s \<lparr> ram := (ram s) (i := v) \<rparr>)"

definition holds :: "(nat \<times> nat) set \<Rightarrow> (nat \<Rightarrow> u8) \<Rightarrow> heap \<Rightarrow> bool" where
  "holds B C s \<longleftrightarrow> (\<forall>(a, n)\<in>B. \<forall>i. a + 6 \<le> i \<and> i < a + 6 + n \<longrightarrow> ram s i = C i)"

definition owned :: "(nat \<times> nat) set \<times> (nat \<Rightarrow> u8) \<times> heap \<Rightarrow> bool" where
  "owned x \<longleftrightarrow> (case x of (B, C, s) \<Rightarrow> \<exists>bs. heap_inv bs s \<and> live bs = B \<and> holds B C s)"

lemma holdsD: "holds B C s \<Longrightarrow> (a, n) \<in> B \<Longrightarrow> a + 6 \<le> i \<Longrightarrow> i < a + 6 + n \<Longrightarrow> ram s i = C i"
  by (auto simp: holds_def)

lemma holds_mono: "holds B C s \<Longrightarrow> A \<subseteq> B \<Longrightarrow> holds A C s"
  by (auto simp: holds_def)

lemma holds_same: "holds B C s \<Longrightarrow> same_data B s t \<Longrightarrow> holds B C t"
  by (fastforce simp: holds_def same_data_def)

lemma holds_insert: "holds (insert (a, n) B) C s \<longleftrightarrow> (\<forall>i. a + 6 \<le> i \<and> i < a + 6 + n \<longrightarrow> ram s i = C i) \<and> holds B C s"
  by (auto simp: holds_def)

text \<open>What lies outside of the blocks does not matter.\<close>

lemma holds_cong:
  assumes "holds B C s" and "\<And>c m i. (c, m) \<in> B \<Longrightarrow> c + 6 \<le> i \<Longrightarrow> i < c + 6 + m \<Longrightarrow> D i = C i"
  shows "holds B D s"
  using assms by (fastforce simp: holds_def)

lemma live_apart:
  assumes "(a, n) \<in> live bs" and "(b, m) \<in> live bs" and "(a, n) \<noteq> (b, m)"
  shows "a + 6 + n \<le> b \<or> b + 6 + m \<le> a"
  using assms placed_disjoint [of a n True 0 bs b m True] by (auto simp: live_def)

lemma mem_err_inv [simp]: "heap_inv bs (mem_err s) = heap_inv bs s"
  by (rule heap_inv_cong) (simp_all add: mem_err_def)

lemma malloc_owned:
  assumes "heap_inv bs s" "mem_malloc sz s = Some (r, t)"
  shows "\<exists>cs. heap_inv cs t \<and> same_data (live bs) s t \<and> (case r of None \<Rightarrow> cs = bs
    | Some p \<Rightarrow> \<exists>a. p = int a + 6 \<and> a \<in> free_at bs \<and> live cs = insert (a, unat sz) (live bs))"
proof (cases "0 < unat sz \<and> unat sz \<le> 1600")
  case False
  then have "r = None" "t = s" using assms(2) by (auto simp: mem_malloc_def MEM_SIZE_def unat_gt_0 split: if_splits)
  then show ?thesis using assms(1) by (auto simp: same_data_def)
next
  case True
  then consider "mem_malloc sz s = Some (None, mem_err s)"
    | xs n ys u where "bs = xs @ (n, False) # ys" "unat sz + 6 \<le> n"
      "mem_malloc sz s = Some (Some (int (span xs) + 6), u)"
      "heap_inv (xs @ (unat sz, True) # (n - unat sz - 6, False) # ys) u"
      "same_data (live (xs @ (unat sz, True) # (n - unat sz - 6, False) # ys)) s u"
    using mem_malloc_ok [OF assms(1), of sz] by blast
  then show ?thesis
  proof cases
    case 1
    then have "r = None" "t = mem_err s" "ram t = ram s" using assms(2) by (auto simp: mem_err_def)
    then show ?thesis using assms(1) by (auto simp: same_data_def)
  next
    case 2
    then show ?thesis using assms(2) live_split [of xs "unat sz" "n - unat sz - 6" ys]
      by (intro exI [of _ "xs @ (unat sz, True) # (n - unat sz - 6, False) # ys"]) (auto simp: free_at_mid intro: same_data_mono)
  qed
qed

lemma free_not_live: "a \<in> free_at bs \<Longrightarrow> (a, k) \<notin> live bs"
proof
  assume "a \<in> free_at bs" "(a, k) \<in> live bs"
  then obtain j where "(a, j, False) \<in> set (placed 0 bs)" "(a, k, True) \<in> set (placed 0 bs)"
    by (auto simp: free_at_def live_def)
  then show False using placed_disjoint by fastforce
qed

lemma fresh_holds:
  assumes "heap_inv cs t" and "live cs = insert (a, n) B" and "a \<in> free_at bs" and "live bs = B" and "holds B C t"
  shows "holds (live cs) (fresh (a + 6) n (ram t) C) t"
proof -
  have "(a, n) \<noteq> (c, m)" if "(c, m) \<in> B" for c m using free_not_live [OF assms(3), of n] assms(4) that by blast
  then have "c + 6 + m \<le> a \<or> a + 6 + n \<le> c" if "(c, m) \<in> B" for c m
    using live_apart [of c m cs a n] assms(2) that by fastforce
  then have "holds B (fresh (a + 6) n (ram t) C) t" by (intro holds_cong [OF assms(5)]) (fastforce simp: fresh_def)
  then show ?thesis unfolding assms(2) holds_insert by (simp add: fresh_def)
qed

lemma free_owned:
  assumes "heap_inv bs s" "(a, n) \<in> live bs" "mem_free (Some (int a + 6)) s = Some t"
  shows "\<exists>cs. heap_inv cs t \<and> live cs = live bs - {(a, n)} \<and> same_data (live bs - {(a, n)}) s t"
proof -
  obtain xs ys where "bs = xs @ (n, True) # ys" "a = span xs" using live_blocks [OF assms(2)] .
  then show ?thesis using mem_free_ok [of xs n ys s a] assms by auto
qed

lemma realloc_owned:
  assumes inv: "heap_inv bs s" and a: "(a, n) \<in> live bs" and r: "mem_realloc (Some (int a + 6)) sz s = Some (r, t)"
    and h: "holds (live bs) C s"
  shows "owned (after_realloc a n sz r (live bs), after_contents a n sz r (ram t) C, t)"
proof -
  obtain xs ys where bs: "bs = xs @ (n, True) # ys" "a = span xs" using live_blocks [OF a] .
  consider "1600 < unat sz" | "unat sz \<le> 1600" "n \<le> unat sz + 18" | "unat sz + 18 < n" by linarith
  then show ?thesis
  proof cases
    case 1
    then show ?thesis using inv r h by (auto simp: mem_realloc_def MEM_SIZE_def after_realloc_def after_contents_def owned_def)
  next
    case 2
    then have "r = Some (int a + 6)" "ram t = ram s" "lfree t = lfree s"
      using mem_realloc_keeps [OF inv [unfolded bs(1)] bs(2), of sz] r by auto
    then show ?thesis using 2 inv heap_inv_cong [of t s bs] h
      by (auto simp: after_realloc_def after_contents_def owned_def holds_def)
  next
    case 3
    define cs where "cs = xs @ (unat sz, True) # join_next (n - unat sz - 6) ys"
    have cs: "r = Some (int a + 6)" "heap_inv cs t" "same_data (live cs) s t" "live cs = insert (a, unat sz) (live bs - {(a, n)})"
      using mem_realloc_shrinks [OF inv [unfolded bs(1)] bs(2) 3 cs_def] r by (auto simp: bs(1))
    have "holds (insert (a, n) (live bs)) C s" using h a by (simp add: insert_absorb)
    then have "holds (live cs) C s" using 3 holds_mono [of "live bs" C s "live bs - {(a, n)}"] unfolding cs(4) holds_insert by auto
    from holds_same [OF this cs(3)] show ?thesis using cs 3 by (auto simp: after_realloc_def after_contents_def owned_def)
  qed
qed

lemma after_contents_moved:
  assumes "p \<noteq> int a + 6" "nat p = q"
  shows "after_contents a n sz (Some p) m C =
    (\<lambda>i. if q \<le> i \<and> i < q + min n (unat sz) then C (a + 6 + (i - q)) else fresh q (unat sz) m C i)"
  using assms(1) by (intro ext) (simp add: after_contents_def assms(2))

lemma reallocm_owned:
  assumes inv: "heap_inv bs s" and a: "(a, n) \<in> live bs" and r: "mem_reallocm (Some (int a + 6)) sz s = Some (r, t)"
    and h: "holds (live bs) C s"
  shows "owned (after_realloc a n sz r (live bs), after_contents a n sz r (ram t) C, t)"
proof -
  obtain q s1 where m: "mem_malloc sz s = Some (q, s1)" using r by (auto simp: mem_reallocm_def bind_eq_Some_conv)
  obtain cs where cs: "heap_inv cs s1" "same_data (live bs) s s1" "case q of None \<Rightarrow> cs = bs
    | Some p \<Rightarrow> \<exists>b. p = int b + 6 \<and> b \<in> free_at bs \<and> live cs = insert (b, unat sz) (live bs)"
    using malloc_owned [OF inv m] by blast
  have h1: "holds (live bs) C s1" by (rule holds_same [OF h cs(2)])
  show ?thesis
  proof (cases q)
    case None
    then show ?thesis using r m cs a h1 realloc_owned [of bs s1 a n sz r t C] by (simp add: mem_reallocm_def)
  next
    case (Some p)
    then obtain b where b: "p = int b + 6" "b \<in> free_at bs" "live cs = insert (b, unat sz) (live bs)" using cs by auto
    define s2 where "s2 = s1 \<lparr> ram := ram_copy (b + 6) (a + 6) (unat sz) (ram s1) \<rparr>"
    have s2: "heap_inv cs s2" "same_data (live cs - {(b, unat sz)}) s1 s2"
      using b(3) by (intro heap_inv_write [OF cs(1), of b "unat sz"]; auto simp: s2_def ram_copy_def)+
    have t: "r = Some p" "mem_free (Some (int a + 6)) s2 = Some t"
      using r m Some b(1) by (auto simp: mem_reallocm_def s2_def bind_eq_Some_conv nat_add_distrib split: if_splits)
    note ab = free_not_live [OF b(2)]
    have ne: "b \<noteq> a" using a ab by blast
    obtain ds where ds: "heap_inv ds t" "live ds = insert (b, unat sz) (live bs - {(a, n)})" "same_data (live ds) s2 t"
    proof -
      have e: "live cs - {(a, n)} = insert (b, unat sz) (live bs - {(a, n)})" using b(3) ne by auto
      from free_owned [OF s2(1) _ t(2), of n] show ?thesis using a b(3) that unfolding e by fastforce
    qed
    define D where "D = after_contents a n sz r (ram t) C"
    have D: "D = (\<lambda>i. if b + 6 \<le> i \<and> i < b + 6 + min n (unat sz) then C (a + 6 + (i - (b + 6))) else fresh (b + 6) (unat sz) (ram t) C i)"
      unfolding D_def t(1) using b(1) ne by (intro after_contents_moved) simp_all
    have apart: "b + 6 + unat sz \<le> c \<or> c + 6 + k \<le> b" if "(c, k) \<in> live bs" for c k
      using live_apart [of b "unat sz" cs c k] b(3) ab that by auto
    have "holds (live bs - {(a, n)}) C t"
    proof (rule holds_same [OF holds_mono [OF holds_same [OF holds_mono [OF h1] s2(2)]]])
      show "same_data (live bs - {(a, n)}) s2 t" using same_data_mono [OF ds(3)] ds(2) by blast
    qed (use b(3) ab in auto)
    then have old: "holds (live bs - {(a, n)}) D t"
    proof (rule holds_cong)
      fix c k i
      assume "(c, k) \<in> live bs - {(a, n)}" "c + 6 \<le> i" "i < c + 6 + k"
      then show "D i = C i" using apart [of c k] by (auto simp: D fresh_def)
    qed
    have "ram t i = D i" if "b + 6 \<le> i" "i < b + 6 + unat sz" for i
    proof (cases "i < b + 6 + n")
      case True
      have "ram t i = ram s2 i" using ds(2,3) that by (auto simp: same_data_def)
      also have "\<dots> = ram s1 (a + 6 + (i - (b + 6)))" using that by (simp add: s2_def ram_copy_def)
      also have "\<dots> = C (a + 6 + (i - (b + 6)))" using True that(1) by (intro holdsD [OF h1 a]) linarith+
      finally have "ram t i = C (a + 6 + (i - (b + 6)))" .
      moreover have "i < b + 6 + min n (unat sz)" using True that(2) by (simp add: min_def)
      ultimately show ?thesis using that(1) unfolding D by simp
    qed (use that in \<open>simp add: D fresh_def\<close>)
    then have "holds (live ds) D t" unfolding ds(2) holds_insert using old by blast
    moreover have "after_realloc a n sz r (live bs) = live ds"
      using t(1) b(1) ne ds(2) by (simp add: after_realloc_def nat_add_distrib)
    ultimately show ?thesis using ds(1) unfolding D_def owned_def by auto
  qed
qed

lemma ownedE:
  assumes "owned (B, C, s)"
  obtains bs where "heap_inv bs s" "live bs = B" "holds B C s"
  using assms by (auto simp: owned_def)

lemma ownedI: "heap_inv cs t \<Longrightarrow> live cs = B \<Longrightarrow> holds B C t \<Longrightarrow> owned (B, C, t)"
  by (auto simp: owned_def)

interpretation mem_run: step_invariant mem_step owned
proof
  fix x y
  assume "mem_step x y" "owned x"
  then show "owned y"
  proof (induction rule: mem_step.induct)
    case (malloc sz s p t B C)
    then obtain bs where bs: "heap_inv bs s" "live bs = B" "holds B C s" using ownedE by blast
    from malloc_owned [OF bs(1) malloc(1)] obtain cs a where cs: "heap_inv cs t" "same_data B s t" "p = int a + 6"
      "a \<in> free_at bs" "live cs = insert (a, unat sz) B" using bs(2) by auto
    from fresh_holds [OF cs(1,5,4) bs(2) holds_same [OF bs(3) cs(2)]] show ?case
      using cs by (intro ownedI [OF cs(1)]) (simp_all add: nat_add_distrib)
  next
    case (full sz s t B C)
    then obtain bs where bs: "heap_inv bs s" "live bs = B" "holds B C s" using ownedE by blast
    from malloc_owned [OF bs(1) full(1)] show ?case using bs(2) holds_same [OF bs(3)] by (auto simp: owned_def)
  next
    case (free a n B s t C)
    then obtain bs where bs: "heap_inv bs s" "live bs = B" "holds B C s" using ownedE by blast
    obtain cs where cs: "heap_inv cs t" "live cs = B - {(a, n)}" "same_data (B - {(a, n)}) s t"
      using free_owned [OF bs(1) _ free(2)] free(1) bs(2) by blast
    show ?case by (rule ownedI [OF cs(1,2)]) (rule holds_same [OF holds_mono [OF bs(3)] cs(3)], blast)
  next
    case (free_null s t B C)
    then show ?case by (simp add: mem_free_def)
  next
    case (realloc a n B sz s r t C)
    then obtain bs where bs: "heap_inv bs s" "live bs = B" "holds B C s" using ownedE by blast
    then show ?case using realloc_owned [OF bs(1) _ realloc(2)] realloc(1) by blast
  next
    case (reallocm a n B sz s r t C)
    then obtain bs where bs: "heap_inv bs s" "live bs = B" "holds B C s" using ownedE by blast
    then show ?case using reallocm_owned [OF bs(1) _ reallocm(2)] reallocm(1) by blast
  next
    case (store a n B i C s v)
    then obtain bs where bs: "heap_inv bs s" "live bs = B" "holds B C s" using ownedE by blast
    have "heap_inv bs (s \<lparr> ram := (ram s) (i := v) \<rparr>)" using store(1-3) bs(2)
      by (intro heap_inv_write(1) [OF bs(1), of a n]) auto
    then show ?case using bs(2,3) by (intro ownedI) (auto simp: holds_def)
  qed
qed

text \<open>C11: A client that frees and resizes only what it was given, and writes only into its blocks, can
  never damage the heap, and the heap never damages the client's data.  After any sequence of calls and writes its blocks lie inside the
  array and do not overlap, the blocks tile the array with no two free neighbours, every byte of every block is what the client
  last wrote there or, when it has written nothing, what it found when it got the block (bytes move along with a block that
  is moved), and when it has given everything back the heap is again the one free block it started with.\<close>

theorem mem_client_safe:
  assumes "mem_init s0 = Some s" "mem_step\<^sup>*\<^sup>* ({}, C0, s) (B, C, t)"
  shows "\<exists>bs. heap_inv bs t \<and> live bs = B \<and> (B = {} \<longrightarrow> bs = [(1594, False)]) \<and>
    (\<forall>(a, n)\<in>B. a + 6 + n \<le> 1600 \<and> (\<forall>i. a + 6 \<le> i \<and> i < a + 6 + n \<longrightarrow> ram t i = C i) \<and>
      (\<forall>(b, m)\<in>B. (a, n) = (b, m) \<or> a + 6 + n \<le> b \<or> b + 6 + m \<le> a))"
proof -
  have "owned ({}, C0, s)"
    using mem_init_ok [of s0] assms(1) by (auto simp: owned_def live_def holds_def intro!: exI [of _ "[(1594, False)]"])
  then have "owned (B, C, t)" using mem_run.runs_keep [OF assms(2)] by simp
  then obtain bs where bs: "heap_inv bs t" "live bs = B" "holds B C t" by (rule ownedE)
  have e: "span bs = 1600" using bs(1) by (auto simp: heap_inv_def heap_lay_def dest: layout_end)
  have own: "a + 6 + n \<le> 1600 \<and> (\<forall>i. a + 6 \<le> i \<and> i < a + 6 + n \<longrightarrow> ram t i = C i) \<and>
      (\<forall>(b, m)\<in>B. (a, n) = (b, m) \<or> a + 6 + n \<le> b \<or> b + 6 + m \<le> a)" if "(a, n) \<in> B" for a n
    using that placed_bounds [of a n True 0 bs] live_apart [of a n bs] e bs(3)
    by (auto simp: bs(2) [symmetric] holds_def live_def)
  have "\<forall>(a, n)\<in>B. a + 6 + n \<le> 1600 \<and> (\<forall>i. a + 6 \<le> i \<and> i < a + 6 + n \<longrightarrow> ram t i = C i) \<and>
      (\<forall>(b, m)\<in>B. (a, n) = (b, m) \<or> a + 6 + n \<le> b \<or> b + 6 + m \<le> a)"
    by (intro ballI) (simp only: split_paired_all case_prod_conv, rule own)
  then show ?thesis using bs heap_inv_idle [OF bs(1)] by (intro exI [of _ bs] conjI impI) simp_all
qed

text \<open>A run: a block is allocated, its first byte set to 42, a second block is allocated; the byte is still 42.\<close>

theorem mem_client_safe_witness:
  "\<exists>s B C t p bs. mem_init ex_heap = Some s \<and> mem_step\<^sup>*\<^sup>* ({}, ram s, s) (B, C, t) \<and> (p, 20) \<in> B \<and>
    heap_inv bs t \<and> live bs = B \<and> ram t (p + 6) = 42"
proof -
  obtain s where s: "mem_init ex_heap = Some s" "heap_inv [(1594, False)] s" "lfree s = 0" using mem_init_ok by blast
  obtain p t where m: "mem_malloc 20 s = Some (Some p, t)" using malloc_room [of "[]" 1594 s 20] s(2,3) by auto
  obtain a where a: "p = int a + 6" using malloc_owned [OF s(2) m] by auto
  define u C where "u = t \<lparr> ram := (ram t) (a + 6 := 42) \<rparr>" and "C = (fresh (a + 6) 20 (ram t) (ram s)) (a + 6 := 42)"
  have "mem_step ({}, ram s, s) ({(a, 20)}, fresh (a + 6) 20 (ram t) (ram s), t)"
    using mem_step.malloc [OF m, of "{}" "ram s"] by (simp add: a nat_add_distrib)
  moreover have "mem_step ({(a, 20)}, fresh (a + 6) 20 (ram t) (ram s), t) ({(a, 20)}, C, u)"
    unfolding u_def C_def by (rule mem_step.store [of a 20]) simp_all
  ultimately have run: "mem_step\<^sup>*\<^sup>* ({}, ram s, s) ({(a, 20)}, C, u)" by (blast intro: rtranclp.intros)
  then obtain bs where bs: "heap_inv bs u" "live bs = {(a, 20)}" using mem_client_safe [OF s(1) run] by blast
  obtain q v where q: "mem_malloc 30 u = Some (q, v)" using mem_malloc_ok [OF bs(1), of 30] by auto
  show ?thesis
  proof (cases q)
    case None
    have run2: "mem_step\<^sup>*\<^sup>* ({}, ram s, s) ({(a, 20)}, C, v)"
      using run mem_step.full [of 30 u v "{(a, 20)}" C] q None by (simp add: rtranclp.rtrancl_into_rtrancl)
    obtain cs where "heap_inv cs v" "live cs = {(a, 20)}" "ram v (a + 6) = C (a + 6)"
      using mem_client_safe [OF s(1) run2] by auto
    then show ?thesis using s(1) run2 by (intro exI [of _ s] exI [of _ "{(a, 20)}"] exI [of _ C] exI [of _ v] exI [of _ a] exI [of _ cs]) (simp add: C_def)
  next
    case (Some r)
    let ?B = "insert (nat r - 6, 30) {(a, 20)}" and ?C = "fresh (nat r) 30 (ram v) C"
    have run2: "mem_step\<^sup>*\<^sup>* ({}, ram s, s) (?B, ?C, v)"
      using run mem_step.malloc [of 30 u r v "{(a, 20)}" C] q Some by (simp add: rtranclp.rtrancl_into_rtrancl)
    obtain b where b: "r = int b + 6" using malloc_owned [OF bs(1), of 30 q v] q Some by auto
    obtain cs where cs: "heap_inv cs v" "live cs = ?B" "ram v (a + 6) = ?C (a + 6)" "a + 26 \<le> b \<or> b + 36 \<le> a"
      using mem_client_safe [OF s(1) run2] by (auto simp: b nat_add_distrib)
    then have "ram v (a + 6) = 42" by (auto simp: C_def fresh_def b nat_add_distrib)
    then show ?thesis using s(1) run2 cs by (intro exI [of _ s] exI [of _ ?B] exI [of _ ?C] exI [of _ v] exI [of _ a] exI [of _ cs]) simp
  qed
qed

section \<open>The free list out of order\<close>

text \<open>C40: \<open>mem_realloc\<close> does not move \<open>lfree\<close> down to the block it cuts off, so \<open>lfree\<close> is no longer the
  lowest free block: an allocation that would fit into the new free block returns a null pointer.\<close>

theorem mem_realloc_loses:
  assumes inv: "heap_inv (xs @ (n, True) # (m, True) # ys) s" and a: "a = span xs" "a < lfree s"
    and sz: "unat sz + 18 < n" "0 < unat k" "unat k + 12 + unat sz \<le> n"
    and small: "\<forall>(b, j, u)\<in>set (placed (a + 6 + n) ((m, True) # ys)). lfree s \<le> b \<longrightarrow> too_small k (j, u)"
  shows "\<exists>t. mem_realloc (Some (int a + 6)) sz s = Some (Some (int a + 6), t) \<and>
    heap_inv (xs @ (unat sz, True) # (n - unat sz - 6, False) # (m, True) # ys) t \<and>
    mem_malloc k t = Some (None, mem_err t)"
proof -
  let ?c = "xs @ (unat sz, True) # (n - unat sz - 6, False) # (m, True) # ys"
  have e: "span (xs @ (n, True) # (m, True) # ys) = 1600" using inv by (auto simp: heap_inv_def heap_lay_def dest: layout_end)
  obtain j where j: "n = unat sz + 6 + j" using sz(1) le_Suc_ex [of "unat sz + 6" n] by auto
  obtain l where "(lfree s, l, False) \<in> set (placed 0 (xs @ (n, True) # (m, True) # ys))"
    using inv by (auto simp: heap_inv_def free_at_def)
  then have l: "(lfree s, l, False) \<in> set (placed (a + 12 + n + m) ys)"
    using a placed_bounds [of "lfree s" l False 0 xs] by (auto simp: add_ac)
  have free: "lfree s \<in> free_at ?c" using l by (auto simp: free_at_append j a(1) add_ac)
  obtain t where t: "mem_realloc (Some (int a + 6)) sz s = Some (Some (int a + 6), t)" "heap_inv ?c t" "lfree t = lfree s"
    using mem_realloc_shrinks [OF inv a(1) sz(1) refl] free by auto
  have "unat k \<le> 1600" using sz(3) e by simp
  then consider "mem_malloc k t = Some (None, mem_err t)"
    | zs i vs where "?c = zs @ (i, False) # vs" "unat k + 6 \<le> i" "lfree t \<le> span zs"
    using mem_malloc_ok [OF t(2) sz(2)] by blast
  then show ?thesis
  proof cases
    case 1
    then show ?thesis using t by blast
  next
    case 2
    have "(span zs, i, False) \<in> set (placed 0 ?c)" unfolding 2(1) by simp
    then have "(span zs, i, False) \<in> set (placed (a + 6 + n) ((m, True) # ys))"
      using 2(3) t(3) a l placed_bounds [of "span zs" i False 0 xs] placed_bounds [OF l] by (auto simp: j add_ac)
    then show ?thesis using small 2(2,3) t(3) by (auto simp: too_small_def)
  qed
qed


theorem mem_realloc_loses_witness:
  "\<exists>t. mem_realloc (Some 6) 100 ex_heap = Some (Some 6, t) \<and>
    heap_inv [(100, True), (894, False), (500, True), (82, False)] t \<and> mem_malloc 200 t = Some (None, mem_err t)"
  using mem_realloc_loses [of "[]" 1000 500 "[(82, False)]" ex_heap 0 100 200] ex_heap_inv
  by (simp add: ex_heap_def too_small_def)

end
