(* ===== verification/Etharp.thy ===== *)
theory Etharp
  imports Ip_Out
begin

text \<open>
  The address resolution protocol on Ethernet (\<open>src/nsc-0.5.3/lwip-HEAD/src/netif/etharp.c\<close>,
  \<open>include/netif/etharp.h\<close>).  A hardware address is a list of bytes, and a frame a chain of payloads
  whose first pbuf starts with the Ethernet header.  Frames handed to \<open>linkoutput\<close> are recorded.  The
  code that queues more than one packet on an entry is disabled in the source, so a queue is at most
  one packet; it is kept as its bytes where the source keeps a reference to the caller's pbufs.
  Whether an allocation or \<open>pbuf_take\<close> succeeds, what the driver returns, and the bytes of fresh
  memory are arguments.  \<open>None\<close> is an access outside a payload or an address array.
\<close>

definition ARP_TABLE_SIZE :: nat where [cfg_defs]: "ARP_TABLE_SIZE = 10"
definition ARP_MAXAGE :: u8 where [cfg_defs]: "ARP_MAXAGE = 240"
definition ARP_MAXPENDING :: u8 where [cfg_defs]: "ARP_MAXPENDING = 2"
definition HWTYPE_ETHERNET :: u16 where [cfg_defs]: "HWTYPE_ETHERNET = 1"
definition ARP_REQUEST :: u16 where [cfg_defs]: "ARP_REQUEST = 1"
definition ARP_REPLY :: u16 where [cfg_defs]: "ARP_REPLY = 2"
definition ETHTYPE_ARP :: u16 where [cfg_defs]: "ETHTYPE_ARP = 0x0806"
definition ETHTYPE_IP :: u16 where [cfg_defs]: "ETHTYPE_IP = 0x0800"
definition ETHARP_TRY_HARD :: u8 where [cfg_defs]: "ETHARP_TRY_HARD = 1"
definition ERR_ARG :: err_t where [cfg_defs]: "ERR_ARG = -8"

datatype etharp_state = ETHARP_STATE_EMPTY | ETHARP_STATE_PENDING | ETHARP_STATE_STABLE | ETHARP_STATE_EXPIRED

record etharp_entry =
  ae_p :: "u8 list list option"
  ae_ipaddr :: u32
  ae_ethaddr :: "u8 list"
  ae_state :: etharp_state
  ae_ctime :: u8

definition ethbroadcast :: "u8 list" where
  "ethbroadcast = [0xff, 0xff, 0xff, 0xff, 0xff, 0xff]"

text \<open>An interface with its hardware address.\<close>

record ethif =
  eif :: netif
  eif_hwaddr_len :: u8
  eif_hwaddr :: "u8 list"

record ethenv =
  a_ok :: "nat \<Rightarrow> bool"
  a_take :: "nat \<Rightarrow> bool"
  a_link :: "u8 list list \<Rightarrow> err_t"
  a_old :: "u8 list"

record arpstate =
  arp_table :: "etharp_entry list"
  a_frames :: "u8 list list list"
  a_count :: nat

section \<open>The ARP message\<close>

record etharp_hdr =
  ah_dest :: "u8 list"
  ah_src :: "u8 list"
  ah_type :: u16
  ah_hwtype :: u16
  ah_proto :: u16
  ah_hwlen_protolen :: u16
  ah_opcode :: u16
  ah_shwaddr :: "u8 list"
  ah_sipaddr :: u32
  ah_dhwaddr :: "u8 list"
  ah_dipaddr :: u32

definition etharp_bytes :: "etharp_hdr \<Rightarrow> u8 list" where
  "etharp_bytes h = ah_dest h @ ah_src h @ le16 (ah_type h) @ le16 (ah_hwtype h) @ le16 (ah_proto h) @
    le16 (ah_hwlen_protolen h) @ le16 (ah_opcode h) @ ah_shwaddr h @ mem32 (ah_sipaddr h) @ ah_dhwaddr h @ mem32 (ah_dipaddr h)"

definition etharp_hdr_of :: "u8 list \<Rightarrow> etharp_hdr option" where
  "etharp_hdr_of bs =
    (if length bs < 42 then None
     else Some \<lparr> ah_dest = take 6 bs, ah_src = take 6 (drop 6 bs), ah_type = load16_at bs 12, ah_hwtype = load16_at bs 14,
       ah_proto = load16_at bs 16, ah_hwlen_protolen = load16_at bs 18, ah_opcode = load16_at bs 20,
       ah_shwaddr = take 6 (drop 22 bs), ah_sipaddr = load32_at bs 28, ah_dhwaddr = take 6 (drop 32 bs),
       ah_dipaddr = load32_at bs 38 \<rparr>)"

definition ARPH_HWLEN :: "etharp_hdr \<Rightarrow> u16" where
  "ARPH_HWLEN h = drop_bit 8 (ntohs (ah_hwlen_protolen h))"

definition ARPH_PROTOLEN :: "etharp_hdr \<Rightarrow> u16" where
  "ARPH_PROTOLEN h = ntohs (ah_hwlen_protolen h) AND 0xff"

definition ARPH_HWLEN_SET :: "u16 \<Rightarrow> etharp_hdr \<Rightarrow> etharp_hdr" where
  "ARPH_HWLEN_SET n h = h \<lparr> ah_hwlen_protolen := htons (ARPH_PROTOLEN h OR push_bit 8 n) \<rparr>"

definition ARPH_PROTOLEN_SET :: "u16 \<Rightarrow> etharp_hdr \<Rightarrow> etharp_hdr" where
  "ARPH_PROTOLEN_SET n h = h \<lparr> ah_hwlen_protolen := htons (n OR push_bit 8 (ARPH_HWLEN h)) \<rparr>"

text \<open>The loops that copy \<open>hwaddr_len\<close> bytes of an address over another.\<close>

definition copy_hw :: "nat \<Rightarrow> u8 list \<Rightarrow> u8 list \<Rightarrow> u8 list" where
  "copy_hw n src dst = take n src @ drop n dst"

section \<open>The table\<close>

definition etharp_init :: "arpstate \<Rightarrow> arpstate" where
  "etharp_init s = s \<lparr> arp_table :=
    map (\<lambda>e. e \<lparr> ae_state := ETHARP_STATE_EMPTY, ae_p := None, ae_ctime := 0 \<rparr>) (arp_table s) \<rparr>"

definition tmr_entry :: "etharp_entry \<Rightarrow> etharp_entry" where
  "tmr_entry e =
    (let e = e \<lparr> ae_ctime := ae_ctime e + 1 \<rparr>;
         e = (if ae_state e = ETHARP_STATE_STABLE \<and> ae_ctime e \<ge> ARP_MAXAGE then e \<lparr> ae_state := ETHARP_STATE_EXPIRED \<rparr>
              else if ae_state e = ETHARP_STATE_PENDING \<and> ae_ctime e \<ge> ARP_MAXPENDING
              then e \<lparr> ae_state := ETHARP_STATE_EXPIRED \<rparr>
              else e)
     in if ae_state e = ETHARP_STATE_EXPIRED then e \<lparr> ae_p := None, ae_state := ETHARP_STATE_EMPTY \<rparr> else e)"

definition etharp_tmr :: "arpstate \<Rightarrow> arpstate" where
  "etharp_tmr s = s \<lparr> arp_table := map tmr_entry (arp_table s) \<rparr>"

text \<open>The candidates that the sweep of \<open>find_entry\<close> remembers; an index of \<open>ARP_TABLE_SIZE\<close> means that
  there is none.\<close>

record cands =
  c_empty :: nat
  c_pending :: nat
  c_stable :: nat
  c_queue :: nat
  c_age_pending :: u8
  c_age_stable :: u8
  c_age_queue :: u8

definition no_cands :: cands where
  "no_cands = \<lparr> c_empty = ARP_TABLE_SIZE, c_pending = ARP_TABLE_SIZE, c_stable = ARP_TABLE_SIZE, c_queue = ARP_TABLE_SIZE,
     c_age_pending = 0, c_age_stable = 0, c_age_queue = 0 \<rparr>"

definition see_entry :: "nat \<Rightarrow> etharp_entry \<Rightarrow> cands \<Rightarrow> cands" where
  "see_entry i e c =
    (if c_empty c = ARP_TABLE_SIZE \<and> ae_state e = ETHARP_STATE_EMPTY then c \<lparr> c_empty := i \<rparr>
     else if ae_state e = ETHARP_STATE_PENDING then
       (if ae_p e \<noteq> None then
          (if ae_ctime e \<ge> c_age_queue c then c \<lparr> c_queue := i, c_age_queue := ae_ctime e \<rparr> else c)
        else if ae_ctime e \<ge> c_age_pending c then c \<lparr> c_pending := i, c_age_pending := ae_ctime e \<rparr> else c)
     else if ae_state e = ETHARP_STATE_STABLE then
       (if ae_ctime e \<ge> c_age_stable c then c \<lparr> c_stable := i, c_age_stable := ae_ctime e \<rparr> else c)
     else c)"

definition arp_match :: "u32 option \<Rightarrow> etharp_entry \<Rightarrow> bool" where
  "arp_match ip e \<longleftrightarrow> ae_state e \<in> {ETHARP_STATE_PENDING, ETHARP_STATE_STABLE} \<and> ip = Some (ae_ipaddr e)"

fun find_sweep :: "u32 option \<Rightarrow> nat \<Rightarrow> etharp_entry list \<Rightarrow> cands \<Rightarrow> nat + cands" where
  "find_sweep ip i [] c = Inr c"
| "find_sweep ip i (e # es) c = (if arp_match ip e then Inl i else find_sweep ip (i + 1) es (see_entry i e c))"

text \<open>The entry is made empty for the caller, without its old queue.\<close>

definition recycle :: "u32 option \<Rightarrow> nat \<Rightarrow> bool \<Rightarrow> etharp_entry list \<Rightarrow> etharp_entry list" where
  "recycle ip i clear tab =
    (let e = tab ! i;
         e = (if clear then e \<lparr> ae_p := None \<rparr> else e);
         e = e \<lparr> ae_state := ETHARP_STATE_EMPTY \<rparr>;
         e = (case ip of None \<Rightarrow> e | Some a \<Rightarrow> e \<lparr> ae_ipaddr := a \<rparr>)
     in tab[i := e \<lparr> ae_ctime := 0 \<rparr>])"

text \<open>The index of the entry, or nothing for \<open>ERR_MEM\<close>.\<close>

definition find_entry :: "u32 option \<Rightarrow> u8 \<Rightarrow> etharp_entry list \<Rightarrow> nat option \<times> etharp_entry list" where
  "find_entry ip flgs tab =
    (case find_sweep ip 0 tab no_cands of
       Inl i \<Rightarrow> (Some i, tab)
     | Inr c \<Rightarrow>
         if c_empty c = ARP_TABLE_SIZE \<and> flgs AND ETHARP_TRY_HARD = 0 then (None, tab)
         else if c_empty c < ARP_TABLE_SIZE then (Some (c_empty c), recycle ip (c_empty c) False tab)
         else if c_stable c < ARP_TABLE_SIZE then (Some (c_stable c), recycle ip (c_stable c) False tab)
         else if c_pending c < ARP_TABLE_SIZE then (Some (c_pending c), recycle ip (c_pending c) False tab)
         else if c_queue c < ARP_TABLE_SIZE then (Some (c_queue c), recycle ip (c_queue c) True tab)
         else (None, tab))"

section \<open>Sending and receiving\<close>

text \<open>Filling in the Ethernet header of an IP packet.\<close>

definition eth_fill :: "ethif \<Rightarrow> u8 list \<Rightarrow> u8 list list \<Rightarrow> u8 list list option" where
  "eth_fill nif dest c =
    (case c of
       [] \<Rightarrow> None
     | q # qs \<Rightarrow>
         let n = unat (eif_hwaddr_len nif)
         in if length q < 14 \<or> 6 < n \<or> length dest < n \<or> length (eif_hwaddr nif) < n then None
            else Some ((copy_hw n dest (take 6 q) @ copy_hw n (eif_hwaddr nif) (take 6 (drop 6 q)) @
                        le16 (htons ETHTYPE_IP) @ drop 14 q) # qs))"

definition link_out :: "u8 list list \<Rightarrow> arpstate \<Rightarrow> arpstate" where
  "link_out c s = s \<lparr> a_frames := a_frames s @ [c] \<rparr>"

definition set_entry :: "nat \<Rightarrow> (etharp_entry \<Rightarrow> etharp_entry) \<Rightarrow> arpstate \<Rightarrow> arpstate" where
  "set_entry i f s = s \<lparr> arp_table := (arp_table s)[i := f (arp_table s ! i)] \<rparr>"

definition arp_unicast :: "u32 \<Rightarrow> ethif \<Rightarrow> bool" where
  "arp_unicast ip nif \<longleftrightarrow> ip \<noteq> ip_addr_any \<and> \<not> ip_addr_isbroadcast ip (eif nif) \<and> \<not> ip_addr_ismulticast ip"

definition update_arp_entry :: "ethif \<Rightarrow> u32 \<Rightarrow> u8 list \<Rightarrow> u8 \<Rightarrow> arpstate \<Rightarrow> (err_t \<times> arpstate) option" where
  "update_arp_entry nif ip hw flgs s =
    (if \<not> arp_unicast ip nif then Some (ERR_ARG, s)
     else
       case find_entry (Some ip) flgs (arp_table s) of
         (None, tab) \<Rightarrow> Some (ERR_MEM, s \<lparr> arp_table := tab \<rparr>)
       | (Some i, tab) \<Rightarrow>
           let n = unat (eif_hwaddr_len nif); s = s \<lparr> arp_table := tab \<rparr>
           in if 6 < n \<or> length hw < n then None
              else do {
                let s = set_entry i (\<lambda>e. e \<lparr> ae_state := ETHARP_STATE_STABLE, ae_ethaddr := copy_hw n hw (ae_ethaddr e),
                                            ae_ctime := 0 \<rparr>) s;
                case ae_p (arp_table s ! i) of
                  None \<Rightarrow> Some (ERR_OK, s)
                | Some c \<Rightarrow> do {
                    c \<leftarrow> eth_fill nif hw c;
                    Some (ERR_OK, link_out c (set_entry i (\<lambda>e. e \<lparr> ae_p := None \<rparr>) s))
                  }
              })"

text \<open>The source address is at offset 26 of the frame.\<close>

definition etharp_ip_input :: "ethif \<Rightarrow> u8 list list \<Rightarrow> arpstate \<Rightarrow> arpstate option" where
  "etharp_ip_input nif p s = do {
     q \<leftarrow> (case p of [] \<Rightarrow> None | q # _ \<Rightarrow> Some q);
     if length q < 30 then None
     else if \<not> ip_addr_netcmp (load32_at q 26) (nif_ip_addr (eif nif)) (nif_netmask (eif nif)) then Some s
     else do {
       (_, s) \<leftarrow> update_arp_entry nif (load32_at q 26) (take 6 (drop 6 q)) 0 s;
       Some s
     }
   }"

text \<open>The reply made out of a request.\<close>

definition arp_reply :: "ethif \<Rightarrow> u8 list \<Rightarrow> etharp_hdr \<Rightarrow> etharp_hdr" where
  "arp_reply nif hw h =
    (let n = unat (eif_hwaddr_len nif);
         h = h \<lparr> ah_opcode := htons ARP_REPLY \<rparr>;
         h = h \<lparr> ah_dipaddr := ah_sipaddr h \<rparr>;
         h = h \<lparr> ah_sipaddr := nif_ip_addr (eif nif) \<rparr>;
         h = h \<lparr> ah_dhwaddr := copy_hw n (ah_shwaddr h) (ah_dhwaddr h) \<rparr>;
         h = h \<lparr> ah_shwaddr := copy_hw n hw (ah_shwaddr h) \<rparr>;
         h = h \<lparr> ah_dest := copy_hw n (ah_dhwaddr h) (ah_dest h), ah_src := copy_hw n hw (ah_src h) \<rparr>;
         h = h \<lparr> ah_hwtype := htons HWTYPE_ETHERNET \<rparr>;
         h = ARPH_HWLEN_SET (ucast (eif_hwaddr_len nif)) h;
         h = h \<lparr> ah_proto := htons ETHTYPE_IP \<rparr>;
         h = ARPH_PROTOLEN_SET 4 h
     in h \<lparr> ah_type := htons ETHTYPE_ARP \<rparr>)"

definition etharp_arp_input :: "ethif \<Rightarrow> u8 list \<Rightarrow> u8 list list \<Rightarrow> arpstate \<Rightarrow> arpstate option" where
  "etharp_arp_input nif hw p s =
    (if length (concat p) < 42 then Some s
     else do {
       h \<leftarrow> (case p of [] \<Rightarrow> None | q # _ \<Rightarrow> etharp_hdr_of q);
       let for_us = (nif_ip_addr (eif nif) \<noteq> 0 \<and> ah_dipaddr h = nif_ip_addr (eif nif));
       (_, s) \<leftarrow> update_arp_entry nif (ah_sipaddr h) (ah_shwaddr h) (if for_us then ETHARP_TRY_HARD else 0) s;
       if htons (ah_opcode h) = ARP_REQUEST \<and> for_us then
         (if 6 < unat (eif_hwaddr_len nif) \<or> length hw < unat (eif_hwaddr_len nif) then None
          else Some (link_out ((etharp_bytes (arp_reply nif hw h) @ drop 42 (hd p)) # tl p) s))
       else Some s
     })"

text \<open>The request, built in fresh memory.\<close>

definition arp_request_hdr :: "ethif \<Rightarrow> u32 \<Rightarrow> etharp_hdr \<Rightarrow> etharp_hdr" where
  "arp_request_hdr nif ip h =
    (let n = unat (eif_hwaddr_len nif);
         h = h \<lparr> ah_opcode := htons ARP_REQUEST \<rparr>;
         h = h \<lparr> ah_shwaddr := copy_hw n (eif_hwaddr nif) (ah_shwaddr h), ah_dhwaddr := copy_hw n (replicate 6 0) (ah_dhwaddr h) \<rparr>;
         h = h \<lparr> ah_dipaddr := ip \<rparr>;
         h = h \<lparr> ah_sipaddr := nif_ip_addr (eif nif) \<rparr>;
         h = h \<lparr> ah_hwtype := htons HWTYPE_ETHERNET \<rparr>;
         h = ARPH_HWLEN_SET (ucast (eif_hwaddr_len nif)) h;
         h = h \<lparr> ah_proto := htons ETHTYPE_IP \<rparr>;
         h = ARPH_PROTOLEN_SET 4 h;
         h = h \<lparr> ah_dest := copy_hw n (replicate 6 0xff) (ah_dest h), ah_src := copy_hw n (eif_hwaddr nif) (ah_src h) \<rparr>
     in h \<lparr> ah_type := htons ETHTYPE_ARP \<rparr>)"

definition etharp_request :: "ethenv \<Rightarrow> ethif \<Rightarrow> u32 \<Rightarrow> arpstate \<Rightarrow> (err_t \<times> arpstate) option" where
  "etharp_request env nif ip s = do {
     let ok = a_ok env (a_count s);
     let s = s \<lparr> a_count := a_count s + 1 \<rparr>;
     if \<not> ok then Some (ERR_MEM, s)
     else do {
       h \<leftarrow> etharp_hdr_of (take 42 (a_old env));
       if 6 < unat (eif_hwaddr_len nif) \<or> length (eif_hwaddr nif) < unat (eif_hwaddr_len nif) then None
       else do {
         let c = [etharp_bytes (arp_request_hdr nif ip h)];
         Some (a_link env c, link_out c s)
       }
     }
   }"

definition etharp_query :: "ethenv \<Rightarrow> ethif \<Rightarrow> u32 \<Rightarrow> u8 list list option \<Rightarrow> arpstate \<Rightarrow> (err_t \<times> arpstate) option" where
  "etharp_query env nif ip q s =
    (if \<not> arp_unicast ip nif then Some (ERR_ARG, s)
     else
       case find_entry (Some ip) ETHARP_TRY_HARD (arp_table s) of
         (None, tab) \<Rightarrow> Some (ERR_MEM, s \<lparr> arp_table := tab \<rparr>)
       | (Some i, tab) \<Rightarrow> do {
           let s = s \<lparr> arp_table := tab \<rparr>;
           let s = (if ae_state (arp_table s ! i) = ETHARP_STATE_EMPTY
                    then set_entry i (\<lambda>e. e \<lparr> ae_state := ETHARP_STATE_PENDING \<rparr>) s else s);
           (err, s) \<leftarrow> (if ae_state (arp_table s ! i) = ETHARP_STATE_PENDING \<or> q = None then etharp_request env nif ip s
                         else Some (ERR_MEM, s));
           (case q of
              None \<Rightarrow> Some (err, s)
            | Some c \<Rightarrow>
                if ae_state (arp_table s ! i) = ETHARP_STATE_STABLE then do {
                  c \<leftarrow> eth_fill nif (ae_ethaddr (arp_table s ! i)) c;
                  Some (a_link env c, link_out c s)
                }
                else if ae_state (arp_table s ! i) = ETHARP_STATE_PENDING then do {
                  let ok = a_take env (a_count s);
                  let s = s \<lparr> a_count := a_count s + 1 \<rparr>;
                  if \<not> ok then Some (err, s)
                  else if ae_p (arp_table s ! i) = None
                  then Some (ERR_OK, set_entry i (\<lambda>e. e \<lparr> ae_p := Some c \<rparr>) s)
                  else Some (ERR_OK, s)
                }
                else Some (err, s))
         })"

definition mcast_hw :: "u32 \<Rightarrow> u8 list" where
  "mcast_hw ip = [0x01, 0x00, 0x5e, ucast (drop_bit 16 (ntohl ip)) AND 0x7f, ucast (drop_bit 8 (ntohl ip)), ucast (ntohl ip)]"

definition etharp_output :: "ethenv \<Rightarrow> ethif \<Rightarrow> u32 \<Rightarrow> pkt \<Rightarrow> arpstate \<Rightarrow> (err_t \<times> arpstate) option" where
  "etharp_output env nif ip q s =
    (case pk_header 14 q of
       None \<Rightarrow> Some (ERR_BUF, s)
     | Some q \<Rightarrow>
         if ip_addr_isbroadcast ip (eif nif) \<or> ip_addr_ismulticast ip then do {
           c \<leftarrow> eth_fill nif (if ip_addr_isbroadcast ip (eif nif) then ethbroadcast else mcast_hw ip) (pk_chain q);
           Some (a_link env c, link_out c s)
         }
         else if ip_addr_netcmp ip (nif_ip_addr (eif nif)) (nif_netmask (eif nif))
         then etharp_query env nif ip (Some (pk_chain q)) s
         else if nif_gw (eif nif) \<noteq> 0 then etharp_query env nif (nif_gw (eif nif)) (Some (pk_chain q)) s
         else Some (ERR_RTE, s))"

section \<open>The message in memory\<close>

definition hw_ok :: "etharp_hdr \<Rightarrow> bool" where
  "hw_ok h \<longleftrightarrow> length (ah_dest h) = 6 \<and> length (ah_src h) = 6 \<and> length (ah_shwaddr h) = 6 \<and> length (ah_dhwaddr h) = 6"

lemma length_etharp_bytes: "hw_ok h \<Longrightarrow> length (etharp_bytes h) = 42"
  by (simp add: etharp_bytes_def hw_ok_def le16_def mem32_def)

lemma etharp_roundtrip: "hw_ok h \<Longrightarrow> etharp_hdr_of (etharp_bytes h @ bs) = Some h"
  unfolding etharp_hdr_of_def
  by (cases h) (simp add: etharp_bytes_def hw_ok_def le16_def mem32_def load16_at_def load32_at_def nth_append)

lemma etharp_hdr_of_hw: "etharp_hdr_of bs = Some h \<Longrightarrow> hw_ok h"
  by (auto simp: etharp_hdr_of_def hw_ok_def split: if_splits)

end
