(* ===== verification/Etharp_Table.thy ===== *)
theory Etharp_Table
  imports Etharp
begin

text \<open>
  The ARP table: what \<open>find_entry\<close> chooses, and the invariant of the table, which every operation
  keeps: no two active entries for one address, packets wait only on pending entries, and no entry
  outlives its age limit.
\<close>

section \<open>The sweep\<close>

text \<open>The oldest entry with a property, in the encoding of the sweep.\<close>

definition oldest :: "(etharp_entry \<Rightarrow> bool) \<Rightarrow> etharp_entry list \<Rightarrow> nat \<Rightarrow> u8 \<Rightarrow> bool" where
  "oldest P es k age \<longleftrightarrow>
    (k = ARP_TABLE_SIZE \<and> age = 0 \<and> (\<forall>e\<in>set es. \<not> P e)) \<or>
    (k < length es \<and> P (es ! k) \<and> age = ae_ctime (es ! k) \<and> (\<forall>e\<in>set es. P e \<longrightarrow> ae_ctime e \<le> age))"

definition is_stable :: "etharp_entry \<Rightarrow> bool" where
  "is_stable e \<longleftrightarrow> ae_state e = ETHARP_STATE_STABLE"

definition is_idle :: "etharp_entry \<Rightarrow> bool" where
  "is_idle e \<longleftrightarrow> ae_state e = ETHARP_STATE_PENDING \<and> ae_p e = None"

definition is_waiting :: "etharp_entry \<Rightarrow> bool" where
  "is_waiting e \<longleftrightarrow> ae_state e = ETHARP_STATE_PENDING \<and> ae_p e \<noteq> None"

definition first_empty :: "etharp_entry list \<Rightarrow> nat \<Rightarrow> bool" where
  "first_empty es k \<longleftrightarrow>
    (k = ARP_TABLE_SIZE \<and> (\<forall>e\<in>set es. ae_state e \<noteq> ETHARP_STATE_EMPTY)) \<or>
    (k < length es \<and> ae_state (es ! k) = ETHARP_STATE_EMPTY)"

definition cands_ok :: "etharp_entry list \<Rightarrow> cands \<Rightarrow> bool" where
  "cands_ok es c \<longleftrightarrow> first_empty es (c_empty c) \<and> oldest is_stable es (c_stable c) (c_age_stable c) \<and>
    oldest is_idle es (c_pending c) (c_age_pending c) \<and> oldest is_waiting es (c_queue c) (c_age_queue c)"

lemma oldest_skip: "oldest P es k age \<Longrightarrow> \<not> P e \<or> (ae_ctime e < age) \<Longrightarrow> oldest P (es @ [e]) k age"
  by (auto simp: oldest_def nth_append)

lemma oldest_take: "oldest P es k age \<Longrightarrow> P e \<Longrightarrow> ae_ctime e \<ge> age \<Longrightarrow> oldest P (es @ [e]) (length es) (ae_ctime e)"
  by (auto simp: oldest_def intro: order_trans)

lemma first_empty_skip: "first_empty es k \<Longrightarrow> k \<noteq> ARP_TABLE_SIZE \<or> ae_state e \<noteq> ETHARP_STATE_EMPTY \<Longrightarrow> first_empty (es @ [e]) k"
  by (auto simp: first_empty_def nth_append)

lemma see_entry_ok:
  assumes "cands_ok es c" "length es < ARP_TABLE_SIZE"
  shows "cands_ok (es @ [e]) (see_entry (length es) e c)"
proof -
  have f: "first_empty es (c_empty c)" and s: "oldest is_stable es (c_stable c) (c_age_stable c)"
    and p: "oldest is_idle es (c_pending c) (c_age_pending c)" and q: "oldest is_waiting es (c_queue c) (c_age_queue c)"
    using assms(1) by (simp_all add: cands_ok_def)
  note skips = oldest_skip [OF s] oldest_skip [OF p] oldest_skip [OF q] first_empty_skip [OF f]
  note takes = oldest_take [OF s] oldest_take [OF p] oldest_take [OF q]
  show ?thesis
  proof (cases "ae_state e")
    case ETHARP_STATE_EMPTY
    moreover have "first_empty (es @ [e]) (length es)" using ETHARP_STATE_EMPTY by (simp add: first_empty_def)
    ultimately show ?thesis using skips by (auto simp: cands_ok_def see_entry_def is_stable_def is_idle_def is_waiting_def)
  next
    case ETHARP_STATE_PENDING
    then show ?thesis using skips takes
      by (cases "ae_p e") (auto simp: cands_ok_def see_entry_def is_stable_def is_idle_def is_waiting_def not_le)
  next
    case ETHARP_STATE_STABLE
    then show ?thesis using skips takes
      by (auto simp: cands_ok_def see_entry_def is_stable_def is_idle_def is_waiting_def not_le)
  next
    case ETHARP_STATE_EXPIRED
    then show ?thesis using skips by (auto simp: cands_ok_def see_entry_def is_stable_def is_idle_def is_waiting_def)
  qed
qed

lemma find_sweep_ok:
  assumes "cands_ok xs c" "length xs + length es \<le> ARP_TABLE_SIZE" "\<forall>e\<in>set xs. \<not> arp_match ip e"
  shows "case find_sweep ip (length xs) es c of
      Inl i \<Rightarrow> i < length (xs @ es) \<and> arp_match ip ((xs @ es) ! i)
    | Inr c \<Rightarrow> cands_ok (xs @ es) c \<and> (\<forall>e\<in>set (xs @ es). \<not> arp_match ip e)"
  using assms
proof (induction es arbitrary: xs c)
  case (Cons e es)
  show ?case
  proof (cases "arp_match ip e")
    case False
    then have "cands_ok (xs @ [e]) (see_entry (length xs) e c)" using Cons.prems by (intro see_entry_ok) auto
    from Cons.IH [OF this] show ?thesis using Cons.prems False by (simp split: sum.splits)
  qed simp
qed simp

lemma no_cands_ok: "cands_ok [] no_cands"
  by (simp add: cands_ok_def no_cands_def first_empty_def oldest_def)

text \<open>The entry made for an address.\<close>

definition fresh_entry :: "u32 \<Rightarrow> etharp_entry \<Rightarrow> etharp_entry" where
  "fresh_entry ip e = e \<lparr> ae_p := (if is_waiting e then None else ae_p e), ae_state := ETHARP_STATE_EMPTY, ae_ipaddr := ip,
     ae_ctime := 0 \<rparr>"

text \<open>What may be thrown out: an empty entry if there is one, else the oldest stable one, else the
  oldest pending one without a packet, else the oldest pending one.\<close>

definition expendable :: "etharp_entry list \<Rightarrow> nat \<Rightarrow> bool" where
  "expendable tab i \<longleftrightarrow>
    ae_state (tab ! i) = ETHARP_STATE_EMPTY \<or>
    (\<forall>e\<in>set tab. ae_state e \<noteq> ETHARP_STATE_EMPTY) \<and>
    (if \<exists>e\<in>set tab. is_stable e then is_stable (tab ! i) \<and> (\<forall>e\<in>set tab. is_stable e \<longrightarrow> ae_ctime e \<le> ae_ctime (tab ! i))
     else if \<exists>e\<in>set tab. is_idle e then is_idle (tab ! i) \<and> (\<forall>e\<in>set tab. is_idle e \<longrightarrow> ae_ctime e \<le> ae_ctime (tab ! i))
     else is_waiting (tab ! i) \<and> (\<forall>e\<in>set tab. is_waiting e \<longrightarrow> ae_ctime e \<le> ae_ctime (tab ! i)))"

lemma find_entry_cases:
  assumes "length tab = ARP_TABLE_SIZE" "\<forall>e\<in>set tab. ae_state e \<noteq> ETHARP_STATE_EXPIRED"
  obtains (match) i where "i < length tab" "arp_match (Some ip) (tab ! i)" "find_entry (Some ip) fl tab = (Some i, tab)"
  | (full) "\<forall>e\<in>set tab. \<not> arp_match (Some ip) e" "\<forall>e\<in>set tab. ae_state e \<noteq> ETHARP_STATE_EMPTY" "fl AND ETHARP_TRY_HARD = 0"
      "find_entry (Some ip) fl tab = (None, tab)"
  | (fresh) i where "i < length tab" "\<forall>e\<in>set tab. \<not> arp_match (Some ip) e" "expendable tab i"
      "fl AND ETHARP_TRY_HARD \<noteq> 0 \<or> ae_state (tab ! i) = ETHARP_STATE_EMPTY"
      "find_entry (Some ip) fl tab = (Some i, tab[i := fresh_entry ip (tab ! i)])"
proof (cases "find_sweep (Some ip) 0 tab no_cands")
  case (Inl i)
  then show thesis using find_sweep_ok [OF no_cands_ok, of tab "Some ip"] assms(1) match [of i] by (simp add: find_entry_def)
next
  case (Inr c)
  then have c: "cands_ok tab c" and no: "\<forall>e\<in>set tab. \<not> arp_match (Some ip) e"
    using find_sweep_ok [OF no_cands_ok, of tab "Some ip"] assms(1) by simp_all
  have f: "first_empty tab (c_empty c)" and s: "oldest is_stable tab (c_stable c) (c_age_stable c)"
    and p: "oldest is_idle tab (c_pending c) (c_age_pending c)" and q: "oldest is_waiting tab (c_queue c) (c_age_queue c)"
    using c by (simp_all add: cands_ok_def)
  have rec: "recycle (Some ip) i (is_waiting (tab ! i)) tab = tab[i := fresh_entry ip (tab ! i)]" for i
    by (simp add: recycle_def fresh_entry_def Let_def)
  have kinds: "ae_state e = ETHARP_STATE_EMPTY \<or> is_stable e \<or> is_idle e \<or> is_waiting e" if "e \<in> set tab" for e
    using that assms(2) by (cases "ae_state e") (auto simp: is_stable_def is_idle_def is_waiting_def)
  consider (empty) "c_empty c < length tab" | (none) "c_empty c = ARP_TABLE_SIZE" using f assms(1) by (auto simp: first_empty_def)
  then show thesis
  proof cases
    case empty
    then have e: "ae_state (tab ! c_empty c) = ETHARP_STATE_EMPTY" using f assms(1) by (auto simp: first_empty_def)
    then have w: "\<not> is_waiting (tab ! c_empty c)" by (simp add: is_waiting_def)
    show thesis using rec [of "c_empty c"] w e empty Inr no assms(1)
      by (intro fresh [of "c_empty c"]) (auto simp: find_entry_def expendable_def)
  next
    case none
    then have ne: "\<forall>e\<in>set tab. ae_state e \<noteq> ETHARP_STATE_EMPTY" using f assms(1) by (auto simp: first_empty_def)
    show thesis
    proof (cases "fl AND ETHARP_TRY_HARD = 0")
      case True
      then show thesis using none ne no Inr by (intro full) (simp_all add: find_entry_def)
    next
      case hard: False
      consider (st) "c_stable c < length tab" | (pe) "c_stable c = ARP_TABLE_SIZE" "c_pending c < length tab"
        | (qu) "c_stable c = ARP_TABLE_SIZE" "c_pending c = ARP_TABLE_SIZE" "c_queue c < length tab"
        | (no) "c_stable c = ARP_TABLE_SIZE" "c_pending c = ARP_TABLE_SIZE" "c_queue c = ARP_TABLE_SIZE"
        using s p q assms(1) unfolding oldest_def by force
      then show thesis
      proof cases
        case st
        then have "is_stable (tab ! c_stable c)" "\<forall>e\<in>set tab. is_stable e \<longrightarrow> ae_ctime e \<le> ae_ctime (tab ! c_stable c)"
          using s assms(1) by (auto simp: oldest_def)
        moreover from this have "\<not> is_waiting (tab ! c_stable c)" by (simp add: is_stable_def is_waiting_def)
        ultimately show thesis using rec [of "c_stable c"] st ne none hard no Inr assms(1)
          by (intro fresh [of "c_stable c"]) (auto simp: find_entry_def expendable_def)
      next
        case pe
        then have "is_idle (tab ! c_pending c)" "\<forall>e\<in>set tab. is_idle e \<longrightarrow> ae_ctime e \<le> ae_ctime (tab ! c_pending c)"
          "\<forall>e\<in>set tab. \<not> is_stable e" using s p assms(1) by (auto simp: oldest_def)
        moreover from this have "\<not> is_waiting (tab ! c_pending c)" by (simp add: is_idle_def is_waiting_def)
        ultimately show thesis using rec [of "c_pending c"] pe ne none hard no Inr assms(1)
          by (intro fresh [of "c_pending c"]) (auto simp: find_entry_def expendable_def)
      next
        case qu
        then have "is_waiting (tab ! c_queue c)" "\<forall>e\<in>set tab. is_waiting e \<longrightarrow> ae_ctime e \<le> ae_ctime (tab ! c_queue c)"
          "\<forall>e\<in>set tab. \<not> is_stable e" "\<forall>e\<in>set tab. \<not> is_idle e" using s p q assms(1) by (auto simp: oldest_def)
        then show thesis using rec [of "c_queue c"] qu ne none hard no Inr assms(1)
          by (intro fresh [of "c_queue c"]) (auto simp: find_entry_def expendable_def)
      next
        case no
        then have "\<forall>e\<in>set tab. \<not> is_stable e \<and> \<not> is_idle e \<and> \<not> is_waiting e" using s p q assms(1) by (auto simp: oldest_def)
        then have "tab = []" using kinds ne by (cases tab) auto
        then show thesis using assms(1) by (simp add: ARP_TABLE_SIZE_def)
      qed
    qed
  qed
qed


section \<open>The invariant\<close>

definition active :: "etharp_entry \<Rightarrow> bool" where
  "active e \<longleftrightarrow> ae_state e = ETHARP_STATE_PENDING \<or> ae_state e = ETHARP_STATE_STABLE"

definition entry_ok :: "etharp_entry \<Rightarrow> bool" where
  "entry_ok e \<longleftrightarrow> ae_state e \<noteq> ETHARP_STATE_EXPIRED \<and> (ae_p e \<noteq> None \<longrightarrow> ae_state e = ETHARP_STATE_PENDING) \<and>
    (ae_state e = ETHARP_STATE_STABLE \<longrightarrow> ae_ctime e < ARP_MAXAGE) \<and>
    (ae_state e = ETHARP_STATE_PENDING \<longrightarrow> ae_ctime e < ARP_MAXPENDING) \<and> length (ae_ethaddr e) = 6"

definition arp_inv :: "etharp_entry list \<Rightarrow> bool" where
  "arp_inv tab \<longleftrightarrow> length tab = ARP_TABLE_SIZE \<and> (\<forall>e\<in>set tab. entry_ok e) \<and>
    (\<forall>i<length tab. \<forall>j<length tab. i \<noteq> j \<and> active (tab ! i) \<and> active (tab ! j) \<longrightarrow> ae_ipaddr (tab ! i) \<noteq> ae_ipaddr (tab ! j))"

lemma arp_match_active: "arp_match (Some ip) e \<longleftrightarrow> active e \<and> ae_ipaddr e = ip"
  by (auto simp: arp_match_def active_def)

lemma arp_invD:
  assumes "arp_inv tab"
  shows "length tab = ARP_TABLE_SIZE" "\<forall>e\<in>set tab. ae_state e \<noteq> ETHARP_STATE_EXPIRED" "e \<in> set tab \<Longrightarrow> entry_ok e"
    "i < length tab \<Longrightarrow> entry_ok (tab ! i)"
  using assms by (auto simp: arp_inv_def entry_ok_def)

lemma arp_inv_update:
  assumes "arp_inv tab" "entry_ok e"
    and "\<And>j. active e \<Longrightarrow> j < length tab \<Longrightarrow> j \<noteq> i \<Longrightarrow> active (tab ! j) \<Longrightarrow> ae_ipaddr (tab ! j) \<noteq> ae_ipaddr e"
  shows "arp_inv (tab[i := e])"
proof -
  have "ae_ipaddr (tab[i := e] ! k) \<noteq> ae_ipaddr (tab[i := e] ! j)"
    if "k < length tab" "j < length tab" "k \<noteq> j" "active (tab[i := e] ! k)" "active (tab[i := e] ! j)" for k j
    using that assms(1) assms(3) [of j] assms(3) [of k]
    by (cases "k = i"; cases "j = i") (auto simp: arp_inv_def dest!: not_sym)
  then show ?thesis using assms(1,2) by (auto simp: arp_inv_def dest!: set_update_subset_insert [THEN subsetD])
qed

text \<open>Where an address is after \<open>find_entry\<close>, on a table with the invariant.\<close>

definition place :: "u32 \<Rightarrow> etharp_entry list \<Rightarrow> nat \<Rightarrow> etharp_entry \<Rightarrow> bool" where
  "place ip tab i e \<longleftrightarrow> i < length tab \<and> ae_ipaddr e = ip \<and>
    (arp_match (Some ip) (tab ! i) \<and> e = tab ! i \<or>
     (\<forall>x\<in>set tab. \<not> arp_match (Some ip) x) \<and> e = (tab ! i) \<lparr> ae_p := None, ae_state := ETHARP_STATE_EMPTY, ae_ipaddr := ip, ae_ctime := 0 \<rparr>)"

lemma fresh_entry_ok: "entry_ok e \<Longrightarrow> fresh_entry ip e = e \<lparr> ae_p := None, ae_state := ETHARP_STATE_EMPTY, ae_ipaddr := ip, ae_ctime := 0 \<rparr>"
  by (cases e) (auto simp: fresh_entry_def entry_ok_def is_waiting_def)

lemma place_entry:
  assumes "arp_inv tab" "place ip tab i e"
  shows "i < length tab" "ae_ipaddr e = ip" "entry_ok e" "ae_ethaddr e = ae_ethaddr (tab ! i)"
    "ae_state e = ETHARP_STATE_EMPTY \<and> ae_ctime e = 0 \<and> ae_p e = None \<or> active e"
proof -
  have ok: "entry_ok (tab ! i)" if "i < length tab" using arp_invD(4) [OF assms(1) that] .
  show "i < length tab" "ae_ipaddr e = ip" using assms(2) by (simp_all add: place_def)
  then consider "arp_match (Some ip) (tab ! i)" "e = tab ! i"
    | "e = (tab ! i) \<lparr> ae_p := None, ae_state := ETHARP_STATE_EMPTY, ae_ipaddr := ip, ae_ctime := 0 \<rparr>"
    using assms(2) by (auto simp: place_def)
  then show "entry_ok e" "ae_ethaddr e = ae_ethaddr (tab ! i)"
    "ae_state e = ETHARP_STATE_EMPTY \<and> ae_ctime e = 0 \<and> ae_p e = None \<or> active e"
    using ok \<open>i < length tab\<close> by (cases; simp add: entry_ok_def arp_match_active)+
qed

lemma place_others:
  assumes "arp_inv tab" "place ip tab i e" "j < length tab" "j \<noteq> i" "active (tab ! j)"
  shows "ae_ipaddr (tab ! j) \<noteq> ip"
  using assms by (auto simp: place_def arp_inv_def arp_match_active)

lemma place_update:
  assumes "arp_inv tab" "place ip tab i e" "entry_ok e'" "ae_ipaddr e' = ip"
  shows "arp_inv (tab[i := e'])"
  using place_others [OF assms(1,2)] assms by (intro arp_inv_update) auto

lemma find_entry_place:
  assumes "arp_inv tab"
  shows "(\<exists>i e. find_entry (Some ip) fl tab = (Some i, tab[i := e]) \<and> place ip tab i e) \<or> find_entry (Some ip) fl tab = (None, tab)"
proof -
  note inv = arp_invD [OF assms]
  show ?thesis
  proof (cases rule: find_entry_cases [OF inv(1,2), where ip = ip and fl = fl, case_names match full fresh])
    case (match i)
    then show ?thesis by (intro disjI1 exI [of _ i] exI [of _ "tab ! i"]) (auto simp: place_def arp_match_active)
  next
    case (fresh i)
    then show ?thesis using fresh_entry_ok [OF inv(4)] by (intro disjI1 exI [of _ i]) (auto simp: place_def)
  qed simp
qed

end
