(* ===== verification/Etharp_Props.thy ===== *)
theory Etharp_Props
  imports Etharp_Table
begin

text \<open>
  The properties of ARP: the operations keep the table well formed, addresses get resolved and the
  waiting packet is sent, entries age away, and where the code differs from its description.
\<close>

section \<open>The operations keep the invariant\<close>

lemma copy_hw_length: "n \<le> 6 \<Longrightarrow> n \<le> length src \<Longrightarrow> length dst = 6 \<Longrightarrow> length (copy_hw n src dst) = 6"
  by (simp add: copy_hw_def)

lemma copy_hw_all: "length src = 6 \<Longrightarrow> length dst = 6 \<Longrightarrow> copy_hw 6 src dst = src"
  by (simp add: copy_hw_def)

lemma set_entry_table: "arp_table (set_entry i f s) = (arp_table s)[i := f (arp_table s ! i)]"
  by (simp add: set_entry_def)

lemma link_out_table [simp]: "arp_table (link_out c s) = arp_table s"
  by (simp add: link_out_def)

definition stable_entry :: "u8 list \<Rightarrow> etharp_entry \<Rightarrow> etharp_entry" where
  "stable_entry hw e = e \<lparr> ae_state := ETHARP_STATE_STABLE, ae_ethaddr := hw, ae_ctime := 0, ae_p := None \<rparr>"

lemma stable_entry_idle: "ae_p e = None \<Longrightarrow> e \<lparr> ae_state := ETHARP_STATE_STABLE, ae_ethaddr := hw, ae_ctime := 0 \<rparr> = stable_entry hw e"
  by (cases e) (simp add: stable_entry_def)

lemma stable_entry_queue:
  "e \<lparr> ae_state := ETHARP_STATE_STABLE, ae_ethaddr := hw, ae_ctime := 0, ae_p := None \<rparr> = stable_entry hw e"
  by (simp add: stable_entry_def)

text \<open>The table after an update: one entry has become stable, or nothing has changed.\<close>

lemma update_arp_table:
  assumes inv: "arp_inv (arp_table s)" and u: "update_arp_entry nif ip hw fl s = Some (err, t)"
  shows "arp_table t = arp_table s \<or>
    (\<exists>i e. place ip (arp_table s) i e \<and> length hw \<ge> unat (eif_hwaddr_len nif) \<and> unat (eif_hwaddr_len nif) \<le> 6 \<and>
      arp_table t = (arp_table s)[i := stable_entry (copy_hw (unat (eif_hwaddr_len nif)) hw (ae_ethaddr e)) e])"
  using find_entry_place [OF inv, of ip fl]
proof
  assume "\<exists>i e. find_entry (Some ip) fl (arp_table s) = (Some i, (arp_table s)[i := e]) \<and> place ip (arp_table s) i e"
  then obtain i e where f: "find_entry (Some ip) fl (arp_table s) = (Some i, (arp_table s)[i := e])" "place ip (arp_table s) i e"
    by blast
  have i: "i < length (arp_table s)" using f(2) by (simp add: place_def)
  show ?thesis
  proof (cases "arp_unicast ip nif")
    case True
    then show ?thesis using u f i
      by (intro disjI2 exI [of _ i] exI [of _ e])
        (auto simp: update_arp_entry_def Let_def set_entry_def stable_entry_idle stable_entry_queue bind_eq_Some_conv
          split: if_splits option.splits)
  qed (use u in \<open>simp add: update_arp_entry_def\<close>)
next
  assume "find_entry (Some ip) fl (arp_table s) = (None, arp_table s)"
  then show ?thesis using u by (auto simp: update_arp_entry_def split: if_splits)
qed

lemma update_arp_inv:
  assumes "arp_inv (arp_table s)" "update_arp_entry nif ip hw fl s = Some (err, t)"
  shows "arp_inv (arp_table t)"
  using update_arp_table [OF assms]
proof
  assume "\<exists>i e. place ip (arp_table s) i e \<and> length hw \<ge> unat (eif_hwaddr_len nif) \<and> unat (eif_hwaddr_len nif) \<le> 6 \<and>
      arp_table t = (arp_table s)[i := stable_entry (copy_hw (unat (eif_hwaddr_len nif)) hw (ae_ethaddr e)) e]"
  then obtain i e where e: "place ip (arp_table s) i e" "length hw \<ge> unat (eif_hwaddr_len nif)" "unat (eif_hwaddr_len nif) \<le> 6"
    "arp_table t = (arp_table s)[i := stable_entry (copy_hw (unat (eif_hwaddr_len nif)) hw (ae_ethaddr e)) e]" by blast
  have "length (ae_ethaddr e) = 6" "ae_ipaddr e = ip" using place_entry [OF assms(1) e(1)] by (simp_all add: entry_ok_def)
  then show ?thesis unfolding e(4) using e(2,3) copy_hw_length
    by (intro place_update [OF assms(1) e(1)]) (auto simp: entry_ok_def stable_entry_def ARP_MAXAGE_def)
qed (use assms in simp)

lemma etharp_request_table: "etharp_request env nif ip s = Some (err, t) \<Longrightarrow> arp_table t = arp_table s"
  by (auto simp: etharp_request_def Let_def bind_eq_Some_conv split: if_splits)

lemma etharp_query_inv:
  assumes inv: "arp_inv (arp_table s)" and q: "etharp_query env nif ip q s = Some (err, t)"
  shows "arp_inv (arp_table t)"
  using find_entry_place [OF inv, of ip ETHARP_TRY_HARD]
proof
  assume "\<exists>i e. find_entry (Some ip) ETHARP_TRY_HARD (arp_table s) = (Some i, (arp_table s)[i := e]) \<and> place ip (arp_table s) i e"
  then obtain i e where f: "find_entry (Some ip) ETHARP_TRY_HARD (arp_table s) = (Some i, (arp_table s)[i := e])"
    and e: "place ip (arp_table s) i e" by blast
  note e' = place_entry [OF inv e]
  have i: "i < length (arp_table s)" and ip: "ae_ipaddr e = ip" using e' by simp_all
  define e1 where "e1 = (if ae_state e = ETHARP_STATE_EMPTY then e \<lparr> ae_state := ETHARP_STATE_PENDING \<rparr> else e)"
  define s1 where "s1 = s \<lparr> arp_table := (arp_table s)[i := e1] \<rparr>"
  have ok1: "entry_ok e1"
    using e'(3,5) by (auto simp: e1_def entry_ok_def active_def ARP_MAXPENDING_def)
  have st: "ae_state e1 = ETHARP_STATE_PENDING \<or> ae_state e1 = ETHARP_STATE_STABLE"
    using e'(5) by (auto simp: e1_def active_def)
  have ip1: "ae_ipaddr e1 = ip" using ip by (simp add: e1_def)
  have keep: "arp_inv ((arp_table s)[i := e2])" if "entry_ok e2" "ae_ipaddr e2 = ip" for e2
    using place_update [OF inv e] that by blast
  have start: "(if ae_state (arp_table (s \<lparr> arp_table := (arp_table s)[i := e] \<rparr>) ! i) = ETHARP_STATE_EMPTY
      then set_entry i (\<lambda>e. e \<lparr> ae_state := ETHARP_STATE_PENDING \<rparr>) (s \<lparr> arp_table := (arp_table s)[i := e] \<rparr>)
      else s \<lparr> arp_table := (arp_table s)[i := e] \<rparr>) = s1"
    using i by (simp add: s1_def e1_def set_entry_def)
  show ?thesis
  proof (cases "arp_unicast ip nif")
    case True
    then obtain err1 s2 where s2: "(if ae_state e1 = ETHARP_STATE_PENDING \<or> q = None then etharp_request env nif ip s1 else Some (ERR_MEM, s1)) = Some (err1, s2)"
      and rest: "(case q of None \<Rightarrow> Some (err1, s2)
        | Some c \<Rightarrow> if ae_state (arp_table s2 ! i) = ETHARP_STATE_STABLE
            then Option.bind (eth_fill nif (ae_ethaddr (arp_table s2 ! i)) c) (\<lambda>c. Some (a_link env c, link_out c s2))
            else if ae_state (arp_table s2 ! i) = ETHARP_STATE_PENDING
            then (let ok = a_take env (a_count s2); s2 = s2 \<lparr> a_count := a_count s2 + 1 \<rparr>
                  in if \<not> ok then Some (err1, s2)
                     else if ae_p (arp_table s2 ! i) = None
                     then Some (ERR_OK, set_entry i (\<lambda>e. e \<lparr> ae_p := Some c \<rparr>) s2)
                     else Some (ERR_OK, s2))
            else Some (err1, s2)) = Some (err, t)"
      using q f start i unfolding etharp_query_def by (auto simp: Let_def s1_def bind_eq_Some_conv cong: if_cong)
    have tab: "arp_table s2 = (arp_table s)[i := e1]" using s2 etharp_request_table by (auto simp: s1_def split: if_splits)
    have "arp_table t = (arp_table s)[i := e1] \<or>
        ae_state e1 = ETHARP_STATE_PENDING \<and> (\<exists>c. arp_table t = (arp_table s)[i := e1 \<lparr> ae_p := Some c \<rparr>])"
      using rest tab i
      by (auto simp: Let_def set_entry_def bind_eq_Some_conv split: option.splits if_splits)
    then show ?thesis
      using keep [OF ok1 ip1] keep [of "e1 \<lparr> ae_p := Some _ \<rparr>"] ok1 ip1 by (auto simp: entry_ok_def)
  qed (use q inv in \<open>simp add: etharp_query_def\<close>)
next
  assume "find_entry (Some ip) ETHARP_TRY_HARD (arp_table s) = (None, arp_table s)"
  then show ?thesis using q inv by (auto simp: etharp_query_def split: if_splits)
qed

lemma tmr_entry_ok: "entry_ok e \<Longrightarrow> entry_ok (tmr_entry e)" 
  by (cases "ae_state e") (auto simp: entry_ok_def tmr_entry_def Let_def)

lemma tmr_entry_sel: "ae_ipaddr (tmr_entry e) = ae_ipaddr e" "active (tmr_entry e) \<Longrightarrow> active e"
  by (auto simp: tmr_entry_def Let_def active_def split: if_splits)

lemma etharp_tmr_inv: "arp_inv (arp_table s) \<Longrightarrow> arp_inv (arp_table (etharp_tmr s))"
  using tmr_entry_ok tmr_entry_sel by (auto simp: arp_inv_def etharp_tmr_def)

lemma etharp_output_inv:
  "arp_inv (arp_table s) \<Longrightarrow> etharp_output env nif ip p s = Some (err, t) \<Longrightarrow> arp_inv (arp_table t)"
  using etharp_query_inv by (auto simp: etharp_output_def bind_eq_Some_conv split: option.splits if_splits)

text \<open>Both input functions update one entry and then at most send a frame.\<close>

lemma etharp_arp_input_update:
  assumes "etharp_arp_input nif hw p s = Some t"
  shows "t = s \<or> (\<exists>ip h fl err u. update_arp_entry nif ip h fl s = Some (err, u) \<and> arp_table t = arp_table u)"
proof (cases "length (concat p) < 42 \<or> p = []")
  case True
  then show ?thesis using assms by (auto simp: etharp_arp_input_def)
next
  case False
  then obtain q qs where p: "p = q # qs" by (cases p) auto
  obtain h where h: "etharp_hdr_of q = Some h" using assms False by (auto simp: etharp_arp_input_def p bind_eq_Some_conv)
  define fl where "fl = (if nif_ip_addr (eif nif) \<noteq> 0 \<and> ah_dipaddr h = nif_ip_addr (eif nif) then ETHARP_TRY_HARD else 0)"
  obtain err u where u: "update_arp_entry nif (ah_sipaddr h) (ah_shwaddr h) fl s = Some (err, u)"
    using assms False h by (auto simp: etharp_arp_input_def p Let_def bind_eq_Some_conv fl_def)
  have "arp_table t = arp_table u"
    using assms False h u by (auto simp: etharp_arp_input_def p Let_def fl_def split: if_splits)
  then show ?thesis using u by blast
qed

lemma etharp_arp_input_inv:
  "arp_inv (arp_table s) \<Longrightarrow> etharp_arp_input nif hw p s = Some t \<Longrightarrow> arp_inv (arp_table t)"
  using etharp_arp_input_update [of nif hw p s t] update_arp_inv [of s] by metis

lemma etharp_ip_input_inv:
  assumes "arp_inv (arp_table s)" "etharp_ip_input nif p s = Some t"
  shows "arp_inv (arp_table t)"
proof (cases p)
  case (Cons q qs)
  then show ?thesis using assms update_arp_inv [of s nif "load32_at q 26" "take 6 (drop 6 q)" 0]
    by (auto simp: etharp_ip_input_def bind_eq_Some_conv split: if_splits)
qed (use assms in \<open>simp add: etharp_ip_input_def\<close>)

section \<open>Every operation\<close>

inductive arp_step :: "arpstate \<Rightarrow> arpstate \<Rightarrow> bool" where
  tmr: "arp_step s (etharp_tmr s)"
| ip_input: "etharp_ip_input nif p s = Some t \<Longrightarrow> arp_step s t"
| arp_input: "etharp_arp_input nif hw p s = Some t \<Longrightarrow> arp_step s t"
| send: "etharp_output env nif ip p s = Some (err, t) \<Longrightarrow> arp_step s t"
| query: "etharp_query env nif ip q s = Some (err, t) \<Longrightarrow> arp_step s t"
| request: "etharp_request env nif ip s = Some (err, t) \<Longrightarrow> arp_step s t"

inductive_cases arp_stepE: "arp_step s t"

interpretation arp_run: step_invariant arp_step "\<lambda>s. arp_inv (arp_table s)"
proof
  fix s t
  assume "arp_step s t" "arp_inv (arp_table s)"
  then show "arp_inv (arp_table t)"
    by (elim arp_stepE) (auto dest: etharp_tmr_inv etharp_ip_input_inv etharp_arp_input_inv etharp_output_inv etharp_query_inv
        etharp_request_table)
qed

lemma etharp_init_inv:
  assumes "length (arp_table s) = 10" "\<forall>e\<in>set (arp_table s). length (ae_ethaddr e) = 6"
  shows "arp_inv (arp_table (etharp_init s))"
  using assms by (auto simp: arp_inv_def etharp_init_def entry_ok_def active_def ARP_TABLE_SIZE_def)

text \<open>C15: Through any sequence of packets, queries and timer runs after \<open>etharp_init\<close>, the ARP table has
  at most one active entry per address, packets wait only on pending entries, pending entries are
  younger than two timer periods and stable ones than 240, and no entry is left in the
  transitional state.\<close>

theorem arp_table_invariant:
  assumes "length (arp_table s) = 10" "\<forall>e\<in>set (arp_table s). length (ae_ethaddr e) = 6"
    and "arp_step\<^sup>*\<^sup>* (etharp_init s) t"
  shows "arp_inv (arp_table t)"
  using arp_run.runs_keep [OF assms(3) etharp_init_inv [OF assms(1,2)]] .

section \<open>The choice of an entry\<close>

text \<open>C16: With \<open>ETHARP_TRY_HARD\<close>, \<open>find_entry\<close> never fails.  It returns the entry of the address when there is
  one; otherwise it gives up an entry as the comment in the source orders them: an empty one, else the
  oldest stable one, else the oldest pending one without a packet, else the oldest pending one.\<close>

theorem find_entry_try_hard:
  assumes "arp_inv tab"
  shows "\<exists>i. i < 10 \<and>
    (arp_match (Some ip) (tab ! i) \<and> find_entry (Some ip) ETHARP_TRY_HARD tab = (Some i, tab) \<or>
     (\<forall>e\<in>set tab. \<not> arp_match (Some ip) e) \<and> expendable tab i \<and>
     find_entry (Some ip) ETHARP_TRY_HARD tab =
       (Some i, tab[i := (tab ! i) \<lparr> ae_p := None, ae_state := ETHARP_STATE_EMPTY, ae_ipaddr := ip, ae_ctime := 0 \<rparr>]))"
proof -
  note inv = arp_invD [OF assms]
  show ?thesis
  proof (cases rule: find_entry_cases [OF inv(1,2), where ip = ip and fl = ETHARP_TRY_HARD, case_names match full fresh])
    case (match i)
    then show ?thesis using inv(1) by (auto simp: ARP_TABLE_SIZE_def)
  next
    case full
    then show ?thesis by (simp add: ETHARP_TRY_HARD_def)
  next
    case (fresh i)
    then show ?thesis using inv(1) fresh_entry_ok [OF inv(4)] by (auto simp: ARP_TABLE_SIZE_def)
  qed
qed


section \<open>Resolution\<close>

text \<open>With \<open>ETHARP_TRY_HARD\<close> there is always a place.\<close>

lemma find_entry_hard:
  assumes "arp_inv tab"
  obtains i e where "find_entry (Some ip) ETHARP_TRY_HARD tab = (Some i, tab[i := e])" "place ip tab i e"
proof -
  note inv = arp_invD [OF assms]
  show thesis
  proof (cases rule: find_entry_cases [OF inv(1,2), where ip = ip and fl = ETHARP_TRY_HARD, case_names match full fresh])
    case full
    then show thesis by (simp add: ETHARP_TRY_HARD_def)
  qed (use find_entry_place [OF assms, of ip ETHARP_TRY_HARD] that in auto)
qed

lemma place_cases:
  assumes "place ip tab i e"
  shows "arp_match (Some ip) (tab ! i) \<and> e = tab ! i \<or>
    (\<forall>x\<in>set tab. \<not> arp_match (Some ip) x) \<and> ae_p e = None \<and> ae_state e = ETHARP_STATE_EMPTY \<and> ae_ctime e = 0"
  using assms unfolding place_def by (elim conjE disjE) simp_all

definition resolved :: "u32 \<Rightarrow> u8 list \<Rightarrow> arpstate \<Rightarrow> bool" where
  "resolved ip hw s \<longleftrightarrow>
    (\<exists>e\<in>set (arp_table s). ae_state e = ETHARP_STATE_STABLE \<and> ae_ipaddr e = ip \<and> ae_ethaddr e = hw \<and> ae_ctime e = 0)"

text \<open>An interface with six bytes of hardware address.\<close>

definition ethif_ok :: "ethif \<Rightarrow> bool" where
  "ethif_ok nif \<longleftrightarrow> eif_hwaddr_len nif = 6 \<and> length (eif_hwaddr nif) = 6"

lemma eth_fill_six:
  assumes "ethif_ok nif" "length hw = 6" "length q \<ge> 14"
  shows "eth_fill nif hw (q # qs) = Some ((hw @ eif_hwaddr nif @ le16 (htons ETHTYPE_IP) @ drop 14 q) # qs)"
  using assms by (simp add: eth_fill_def ethif_ok_def copy_hw_def)

lemma stable_in: "i < length xs \<Longrightarrow> e \<in> set (xs[i := e])"
  by (rule set_update_memI)

lemma update_arp_hard:
  assumes inv: "arp_inv (arp_table s)" and uni: "arp_unicast ip nif" and nif: "ethif_ok nif" and hw: "length hw = 6"
    and none: "\<forall>e\<in>set (arp_table s). active e \<and> ae_ipaddr e = ip \<longrightarrow> ae_p e = None"
  shows "\<exists>t. update_arp_entry nif ip hw ETHARP_TRY_HARD s = Some (ERR_OK, t) \<and> resolved ip hw t \<and> a_frames t = a_frames s"
proof -
  obtain i e where f: "find_entry (Some ip) ETHARP_TRY_HARD (arp_table s) = (Some i, (arp_table s)[i := e])"
    and p: "place ip (arp_table s) i e" using find_entry_hard [OF inv] .
  note pe = place_entry [OF inv p]
  have "ae_p e = None" using place_cases [OF p] pe(1) none by (auto simp: arp_match_active)
  moreover have "length (ae_ethaddr e) = 6" using pe(3) by (simp add: entry_ok_def)
  ultimately show ?thesis using f pe(1,2) uni nif hw
    by (auto simp: update_arp_entry_def Let_def set_entry_def ethif_ok_def copy_hw_all resolved_def intro!: bexI [OF _ stable_in])
qed

text \<open>A packet that waits for the address is sent.\<close>

lemma update_arp_flush:
  assumes inv: "arp_inv (arp_table s)" and uni: "arp_unicast ip nif" and nif: "ethif_ok nif" and hw: "length hw = 6"
    and e: "e \<in> set (arp_table s)" "active e" "ae_ipaddr e = ip" "ae_p e = Some (q # qs)" and q: "length q \<ge> 14"
  shows "\<exists>t. update_arp_entry nif ip hw ETHARP_TRY_HARD s = Some (ERR_OK, t) \<and> resolved ip hw t \<and>
    a_frames t = a_frames s @ [(hw @ eif_hwaddr nif @ le16 (htons ETHTYPE_IP) @ drop 14 q) # qs]"
proof -
  obtain i x where f: "find_entry (Some ip) ETHARP_TRY_HARD (arp_table s) = (Some i, (arp_table s)[i := x])"
    and p: "place ip (arp_table s) i x" using find_entry_hard [OF inv] .
  note px = place_entry [OF inv p]
  have "arp_match (Some ip) (arp_table s ! i)" "x = arp_table s ! i"
    using p e(1-3) by (auto simp: place_def arp_match_active)
  moreover obtain j where "j < length (arp_table s)" "arp_table s ! j = e" using e(1) by (auto simp: in_set_conv_nth)
  ultimately have x: "x = e" using inv e(2,3) px(1) by (cases "i = j") (auto simp: arp_inv_def arp_match_active)
  then have l: "length (ae_ethaddr e) = 6" using px(3) by (simp add: entry_ok_def)
  show ?thesis using f px(1,2) uni nif hw x e(4) l eth_fill_six [OF nif hw q]
    by (auto simp: update_arp_entry_def Let_def set_entry_def ethif_ok_def copy_hw_all resolved_def link_out_def
        intro!: bexI [OF _ stable_in])
qed

lemma etharp_query_unknown:
  assumes inv: "arp_inv (arp_table s)" and uni: "arp_unicast ip nif" and nif: "ethif_ok nif"
    and none: "\<forall>e\<in>set (arp_table s). active e \<longrightarrow> ae_ipaddr e \<noteq> ip"
    and env: "a_ok env (a_count s)" "a_take env (a_count s + 1)" "etharp_hdr_of (take 42 (a_old env)) = Some h"
  shows "\<exists>t e. etharp_query env nif ip (Some c) s = Some (ERR_OK, t) \<and>
    a_frames t = a_frames s @ [[etharp_bytes (arp_request_hdr nif ip h)]] \<and>
    e \<in> set (arp_table t) \<and> active e \<and> ae_ipaddr e = ip \<and> ae_p e = Some c"
proof -
  obtain i e where f: "find_entry (Some ip) ETHARP_TRY_HARD (arp_table s) = (Some i, (arp_table s)[i := e])"
    and p: "place ip (arp_table s) i e" using find_entry_hard [OF inv] .
  note pe = place_entry [OF inv p]
  have e: "ae_p e = None" "ae_state e = ETHARP_STATE_EMPTY"
    using place_cases [OF p] none pe(1) by (auto simp: arp_match_active)
  show ?thesis using f pe(1,2) uni nif env e
    by (auto simp: etharp_query_def etharp_request_def Let_def set_entry_def link_out_def ethif_ok_def active_def
        intro!: stable_in exI [of _ "e \<lparr> ae_state := ETHARP_STATE_PENDING, ae_p := Some c \<rparr>"])
qed

lemma arp_request_fields:
  assumes "ethif_ok nif" "hw_ok h"
  shows "hw_ok (arp_request_hdr nif ip h)" "ah_opcode (arp_request_hdr nif ip h) = htons ARP_REQUEST"
    "ah_shwaddr (arp_request_hdr nif ip h) = eif_hwaddr nif" "ah_sipaddr (arp_request_hdr nif ip h) = nif_ip_addr (eif nif)"
    "ah_dipaddr (arp_request_hdr nif ip h) = ip"
  using assms
  by (simp_all add: arp_request_hdr_def Let_def hw_ok_def ethif_ok_def copy_hw_def ARPH_HWLEN_SET_def ARPH_PROTOLEN_SET_def)

lemma arp_reply_fields:
  assumes "ethif_ok nif" "hw_ok h" "length hw = 6"
  shows "hw_ok (arp_reply nif hw h)" "ah_opcode (arp_reply nif hw h) = htons ARP_REPLY"
    "ah_shwaddr (arp_reply nif hw h) = hw" "ah_sipaddr (arp_reply nif hw h) = nif_ip_addr (eif nif)"
    "ah_dipaddr (arp_reply nif hw h) = ah_sipaddr h" "ah_dest (arp_reply nif hw h) = ah_shwaddr h"
  using assms
  by (simp_all add: arp_reply_def Let_def hw_ok_def ethif_ok_def copy_hw_def ARPH_HWLEN_SET_def ARPH_PROTOLEN_SET_def)

text \<open>A message addressed to the interface, whose sender is entered in the table.\<close>

lemma etharp_arp_input_for_us:
  assumes "hw_ok h" "ah_dipaddr h = nif_ip_addr (eif nif)" "nif_ip_addr (eif nif) \<noteq> 0" "ethif_ok nif" "length hw = 6"
    and "update_arp_entry nif (ah_sipaddr h) (ah_shwaddr h) ETHARP_TRY_HARD s = Some (err, t)"
  shows "etharp_arp_input nif hw [etharp_bytes h] s =
    Some (if htons (ah_opcode h) = ARP_REQUEST then link_out [etharp_bytes (arp_reply nif hw h)] t else t)"
  using assms etharp_roundtrip [OF assms(1), of "[]"] length_etharp_bytes [OF assms(1)]
  by (simp add: etharp_arp_input_def Let_def ethif_ok_def)

text \<open>C14: One exchange resolves an address.  A host that queries an unknown address keeps the packet and
  broadcasts a request; the owner of the address, given the request, enters the host in its own table
  and sends back a reply; and the host, given the reply, sends the packet to the owner's hardware address.
  Afterwards each has a fresh stable entry for the other.\<close>

theorem arp_resolves:
  assumes nifs: "ethif_ok nifA" "ethif_ok nifB"
    and addrs: "nif_ip_addr (eif nifA) = ipA" "nif_ip_addr (eif nifB) = ipB" "arp_unicast ipB nifA" "arp_unicast ipA nifB"
    and invs: "arp_inv (arp_table sA)" "arp_inv (arp_table sB)"
    and unknown: "\<forall>e\<in>set (arp_table sA). active e \<longrightarrow> ae_ipaddr e \<noteq> ipB"
    and idle: "\<forall>e\<in>set (arp_table sB). active e \<and> ae_ipaddr e = ipA \<longrightarrow> ae_p e = None"
    and env: "a_ok env (a_count sA)" "a_take env (a_count sA + 1)" "length (a_old env) \<ge> 42"
    and packet: "length q \<ge> 14"
  shows "\<exists>sA1 sA2 sB1 req rep.
    etharp_query env nifA ipB (Some (q # qs)) sA = Some (ERR_OK, sA1) \<and> a_frames sA1 = a_frames sA @ [req] \<and>
    etharp_arp_input nifB (eif_hwaddr nifB) req sB = Some sB1 \<and> a_frames sB1 = a_frames sB @ [rep] \<and>
    etharp_arp_input nifA (eif_hwaddr nifA) rep sA1 = Some sA2 \<and>
    a_frames sA2 = a_frames sA1 @ [(eif_hwaddr nifB @ eif_hwaddr nifA @ [8, 0] @ drop 14 q) # qs] \<and>
    resolved ipB (eif_hwaddr nifB) sA2 \<and> resolved ipA (eif_hwaddr nifA) sB1"
proof -
  have lens: "length (eif_hwaddr nifA) = 6" "length (eif_hwaddr nifB) = 6" using nifs by (simp_all add: ethif_ok_def)
  have type: "le16 (htons ETHTYPE_IP) = [8, 0]" by (simp add: le16_def htons_def ETHTYPE_IP_def)
  have ops: "htons (htons ARP_REQUEST) = ARP_REQUEST" "htons (htons ARP_REPLY) \<noteq> ARP_REQUEST"
    by (simp_all add: htons_htons ARP_REPLY_def ARP_REQUEST_def)
  obtain h where h: "etharp_hdr_of (take 42 (a_old env)) = Some h" using env(3) by (simp add: etharp_hdr_of_def)
  note hw = etharp_hdr_of_hw [OF h]
  define rq where "rq = arp_request_hdr nifA ipB h"
  define rp where "rp = arp_reply nifB (eif_hwaddr nifB) rq"
  note rq = arp_request_fields [OF nifs(1) hw, of ipB, folded rq_def]
  note rp = arp_reply_fields [OF nifs(2) rq(1) lens(2), folded rp_def]
  obtain sA1 e where A1: "etharp_query env nifA ipB (Some (q # qs)) sA = Some (ERR_OK, sA1)"
      "a_frames sA1 = a_frames sA @ [[etharp_bytes rq]]" and e: "e \<in> set (arp_table sA1)" "active e" "ae_ipaddr e = ipB" "ae_p e = Some (q # qs)"
    using etharp_query_unknown [OF invs(1) addrs(3) nifs(1) unknown env(1,2) h] unfolding rq_def by blast
  obtain t where t: "update_arp_entry nifB ipA (eif_hwaddr nifA) ETHARP_TRY_HARD sB = Some (ERR_OK, t)"
      "resolved ipA (eif_hwaddr nifA) t" "a_frames t = a_frames sB"
    using update_arp_hard [OF invs(2) addrs(4) nifs(2) lens(1) idle] by blast
  obtain sA2 where A2: "update_arp_entry nifA ipB (eif_hwaddr nifB) ETHARP_TRY_HARD sA1 = Some (ERR_OK, sA2)"
      "resolved ipB (eif_hwaddr nifB) sA2"
      "a_frames sA2 = a_frames sA1 @ [(eif_hwaddr nifB @ eif_hwaddr nifA @ [8, 0] @ drop 14 q) # qs]"
    using update_arp_flush [OF etharp_query_inv [OF invs(1) A1(1)] addrs(3) nifs(1) lens(2) e packet] unfolding type by blast
  have nz: "ipA \<noteq> 0" "ipB \<noteq> 0" using addrs(3,4) by (simp_all add: arp_unicast_def ip_addr_any_def)
  have B: "etharp_arp_input nifB (eif_hwaddr nifB) [etharp_bytes rq] sB = Some (link_out [etharp_bytes rp] t)"
    using etharp_arp_input_for_us [OF rq(1) _ _ nifs(2) lens(2), of sB ERR_OK t] rq t(1) addrs nz ops(1) by (simp add: rp_def)
  have A: "etharp_arp_input nifA (eif_hwaddr nifA) [etharp_bytes rp] sA1 = Some sA2"
    using etharp_arp_input_for_us [OF rp(1) _ _ nifs(1) lens(1), of sA1 ERR_OK sA2] rp rq A2(1) addrs nz ops(2) by simp
  show ?thesis using A1 A2(2,3) B A t(2,3)
    by (intro exI [of _ sA1] exI [of _ sA2] exI [of _ "link_out [etharp_bytes rp] t"] exI [of _ "[etharp_bytes rq]"]
        exI [of _ "[etharp_bytes rp]"]) (simp add: link_out_def resolved_def)
qed

section \<open>Ageing\<close>

lemma entry_ok_limits:
  assumes "entry_ok e"
  shows "ae_state e = ETHARP_STATE_PENDING \<Longrightarrow> unat (ae_ctime e) < 2" "active e \<Longrightarrow> unat (ae_ctime e) < 240"
    "\<not> active e \<Longrightarrow> ae_state e = ETHARP_STATE_EMPTY \<and> ae_p e = None"
proof -
  show p: "unat (ae_ctime e) < 2" if "ae_state e = ETHARP_STATE_PENDING"
    using assms that by (simp add: entry_ok_def ARP_MAXPENDING_def word_less_nat_alt)
  show "unat (ae_ctime e) < 240" if "active e"
    using assms that p by (auto simp: entry_ok_def active_def ARP_MAXAGE_def word_less_nat_alt)
  show "ae_state e = ETHARP_STATE_EMPTY \<and> ae_p e = None" if "\<not> active e"
    using assms that by (cases "ae_state e") (auto simp: entry_ok_def active_def)
qed

lemma tmr_entry_ages:
  assumes "entry_ok e" "active (tmr_entry e)"
  shows "active e" "ae_state (tmr_entry e) = ae_state e" "unat (ae_ctime (tmr_entry e)) = unat (ae_ctime e) + 1"
proof -
  show a: "active e" using assms(2) by (rule tmr_entry_sel)
  show "ae_state (tmr_entry e) = ae_state e" using assms(2) by (auto simp: tmr_entry_def Let_def active_def split: if_splits)
  have "unat (ae_ctime e) < 240" using entry_ok_limits(2) [OF assms(1) a] .
  then have "unat (ae_ctime e + 1) = unat (ae_ctime e) + 1" using unat_add_exact [of "ae_ctime e" 1] by simp
  then show "unat (ae_ctime (tmr_entry e)) = unat (ae_ctime e) + 1" by (simp add: tmr_entry_def Let_def)
qed

lemma tmr_entry_iter:
  assumes "entry_ok e"
  shows "entry_ok ((tmr_entry ^^ n) e) \<and> (active ((tmr_entry ^^ n) e) \<longrightarrow> n \<le> unat (ae_ctime ((tmr_entry ^^ n) e)))"
proof (induction n)
  case (Suc n)
  then show ?case using tmr_entry_ok [of "(tmr_entry ^^ n) e"] tmr_entry_ages [of "(tmr_entry ^^ n) e"] by auto
qed (simp add: assms)

lemma etharp_tmr_iter: "arp_table ((etharp_tmr ^^ n) s) = map (tmr_entry ^^ n) (arp_table s)"
  by (induction n) (simp_all add: etharp_tmr_def)

lemma etharp_tmr_old:
  assumes "arp_inv (arp_table s)" "x \<in> set (arp_table ((etharp_tmr ^^ n) s))"
  shows "entry_ok x" "active x \<longrightarrow> n \<le> unat (ae_ctime x)"
  using assms(2) tmr_entry_iter [OF arp_invD(3) [OF assms(1)], where n = n] by (auto simp: etharp_tmr_iter)

text \<open>C17: The timer forgets.  After two runs of \<open>etharp_tmr\<close> no packet waits and no query is pending any
  more, and after 240 runs without traffic the whole table is empty; at no time does the 8-bit age wrap
  around on an entry in use.\<close>

theorem etharp_tmr_empties:
  assumes "arp_inv (arp_table s)"
  shows "(\<forall>e\<in>set (arp_table ((etharp_tmr ^^ 2) s)). ae_state e \<noteq> ETHARP_STATE_PENDING \<and> ae_p e = None) \<and>
    (\<forall>e\<in>set (arp_table ((etharp_tmr ^^ 240) s)). ae_state e = ETHARP_STATE_EMPTY \<and> ae_p e = None)"
proof (intro conjI ballI)
  fix x
  assume "x \<in> set (arp_table ((etharp_tmr ^^ 2) s))"
  then have x: "entry_ok x" "active x \<longrightarrow> 2 \<le> unat (ae_ctime x)" by (rule etharp_tmr_old [OF assms])+
  show np: "ae_state x \<noteq> ETHARP_STATE_PENDING"
  proof
    assume "ae_state x = ETHARP_STATE_PENDING"
    then show False using entry_ok_limits(1) [OF x(1)] x(2) by (simp add: active_def)
  qed
  show "ae_p x = None" using np x(1) by (simp add: entry_ok_def)
next
  fix x
  assume "x \<in> set (arp_table ((etharp_tmr ^^ 240) s))"
  then have x: "entry_ok x" "active x \<longrightarrow> 240 \<le> unat (ae_ctime x)" by (rule etharp_tmr_old [OF assms])+
  have "\<not> active x" using entry_ok_limits(2) [OF x(1)] x(2) by linarith
  then show "ae_state x = ETHARP_STATE_EMPTY" "ae_p x = None" using entry_ok_limits(3) [OF x(1)] by simp_all
qed

section \<open>Snooping\<close>

text \<open>What a host learns from an IP packet that only passes by.  The description of
  \<open>update_arp_entry\<close> says that without \<open>ETHARP_TRY_HARD\<close> only existing entries are updated; the code enters an
  unknown local sender as a new stable entry whenever the table has an empty place, and leaves the table
  alone only when it has none.\<close>

theorem etharp_ip_input_snoops:
  assumes inv: "arp_inv (arp_table s)" and nif: "ethif_ok nif" and len: "length q \<ge> 30"
    and src: "load32_at q 26 = ip" "ip_addr_netcmp ip (nif_ip_addr (eif nif)) (nif_netmask (eif nif))" "arp_unicast ip nif"
    and unknown: "\<forall>e\<in>set (arp_table s). active e \<longrightarrow> ae_ipaddr e \<noteq> ip"
  shows "\<exists>t. etharp_ip_input nif (q # qs) s = Some t \<and> a_frames t = a_frames s \<and>
    (if \<exists>e\<in>set (arp_table s). ae_state e = ETHARP_STATE_EMPTY then resolved ip (take 6 (drop 6 q)) t else t = s)"
proof -
  note I = arp_invD [OF inv]
  show ?thesis
  proof (cases rule: find_entry_cases [OF I(1,2), where ip = ip and fl = 0, case_names match full fresh])
    case (match i)
    then have "active (arp_table s ! i)" "ae_ipaddr (arp_table s ! i) = ip" by (simp_all add: arp_match_active)
    then show ?thesis using bspec [OF unknown nth_mem [OF match(1)]] by simp
  next
    case full
    then show ?thesis using len src by (auto simp: etharp_ip_input_def update_arp_entry_def)
  next
    case (fresh i)
    then have e: "ae_state (arp_table s ! i) = ETHARP_STATE_EMPTY" "arp_table s ! i \<in> set (arp_table s)" by simp_all
    have ok: "entry_ok (arp_table s ! i)" using I(4) fresh(1) .
    then have "ae_p (fresh_entry ip (arp_table s ! i)) = None" "length (ae_ethaddr (fresh_entry ip (arp_table s ! i))) = 6"
      "ae_ipaddr (fresh_entry ip (arp_table s ! i)) = ip"
      using fresh_entry_ok [OF ok] by (simp_all add: entry_ok_def)
    then show ?thesis using fresh(1,5) e nif len src
      by (auto simp: etharp_ip_input_def update_arp_entry_def Let_def set_entry_def ethif_ok_def copy_hw_all resolved_def
          intro!: bexI [OF _ stable_in])
  qed
qed

section \<open>Examples\<close>

definition ex_entry :: etharp_entry where
  "ex_entry = \<lparr> ae_p = None, ae_ipaddr = 0, ae_ethaddr = [0, 0, 0, 0, 0, 0], ae_state = ETHARP_STATE_EMPTY, ae_ctime = 0 \<rparr>"

definition ex_arp :: arpstate where
  "ex_arp = \<lparr> arp_table = replicate 10 ex_entry, a_frames = [], a_count = 0 \<rparr>"

definition ex_ethif :: "u32 \<Rightarrow> u8 \<Rightarrow> ethif" where
  "ex_ethif ip k = \<lparr> eif = ex_nif \<lparr> nif_ip_addr := ip \<rparr>, eif_hwaddr_len = 6, eif_hwaddr = [2, 0, 0, 0, 0, k] \<rparr>"

definition ex_ethenv :: ethenv where
  "ex_ethenv = \<lparr> a_ok = (\<lambda>_. True), a_take = (\<lambda>_. True), a_link = (\<lambda>_. 0), a_old = replicate 42 0x55 \<rparr>"

lemma ex_arp_inv: "arp_inv (arp_table ex_arp)"
  by (auto simp: arp_inv_def ex_arp_def entry_ok_def active_def ex_entry_def ARP_TABLE_SIZE_def)

lemma ex_arp_unicast: "arp_unicast 0x0200000a (ex_ethif 0x0100000a 1)" "arp_unicast 0x0100000a (ex_ethif 0x0200000a 2)"
  by (simp_all add: arp_unicast_def ex_ethif_def ex_nif_def ip_addr_isbroadcast_def ip_addr_ismulticast_def ntohl_def htonl_def cfg_defs)

lemma ex_arp_idle: "e \<in> set (arp_table ex_arp) \<Longrightarrow> \<not> active e"
  by (simp add: ex_arp_def ex_entry_def active_def)

theorem arp_table_invariant_witness:
  "arp_inv (arp_table (etharp_tmr (etharp_init ex_arp)))"
  by (rule arp_table_invariant [of ex_arp]) (auto simp: ex_arp_def ex_entry_def intro: arp_step.tmr)

theorem find_entry_try_hard_witness:
  "\<exists>i. i < 10 \<and> expendable (arp_table ex_arp) i \<and> find_entry (Some 7) ETHARP_TRY_HARD (arp_table ex_arp) =
    (Some i, (arp_table ex_arp)[i := (arp_table ex_arp ! i)
       \<lparr> ae_p := None, ae_state := ETHARP_STATE_EMPTY, ae_ipaddr := 7, ae_ctime := 0 \<rparr>])"
proof -
  obtain i where i: "i < 10" and c: "arp_match (Some 7) (arp_table ex_arp ! i) \<or> expendable (arp_table ex_arp) i \<and>
      find_entry (Some 7) ETHARP_TRY_HARD (arp_table ex_arp) = (Some i, (arp_table ex_arp)[i := (arp_table ex_arp ! i)
       \<lparr> ae_p := None, ae_state := ETHARP_STATE_EMPTY, ae_ipaddr := 7, ae_ctime := 0 \<rparr>])"
    using find_entry_try_hard [OF ex_arp_inv, of 7] by blast
  have "\<not> arp_match (Some 7) (arp_table ex_arp ! i)" using ex_arp_idle [of "arp_table ex_arp ! i"] i
    by (simp add: arp_match_active ex_arp_def)
  then show ?thesis using i c by blast
qed

theorem arp_resolves_witness:
  "\<exists>sA1 sA2 sB1 req rep.
    etharp_query ex_ethenv (ex_ethif 0x0100000a 1) 0x0200000a (Some [replicate 20 9]) ex_arp = Some (ERR_OK, sA1) \<and>
    a_frames sA1 = [req] \<and>
    etharp_arp_input (ex_ethif 0x0200000a 2) [2, 0, 0, 0, 0, 2] req ex_arp = Some sB1 \<and> a_frames sB1 = [rep] \<and>
    etharp_arp_input (ex_ethif 0x0100000a 1) [2, 0, 0, 0, 0, 1] rep sA1 = Some sA2 \<and>
    a_frames sA2 = a_frames sA1 @ [[[2, 0, 0, 0, 0, 2, 2, 0, 0, 0, 0, 1, 8, 0, 9, 9, 9, 9, 9, 9]]] \<and>
    resolved 0x0200000a [2, 0, 0, 0, 0, 2] sA2 \<and> resolved 0x0100000a [2, 0, 0, 0, 0, 1] sB1"
proof -
  have nifs: "ethif_ok (ex_ethif 0x0100000a 1)" "ethif_ok (ex_ethif 0x0200000a 2)" by (simp_all add: ethif_ok_def ex_ethif_def)
  have ips: "nif_ip_addr (eif (ex_ethif ip k)) = ip" "eif_hwaddr (ex_ethif ip k) = [2, 0, 0, 0, 0, k]" for ip k
    by (simp_all add: ex_ethif_def)
  have env: "a_ok ex_ethenv (a_count ex_arp)" "a_take ex_ethenv (a_count ex_arp + 1)" "length (a_old ex_ethenv) \<ge> 42"
    by (simp_all add: ex_ethenv_def)
  have q: "length (replicate 20 (9 :: u8)) \<ge> 14" "drop 14 (replicate 20 (9 :: u8)) = [9, 9, 9, 9, 9, 9]"
    by (simp_all add: numeral_eq_Suc)
  have fr: "a_frames ex_arp = []" by (simp add: ex_arp_def)
  show ?thesis
    using arp_resolves [OF nifs ips(1) ips(1) ex_arp_unicast ex_arp_inv ex_arp_inv _ _ env q(1), of "[]"] ex_arp_idle
    unfolding ips q fr by simp
qed

theorem etharp_tmr_empties_witness:
  "list_all (\<lambda>e. ae_state e \<noteq> ETHARP_STATE_PENDING \<and> ae_p e = None) (arp_table ((etharp_tmr ^^ 2) ex_arp)) \<and>
    list_all (\<lambda>e. ae_state e = ETHARP_STATE_EMPTY \<and> ae_p e = None) (arp_table ((etharp_tmr ^^ 240) ex_arp))"
  unfolding list_all_iff by (rule etharp_tmr_empties [OF ex_arp_inv])

definition ex_snoop :: "u8 list" where
  "ex_snoop = [2, 0, 0, 0, 0, 1, 2, 0, 0, 0, 0, 3] @ replicate 14 0 @ [10, 0, 0, 3]"

theorem etharp_ip_input_snoops_witness:
  "\<exists>t. etharp_ip_input (ex_ethif 0x0100000a 1) [ex_snoop] ex_arp = Some t \<and> resolved 0x0300000a [2, 0, 0, 0, 0, 3] t"
proof -
  have nif: "ethif_ok (ex_ethif 0x0100000a 1)" by (simp add: ethif_ok_def ex_ethif_def)
  have "load32 10 0 0 3 = 0x0300000a" by (simp add: load32_def)
  then have q: "length ex_snoop \<ge> 30" "load32_at ex_snoop 26 = 0x0300000a" "take 6 (drop 6 ex_snoop) = [2, 0, 0, 0, 0, 3]"
    by (simp_all add: ex_snoop_def load32_at_def nth_append)
  have src: "ip_addr_netcmp 0x0300000a (nif_ip_addr (eif (ex_ethif 0x0100000a 1))) (nif_netmask (eif (ex_ethif 0x0100000a 1)))"
    "arp_unicast 0x0300000a (ex_ethif 0x0100000a 1)"
    by (simp_all add: arp_unicast_def ip_addr_netcmp_def ex_ethif_def ex_nif_def ip_addr_isbroadcast_def ip_addr_ismulticast_def ntohl_def htonl_def cfg_defs)
  have "\<exists>e\<in>set (arp_table ex_arp). ae_state e = ETHARP_STATE_EMPTY" by (simp add: ex_arp_def ex_entry_def)
  then show ?thesis using etharp_ip_input_snoops [OF ex_arp_inv nif q(1,2) src, of "[]"] ex_arp_idle q(3) by auto
qed

end
