(* ===== verification/Slip.thy ===== *)
theory Slip
  imports Ip_In
begin

text \<open>
  The serial line interface (\<open>src/nsc-0.5.3/lwip-HEAD/src/netif/slipif.c\<close>).  The serial device of
  \<open>sio_send\<close> and \<open>sio_recv\<close> is the list of bytes on the line; a read from an empty line blocks, which is
  \<open>None\<close>.  A packet is the list of the payloads of its pbufs, and memory for it is taken from the pool by \<open>pbuf_alloc\<close>
  of \<open>Pbuf\<close>: 128 bytes need two pbufs, of 114 and 14 bytes.  The pool that a call of \<open>slipif_input\<close> finds, with all that was
  released since the call before, and what fresh memory holds are arguments.
\<close>

definition SLIP_END :: u8 where [cfg_defs]: "SLIP_END = 0xc0"
definition SLIP_ESC :: u8 where [cfg_defs]: "SLIP_ESC = 0xdb"
definition SLIP_ESC_END :: u8 where [cfg_defs]: "SLIP_ESC_END = 0xdc"
definition SLIP_ESC_ESC :: u8 where [cfg_defs]: "SLIP_ESC_ESC = 0xdd"
definition NETIF_FLAG_POINTTOPOINT :: u8 where [cfg_defs]: "NETIF_FLAG_POINTTOPOINT = 0x4"
definition ERR_IF :: err_t where [cfg_defs]: "ERR_IF = -11"
definition MAX_SIZE :: nat where [cfg_defs]: "MAX_SIZE = 1500"

section \<open>Sending\<close>

definition slip_char :: "u8 \<Rightarrow> u8 list" where
  "slip_char c =
    (if c = SLIP_END then [SLIP_ESC, SLIP_ESC_END]
     else if c = SLIP_ESC then [SLIP_ESC, SLIP_ESC_ESC]
     else [c])"

definition slipif_output :: "u8 list list \<Rightarrow> u8 list" where
  "slipif_output p = SLIP_END # concat (map (\<lambda>q. concat (map slip_char q)) p) @ [SLIP_END]"

section \<open>Receiving\<close>

text \<open>For each call of \<open>slipif_input\<close>, the pool it finds, and the bytes that its \<open>n\<close>-th allocation returns.\<close>

record slipenv =
  sl_pools :: "nat \<Rightarrow> pstate"
  sl_old :: "nat \<Rightarrow> nat \<Rightarrow> nat \<Rightarrow> u8"

text \<open>The locals of \<open>slipif_input\<close>: the chain \<open>q\<close> (empty for \<open>NULL\<close>), the pbuf \<open>p\<close> as an index into it, \<open>i\<close>
  and \<open>recved\<close>; the pool, and the number of allocations made.  A pbuf that is obtained is put at the end of the chain;
  without one \<open>pbuf_cat\<close> does nothing.\<close>

record slip_rx =
  sl_q :: "u8 list list"
  sl_p :: "nat option"
  sl_i :: nat
  sl_recved :: nat
  sl_pool :: pstate
  sl_n :: nat

definition slip_alloc :: "(nat \<Rightarrow> nat \<Rightarrow> u8) \<Rightarrow> slip_rx \<Rightarrow> slip_rx option" where
  "slip_alloc old s = do {
     (p, st) \<leftarrow> pbuf_alloc (\<lambda>_ _. None) PBUF_LINK PBUF_POOL_BUFSIZE PBUF_POOL (sl_pool s);
     let n = sl_n s;
     let s = s \<lparr> sl_pool := st, sl_n := n + 1 \<rparr>;
     Some (case p of
             None \<Rightarrow> s
           | Some _ \<Rightarrow> s \<lparr> sl_p := Some (length (sl_q s)),
                           sl_q := sl_q s @ fill_chain (link_lens (unat PBUF_POOL_BUFSIZE)) (map (old n) [0..<unat PBUF_POOL_BUFSIZE]) \<rparr>)
   }"

definition slip_store :: "u8 \<Rightarrow> nat \<Rightarrow> slip_rx \<Rightarrow> slip_rx" where
  "slip_store c k s =
    (let q = sl_q s;
         s = s \<lparr> sl_q := q[k := (q ! k)[sl_i s := c]], sl_recved := sl_recved s + 1, sl_i := sl_i s + 1 \<rparr>
     in if sl_i s \<ge> length (q ! k)
        then s \<lparr> sl_i := 0, sl_p := (if k + 1 < length q \<and> 0 < length (q ! (k + 1)) then Some (k + 1) else None) \<rparr>
        else s)"

definition slip_put :: "(nat \<Rightarrow> nat \<Rightarrow> u8) \<Rightarrow> u8 \<Rightarrow> slip_rx \<Rightarrow> slip_rx option" where
  "slip_put old c s = do {
     s \<leftarrow> (if sl_p s = None then slip_alloc old s else Some s);
     Some (case sl_p s of
             None \<Rightarrow> s
           | Some k \<Rightarrow> if sl_recved s < MAX_SIZE then slip_store c k s else s)
   }"

text \<open>The loop of \<open>slipif_input\<close>: the packet and the rest of the line.\<close>

fun slip_recv :: "(nat \<Rightarrow> nat \<Rightarrow> u8) \<Rightarrow> slip_rx \<Rightarrow> u8 list \<Rightarrow> (u8 list list \<times> u8 list) option" where
  "slip_recv old s [] = None"
| "slip_recv old s (c # cs) =
    (if c = SLIP_END then
       (if sl_recved s > 0 then Some (chain_realloc (sl_recved s) (sl_q s), cs) else slip_recv old s cs)
     else if c = SLIP_ESC then
       (case cs of
          [] \<Rightarrow> None
        | d # ds \<Rightarrow>
            (case slip_put old (if d = SLIP_ESC_END then SLIP_END else if d = SLIP_ESC_ESC then SLIP_ESC else d) s of
               None \<Rightarrow> None
             | Some s \<Rightarrow> slip_recv old s ds))
     else (case slip_put old c s of None \<Rightarrow> None | Some s \<Rightarrow> slip_recv old s cs))"

definition slipif_input :: "(nat \<Rightarrow> nat \<Rightarrow> u8) \<Rightarrow> pstate \<Rightarrow> u8 list \<Rightarrow> (u8 list list \<times> u8 list) option" where
  "slipif_input old st line = slip_recv old \<lparr> sl_q = [], sl_p = None, sl_i = 0, sl_recved = 0, sl_pool = st, sl_n = 0 \<rparr> line"

lemma slip_recv_shorter: "slip_recv old s cs = Some (p, rest) \<Longrightarrow> length rest < length cs"
  by (induction old s cs rule: slip_recv.induct) (force split: if_splits list.splits option.splits)+

lemma slipif_input_shorter: "slipif_input old st cs = Some (p, rest) \<Longrightarrow> length rest < length cs"
  using slip_recv_shorter by (simp add: slipif_input_def)

text \<open>The packets that the input thread passes to \<open>netif->input\<close> before the line is empty, from the \<open>k\<close>-th call on.\<close>

function slipif_loop :: "slipenv \<Rightarrow> nat \<Rightarrow> u8 list \<Rightarrow> u8 list list list" where
  "slipif_loop env k line =
    (case slipif_input (sl_old env k) (sl_pools env k) line of
       None \<Rightarrow> []
     | Some (p, rest) \<Rightarrow> p # slipif_loop env (Suc k) rest)"
  by pat_completeness auto
termination by (relation "measure (\<lambda>(_, _, line). length line)") (auto dest: slipif_input_shorter)

declare slipif_loop.simps [simp del]

text \<open>What \<open>sio_open\<close> returns is an argument, zero for \<open>NULL\<close>.  The last component says whether the thread is
  started.\<close>

definition slipif_init :: "nat \<Rightarrow> netif \<Rightarrow> err_t \<times> netif \<times> bool" where
  "slipif_init sio nif =
    (let nif = nif \<lparr> nif_name := (115, 108), nif_mtu := 1500, nif_flags := NETIF_FLAG_POINTTOPOINT, nif_state := sio \<rparr>
     in if sio = 0 then (ERR_IF, nif, False) else (ERR_OK, nif, True))"

section \<open>Filling the chain\<close>

text \<open>The place of the next byte, and the bytes received so far.\<close>

definition slip_inv :: "u8 list \<Rightarrow> slip_rx \<Rightarrow> bool" where
  "slip_inv bs s \<longleftrightarrow> sl_recved s = length bs \<and> take (length bs) (concat (sl_q s)) = bs \<and> [] \<notin> set (sl_q s) \<and>
    (case sl_p s of
       None \<Rightarrow> length (concat (sl_q s)) = length bs \<and> sl_i s = 0
     | Some k \<Rightarrow> k < length (sl_q s) \<and> sl_i s < length (sl_q s ! k) \<and> length (concat (take k (sl_q s))) + sl_i s = length bs)"

lemma concat_update:
  "k < length q \<Longrightarrow> i < length (q ! k) \<Longrightarrow> concat (q[k := (q ! k)[i := c]]) = (concat q)[length (concat (take k q)) + i := c]"
proof (induction q arbitrary: k)
  case (Cons x q)
  then show ?case by (cases k) (simp_all add: list_update_append)
qed simp

lemma slip_chain_nonempty: "[] \<notin> set (fill_chain (link_lens 128) (map f [0..<128]))" "fill_chain (link_lens 128) bs \<noteq> []"
  by (simp_all add: link_lens_def pool_lens.simps [of 14] pool_lens.simps [of 0] cfg_defs)

lemma slip_chain_length: "length (concat (fill_chain (link_lens 128) (map f [0..<128]))) = 128"
  by (simp add: link_lens_def pool_lens.simps [of 14] pool_lens.simps [of 0] cfg_defs)

text \<open>With at least two free pbufs in the pool the chain grows by 128 bytes, with fewer it does not.\<close>

lemma link_need: "pool_need PBUF_LINK PBUF_POOL_BUFSIZE = 2"
  by (simp add: pool_need_def layer_offset_def cfg_defs)

definition room :: "slip_rx \<Rightarrow> nat \<Rightarrow> bool" where
  "room s f \<longleftrightarrow> (\<exists>fs. pool_ready (sl_pool s) fs \<and> 128 * (length fs div 2) + length (concat (sl_q s)) = 128 * (f div 2))"

lemma slip_alloc_inv:
  assumes "slip_inv bs s" "sl_p s = None" "room s f"
  shows "\<exists>t. slip_alloc old s = Some t \<and> slip_inv bs t \<and> room t f \<and> sl_recved t = sl_recved s \<and>
    (sl_p t = None \<longrightarrow> length bs = 128 * (f div 2))"
proof -
  obtain fs where fs: "pool_ready (sl_pool s) fs" "128 * (length fs div 2) + length (concat (sl_q s)) = 128 * (f div 2)"
    using assms(3) by (auto simp: room_def)
  have len: "length (concat (sl_q s)) = length bs" using assms(1,2) by (simp add: slip_inv_def)
  have n: "unat PBUF_POOL_BUFSIZE = 128" by (simp add: cfg_defs)
  note al = pbuf_alloc_ready [OF fs(1), of PBUF_LINK PBUF_POOL_BUFSIZE "\<lambda>_ _. None", unfolded link_need]
  show ?thesis
  proof (cases "2 \<le> length fs")
    case True
    let ?c = "fill_chain (link_lens 128) (map (old (sl_n s)) [0..<128])"
    obtain st where st: "pbuf_alloc (\<lambda>_ _. None) PBUF_LINK PBUF_POOL_BUFSIZE PBUF_POOL (sl_pool s) = Some (Some (hd fs), st)"
      "pool_ready st (drop 2 fs)" using al True by auto
    define t where "t = s \<lparr> sl_pool := st, sl_n := sl_n s + 1, sl_p := Some (length (sl_q s)), sl_q := sl_q s @ ?c \<rparr>"
    have "slip_alloc old s = Some t" using st(1) by (simp add: slip_alloc_def t_def n Let_def)
    moreover have "slip_inv bs t"
      using assms slip_chain_nonempty(1) [of "old (sl_n s)"] slip_chain_nonempty(2) [of "map (old (sl_n s)) [0..<128]"]
      by (cases ?c) (auto simp: slip_inv_def t_def nth_append)
    moreover have "length (drop 2 fs) div 2 = length fs div 2 - 1" by simp
    then have "room t f"
      using fs(2) st(2) True slip_chain_length [of "old (sl_n s)"] unfolding room_def by (intro exI [of _ "drop 2 fs"]) (simp add: t_def)
    ultimately show ?thesis by (intro exI [of _ t]) (simp add: t_def)
  next
    case False
    then obtain st where st: "pbuf_alloc (\<lambda>_ _. None) PBUF_LINK PBUF_POOL_BUFSIZE PBUF_POOL (sl_pool s) = Some (None, st)"
      "pool_ready st (rev fs)" using al by auto
    define t where "t = s \<lparr> sl_pool := st, sl_n := sl_n s + 1 \<rparr>"
    have "slip_alloc old s = Some t" using st(1) by (simp add: slip_alloc_def t_def n Let_def)
    moreover have "slip_inv bs t" using assms(1,2) by (simp add: slip_inv_def t_def)
    moreover have "room t f" unfolding room_def using fs(2) st(2) by (intro exI [of _ "rev fs"]) (simp add: t_def)
    moreover have "length bs = 128 * (f div 2)" using fs(2) False len by simp
    ultimately show ?thesis by (intro exI [of _ t]) (simp add: t_def)
  qed
qed

lemma concat_take_Suc: "k < length q \<Longrightarrow> length (concat (take (Suc k) q)) = length (concat (take k q)) + length (q ! k)"
  by (simp add: take_Suc_conv_app_nth)

lemma take_put: "n < length xs \<Longrightarrow> take (Suc n) (xs[n := c]) = take n xs @ [c]"
  by (simp add: take_Suc_conv_app_nth)

lemma slip_store_inv:
  assumes inv: "slip_inv bs s" and p: "sl_p s = Some k"
  shows "slip_inv (bs @ [c]) (slip_store c k s)"
proof -
  let ?q = "sl_q s"
  have k: "k < length ?q" "sl_i s < length (?q ! k)" and r: "length (concat (take k ?q)) + sl_i s = length bs"
    and bs: "take (length bs) (concat ?q) = bs" and ne: "[] \<notin> set ?q" and rec: "sl_recved s = length bs"
    using inv p by (simp_all add: slip_inv_def)
  define q' where "q' = ?q[k := (?q ! k)[sl_i s := c]]"
  have c: "concat q' = (concat ?q)[length bs := c]" using concat_update [OF k, of c] r by (simp add: q'_def)
  have part: "length (concat (take (Suc k) ?q)) = length (concat (take k ?q)) + length (?q ! k)" using concat_take_Suc [OF k(1)] .
  have "length (concat (take (Suc k) ?q)) \<le> length (concat ?q)"
    by (metis append_take_drop_id concat_append le_add1 length_append)
  then have lt: "length bs < length (concat ?q)" using part r k(2) by linarith
  have t: "take (Suc (length bs)) (concat q') = bs @ [c]" unfolding c using take_put [OF lt] bs by simp
  have ne': "[] \<notin> set q'" using ne k(2) by (auto simp: q'_def dest!: set_update_subset_insert [THEN subsetD] sym [where s = "[]"])
  have lens: "length q' = length ?q" "\<And>j. length (q' ! j) = length (?q ! j)"
    using k(1) by (simp_all add: q'_def nth_list_update)
  have tk: "take k q' = take k ?q" by (simp add: q'_def)
  have tk': "length (concat (take (Suc k) q')) = length (concat (take (Suc k) ?q))"
    using concat_take_Suc [of k q'] part k(1) lens tk by simp
  show ?thesis
  proof (cases "sl_i s + 1 \<ge> length (?q ! k)")
    case False
    then have s': "slip_store c k s = s \<lparr> sl_q := q', sl_recved := sl_recved s + 1, sl_i := sl_i s + 1 \<rparr>"
      by (simp add: slip_store_def Let_def q'_def)
    show ?thesis unfolding s' using False t ne' rec r lens tk k p by (simp add: slip_inv_def)
  next
    case True
    then have end_: "length (concat (take (Suc k) q')) = length bs + 1" using tk' part r k(2) by linarith
    show ?thesis
    proof (cases "k + 1 < length ?q")
      case next_: True
      then have pos: "0 < length (?q ! (k + 1))" using ne by (metis length_greater_0_conv nth_mem)
      have s': "slip_store c k s = s \<lparr> sl_q := q', sl_recved := sl_recved s + 1, sl_i := 0, sl_p := Some (k + 1) \<rparr>"
        using True next_ pos by (simp add: slip_store_def Let_def q'_def)
      show ?thesis unfolding s' using t ne' rec lens next_ pos end_ by (simp add: slip_inv_def)
    next
      case last: False
      have s': "slip_store c k s = s \<lparr> sl_q := q', sl_recved := sl_recved s + 1, sl_i := 0, sl_p := None \<rparr>"
        using True last by (simp add: slip_store_def Let_def q'_def)
      have "take (Suc k) q' = q'" using last lens by simp
      then show ?thesis unfolding s' using t ne' rec end_ by (simp add: slip_inv_def)
    qed
  qed
qed

lemma slip_store_room:
  assumes "slip_inv bs s" "sl_p s = Some k" "room s f"
  shows "room (slip_store c k s) f"
proof -
  have k: "k < length (sl_q s)" "sl_i s < length (sl_q s ! k)" using assms(1,2) by (simp_all add: slip_inv_def)
  have "sl_pool (slip_store c k s) = sl_pool s" "length (concat (sl_q (slip_store c k s))) = length (concat (sl_q s))"
    using concat_update [OF k, of c] by (simp_all add: slip_store_def Let_def)
  then show ?thesis using assms(3) by (simp add: room_def)
qed

text \<open>How much of a packet is kept.\<close>

definition slip_cut :: "nat \<Rightarrow> nat" where
  "slip_cut f = min MAX_SIZE (128 * (f div 2))"

lemma inv_room:
  assumes "slip_inv bs s" "sl_p s = Some k" "room s f"
  shows "length bs < 128 * (f div 2)"
proof -
  have k: "k < length (sl_q s)" "sl_i s < length (sl_q s ! k)" "length (concat (take k (sl_q s))) + sl_i s = length bs"
    using assms(1,2) by (simp_all add: slip_inv_def)
  have "length (concat (take (Suc k) (sl_q s))) \<le> length (concat (sl_q s))"
    by (metis append_take_drop_id concat_append le_add1 length_append)
  then show ?thesis using concat_take_Suc [OF k(1)] k(2,3) assms(3) by (auto simp: room_def)
qed

lemma slip_put_inv:
  assumes "slip_inv (take (slip_cut f) xs) s" "room s f"
  shows "\<exists>t. slip_put old c s = Some t \<and> slip_inv (take (slip_cut f) (xs @ [c])) t \<and> room t f"
proof -
  let ?bs = "take (slip_cut f) xs"
  obtain s1 where s1: "(if sl_p s = None then slip_alloc old s else Some s) = Some s1" "slip_inv ?bs s1" "room s1 f"
    "sl_p s1 = None \<longrightarrow> length ?bs = 128 * (f div 2)"
    using slip_alloc_inv [OF assms(1) _ assms(2), of old] assms by (cases "sl_p s = None") auto
  have rec: "sl_recved s1 = min (length xs) (slip_cut f)" using s1(2) by (simp add: slip_inv_def)
  show ?thesis
  proof (cases "sl_p s1")
    case None
    then have "slip_cut f \<le> length xs" using s1(4) by (auto simp: slip_cut_def)
    moreover have "slip_put old c s = Some s1" using s1(1) None by (simp add: slip_put_def)
    ultimately show ?thesis using s1(2,3) by auto
  next
    case (Some k)
    have lt: "length ?bs < 128 * (f div 2)" by (rule inv_room [OF s1(2) Some s1(3)])
    have put: "slip_put old c s = Some (if sl_recved s1 < MAX_SIZE then slip_store c k s1 else s1)"
      using s1(1) Some by (simp add: slip_put_def)
    show ?thesis
    proof (cases "length xs < slip_cut f")
      case True
      then show ?thesis
        using put rec slip_store_inv [OF s1(2) Some, of c] slip_store_room [OF s1(2) Some s1(3), of c] by (auto simp: slip_cut_def)
    next
      case False
      then have "slip_cut f = MAX_SIZE" using lt by (auto simp: slip_cut_def min_def split: if_splits)
      then show ?thesis using put rec s1(2,3) False by auto
    qed
  qed
qed

section \<open>Round trip\<close>

lemma slip_recv_char: "slip_recv old s (slip_char c @ cs) = (case slip_put old c s of None \<Rightarrow> None | Some s \<Rightarrow> slip_recv old s cs)"
  by (simp add: slip_char_def cfg_defs)

lemma slip_recv_bytes:
  assumes "slip_inv (take (slip_cut f) xs) s" "room s f"
  shows "\<exists>t. slip_inv (take (slip_cut f) (xs @ bs)) t \<and> slip_recv old s (concat (map slip_char bs) @ cs) = slip_recv old t cs"
  using assms
proof (induction bs arbitrary: s xs)
  case (Cons b bs)
  obtain t where "slip_put old b s = Some t" "slip_inv (take (slip_cut f) (xs @ [b])) t" "room t f"
    using slip_put_inv [OF Cons.prems, of old b] by blast
  with Cons.IH [OF this(2,3)] show ?case by (simp add: slip_recv_char)
qed auto

lemma slipif_output_line: "slipif_output p @ rest = SLIP_END # concat (map slip_char (concat p)) @ SLIP_END # rest"
  by (induction p) (simp_all add: slipif_output_def)

lemma slipif_input_packet:
  assumes "concat p \<noteq> []" "pool_ready st fs" "2 \<le> length fs"
  shows "\<exists>p'. slipif_input old st (slipif_output p @ rest) = Some (p', rest) \<and> concat p' = take (slip_cut (length fs)) (concat p)"
proof -
  let ?s = "\<lparr> sl_q = [], sl_p = None, sl_i = 0, sl_recved = 0, sl_pool = st, sl_n = 0 \<rparr>" and ?L = "slip_cut (length fs)"
  have "slip_inv (take ?L []) ?s" "room ?s (length fs)" using assms(2) by (auto simp: slip_inv_def room_def)
  from slip_recv_bytes [OF this, where bs = "concat p" and cs = "SLIP_END # rest"] obtain t where
    t: "slip_inv (take ?L (concat p)) t"
      "slip_recv old ?s (concat (map slip_char (concat p)) @ SLIP_END # rest) = slip_recv old t (SLIP_END # rest)" by auto
  have r: "sl_recved t = length (take ?L (concat p))" "take (length (take ?L (concat p))) (concat (sl_q t)) = take ?L (concat p)"
    using t(1) by (simp_all add: slip_inv_def)
  have "0 < ?L" using assms(3) by (simp add: slip_cut_def MAX_SIZE_def div_greater_zero_iff)
  then have "0 < sl_recved t" using r(1) assms(1) by simp
  then show ?thesis using t(2) r unfolding slipif_input_def slipif_output_line by (simp add: concat_chain_realloc)
qed

lemma slipif_input_empty: "concat p = [] \<Longrightarrow> slipif_input old st (slipif_output p @ rest) = slipif_input old st rest"
  by (simp only: slipif_input_def slipif_output_line) simp

text \<open>C18: What one end of a serial line sends, the other receives, as far as the pool goes: the packets written by
  \<open>slipif_output\<close>, one after the other, are passed up in the same order with the same bytes, whatever bytes
  they contain.  Packets without a byte are not seen, and a packet is cut off at 1500 bytes, or earlier, at 128 bytes for every two
  pbufs that are free in the pool when its reception begins.  The pool must have two free pbufs then; with all 16 pbufs of the configuration
  a packet is cut off at 1024 bytes, below the \<open>mtu\<close> of the interface.\<close>

theorem slip_roundtrip:
  assumes "\<And>k. pool_ready (sl_pools env k) (fs k)" "\<And>k. 2 \<le> length (fs k)"
  shows "map concat (slipif_loop env n (concat (map slipif_output ps))) =
    map (\<lambda>(k, p). take (min 1500 (128 * (length (fs k) div 2))) (concat p)) (enumerate n (filter (\<lambda>p. concat p \<noteq> []) ps))"
proof (induction ps arbitrary: n)
  case Nil
  then show ?case by (simp add: slipif_loop.simps [of env n "[]"] slipif_input_def)
next
  case (Cons p ps)
  let ?rest = "concat (map slipif_output ps)"
  show ?case
  proof (cases "concat p = []")
    case True
    have "slipif_loop env n (slipif_output p @ ?rest) = slipif_loop env n ?rest"
      unfolding slipif_loop.simps [of env n "slipif_output p @ _"] slipif_loop.simps [of env n ?rest] slipif_input_empty [OF True] ..
    then show ?thesis using Cons.IH [of n] True by simp
  next
    case False
    obtain p' where "slipif_input (sl_old env n) (sl_pools env n) (slipif_output p @ ?rest) = Some (p', ?rest)"
      "concat p' = take (slip_cut (length (fs n))) (concat p)" using slipif_input_packet [OF False assms] by blast
    then show ?thesis using Cons.IH [of "Suc n"] False
      by (simp add: slipif_loop.simps [of env n "slipif_output p @ _"] slip_cut_def MAX_SIZE_def)
  qed
qed

text \<open>Three packets over a pool of 16 pbufs: one with bytes that are escaped, an empty one, and one of 1200 bytes.\<close>

theorem slip_roundtrip_witness:
  "map concat (slipif_loop \<lparr> sl_pools = (\<lambda>_. example_pool), sl_old = (\<lambda>_ _ _. 0) \<rparr> 0
      (concat (map slipif_output [[[1], [0xc0]], [[]], [replicate 1200 7]]))) = [[1, 0xc0], replicate 1024 7]"
proof -
  have "pool_ready example_pool (pool_addrs 16 1000)" using example_pool_ok by (simp add: pool_ready_def)
  then have "map concat (slipif_loop \<lparr> sl_pools = (\<lambda>_. example_pool), sl_old = (\<lambda>_ _ _. 0) \<rparr> 0
      (concat (map slipif_output [[[1], [0xc0]], [[]], [replicate 1200 7]]))) =
    map (\<lambda>(k, p). take (min 1500 (128 * (length (pool_addrs 16 1000) div 2))) (concat p))
      (enumerate 0 (filter (\<lambda>p. concat p \<noteq> []) [[[1], [0xc0]], [[]], [replicate 1200 7]]))"
    by (intro slip_roundtrip) (simp_all add: pool_addrs_def)
  then show ?thesis by (simp only:) (simp add: pool_addrs_def)
qed

end
