(* ===== verification/Netif_Tcp.thy ===== *)
theory Netif_Tcp
  imports Netif Tcp_Step
begin

text \<open>
  Changing the address of an interface and adding an interface (\<open>netif_set_ipaddr\<close>,
  \<open>netif_set_addr\<close> and \<open>netif_add\<close> of \<open>src/nsc-0.5.3/lwip-HEAD/src/core/netif.c\<close>): connections from the
  old address are aborted, and control blocks that listen on it are moved to the new one.  The
  initialisation function of the driver is an argument; \<open>None\<close> is a use of released memory or a callback that
  does not return.
\<close>

partial_function (option) abort_loop :: "tcp_env \<Rightarrow> tcp_app \<Rightarrow> u32 \<Rightarrow> addr option \<Rightarrow> tstate \<Rightarrow> tstate option" where
  "abort_loop env app old c s =
    (case c of
       None \<Rightarrow> Some s
     | Some a \<Rightarrow> do {
         p \<leftarrow> pcbs s a;
         let nxt = pcb_next a s;
         s \<leftarrow> (if local_ip p = old then tcp_abort env app a s else Some s);
         abort_loop env app old nxt s
       })"

fun relisten :: "u32 \<Rightarrow> u32 \<Rightarrow> addr list \<Rightarrow> tstate \<Rightarrow> tstate option" where
  "relisten old new [] s = Some s"
| "relisten old new (l # ls) s = do {
     lp \<leftarrow> lpcbs s l;
     relisten old new ls (if l_local_ip lp = old then s \<lparr> lpcbs := (lpcbs s)(l \<mapsto> lp \<lparr> l_local_ip := new \<rparr>) \<rparr> else s)
   }"

definition netif_set_ipaddr :: "tcp_env \<Rightarrow> tcp_app \<Rightarrow> u32 \<Rightarrow> netif \<Rightarrow> tstate \<Rightarrow> (netif \<times> tstate) option" where
  "netif_set_ipaddr env app ip nif s = do {
     s \<leftarrow> (if ip \<noteq> nif_ip_addr nif then do {
              s \<leftarrow> abort_loop env app (nif_ip_addr nif) (case active_pcbs s of [] \<Rightarrow> None | a # _ \<Rightarrow> Some a) s;
              relisten (nif_ip_addr nif) ip (listen_pcbs s) s
            }
            else Some s);
     Some (nif \<lparr> nif_ip_addr := ip \<rparr>, s)
   }"

definition netif_set_addr :: "tcp_env \<Rightarrow> tcp_app \<Rightarrow> u32 \<Rightarrow> u32 \<Rightarrow> u32 \<Rightarrow> netif \<Rightarrow> tstate \<Rightarrow> (netif \<times> tstate) option" where
  "netif_set_addr env app ip m gw nif s = do {
     (nif, s) \<leftarrow> netif_set_ipaddr env app ip nif s;
     Some (netif_set_gw gw (netif_set_netmask m nif), s)
   }"

text \<open>The first component of the result says whether the interface has been added.\<close>

definition netif_add :: "tcp_env \<Rightarrow> tcp_app \<Rightarrow> (netif \<Rightarrow> err_t \<times> netif) \<Rightarrow> addr \<Rightarrow> u32 \<Rightarrow> u32 \<Rightarrow> u32 \<Rightarrow> nat \<Rightarrow>
    nstate \<Rightarrow> tstate \<Rightarrow> (bool \<times> nstate \<times> tstate) option" where
  "netif_add env app ini a ip m gw st n s = do {
     nif \<leftarrow> netifs n a;
     let nif = nif \<lparr> nif_state := st, nif_num := of_nat (netifnum n) \<rparr>;
     let n = n \<lparr> netifnum := netifnum n + 1 \<rparr>;
     (nif, s) \<leftarrow> netif_set_addr env app ip m gw nif s;
     let (err, nif) = ini nif;
     let n = n \<lparr> netifs := (netifs n)(a \<mapsto> nif) \<rparr>;
     if err \<noteq> ERR_OK then Some (False, n, s)
     else Some (True, n \<lparr> netif_list := a # netif_list n \<rparr>, s)
   }"

section \<open>Aborting the connections\<close>

text \<open>Error callbacks return.\<close>

definition errf_returns :: "tcp_app \<Rightarrow> bool" where
  "errf_returns app \<longleftrightarrow> (\<forall>f arg e s. app_errf app f arg e s \<noteq> None)"

lemma net_erase_sel:
  fixes s t :: tstate
  assumes "net_erase s = net_erase t"
  shows "pcbs s = pcbs t" "lpcbs s = lpcbs t" "active_pcbs s = active_pcbs t" "tw_pcbs s = tw_pcbs t" "listen_pcbs s = listen_pcbs t"
  using arg_cong [OF assms, of pcbs] arg_cong [OF assms, of lpcbs] arg_cong [OF assms, of active_pcbs]
    arg_cong [OF assms, of tw_pcbs] arg_cong [OF assms, of listen_pcbs] by (simp_all add: net_erase_def)

lemma remove_active_sel:
  assumes "pcbs s a = Some p"
  shows "\<exists>t q. remove_active env a s = Some t \<and> active_pcbs t = remove1 a (active_pcbs s) \<and> tw_pcbs t = tw_pcbs s \<and>
    listen_pcbs t = listen_pcbs s \<and> lpcbs t = lpcbs s \<and> pcbs t = (pcbs s)(a \<mapsto> q)"
proof -
  let ?s = "s \<lparr> active_pcbs := remove1 a (active_pcbs s) \<rparr>"
  have "net_erase (snd (tcp_pcb_remove_at env a p ?s)) = net_erase ?s"
    by (simp add: tcp_pcb_remove_at_def Let_def case_prod_beta)
  from net_erase_sel [OF this] show ?thesis using assms
    by (auto simp: remove_active_def on_pcb_def put_pcb_def case_prod_beta Let_def)
qed

lemma abort_active:
  assumes "pcbs s a = Some p" "state p \<noteq> TIME_WAIT" "app_ok app" "errf_returns app"
  shows "\<exists>t. tcp_abort env app a s = Some t \<and> active_pcbs t = remove1 a (active_pcbs s) \<and> tw_pcbs t = tw_pcbs s \<and>
    listen_pcbs t = listen_pcbs s \<and> lpcbs t = lpcbs s \<and> pcbs t = (pcbs s)(a := None)"
proof -
  obtain t q where t: "remove_active env a s = Some t" "active_pcbs t = remove1 a (active_pcbs s)" "tw_pcbs t = tw_pcbs s"
    "listen_pcbs t = listen_pcbs s" "lpcbs t = lpcbs s" "pcbs t = (pcbs s)(a \<mapsto> q)"
    using remove_active_sel [OF assms(1)] by blast
  let ?u = "memp_free_pcb a t"
  obtain u where u: "TCP_EVENT_ERR app (errf_cb p) (callback_arg p) ERR_ABRT ?u = Some u"
    using assms(4) that by (cases "errf_cb p") (fastforce simp: TCP_EVENT_ERR_def errf_returns_def)+
  have same: "pcbs u = pcbs ?u \<and> lpcbs u = lpcbs ?u \<and> active_pcbs u = active_pcbs ?u \<and> tw_pcbs u = tw_pcbs ?u \<and> listen_pcbs u = listen_pcbs ?u"
    using u assms(3) by (cases "errf_cb p") (auto simp: TCP_EVENT_ERR_def app_ok_def)
  note rst = net_erase_sel [OF net_erase_rst]
  show ?thesis using assms(1,2) t u same
    by (auto simp: tcp_abort_def memp_free_pcb_def rst)
qed

lemma succ_in_split: "a \<notin> set pre \<Longrightarrow> succ_in a (pre @ a # suf) = (case suf of [] \<Rightarrow> None | y # _ \<Rightarrow> Some y)"
  by (induction pre) auto

text \<open>The loop over the rest of the list.\<close>

lemma abort_loop_filters:
  assumes "lists_ok s" "app_ok app" "errf_returns app" "active_pcbs s = pre @ suf"
  shows "\<exists>t. abort_loop env app old (case suf of [] \<Rightarrow> None | a # _ \<Rightarrow> Some a) s = Some t \<and> lists_ok t \<and>
    active_pcbs t = pre @ filter (\<lambda>a. \<forall>p. pcbs s a = Some p \<longrightarrow> local_ip p \<noteq> old) suf \<and>
    tw_pcbs t = tw_pcbs s \<and> listen_pcbs t = listen_pcbs s \<and> lpcbs t = lpcbs s \<and>
    (\<forall>a. a \<notin> set suf \<or> a \<in> set (active_pcbs t) \<longrightarrow> pcbs t a = pcbs s a)"
  using assms(1,4)
proof (induction suf arbitrary: s pre)
  case Nil
  then show ?case by (simp add: abort_loop.simps)
next
  case (Cons a suf)
  have d: "distinct (pre @ a # suf)" using Cons.prems by (auto simp: lists_ok_def shape_ok_def shape_of_def)
  obtain p where p: "pcbs s a = Some p" "live (state p)"
    using Cons.prems by (fastforce simp: lists_ok_def shape_ok_def shape_of_def)
  then have st: "state p \<noteq> TIME_WAIT" by (auto simp: live_def)
  have nxt: "pcb_next a s = (case suf of [] \<Rightarrow> None | y # _ \<Rightarrow> Some y)"
    using Cons.prems(2) succ_in_split [of a pre suf] d by (simp add: pcb_next_def)
  show ?case
  proof (cases "local_ip p = old")
    case False
    then have step: "abort_loop env app old (Some a) s = abort_loop env app old (case suf of [] \<Rightarrow> None | y # _ \<Rightarrow> Some y) s"
      using p(1) nxt by (subst abort_loop.simps) simp
    have "active_pcbs s = (pre @ [a]) @ suf" using Cons.prems(2) by simp
    from Cons.IH [OF Cons.prems(1) this] show ?thesis using step False p(1) by auto
  next
    case True
    obtain t where t: "tcp_abort env app a s = Some t" "active_pcbs t = remove1 a (active_pcbs s)" "tw_pcbs t = tw_pcbs s"
        "listen_pcbs t = listen_pcbs s" "lpcbs t = lpcbs s" "pcbs t = (pcbs s)(a := None)"
      using abort_active [OF p(1) st assms(2,3)] by blast
    have ok: "lists_ok t" using abort_ok [OF t(1) Cons.prems(1) assms(2)] by blast
    have act: "active_pcbs t = pre @ suf" using t(2) Cons.prems(2) d by (simp add: remove1_append)
    have step: "abort_loop env app old (Some a) s = abort_loop env app old (case suf of [] \<Rightarrow> None | y # _ \<Rightarrow> Some y) t"
      using p(1) nxt True t(1) by (subst abort_loop.simps) simp
    have eq: "filter (\<lambda>b. \<forall>p. pcbs t b = Some p \<longrightarrow> local_ip p \<noteq> old) suf = filter (\<lambda>b. \<forall>p. pcbs s b = Some p \<longrightarrow> local_ip p \<noteq> old) suf"
      using d by (intro filter_cong refl) (auto simp: t(6))
    from Cons.IH [OF ok act] obtain u where "abort_loop env app old (case suf of [] \<Rightarrow> None | y # _ \<Rightarrow> Some y) t = Some u" "lists_ok u"
      "active_pcbs u = pre @ filter (\<lambda>b. \<forall>p. pcbs s b = Some p \<longrightarrow> local_ip p \<noteq> old) suf"
      "tw_pcbs u = tw_pcbs t" "listen_pcbs u = listen_pcbs t" "lpcbs u = lpcbs t"
      "\<forall>b. b \<notin> set suf \<or> b \<in> set (active_pcbs u) \<longrightarrow> pcbs u b = pcbs t b" unfolding eq by blast
    then show ?thesis using step True p(1) t d by (intro exI [of _ u]) auto
  qed
qed

section \<open>Moving the listeners\<close>

lemma relisten_moves:
  assumes "\<forall>l\<in>set ls. lpcbs s l \<noteq> None"
  shows "\<exists>t. relisten old new ls s = Some t \<and> t = s \<lparr> lpcbs := lpcbs t \<rparr> \<and> dom (lpcbs t) = dom (lpcbs s) \<and>
    (\<forall>l lp. lpcbs s l = Some lp \<longrightarrow>
      lpcbs t l = Some (if l \<in> set ls \<and> l_local_ip lp = old then lp \<lparr> l_local_ip := new \<rparr> else lp))"
  using assms
proof (induction ls arbitrary: s)
  case (Cons l ls)
  obtain lp where lp: "lpcbs s l = Some lp" using Cons.prems by auto
  define u where "u = (if l_local_ip lp = old then s \<lparr> lpcbs := (lpcbs s)(l \<mapsto> lp \<lparr> l_local_ip := new \<rparr>) \<rparr> else s)"
  have "\<forall>l\<in>set ls. lpcbs u l \<noteq> None" using Cons.prems by (auto simp: u_def)
  from Cons.IH [OF this] obtain t where t: "relisten old new ls u = Some t" "t = u \<lparr> lpcbs := lpcbs t \<rparr>" "dom (lpcbs t) = dom (lpcbs u)"
    "\<forall>l lp. lpcbs u l = Some lp \<longrightarrow> lpcbs t l = Some (if l \<in> set ls \<and> l_local_ip lp = old then lp \<lparr> l_local_ip := new \<rparr> else lp)" by blast
  have "t = s \<lparr> lpcbs := lpcbs t \<rparr>" using t(2) by (simp add: u_def split: if_splits)
  moreover have "dom (lpcbs u) = dom (lpcbs s)" using lp by (auto simp: u_def)
  moreover have "lpcbs t k = Some (if k \<in> set (l # ls) \<and> l_local_ip kp = old then kp \<lparr> l_local_ip := new \<rparr> else kp)"
    if "lpcbs s k = Some kp" for k kp
    using that t(4) lp by (cases "k = l") (auto simp: u_def)
  ultimately show ?case using t(1,3) lp by (auto simp: u_def)
qed auto

text \<open>C19: Giving an interface a new address.  The operation comes back; the connections whose local address was
  the old one are aborted, in whatever order they are listed, and no others are; the control blocks that
  listened on the old address listen on the new one, all other listening blocks are unchanged; and
  the lists of control blocks stay well formed.\<close>

theorem netif_set_ipaddr_moves:
  assumes "lists_ok s" "app_ok app" "errf_returns app" "ip \<noteq> nif_ip_addr nif"
  shows "\<exists>t. netif_set_ipaddr env app ip nif s = Some (nif \<lparr> nif_ip_addr := ip \<rparr>, t) \<and> lists_ok t \<and>
    active_pcbs t = filter (\<lambda>a. \<forall>p. pcbs s a = Some p \<longrightarrow> local_ip p \<noteq> nif_ip_addr nif) (active_pcbs s) \<and>
    (\<forall>a\<in>set (active_pcbs t). pcbs t a = pcbs s a) \<and> listen_pcbs t = listen_pcbs s \<and>
    (\<forall>l lp. lpcbs s l = Some lp \<longrightarrow>
      lpcbs t l = Some (if l_local_ip lp = nif_ip_addr nif then lp \<lparr> l_local_ip := ip \<rparr> else lp))"
proof -
  obtain u where u: "abort_loop env app (nif_ip_addr nif) (case active_pcbs s of [] \<Rightarrow> None | a # _ \<Rightarrow> Some a) s = Some u" "lists_ok u"
    "active_pcbs u = filter (\<lambda>a. \<forall>p. pcbs s a = Some p \<longrightarrow> local_ip p \<noteq> nif_ip_addr nif) (active_pcbs s)"
    "listen_pcbs u = listen_pcbs s" "lpcbs u = lpcbs s" "\<forall>a\<in>set (active_pcbs u). pcbs u a = pcbs s a"
    using abort_loop_filters [OF assms(1-3) append_Nil [symmetric], of env "nif_ip_addr nif", unfolded append_Nil] by blast
  have dom: "set (listen_pcbs s) = dom (lpcbs s)" using assms(1) by (simp add: lists_ok_def shape_ok_def shape_of_def)
  then have "\<forall>l\<in>set (listen_pcbs u). lpcbs u l \<noteq> None" using u(4,5) by auto
  from relisten_moves [OF this, of "nif_ip_addr nif" ip] obtain t where
    t: "relisten (nif_ip_addr nif) ip (listen_pcbs u) u = Some t" "t = u \<lparr> lpcbs := lpcbs t \<rparr>" "dom (lpcbs t) = dom (lpcbs u)"
      "\<forall>l lp. lpcbs u l = Some lp \<longrightarrow>
        lpcbs t l = Some (if l \<in> set (listen_pcbs u) \<and> l_local_ip lp = nif_ip_addr nif then lp \<lparr> l_local_ip := ip \<rparr> else lp)" by blast
  have sel: "active_pcbs t = active_pcbs u" "pcbs t = pcbs u" "listen_pcbs t = listen_pcbs u" "tw_pcbs t = tw_pcbs u"
    by (subst t(2), simp)+
  have "shape_of t = shape_of u" using sel t(3) by (simp add: shape_of_def)
  then have ok: "lists_ok t" using u(2) by (simp add: lists_ok_def)
  show ?thesis using assms(4) u t(1,4) sel ok dom by (intro exI [of _ t]) (auto simp: netif_set_ipaddr_def)
qed

definition ex_lan :: netif where
  "ex_lan = \<lparr> nif_ip_addr = 1, nif_netmask = 0x00ffffff, nif_gw = 0, nif_state = 0, nif_mtu = 1500, nif_flags = 3,
     nif_name = (101, 110), nif_num = 0 \<rparr>"

theorem netif_set_ipaddr_moves_witness:
  "\<exists>t. netif_set_ipaddr ex_env ex_app 5 ex_lan ex_state = Some (ex_lan \<lparr> nif_ip_addr := 5 \<rparr>, t) \<and> active_pcbs t = []"
proof -
  have e: "errf_returns ex_app" by (simp add: errf_returns_def ex_app_def)
  have ip: "5 \<noteq> nif_ip_addr ex_lan" by (simp add: ex_lan_def)
  have none: "filter (\<lambda>a. \<forall>p. pcbs ex_state a = Some p \<longrightarrow> local_ip p \<noteq> nif_ip_addr ex_lan) (active_pcbs ex_state) = []"
    by (simp add: ex_state_def ex_pcb_def ex_lan_def)
  obtain t where "netif_set_ipaddr ex_env ex_app 5 ex_lan ex_state = Some (ex_lan \<lparr> nif_ip_addr := 5 \<rparr>, t)"
    "active_pcbs t = filter (\<lambda>a. \<forall>p. pcbs ex_state a = Some p \<longrightarrow> local_ip p \<noteq> nif_ip_addr ex_lan) (active_pcbs ex_state)"
    using netif_set_ipaddr_moves [OF ex_state_ok ex_app_ok e ip, of ex_env] by blast
  then show ?thesis unfolding none by blast
qed

end
