(* ===== verification/Spec2Isabelle.thy ===== *)
theory Spec2Isabelle
  imports Wide96 Inet_Text Pbuf_Alloc Tcp_Fifo Tcp_Opt Tcp_States Stack Mem_Props Etharp_Props Slip Netif_Tcp
begin

text \<open>
  \<^bold>\<open>Verification library for the C code of the ns3psm tree.\<close>

  The tree holds the network simulator ns-3.16 with extensions for power saving in mesh networks, the
  Network Simulation Cradle (NSC), which runs real network stacks inside the simulator, and tools.
  The simulator is C++; the C code with logic of its own is the wide-integer arithmetic behind the
  simulator's clock (\<open>src/ns-3.16/src/core/model/cairo-wideint.c\<close>) and the lwIP TCP/IP stack that the cradle
  runs (\<open>src/nsc-0.5.3/lwip-HEAD/src\<close>).  Both are modelled here, function by function, under the
  names of the source.

  \<^bold>\<open>How the parts interact.\<close>  The simulator delivers a frame to a network interface; \<open>ip_input\<close> checks it,
  reassembles fragments and passes the payload to TCP, UDP, ICMP or a raw socket, which call back the
  application.  In the other direction, \<open>tcp_output\<close>, \<open>udp_send\<close> and the others build a packet in pbufs and hand
  it to \<open>ip_output\<close>, which chooses an interface, writes the header, fragments if necessary and gives frames to the
  driver.  On Ethernet the driver is \<open>etharp_output\<close>, which resolves the hardware address first; on a serial line
  it is \<open>slipif_output\<close>.  Timers drive retransmission, the end of TIME-WAIT, and the ageing of ARP
  entries.

  \<^bold>\<open>Conventions.\<close>  C integers are machine words of their width, with the wrap-around of C; pointers to
  control blocks are numbers that index a store; the \<open>next\<close>-linked lists of control blocks and interfaces are lists of
  such numbers.  A result of type \<open>option\<close> is \<open>None\<close> exactly where the code reads or writes outside an
  object, follows a null or stale pointer, divides by zero, or does not come back; every error that the code
  reports is an ordinary value (\<open>ERR_MEM\<close>, \<open>ERR_USE\<close> and so on).  What the code takes from outside is an argument:
  whether an allocation succeeds, the old contents of fresh memory, what callbacks and drivers answer.  Loops that always
  end are \<open>fun\<close> or \<open>function\<close> with a measure; loops that may not end are \<open>partial_function (option)\<close>, and the
  theorems about them prove that they return.  The configuration is that of \<open>lwipopts.h\<close> and the defaults of
  \<open>opt.h\<close>; statistics and debug printing are left out, except the counters of the heap.

  \<^bold>\<open>The theories.\<close>

  \<^item> \<open>Prelude\<close>: the C types, facts on words and lists, and the locale \<open>step_invariant\<close>: an invariant kept by each
    step is kept by each run.  It is interpreted on the step relations of TCP, UDP, ARP and the heap.

  \<^item> \<open>Wide_Divide\<close>, \<open>Wide64\<close>, \<open>Wide128\<close>, \<open>Wide96\<close>: 64-bit integers, native and as two words, 128-bit
    integers, and the divisions.  The three divisions by shift and subtract are one interface, interpreted on each; the
    two-word operations refine the native ones; 128-bit division is exact and ends for every
    non-zero divisor.

  \<^item> \<open>Inet\<close>, \<open>Inet_Text\<close> (\<open>core/inet.c\<close>): the Internet checksum, on one region, on chains and with the
    pseudo header, against the sum of 16-bit words; addresses as text, parsed and printed.

  \<^item> \<open>Pbuf\<close>, \<open>Pbuf_Props\<close>, \<open>Pbuf_Alloc\<close> (\<open>core/pbuf.c\<close>): packet buffers in a store with reference
    counts.  Chains are abstracted to lists; allocation from the pool has the documented shape, freeing follows the counts.

  \<^item> \<open>Mem\<close>, \<open>Mem_Layout\<close>, \<open>Mem_Ops\<close>, \<open>Mem_Alloc\<close>, \<open>Mem_Props\<close> (\<open>core/mem.c\<close>): the heap, byte by byte, 1600
    bytes with 6-byte headers.  The headers in memory are related to a list of blocks; clients that stay inside their blocks
    are safe and find in them what they wrote, the first-fit search is complete, freeing restores the layout.

  \<^item> \<open>Tcp_Base\<close>, \<open>Tcp_Out\<close>, \<open>Tcp_In\<close>, \<open>Tcp\<close>, \<open>Tcp_Input\<close> (\<open>core/tcp.c\<close>, \<open>tcp_in.c\<close>, \<open>tcp_out.c\<close>): the
    definitions of TCP.  \<open>Tcp_Seq\<close>: sequence numbers and headers.  \<open>Tcp_Frame\<close>: what the operations leave alone.
    \<open>Tcp_Send\<close>, \<open>Tcp_Queue\<close>: the queues of the sending side through single operations, as a contiguous stretch of sequence
    numbers and as the stream of their bytes.  \<open>Tcp_Fifo\<close>: the sending side over whole runs, as a collection of numbered bytes that loses only what an
    acknowledgement number covers.  \<open>Tcp_Recv\<close>: the receiving side
    delivers a piece of the sent stream, in order, and the run in which a longer copy of a queued segment breaks that.  \<open>Tcp_Lists\<close>, \<open>Tcp_Step\<close>: the lists of control blocks through all
    operations.  \<open>Tcp_States\<close>: the transitions of the state machine.  \<open>Tcp_Timer\<close>, \<open>Tcp_Ports\<close>, \<open>Tcp_Opt\<close>: the
    timers, the search for ports, the options.

  \<^item> \<open>Netif\<close>, \<open>Netif_Tcp\<close> (\<open>core/netif.c\<close>, \<open>ipv4/ip_addr.c\<close>): interfaces, routing, and what a change of
    address does to connections.

  \<^item> \<open>Ip_Hdr\<close>, \<open>Ip_Out\<close>, \<open>Ip_In\<close> (\<open>ipv4/ip.c\<close>); \<open>Ip_Frag\<close>, \<open>Ip_Reass\<close>, \<open>Ip_Split\<close> (\<open>ipv4/ip_frag.c\<close>):
    sending and receiving packets; the fragments that are sent, arriving in any order, are reassembled to the packet.

  \<^item> \<open>Icmp\<close> (\<open>ipv4/icmp.c\<close>), \<open>Udp\<close>, \<open>Udp_Props\<close>, \<open>Udp_Step\<close> (\<open>core/udp.c\<close>), \<open>Raw\<close> (\<open>core/raw.c\<close>): echo and
    unreachable messages, datagrams and their demultiplexing, raw sockets.

  \<^item> \<open>Etharp\<close>, \<open>Etharp_Table\<close>, \<open>Etharp_Props\<close> (\<open>netif/etharp.c\<close>): address resolution; the table is well formed
    through every operation, one exchange resolves an address on both sides, entries age away.

  \<^item> \<open>Slip\<close> (\<open>netif/slipif.c\<close>): framing on a serial line, and its round trip, cut where the pool of packet buffers ends.

  \<^item> \<open>Stack\<close>: two stacks on a link.  A segment or datagram sent by one arrives at the application of the
    other, and a packet with a damaged header word is dropped.

  \<^bold>\<open>Where the code fails.\<close>  Some theorems show defects, with a concrete run each: options on which \<open>tcp_parseopt\<close> never ends, the use
  of a released control block by the keep-alive timer, a queued segment whose replacement makes the stream skip bytes, a
  reassembled packet with a hole, memory that \<open>mem_malloc\<close> does not find after \<open>mem_realloc\<close>, an interface on a serial line that cannot receive
  packets of its own size, and packets that ARP learns from against its description.

  \<^bold>\<open>Bounds.\<close>  The enqueue loop of TCP is bounded by \<open>TCP_SND_QUEUELEN\<close>.  242 runs of the slow timer, two minutes and one
  second, empty the TIME-WAIT list.  Fragmentation is shown to end for MTUs from 28 to 1500 and to round
  trip from 92 on, where a fragment is longer than the 64 bytes that the completeness test overlooks; packets are at most as long as the
  reassembly buffer, 5760 bytes.  ARP has 10 entries with ages up to 240 periods of the timer, 2 for
  pending ones.  The pool has 16 packet buffers, of which each 128 bytes on a serial line take two.  Ports are searched from 4096 to 32767.  Time, stream positions and queue lengths in the
  theorems on sequence numbers are below half the sequence space, which the window guarantees.

  \<^bold>\<open>Not modelled.\<close>  The C++ of ns-3 and its power save models, the other stacks of the cradle (Linux, FreeBSD, OpenBSD and lwIP 1.3.0,
  third-party code of millions of lines), lwIP modules that the configuration excludes (IP forwarding, DHCP, PPP, IPv6) or
  that are plumbing over an operating system (sockets, mailboxes, threads, sample drivers), memory pools, which
  appear only as the success of allocations, statistics, and the glue between the stack and the
  simulator.
\<close>

end
